(* ===== verification/Prelude.thy ===== *)
theory Prelude
  imports Main "HOL-Library.Word" "HOL-Library.Multiset"
begin

text \<open>
  What the components share: the machine types of the LP64 target, the ways a C program can stop,
  the result type and its combinators, and the parts of the C library the sources use on strings
  (\<open>strchr\<close>, \<open>strncmp\<close>, \<open>strstr\<close>, \<open>strtol\<close>, \<open>atoi\<close>, the \<open>printf\<close> conversions).

  A C string is the \<open>string\<close> of its characters before the terminating NUL; a \<open>char *\<close> into a
  string is the suffix it points at, so \<open>p + 1\<close> is \<open>tl p\<close> and \<open>*p\<close> is \<open>hdc p\<close>.
\<close>

unbundle bit_operations_syntax

section \<open>Machine types and results\<close>

type_synonym u64 = "64 word"
type_synonym u32 = "32 word"
type_synonym u8 = "8 word"

text \<open>
  How a run can stop before its function returns: \<open>Fatal\<close> is a message and \<open>exit (EXIT_FAILURE)\<close>,
  \<open>Exit\<close> any other \<open>exit\<close>, \<open>Assert\<close> a failed \<open>assert\<close>, and \<open>Undef\<close> a step to which C gives no
  meaning (an access outside an array, a NULL dereference).
\<close>

datatype stop = Fatal string | Exit int | Assert string | Undef string

type_synonym 'a res = "stop + 'a"

definition rbind :: "'a res \<Rightarrow> ('a \<Rightarrow> 'b res) \<Rightarrow> 'b res" where
  "rbind m f = (case m of Inl e \<Rightarrow> Inl e | Inr x \<Rightarrow> f x)"

text \<open>A loop over a list whose body may stop the program.\<close>

fun foldE :: "('a \<Rightarrow> 's \<Rightarrow> 's res) \<Rightarrow> 'a list \<Rightarrow> 's \<Rightarrow> 's res" where
  "foldE f [] s = Inr s"
| "foldE f (x # xs) s = rbind (f x s) (foldE f xs)"

section \<open>Characters and strings\<close>

definition NUL :: char where "NUL = CHR 0x00"
definition NL :: char where "NL = CHR 0x0A"
definition TAB :: char where "TAB = CHR 0x09"

definition hdc :: "string \<Rightarrow> char" where
  "hdc s = (case s of [] \<Rightarrow> NUL | c # _ \<Rightarrow> c)"

text \<open>\<open>strchr s c\<close>: the suffix at the first \<open>c\<close>, or NULL.\<close>

fun strchr :: "string \<Rightarrow> char \<Rightarrow> string option" where
  "strchr [] c = None"
| "strchr (x # xs) c = (if x = c then Some (x # xs) else strchr xs c)"

text \<open>\<open>strncmp a b n == 0\<close> on NUL-terminated strings.\<close>

fun strncmp_eq :: "nat \<Rightarrow> string \<Rightarrow> string \<Rightarrow> bool" where
  "strncmp_eq 0 a b = True"
| "strncmp_eq (Suc n) [] [] = True"
| "strncmp_eq (Suc n) [] (y # ys) = False"
| "strncmp_eq (Suc n) (x # xs) [] = False"
| "strncmp_eq (Suc n) (x # xs) (y # ys) = (x = y \<and> strncmp_eq n xs ys)"

text \<open>\<open>strstr s pat\<close>: the offset of the first occurrence.\<close>

fun strstr :: "string \<Rightarrow> string \<Rightarrow> nat option" where
  "strstr [] pat = (if pat = [] then Some 0 else None)"
| "strstr (x # xs) pat =
     (if take (length pat) (x # xs) = pat then Some 0 else map_option Suc (strstr xs pat))"

section \<open>Numbers as text\<close>

definition c_isspace :: "char \<Rightarrow> bool" where
  "c_isspace c = (c = CHR '' '' \<or> (let n = of_char c :: nat in 9 \<le> n \<and> n \<le> 13))"

definition digit_of :: "nat \<Rightarrow> char \<Rightarrow> nat option" where
  "digit_of base c =
     (let n = of_char c :: nat;
          d = (if 48 \<le> n \<and> n \<le> 57 then Some (n - 48)
               else if 97 \<le> n \<and> n \<le> 122 then Some (n - 87)
               else if 65 \<le> n \<and> n \<le> 90 then Some (n - 55)
               else None)
      in case d of None \<Rightarrow> None | Some v \<Rightarrow> if v < base then Some v else None)"

text \<open>The value of the longest prefix of digits, and whether there is one.\<close>

fun digits_value :: "nat \<Rightarrow> nat \<Rightarrow> string \<Rightarrow> nat" where
  "digits_value base acc [] = acc"
| "digits_value base acc (c # cs) =
     (case digit_of base c of None \<Rightarrow> acc | Some d \<Rightarrow> digits_value base (acc * base + d) cs)"

definition strto_magnitude :: "nat \<Rightarrow> string \<Rightarrow> nat" where
  "strto_magnitude base s =
     (if (base = 0 \<or> base = 16) \<and> take 2 s \<in> {''0x'', ''0X''} \<and> digit_of 16 (hdc (drop 2 s)) \<noteq> None
      then digits_value 16 0 (drop 2 s)
      else if base = 0 then (if hdc s = CHR ''0'' then digits_value 8 0 s else digits_value 10 0 s)
      else digits_value base 0 s)"

text \<open>\<open>strtol\<close> and \<open>strtoll\<close> (both 64 bits wide on LP64): the value, clamped to the range.\<close>

definition strtoll :: "nat \<Rightarrow> string \<Rightarrow> int" where
  "strtoll base s =
     (let t = dropWhile c_isspace s;
          neg = (hdc t = CHR ''-'');
          u = (if hdc t = CHR ''-'' \<or> hdc t = CHR ''+'' then tl t else t);
          m = int (strto_magnitude base u)
      in max (- (2 ^ 63)) (min (2 ^ 63 - 1) (if neg then - m else m)))"

text \<open>\<open>strtoull\<close> and \<open>strtoul\<close>: the value, and whether it is out of range.\<close>

definition strtoull :: "nat \<Rightarrow> string \<Rightarrow> u64 \<times> bool" where
  "strtoull base s =
     (let t = dropWhile c_isspace s;
          u = (if hdc t = CHR ''-'' \<or> hdc t = CHR ''+'' then tl t else t);
          m = strto_magnitude base u
      in if 2 ^ 64 \<le> m then (- 1, True)
         else ((if hdc t = CHR ''-'' then - of_nat m else of_nat m), False))"

text \<open>\<open>atoi\<close> is \<open>(int) strtol (s, NULL, 10)\<close>.\<close>

definition atoi :: "string \<Rightarrow> int" where
  "atoi s = sint (word_of_int (strtoll 10 s) :: u32)"

definition digit_char :: "nat \<Rightarrow> char" where
  "digit_char d = ''0123456789abcdef'' ! d"

text \<open>\<open>%lu\<close> and \<open>%lx\<close> of an unsigned value, \<open>%d\<close> of a signed one.\<close>

function show_base :: "nat \<Rightarrow> nat \<Rightarrow> string" where
  "show_base b n =
     (if b < 2 \<or> n < b then [digit_char n] else show_base b (n div b) @ [digit_char (n mod b)])"
  by pat_completeness auto
termination
  by (relation "measure (\<lambda>(b, n). n)") auto

declare show_base.simps [simp del]

abbreviation show_dec :: "nat \<Rightarrow> string" where "show_dec \<equiv> show_base 10"
abbreviation show_hex :: "nat \<Rightarrow> string" where "show_hex \<equiv> show_base 16"

definition show_int :: "int \<Rightarrow> string" where
  "show_int n = (if n < 0 then CHR ''-'' # show_dec (nat (- n)) else show_dec (nat n))"

text \<open>\<open>%-*.*s\<close>: left justified in, and truncated to, \<open>w\<close> characters.\<close>

definition fmt_pad :: "nat \<Rightarrow> string \<Rightarrow> string" where
  "fmt_pad w s = take w s @ replicate (w - length s) (CHR '' '')"

text \<open>\<open>%*s\<close>: right justified in at least \<open>w\<close> characters.\<close>

definition fmt_right :: "nat \<Rightarrow> string \<Rightarrow> string" where
  "fmt_right w s = replicate (w - length s) (CHR '' '') @ s"

text \<open>Specification vocabulary: the words \<open>xs\<close> with \<open>sep\<close> between them.\<close>

fun join_with :: "string \<Rightarrow> string list \<Rightarrow> string" where
  "join_with sep [] = []"
| "join_with sep [x] = x"
| "join_with sep (x # y # ys) = x @ sep @ join_with sep (y # ys)"

section \<open>Shared facts\<close>

named_theorems cstr \<open>the C library functions on strings\<close>

lemma rbind_simps [simp]:
  "rbind (Inl e) f = Inl e"
  "rbind (Inr x) f = f x"
  by (simp_all add: rbind_def)

lemma rbind_eq_Inr [simp]: "rbind m f = Inr y \<longleftrightarrow> (\<exists>x. m = Inr x \<and> f x = Inr y)"
  by (cases m) auto

lemma rbind_eq_Inl: "rbind m f = Inl e \<longleftrightarrow> m = Inl e \<or> (\<exists>x. m = Inr x \<and> f x = Inl e)"
  by (cases m) auto

lemma rbind_cong [fundef_cong]:
  "m = m' \<Longrightarrow> (\<And>x. m' = Inr x \<Longrightarrow> f x = g x) \<Longrightarrow> rbind m f = rbind m' g"
  by (cases m') auto

lemma rbind_assoc [simp]: "rbind (rbind m f) g = rbind m (\<lambda>x. rbind (f x) g)"
  by (cases m) auto

lemma foldE_append [simp]: "foldE f (xs @ ys) s = rbind (foldE f xs s) (foldE f ys)"
  by (induction xs arbitrary: s) (simp_all cong: rbind_cong)

lemma foldE_map: "foldE f (map g xs) s = foldE (\<lambda>x. f (g x)) xs s"
  by (induction xs arbitrary: s) (simp_all cong: rbind_cong)

lemma foldE_cong [fundef_cong]:
  "xs = ys \<Longrightarrow> s = t \<Longrightarrow> (\<And>x u. x \<in> set ys \<Longrightarrow> f x u = g x u) \<Longrightarrow> foldE f xs s = foldE g ys t"
proof (induction xs arbitrary: ys s t)
  case Nil
  then show ?case by auto
next
  case (Cons x xs)
  then have "f x t = g x t" "\<And>u. foldE f xs u = foldE g xs u"
    by auto
  with Cons.prems show ?case by (auto cong: rbind_cong)
qed

lemma foldE_invariant:
  assumes "foldE f xs s = Inr t" "P s" "\<And>x u v. x \<in> set xs \<Longrightarrow> P u \<Longrightarrow> f x u = Inr v \<Longrightarrow> P v"
  shows "P t"
  using assms by (induction xs arbitrary: s) auto

lemma hdc_simps [simp]: "hdc [] = NUL" "hdc (c # cs) = c"
  by (simp_all add: hdc_def)

lemma strncmp_eq_iff_take: "strncmp_eq n a b \<longleftrightarrow> take n a = take n b"
  by (induction n a b rule: strncmp_eq.induct) auto

lemma strchr_None_iff [cstr]: "strchr s c = None \<longleftrightarrow> c \<notin> set s"
  by (induction s) auto

lemma strchr_notin [cstr]: "c \<notin> set s \<Longrightarrow> strchr s c = None"
  by (simp add: strchr_None_iff)

lemma strchr_append_notin [cstr]: "c \<notin> set s \<Longrightarrow> strchr (s @ t) c = strchr t c"
  by (induction s) auto

lemma strchr_Some_split:
  "strchr s c = Some p \<Longrightarrow> \<exists>a b. s = a @ c # b \<and> c \<notin> set a \<and> p = c # b"
proof (induction s)
  case (Cons x xs)
  show ?case
  proof (cases "x = c")
    case True
    with Cons.prems have "x # xs = [] @ c # xs \<and> c \<notin> set [] \<and> p = c # xs" by simp
    then show ?thesis by blast
  next
    case False
    with Cons obtain a b where "xs = a @ c # b" "c \<notin> set a" "p = c # b" by auto
    with False have "x # xs = (x # a) @ c # b \<and> c \<notin> set (x # a) \<and> p = c # b" by simp
    then show ?thesis by blast
  qed
qed simp

lemma length_fmt_pad [simp]: "length (fmt_pad w s) = w"
  by (simp add: fmt_pad_def)

lemma fmt_pad_exact: "length s = w \<Longrightarrow> fmt_pad w s = s"
  by (simp add: fmt_pad_def)

lemma set_fmt_pad: "set (fmt_pad w s) \<subseteq> set s \<union> {CHR '' ''}"
  by (auto simp: fmt_pad_def dest: in_set_takeD)

lemma butlast_concat_terminated:
  "butlast (concat (map (\<lambda>x. x @ [c]) xs)) = join_with [c] xs"
proof (induction xs)
  case (Cons x xs)
  then show ?case by (cases xs) (simp_all add: butlast_append)
qed simp

lemma set_join_with: "set (join_with sep xs) \<subseteq> set sep \<union> (\<Union>x \<in> set xs. set x)"
  by (induction sep xs rule: join_with.induct) auto

lemma in_join_with: "x \<in> set xs \<Longrightarrow> set x \<subseteq> set (join_with sep xs)"
  by (induction sep xs rule: join_with.induct) auto

lemma length_concat_map_le:
  "length (concat (map f (filter P xs))) \<le> length (concat (map f xs))"
  by (induction xs) auto

subsection \<open>Printing and reading numbers\<close>

lemma digit_char_cases:
  assumes "(d::nat) < 16"
  shows "d \<in> {0, 1, 2, 3, 4, 5, 6, 7, 8, 9, 10, 11, 12, 13, 14, 15}"
proof -
  have "d \<in> set [0..<16]" using assms by simp
  also have "[0..<16] = [0, 1, 2, 3, 4, 5, 6, 7, 8, 9, 10, 11, 12, 13, 14, 15]"
    by (simp add: upt_rec)
  finally show ?thesis by simp
qed

lemma digit_of_digit_char [simp]:
  assumes "d < b" "b \<le> 16"
  shows "digit_of b (digit_char d) = Some d"
proof -
  have "d < 16" using assms by simp
  from digit_char_cases [OF this] assms(1) show ?thesis
    by (elim insertE emptyE) (simp_all add: digit_of_def digit_char_def)
qed

lemma digits_value_show_base:
  assumes "2 \<le> b" "b \<le> 16"
  shows "digits_value b acc (show_base b n @ rest)
    = digits_value b (acc * b ^ length (show_base b n) + n) rest"
proof (induction n arbitrary: acc rest rule: less_induct)
  case (less n)
  show ?case
  proof (cases "n < b")
    case True
    with assms show ?thesis by (simp add: show_base.simps)
  next
    case False
    have "n div b < n" using False assms by simp
    note IH = less.IH [OF this]
    have "acc * b ^ length (show_base b (n div b)) * b + (n div b) * b + n mod b
      = acc * b ^ length (show_base b (n div b)) * b + n"
      by simp
    with False assms IH [of acc "digit_char (n mod b) # rest"] show ?thesis
      by (subst (1 2) show_base.simps) (simp add: algebra_simps)
  qed
qed

lemma digits_value_stop: "digit_of b (hdc rest) = None \<Longrightarrow> digits_value b acc rest = acc"
  by (cases rest) auto

lemma digit_of_NUL [simp]: "digit_of b NUL = None"
  by (simp add: digit_of_def NUL_def)

lemma digit_of_comma [simp]: "digit_of b (CHR '','') = None"
  by (simp add: digit_of_def)

lemma show_base_not_Nil [simp]: "show_base b n \<noteq> []"
  by (subst show_base.simps) simp

lemma set_show_base:
  assumes "2 \<le> b" "b \<le> 16"
  shows "set (show_base b n) \<subseteq> digit_char ` {..<b}"
proof (induction n rule: less_induct)
  case (less n)
  show ?case
  proof (cases "n < b")
    case True
    then show ?thesis by (auto simp: show_base.simps)
  next
    case False
    have "n div b < n" using False assms by simp
    from less.IH [OF this] False assms show ?thesis
      by (subst show_base.simps) auto
  qed
qed

lemma hd_show_base: "2 \<le> b \<Longrightarrow> b \<le> 16 \<Longrightarrow> \<exists>d<b. hd (show_base b n) = digit_char d"
  using set_show_base [of b n] by (cases "show_base b n") auto

lemma length_show_dec: "n < 10 ^ k \<Longrightarrow> 0 < k \<Longrightarrow> length (show_dec n) \<le> k"
proof (induction k arbitrary: n)
  case (Suc k)
  show ?case
  proof (cases "n < 10")
    case True
    then show ?thesis by (simp add: show_base.simps)
  next
    case False
    then have "0 < k" using Suc.prems by (cases k) auto
    moreover have "n div 10 < 10 ^ k" using Suc.prems by (simp add: div_less_iff_less_mult mult.commute)
    ultimately have "length (show_dec (n div 10)) \<le> k" by (rule Suc.IH [rotated])
    with False show ?thesis by (subst show_base.simps) simp
  qed
qed simp

lemma digit_char_class:
  assumes "d < 16"
  shows "\<not> c_isspace (digit_char d)" "digit_char d \<noteq> CHR ''-''" "digit_char d \<noteq> CHR ''+''"
    "digit_char d \<noteq> NUL" "digit_char d \<noteq> NL" "digit_char d \<noteq> CHR '',''" "digit_char d \<noteq> CHR ''#''"
    "digit_char d \<noteq> CHR '' ''" "digit_char d \<noteq> TAB"
  using digit_char_cases [OF assms]
  by (auto simp: digit_char_def c_isspace_def NUL_def NL_def TAB_def)

lemma show_base_chars:
  assumes "2 \<le> b" "b \<le> 16" "c \<in> set (show_base b n)"
  shows "\<not> c_isspace c" "c \<noteq> CHR ''-''" "c \<noteq> CHR ''+''" "c \<noteq> NUL" "c \<noteq> NL" "c \<noteq> CHR '',''"
    "c \<noteq> CHR ''#''" "c \<noteq> CHR '' ''" "c \<noteq> TAB"
proof -
  from set_show_base [OF assms(1,2), of n] assms(3) obtain d where "d < b" "c = digit_char d"
    by auto
  moreover from \<open>d < b\<close> assms(2) have "d < 16" by simp
  ultimately show "\<not> c_isspace c" "c \<noteq> CHR ''-''" "c \<noteq> CHR ''+''" "c \<noteq> NUL" "c \<noteq> NL"
    "c \<noteq> CHR '',''" "c \<noteq> CHR ''#''" "c \<noteq> CHR '' ''" "c \<noteq> TAB"
    by (simp_all add: digit_char_class)
qed

lemma strtoll_show_dec:
  assumes "digit_of 10 (hdc rest) = None" "int n < 2 ^ 63"
  shows "strtoll 10 (show_dec n @ rest) = int n"
proof -
  obtain c cs where cs: "show_dec n = c # cs" by (cases "show_dec n") auto
  then have "c \<in> set (show_dec n)" by simp
  then have c: "\<not> c_isspace c" "c \<noteq> CHR ''-''" "c \<noteq> CHR ''+''"
    using show_base_chars [of 10 c n] by simp_all
  have "strto_magnitude 10 (show_dec n @ rest) = n"
    using assms(1) by (simp add: strto_magnitude_def digits_value_show_base digits_value_stop)
  with c cs assms(2) show ?thesis by (simp add: strtoll_def Let_def)
qed

lemma unat_of_nat_u64: "int n < 2 ^ 64 \<Longrightarrow> unat (of_nat n :: u64) = n"
  by (simp add: unat_of_nat take_bit_nat_eq_self)

lemma unat_add_of_nat: "unat (a :: u64) + m < 2 ^ 64 \<Longrightarrow> unat (a + of_nat m) = unat a + m"
  by (simp add: unat_word_ariths(1) unat_of_nat_u64)

text \<open>Bytes written at the offsets of a list.\<close>

lemma offset_inj:
  assumes "a < 2 ^ 64" "b < 2 ^ 64" "(addr :: u64) + of_nat a = addr + of_nat b" shows "a = b"
proof -
  have "(of_nat a :: u64) = of_nat b" using assms(3) by simp
  then have "unat (of_nat a :: u64) = unat (of_nat b :: u64)" by simp
  with assms(1,2) show ?thesis by (simp add: unat_of_nat_u64)
qed

lemma fold_upd_other:
  "(\<And>j. j \<in> set js \<Longrightarrow> f j \<noteq> x) \<Longrightarrow> fold (\<lambda>j mem. mem(f j := v j)) js mem x = mem x"
  by (induction js arbitrary: mem) auto

lemma fold_upd_at:
  "inj_on f (set js) \<Longrightarrow> j \<in> set js \<Longrightarrow> fold (\<lambda>j mem. mem(f j := v j)) js mem (f j) = v j"
proof (induction js arbitrary: mem)
  case (Cons a js)
  show ?case
  proof (cases "j \<in> set js")
    case True
    with Cons show ?thesis by simp
  next
    case False
    with Cons.prems(2) have j: "j = a" by simp
    have "f b \<noteq> f a" if "b \<in> set js" for b
    proof
      assume "f b = f a"
      with inj_onD [OF Cons.prems(1)] that have "b = a" by simp
      with that False j show False by simp
    qed
    then have "fold (\<lambda>j mem. mem(f j := v j)) js (mem(f a := v a)) (f a) = (mem(f a := v a)) (f a)"
      by (rule fold_upd_other)
    then show ?thesis unfolding j by (simp only: fold_simps fun_upd_same)
  qed
qed simp

lemma sint_word_of_int_u32:
  assumes "- (2 ^ 31) \<le> i" "i < 2 ^ 31"
  shows "sint (word_of_int i :: u32) = i"
  using assms by (simp add: sint_sbintrunc' signed_take_bit_int_eq_self)

text \<open>What \<open>%d\<close> prints, \<open>atoi\<close> reads back.\<close>

lemma atoi_show_int [cstr]:
  assumes "0 \<le> p" "p < 2 ^ 31" "digit_of 10 (hdc rest) = None"
  shows "atoi (show_int p @ rest) = p"
proof -
  have "strtoll 10 (show_dec (nat p) @ rest) = p"
    using assms by (simp add: strtoll_show_dec)
  with assms show ?thesis by (simp add: atoi_def show_int_def sint_word_of_int_u32)
qed

section \<open>Words as bytes\<close>

text \<open>The bytes of a word on a little-endian machine, and back.\<close>

definition le_word :: "u8 list \<Rightarrow> 'a::len word" where
  "le_word bs = foldr (\<lambda>b w. ucast b OR push_bit 8 w) bs 0"

definition le_bytes :: "'a::len word \<Rightarrow> u8 list" where
  "le_bytes w = map (\<lambda>i. ucast (drop_bit (8 * i) w)) [0..<LENGTH('a) div 8]"

lemma bit_le_word:
  "n < LENGTH('a) \<Longrightarrow> bit (le_word bs :: 'a::len word) n \<longleftrightarrow> n div 8 < length bs \<and> bit (bs ! (n div 8)) (n mod 8)"
proof (induction bs arbitrary: n)
  case Nil
  then show ?case by (simp add: le_word_def)
next
  case (Cons b bs)
  have "(le_word (b # bs) :: 'a word) = ucast b OR push_bit 8 (le_word bs)" by (simp add: le_word_def)
  then have bits: "bit (le_word (b # bs) :: 'a word) n \<longleftrightarrow> bit b n \<or> 8 \<le> n \<and> bit (le_word bs :: 'a word) (n - 8)"
    using Cons.prems by (simp add: bit_or_iff bit_push_bit_iff bit_ucast_iff)
  show ?case
  proof (cases "n < 8")
    case True
    with bits show ?thesis by simp
  next
    case False
    then have "n div 8 = Suc ((n - 8) div 8)" "(n - 8) mod 8 = n mod 8"
      by (simp_all add: le_div_geq le_mod_geq)
    moreover have "\<not> bit b n" using False bit_imp_le_length [of b n] by auto
    ultimately show ?thesis using bits Cons.IH [of "n - 8"] Cons.prems False by simp
  qed
qed

lemma length_le_bytes [simp]: "length (le_bytes (w :: 'a::len word)) = LENGTH('a) div 8"
  by (simp add: le_bytes_def)

lemma le_word_bytes [simp]:
  assumes "8 dvd LENGTH('a)"
  shows "le_word (le_bytes w) = (w :: 'a::len word)"
proof (rule bit_word_eqI)
  fix n :: nat assume n: "n < LENGTH('a)"
  with assms have i: "n div 8 < LENGTH('a) div 8" by (auto elim!: dvdE simp: less_mult_imp_div_less)
  then have "le_bytes w ! (n div 8) = ucast (drop_bit (8 * (n div 8)) w)"
    by (simp add: le_bytes_def)
  moreover have "8 * (n div 8) + n mod 8 = n" by simp
  ultimately show "bit (le_word (le_bytes w) :: 'a word) n \<longleftrightarrow> bit w n"
    using n i by (simp add: bit_le_word bit_ucast_iff bit_drop_bit_eq)
qed

end
