(* ===== verification/Page_Flags.thy ===== *)
theory Page_Flags
  imports Prelude
begin

text \<open>
  The page flags of \<open>src/tools/page-types\<close>: the bit numbers of \<open>kernel-page-flags.h\<close> and
  \<open>page-types.c\<close>, the name table, the two renderings of a flag word, the folding of kernel flags
  into the tool's own (\<open>kpageflags_flags\<close>) and the bit filters. A flag word is a \<open>64 word\<close>, bit \<open>n\<close>
  of it the flag with number \<open>n\<close>.
\<close>

section \<open>Flag numbers\<close>

abbreviation (input) KPF_LOCKED :: nat where "KPF_LOCKED \<equiv> 0"
abbreviation (input) KPF_ERROR :: nat where "KPF_ERROR \<equiv> 1"
abbreviation (input) KPF_REFERENCED :: nat where "KPF_REFERENCED \<equiv> 2"
abbreviation (input) KPF_UPTODATE :: nat where "KPF_UPTODATE \<equiv> 3"
abbreviation (input) KPF_DIRTY :: nat where "KPF_DIRTY \<equiv> 4"
abbreviation (input) KPF_LRU :: nat where "KPF_LRU \<equiv> 5"
abbreviation (input) KPF_ACTIVE :: nat where "KPF_ACTIVE \<equiv> 6"
abbreviation (input) KPF_SLAB :: nat where "KPF_SLAB \<equiv> 7"
abbreviation (input) KPF_WRITEBACK :: nat where "KPF_WRITEBACK \<equiv> 8"
abbreviation (input) KPF_RECLAIM :: nat where "KPF_RECLAIM \<equiv> 9"
abbreviation (input) KPF_BUDDY :: nat where "KPF_BUDDY \<equiv> 10"
abbreviation (input) KPF_MMAP :: nat where "KPF_MMAP \<equiv> 11"
abbreviation (input) KPF_ANON :: nat where "KPF_ANON \<equiv> 12"
abbreviation (input) KPF_SWAPCACHE :: nat where "KPF_SWAPCACHE \<equiv> 13"
abbreviation (input) KPF_SWAPBACKED :: nat where "KPF_SWAPBACKED \<equiv> 14"
abbreviation (input) KPF_COMPOUND_HEAD :: nat where "KPF_COMPOUND_HEAD \<equiv> 15"
abbreviation (input) KPF_COMPOUND_TAIL :: nat where "KPF_COMPOUND_TAIL \<equiv> 16"
abbreviation (input) KPF_HUGE :: nat where "KPF_HUGE \<equiv> 17"
abbreviation (input) KPF_UNEVICTABLE :: nat where "KPF_UNEVICTABLE \<equiv> 18"
abbreviation (input) KPF_HWPOISON :: nat where "KPF_HWPOISON \<equiv> 19"
abbreviation (input) KPF_NOPAGE :: nat where "KPF_NOPAGE \<equiv> 20"
abbreviation (input) KPF_KSM :: nat where "KPF_KSM \<equiv> 21"
abbreviation (input) KPF_THP :: nat where "KPF_THP \<equiv> 22"
abbreviation (input) KPF_BALLOON :: nat where "KPF_BALLOON \<equiv> 23"
abbreviation (input) KPF_ZERO_PAGE :: nat where "KPF_ZERO_PAGE \<equiv> 24"
abbreviation (input) KPF_IDLE :: nat where "KPF_IDLE \<equiv> 25"
abbreviation (input) KPF_RESERVED :: nat where "KPF_RESERVED \<equiv> 32"
abbreviation (input) KPF_MLOCKED :: nat where "KPF_MLOCKED \<equiv> 33"
abbreviation (input) KPF_MAPPEDTODISK :: nat where "KPF_MAPPEDTODISK \<equiv> 34"
abbreviation (input) KPF_PRIVATE :: nat where "KPF_PRIVATE \<equiv> 35"
abbreviation (input) KPF_PRIVATE_2 :: nat where "KPF_PRIVATE_2 \<equiv> 36"
abbreviation (input) KPF_OWNER_PRIVATE :: nat where "KPF_OWNER_PRIVATE \<equiv> 37"
abbreviation (input) KPF_ARCH :: nat where "KPF_ARCH \<equiv> 38"
abbreviation (input) KPF_UNCACHED :: nat where "KPF_UNCACHED \<equiv> 39"
abbreviation (input) KPF_SOFTDIRTY :: nat where "KPF_SOFTDIRTY \<equiv> 40"
abbreviation (input) KPF_READAHEAD :: nat where "KPF_READAHEAD \<equiv> 48"
abbreviation (input) KPF_SLOB_FREE :: nat where "KPF_SLOB_FREE \<equiv> 49"
abbreviation (input) KPF_SLUB_FROZEN :: nat where "KPF_SLUB_FROZEN \<equiv> 50"
abbreviation (input) KPF_SLUB_DEBUG :: nat where "KPF_SLUB_DEBUG \<equiv> 51"
abbreviation (input) KPF_FILE :: nat where "KPF_FILE \<equiv> 62"
abbreviation (input) KPF_MMAP_EXCLUSIVE :: nat where "KPF_MMAP_EXCLUSIVE \<equiv> 63"

section \<open>The name table\<close>

definition page_flag_table :: "(nat \<times> string) list" where
  "page_flag_table =
    [(KPF_LOCKED, ''L:locked''),
     (KPF_ERROR, ''E:error''),
     (KPF_REFERENCED, ''R:referenced''),
     (KPF_UPTODATE, ''U:uptodate''),
     (KPF_DIRTY, ''D:dirty''),
     (KPF_LRU, ''l:lru''),
     (KPF_ACTIVE, ''A:active''),
     (KPF_SLAB, ''S:slab''),
     (KPF_WRITEBACK, ''W:writeback''),
     (KPF_RECLAIM, ''I:reclaim''),
     (KPF_BUDDY, ''B:buddy''),
     (KPF_MMAP, ''M:mmap''),
     (KPF_ANON, ''a:anonymous''),
     (KPF_SWAPCACHE, ''s:swapcache''),
     (KPF_SWAPBACKED, ''b:swapbacked''),
     (KPF_COMPOUND_HEAD, ''H:compound_head''),
     (KPF_COMPOUND_TAIL, ''T:compound_tail''),
     (KPF_HUGE, ''G:huge''),
     (KPF_UNEVICTABLE, ''u:unevictable''),
     (KPF_HWPOISON, ''X:hwpoison''),
     (KPF_NOPAGE, ''n:nopage''),
     (KPF_KSM, ''x:ksm''),
     (KPF_THP, ''t:thp''),
     (KPF_BALLOON, ''o:balloon''),
     (KPF_ZERO_PAGE, ''z:zero_page''),
     (KPF_RESERVED, ''r:reserved''),
     (KPF_MLOCKED, ''m:mlocked''),
     (KPF_MAPPEDTODISK, ''d:mappedtodisk''),
     (KPF_PRIVATE, ''P:private''),
     (KPF_PRIVATE_2, ''p:private_2''),
     (KPF_OWNER_PRIVATE, ''O:owner_private''),
     (KPF_ARCH, ''h:arch''),
     (KPF_UNCACHED, ''c:uncached''),
     (KPF_SOFTDIRTY, ''f:softdirty''),
     (KPF_READAHEAD, ''I:readahead''),
     (KPF_SLOB_FREE, ''P:slob_free''),
     (KPF_SLUB_FROZEN, ''A:slub_frozen''),
     (KPF_SLUB_DEBUG, ''E:slub_debug''),
     (KPF_FILE, ''F:file''),
     (KPF_MMAP_EXCLUSIVE, ''1:mmap_exclusive'')]"

definition page_flag_names :: "string option list" where
  "page_flag_names = map (map_of page_flag_table) [0..<64]"

section \<open>Masks and single bits\<close>

definition BIT :: "nat \<Rightarrow> u64" where "BIT n = push_bit n 1"

definition KPF_ALL_BITS :: u64 where "KPF_ALL_BITS = NOT 0"
definition KPF_HACKERS_BITS :: u64 where "KPF_HACKERS_BITS = push_bit 32 0xffff"
definition KPF_OVERLOADED_BITS :: u64 where "KPF_OVERLOADED_BITS = push_bit 48 0xffff"
definition BITS_COMPOUND :: u64 where "BITS_COMPOUND = BIT KPF_COMPOUND_HEAD OR BIT KPF_COMPOUND_TAIL"

definition PM_PFRAME_MASK :: u64 where "PM_PFRAME_MASK = push_bit 55 1 - 1"
definition PM_SOFT_DIRTY :: u64 where "PM_SOFT_DIRTY = push_bit 55 1"
definition PM_MMAP_EXCLUSIVE :: u64 where "PM_MMAP_EXCLUSIVE = push_bit 56 1"
definition PM_FILE :: u64 where "PM_FILE = push_bit 61 1"
definition PM_PRESENT :: u64 where "PM_PRESENT = push_bit 63 1"

definition pagemap_pfn :: "u64 \<Rightarrow> u64" where
  "pagemap_pfn val = (if val AND PM_PRESENT \<noteq> 0 then val AND PM_PFRAME_MASK else 0)"

definition pages2mb :: "u64 \<Rightarrow> u64 \<Rightarrow> u64" where
  "pages2mb page_size pages = drop_bit 20 (pages * page_size)"

section \<open>Flag words as text\<close>

text \<open>
  One pass over the name table from index \<open>i\<close>; \<open>buf\<close> is what has been written. A set bit without a
  name is fatal.
\<close>

definition unknown_flag :: "nat \<Rightarrow> stop" where
  "unknown_flag i = Fatal (''unknown flag bit '' @ show_dec i)"

fun page_flag_name_loop :: "u64 \<Rightarrow> nat \<Rightarrow> string option list \<Rightarrow> string \<Rightarrow> string res" where
  "page_flag_name_loop flags i [] buf = Inr buf"
| "page_flag_name_loop flags i (nm # nms) buf =
     (let present = (drop_bit i flags AND 1 = 1)
      in case nm of
           None \<Rightarrow> if present then Inl (unknown_flag i)
                  else page_flag_name_loop flags (Suc i) nms buf
         | Some s \<Rightarrow> page_flag_name_loop flags (Suc i) nms
                      (buf @ [if present then hdc s else CHR ''_'']))"

definition page_flag_name :: "u64 \<Rightarrow> string res" where
  "page_flag_name flags = page_flag_name_loop flags 0 page_flag_names []"

text \<open>
  \<open>snprintf (buf + n, sizeof buf - n, ...)\<close> into a buffer of 1024: it writes at most \<open>1023 - n\<close>
  characters and returns the length of the whole text, so \<open>n\<close> can pass the end of the buffer.
\<close>

fun page_flag_longname_loop :: "u64 \<Rightarrow> nat \<Rightarrow> string option list \<Rightarrow> string \<Rightarrow> nat \<Rightarrow> (string \<times> nat) res" where
  "page_flag_longname_loop flags i [] buf n = Inr (buf, n)"
| "page_flag_longname_loop flags i (nm # nms) buf n =
     (case nm of
        None \<Rightarrow> page_flag_longname_loop flags (Suc i) nms buf n
      | Some s \<Rightarrow>
          if drop_bit i flags AND 1 = 1 then
            (if 1024 \<le> n then Inl (Undef ''snprintf behind the end of buf'')
             else let t = drop 2 s @ '',''
                  in page_flag_longname_loop flags (Suc i) nms
                       (take n buf @ take (1023 - n) t) (n + length t))
          else page_flag_longname_loop flags (Suc i) nms buf n)"

definition page_flag_longname :: "u64 \<Rightarrow> string res" where
  "page_flag_longname flags =
     rbind (page_flag_longname_loop flags 0 page_flag_names [] 0)
       (\<lambda>(buf, n). let n = (if n \<noteq> 0 then n - 1 else n)
                  in if 1024 \<le> n then Inl (Undef ''buf[n] behind the end of buf'')
                     else Inr (take n buf))"

definition page_flag_type :: "u64 \<Rightarrow> string" where
  "page_flag_type flag =
     (if flag AND KPF_HACKERS_BITS \<noteq> 0 then ''(r)''
      else if flag AND KPF_OVERLOADED_BITS \<noteq> 0 then ''(o)''
      else ''   '')"

section \<open>Filters and flag folding\<close>

text \<open>The first \<open>nr_bit_filters\<close> entries of \<open>opt_mask\<close> and \<open>opt_bits\<close>, as pairs.\<close>

fun bit_mask_ok :: "(u64 \<times> u64) list \<Rightarrow> u64 \<Rightarrow> bool" where
  "bit_mask_ok [] flags = True"
| "bit_mask_ok ((msk, bits) # fs) flags =
     (if bits = KPF_ALL_BITS
      then (if flags AND msk = 0 then False else bit_mask_ok fs flags)
      else (if flags AND msk \<noteq> bits then False else bit_mask_ok fs flags))"

definition expand_overloaded_flags :: "u64 \<Rightarrow> u64 \<Rightarrow> u64" where
  "expand_overloaded_flags flags pme =
     (let f1 = (if flags AND BIT KPF_SLAB \<noteq> 0 then
                  (let a = (if flags AND BIT KPF_PRIVATE \<noteq> 0
                            then flags XOR (BIT KPF_PRIVATE OR BIT KPF_SLOB_FREE) else flags);
                       b = (if a AND BIT KPF_ACTIVE \<noteq> 0
                            then a XOR (BIT KPF_ACTIVE OR BIT KPF_SLUB_FROZEN) else a);
                       c = (if b AND BIT KPF_ERROR \<noteq> 0
                            then b XOR (BIT KPF_ERROR OR BIT KPF_SLUB_DEBUG) else b)
                   in c)
                else flags);
          f2 = (if f1 AND (BIT KPF_RECLAIM OR BIT KPF_WRITEBACK) = BIT KPF_RECLAIM
                then f1 XOR (BIT KPF_RECLAIM OR BIT KPF_READAHEAD) else f1);
          f3 = (if pme AND PM_SOFT_DIRTY \<noteq> 0 then f2 OR BIT KPF_SOFTDIRTY else f2);
          f4 = (if pme AND PM_FILE \<noteq> 0 then f3 OR BIT KPF_FILE else f3);
          f5 = (if pme AND PM_MMAP_EXCLUSIVE \<noteq> 0 then f4 OR BIT KPF_MMAP_EXCLUSIVE else f4)
      in f5)"

definition well_known_flags :: "u64 \<Rightarrow> u64" where
  "well_known_flags flags =
     (let f = flags AND NOT KPF_HACKERS_BITS
      in if f AND BITS_COMPOUND \<noteq> 0 \<and> \<not> (f AND BIT KPF_HUGE \<noteq> 0)
         then f AND NOT BITS_COMPOUND else f)"

definition kpageflags_flags :: "bool \<Rightarrow> u64 \<Rightarrow> u64 \<Rightarrow> u64" where
  "kpageflags_flags opt_raw flags pme =
     (if opt_raw then expand_overloaded_flags flags pme else well_known_flags flags)"


section \<open>Bits\<close>

text \<open>The bits of the masks, and single-bit tests as \<open>bit\<close>.\<close>

named_theorems flag_bits \<open>the flag masks by their bits\<close>

lemma u64_eq_iff: "a = b \<longleftrightarrow> (\<forall>n<64. bit (a :: u64) n \<longleftrightarrow> bit b n)"
  by (auto intro: bit_word_eqI)

lemma u64_eqI: "(\<And>n. n < 64 \<Longrightarrow> bit a n \<longleftrightarrow> bit b n) \<Longrightarrow> a = (b :: u64)"
  by (simp add: u64_eq_iff)

lemma bit_u64_lt: "bit (w :: u64) n \<Longrightarrow> n < 64"
  using bit_imp_le_length [of w n] by simp

lemma bit_BIT [simp]: "bit (BIT n) m \<longleftrightarrow> m = n \<and> n < 64"
  by (auto simp: BIT_def bit_simps)

lemma and_BIT_eq_0 [flag_bits]: "n < 64 \<Longrightarrow> (w AND BIT n = 0) \<longleftrightarrow> \<not> bit w n"
  by (auto simp: u64_eq_iff bit_and_iff)

lemma BIT_eq_drop_bit [flag_bits]: "(drop_bit i w AND 1 = 1) \<longleftrightarrow> bit w i"
  by (simp add: bit_iff_and_drop_bit_eq_1)

lemma and_two_BIT_eq_fst [flag_bits]:
  "m < 64 \<Longrightarrow> n < 64 \<Longrightarrow> m \<noteq> n \<Longrightarrow>
    (w AND (BIT m OR BIT n) = BIT m) \<longleftrightarrow> bit w m \<and> \<not> bit w n"
  by (auto simp: u64_eq_iff bit_and_iff bit_or_iff)

lemma ffff_mask: "(0xffff :: u64) = Bit_Operations.mask 16"
  by (simp add: mask_eq_exp_minus_1)

lemma bit_HACKERS [flag_bits]: "bit KPF_HACKERS_BITS n \<longleftrightarrow> 32 \<le> n \<and> n < 48"
  unfolding KPF_HACKERS_BITS_def ffff_mask by (auto simp: bit_push_bit_iff bit_mask_iff)

lemma bit_OVERLOADED [flag_bits]: "bit KPF_OVERLOADED_BITS n \<longleftrightarrow> 48 \<le> n \<and> n < 64"
  unfolding KPF_OVERLOADED_BITS_def ffff_mask by (auto simp: bit_push_bit_iff bit_mask_iff)

lemma bit_COMPOUND [flag_bits]: "bit BITS_COMPOUND n \<longleftrightarrow> n = KPF_COMPOUND_HEAD \<or> n = KPF_COMPOUND_TAIL"
  by (auto simp: BITS_COMPOUND_def bit_simps)

lemma bit_ALL [flag_bits]: "bit KPF_ALL_BITS n \<longleftrightarrow> n < 64"
  by (simp add: KPF_ALL_BITS_def bit_simps)

lemma PM_bits [flag_bits]:
  "PM_SOFT_DIRTY = BIT 55" "PM_MMAP_EXCLUSIVE = BIT 56" "PM_FILE = BIT 61" "PM_PRESENT = BIT 63"
  by (simp_all add: PM_SOFT_DIRTY_def PM_MMAP_EXCLUSIVE_def PM_FILE_def PM_PRESENT_def BIT_def)

lemma PM_PFRAME_MASK_mask: "PM_PFRAME_MASK = Bit_Operations.mask 55"
  by (simp add: PM_PFRAME_MASK_def mask_eq_exp_minus_1)


section \<open>The name table\<close>

text \<open>The named indices of a table of optional names, with their names.\<close>

fun named_from :: "nat \<Rightarrow> string option list \<Rightarrow> (nat \<times> string) list" where
  "named_from i [] = []"
| "named_from i (None # nms) = named_from (Suc i) nms"
| "named_from i (Some s # nms) = (i, s) # named_from (Suc i) nms"

definition known_bits :: "nat set" where
  "known_bits = fst ` set page_flag_table"

definition names_of :: "u64 \<Rightarrow> string list" where
  "names_of flags = map (\<lambda>(n, s). drop 2 s) (filter (\<lambda>(n, s). bit flags n) page_flag_table)"

lemma named_page_flag_names: "named_from 0 page_flag_names = page_flag_table"
  by code_simp

lemma length_page_flag_names [simp]: "length page_flag_names = 64"
  by (simp add: page_flag_names_def)

lemma length_page_flag_table: "length page_flag_table = 40"
  by (simp add: page_flag_table_def)

lemma page_flag_names_None: "i < 64 \<Longrightarrow> page_flag_names ! i = None \<longleftrightarrow> i \<notin> known_bits"
  by (simp add: page_flag_names_def map_of_eq_None_iff known_bits_def)

lemma known_bits_lt: "n \<in> known_bits \<Longrightarrow> n < 64"
  by (auto simp: known_bits_def page_flag_table_def)

section \<open>The symbolic name\<close>

lemma page_flag_name_loop_ok:
  assumes "\<And>j. j < length nms \<Longrightarrow> nms ! j = None \<Longrightarrow> \<not> bit flags (i + j)"
  shows "page_flag_name_loop flags i nms buf
    = Inr (buf @ map (\<lambda>(n, s). if bit flags n then hdc s else CHR ''_'') (named_from i nms))"
  using assms
proof (induction nms arbitrary: i buf)
  case (Cons nm nms)
  have "\<not> bit flags (Suc i + j)" if "j < length nms" "nms ! j = None" for j
    using Cons.prems [of "Suc j"] that by simp
  note IH = Cons.IH [OF this]
  show ?case
  proof (cases nm)
    case None
    with Cons.prems [of 0] IH show ?thesis by (simp add: flag_bits)
  qed (simp add: IH flag_bits)
qed simp

lemma page_flag_name_loop_fatal:
  assumes "j < length nms" "nms ! j = None" "bit flags (i + j)"
    and "\<And>k. k < j \<Longrightarrow> nms ! k = None \<Longrightarrow> \<not> bit flags (i + k)"
  shows "page_flag_name_loop flags i nms buf
    = Inl (unknown_flag (i + j))"
  using assms
proof (induction nms arbitrary: i j buf)
  case (Cons nm nms)
  show ?case
  proof (cases j)
    case 0
    with Cons.prems show ?thesis by (simp add: flag_bits)
  next
    case (Suc j')
    have "page_flag_name_loop flags (Suc i) nms b
      = Inl (unknown_flag (Suc i + j'))" for b
      using Suc Cons.prems Cons.prems(4) [of "Suc _"] by (intro Cons.IH) auto
    then show ?thesis
      using Suc Cons.prems(4) [of 0] by (auto simp: flag_bits Let_def split: option.splits)
  qed
qed simp

lemma page_flag_name_eq:
  "page_flag_name flags =
    (if \<exists>n. bit flags n \<and> n \<notin> known_bits
     then Inl (unknown_flag (LEAST n. bit flags n \<and> n \<notin> known_bits))
     else Inr (map (\<lambda>(n, s). if bit flags n then hdc s else CHR ''_'') page_flag_table))"
proof (cases "\<exists>n. bit flags n \<and> n \<notin> known_bits")
  case True
  define m where "m = (LEAST n. bit flags n \<and> n \<notin> known_bits)"
  from True have m: "bit flags m" "m \<notin> known_bits"
    unfolding m_def by (metis (mono_tags, lifting) LeastI)+
  have least: "\<not> bit flags k" if "k < m" "k \<notin> known_bits" for k
    using that not_less_Least [of k "\<lambda>n. bit flags n \<and> n \<notin> known_bits"] by (auto simp: m_def)
  have "m < 64" using m(1) by (rule bit_u64_lt)
  have "page_flag_name flags = Inl (unknown_flag (0 + m))"
    unfolding page_flag_name_def
    using m \<open>m < 64\<close> least
    by (intro page_flag_name_loop_fatal) (auto simp: page_flag_names_None)
  with True show ?thesis by (simp add: m_def)
next
  case False
  then have "page_flag_name flags
    = Inr ([] @ map (\<lambda>(n, s). if bit flags n then hdc s else CHR ''_'') (named_from 0 page_flag_names))"
    unfolding page_flag_name_def
    by (intro page_flag_name_loop_ok) (auto simp: page_flag_names_None)
  with False show ?thesis by (simp add: named_page_flag_names)
qed

section \<open>The long name\<close>

definition long_text :: "u64 \<Rightarrow> (nat \<times> string) list \<Rightarrow> string" where
  "long_text flags tab = concat (map (\<lambda>(n, s). drop 2 s @ '','') (filter (\<lambda>(n, s). bit flags n) tab))"

lemma page_flag_longname_loop_eq:
  assumes "length buf + length (long_text flags (named_from i nms)) \<le> 1023"
  shows "page_flag_longname_loop flags i nms buf (length buf)
    = Inr (buf @ long_text flags (named_from i nms),
           length buf + length (long_text flags (named_from i nms)))"
  using assms
proof (induction i nms arbitrary: buf rule: named_from.induct)
  case (3 i s nms)
  show ?case
  proof (cases "bit flags i")
    case True
    let ?t = "drop 2 s @ '',''"
    from "3.prems" True have len: "length (buf @ ?t) + length (long_text flags (named_from (Suc i) nms)) \<le> 1023"
      by (simp add: long_text_def)
    from "3.IH" [OF len] True len show ?thesis
      by (simp add: flag_bits long_text_def Let_def)
  next
    case False
    with 3 show ?thesis by (simp add: flag_bits long_text_def)
  qed
qed (simp_all add: long_text_def)

lemma long_text_bound: "length (long_text flags page_flag_table) \<le> 1023"
proof -
  have "length (long_text flags page_flag_table)
    \<le> length (concat (map (\<lambda>(n, s). drop 2 s @ '','') page_flag_table))"
    unfolding long_text_def by (rule length_concat_map_le)
  also have "\<dots> \<le> 1023" by (simp add: page_flag_table_def)
  finally show ?thesis .
qed

lemma long_text_names: "long_text flags page_flag_table = concat (map (\<lambda>x. x @ '','') (names_of flags))"
  by (simp add: long_text_def names_of_def comp_def case_prod_unfold)

lemma page_flag_longname_eq: "page_flag_longname flags = Inr (join_with '','' (names_of flags))"
proof -
  let ?t = "long_text flags page_flag_table"
  have "page_flag_longname_loop flags 0 page_flag_names [] 0 = Inr (?t, length ?t)"
    using page_flag_longname_loop_eq [of "[]" flags 0 page_flag_names] long_text_bound [of flags]
    by (simp add: named_page_flag_names)
  then have "page_flag_longname flags = Inr (take (length ?t - 1) ?t)"
    using long_text_bound [of flags] by (auto simp: page_flag_longname_def Let_def)
  also have "take (length ?t - 1) ?t = butlast ?t" by (simp add: butlast_conv_take)
  also have "\<dots> = join_with '','' (names_of flags)"
    unfolding long_text_names by (rule butlast_concat_terminated)
  finally show ?thesis .
qed


section \<open>Folding the kernel's flags\<close>

lemma bit_well_known:
  "bit (well_known_flags flags) n \<longleftrightarrow>
    bit flags n \<and> \<not> (32 \<le> n \<and> n < 48) \<and>
    (n = KPF_COMPOUND_HEAD \<or> n = KPF_COMPOUND_TAIL \<longrightarrow> bit flags KPF_HUGE)"
proof -
  let ?f = "flags AND NOT KPF_HACKERS_BITS"
  have f: "bit ?f k \<longleftrightarrow> bit flags k \<and> \<not> (32 \<le> k \<and> k < 48)" for k
    using bit_u64_lt [of flags k] by (auto simp: bit_and_iff bit_not_iff flag_bits)
  have compound: "?f AND BITS_COMPOUND \<noteq> 0 \<longleftrightarrow> bit flags KPF_COMPOUND_HEAD \<or> bit flags KPF_COMPOUND_TAIL"
    by (auto simp: u64_eq_iff bit_and_iff bit_not_iff flag_bits intro: exI [of _ 15] exI [of _ 16])
  have huge: "?f AND BIT KPF_HUGE \<noteq> 0 \<longleftrightarrow> bit flags KPF_HUGE"
    using f [of KPF_HUGE] by (simp add: flag_bits)
  show ?thesis
  proof (cases "?f AND BITS_COMPOUND \<noteq> 0 \<and> \<not> (?f AND BIT KPF_HUGE \<noteq> 0)")
    case True
    then have "well_known_flags flags = ?f AND NOT BITS_COMPOUND"
      by (simp add: well_known_flags_def)
    then have "bit (well_known_flags flags) n \<longleftrightarrow> bit ?f n \<and> \<not> bit BITS_COMPOUND n"
      using bit_u64_lt [of ?f n] by (auto simp: bit_and_iff bit_not_iff)
    with True compound huge f show ?thesis by (auto simp: flag_bits)
  next
    case False
    then have "well_known_flags flags = ?f" by (auto simp: well_known_flags_def Let_def)
    with False compound huge f show ?thesis by auto
  qed
qed

text \<open>The XOR of two masks with one bit each moves a set bit to a clear place.\<close>

lemma bit_xor_two:
  "a < 64 \<Longrightarrow> b < 64 \<Longrightarrow> bit (w XOR (BIT a OR BIT b)) n \<longleftrightarrow> (bit w n \<noteq> (n = a \<or> n = b))"
  by (auto simp: bit_xor_iff bit_or_iff)

definition slab_moves :: "u64 \<Rightarrow> u64" where
  "slab_moves flags =
     (if flags AND BIT KPF_SLAB \<noteq> 0 then
        (let a = (if flags AND BIT KPF_PRIVATE \<noteq> 0
                  then flags XOR (BIT KPF_PRIVATE OR BIT KPF_SLOB_FREE) else flags);
             b = (if a AND BIT KPF_ACTIVE \<noteq> 0
                  then a XOR (BIT KPF_ACTIVE OR BIT KPF_SLUB_FROZEN) else a);
             c = (if b AND BIT KPF_ERROR \<noteq> 0
                  then b XOR (BIT KPF_ERROR OR BIT KPF_SLUB_DEBUG) else b)
         in c)
      else flags)"

lemma bit_slab_moves:
  "bit (slab_moves f) n \<longleftrightarrow>
    (if \<not> bit f KPF_SLAB then bit f n
     else if n = KPF_PRIVATE \<or> n = KPF_ACTIVE \<or> n = KPF_ERROR then False
     else if n = KPF_SLOB_FREE then bit f n \<noteq> bit f KPF_PRIVATE
     else if n = KPF_SLUB_FROZEN then bit f n \<noteq> bit f KPF_ACTIVE
     else if n = KPF_SLUB_DEBUG then bit f n \<noteq> bit f KPF_ERROR
     else bit f n)"
  unfolding slab_moves_def Let_def
  by (auto simp: and_BIT_eq_0 bit_xor_two)

lemma expand_slab_moves:
  "expand_overloaded_flags f pme =
    (let f1 = slab_moves f;
         f2 = (if bit f1 KPF_RECLAIM \<and> \<not> bit f1 KPF_WRITEBACK
               then f1 XOR (BIT KPF_RECLAIM OR BIT KPF_READAHEAD) else f1);
         f3 = (if bit pme 55 then f2 OR BIT KPF_SOFTDIRTY else f2);
         f4 = (if bit pme 61 then f3 OR BIT KPF_FILE else f3)
     in if bit pme 56 then f4 OR BIT KPF_MMAP_EXCLUSIVE else f4)"
  unfolding expand_overloaded_flags_def slab_moves_def [symmetric]
  by (simp add: Let_def flag_bits)

lemma bit_expand:
  "bit (expand_overloaded_flags f pme) n \<longleftrightarrow>
    (if n = KPF_PRIVATE \<or> n = KPF_ACTIVE \<or> n = KPF_ERROR then bit f n \<and> \<not> bit f KPF_SLAB
     else if n = KPF_SLOB_FREE then bit f n \<noteq> (bit f KPF_SLAB \<and> bit f KPF_PRIVATE)
     else if n = KPF_SLUB_FROZEN then bit f n \<noteq> (bit f KPF_SLAB \<and> bit f KPF_ACTIVE)
     else if n = KPF_SLUB_DEBUG then bit f n \<noteq> (bit f KPF_SLAB \<and> bit f KPF_ERROR)
     else if n = KPF_RECLAIM then bit f n \<and> bit f KPF_WRITEBACK
     else if n = KPF_READAHEAD then bit f n \<noteq> (bit f KPF_RECLAIM \<and> \<not> bit f KPF_WRITEBACK)
     else if n = KPF_SOFTDIRTY then bit f n \<or> bit pme 55
     else if n = KPF_FILE then bit f n \<or> bit pme 61
     else if n = KPF_MMAP_EXCLUSIVE then bit f n \<or> bit pme 56
     else bit f n)"
  unfolding expand_slab_moves Let_def
  by (auto simp: bit_slab_moves bit_xor_two bit_or_iff)

lemma pagemap_pfn_bits:
  "bit (pagemap_pfn v) n \<longleftrightarrow> bit v 63 \<and> n < 55 \<and> bit v n"
  by (auto simp: pagemap_pfn_def flag_bits PM_PFRAME_MASK_mask bit_and_iff bit_mask_iff)

lemma bit_mask_ok_iff:
  "bit_mask_ok fs flags \<longleftrightarrow>
    (\<forall>(m, b) \<in> set fs. if b = KPF_ALL_BITS then flags AND m \<noteq> 0 else flags AND m = b)"
  by (induction fs flags rule: bit_mask_ok.induct) auto


lemma bit_zero_overloaded:
  "f AND KPF_OVERLOADED_BITS = 0 \<Longrightarrow> 48 \<le> n \<Longrightarrow> \<not> bit f n"
  using bit_u64_lt [of f n] by (auto simp: u64_eq_iff bit_and_iff flag_bits)

text \<open>What the raw word's bits say about the kernel's word, when that has no bit from 48 up.\<close>

lemma expand_recover:
  fixes f :: u64
  assumes "f AND KPF_OVERLOADED_BITS = 0"
  defines "e \<equiv> expand_overloaded_flags f 0"
  shows "bit f n \<longleftrightarrow>
    (if n = KPF_PRIVATE then bit e KPF_PRIVATE \<or> bit e KPF_SLOB_FREE
     else if n = KPF_ACTIVE then bit e KPF_ACTIVE \<or> bit e KPF_SLUB_FROZEN
     else if n = KPF_ERROR then bit e KPF_ERROR \<or> bit e KPF_SLUB_DEBUG
     else if n = KPF_RECLAIM then bit e KPF_RECLAIM \<or> bit e KPF_READAHEAD
     else n < 48 \<and> bit e n)"
  using bit_zero_overloaded [OF assms(1)] unfolding e_def bit_expand
  by (cases "n < 48") auto

section \<open>Properties\<close>

text \<open>
  The symbolic name of a flag word has one character per entry of the name table, the entry's
  letter where the flag is set and an underscore where it is not; a word with a set bit that the
  table does not name stops the program, with the least such bit in the message.
\<close>

theorem page_flag_name_spec:
  "page_flag_name flags =
    (if \<exists>n. bit flags n \<and> n \<notin> fst ` set page_flag_table
     then Inl (Fatal (''unknown flag bit ''
            @ show_dec (LEAST n. bit flags n \<and> n \<notin> fst ` set page_flag_table)))
     else Inr (map (\<lambda>(n, s). if bit flags n then hdc s else CHR ''_'') page_flag_table))"
  using page_flag_name_eq [of flags] unfolding known_bits_def unknown_flag_def .

text \<open>
  The long name of every flag word is the names of its set flags with commas between them; the
  1024-byte buffer is never passed, so no name is cut and no write leaves it.
\<close>

theorem page_flag_longname_spec:
  "page_flag_longname flags = Inr (join_with '','' (names_of flags))
    \<and> length (join_with '','' (names_of flags)) < 1024"
proof -
  have "length (join_with '','' (names_of flags)) \<le> length (long_text flags page_flag_table)"
    by (simp add: long_text_names butlast_concat_terminated [symmetric])
  with long_text_bound [of flags] page_flag_longname_eq [of flags] show ?thesis by simp
qed

text \<open>
  Without \<open>--raw\<close> the flag word shows a subset of the kernel's flags: the hacker bits 32 to 47
  are hidden, the two compound bits only survive on huge pages, every other bit is as it was; folding
  twice changes nothing.
\<close>

theorem well_known_flags_spec:
  "bit (kpageflags_flags False flags pme) n = (bit flags n \<and> n \<notin> {32..47} \<and>
      \<not> (n \<in> {KPF_COMPOUND_HEAD, KPF_COMPOUND_TAIL} \<and> \<not> bit flags KPF_HUGE))
    \<and> kpageflags_flags False (kpageflags_flags False flags pme) pme' = kpageflags_flags False flags pme"
proof
  show "bit (kpageflags_flags False flags pme) n = (bit flags n \<and> n \<notin> {32..47} \<and>
      \<not> (n \<in> {KPF_COMPOUND_HEAD, KPF_COMPOUND_TAIL} \<and> \<not> bit flags KPF_HUGE))"
    by (auto simp: kpageflags_flags_def bit_well_known)
  show "kpageflags_flags False (kpageflags_flags False flags pme) pme' = kpageflags_flags False flags pme"
    by (rule u64_eqI) (auto simp: kpageflags_flags_def bit_well_known)
qed

text \<open>
  Raw mode loses nothing: on the words the kernel hands out (no bit from 48 up) the unfolding of
  the overloaded flags is injective, so the kernel's word can be told from what is shown.
\<close>

theorem expand_overloaded_injective:
  "inj_on (\<lambda>flags. kpageflags_flags True flags 0) {flags. flags AND KPF_OVERLOADED_BITS = 0}"
proof (rule inj_onI, unfold mem_Collect_eq)
  fix f g :: u64
  assume f: "f AND KPF_OVERLOADED_BITS = 0" and g: "g AND KPF_OVERLOADED_BITS = 0"
    and "kpageflags_flags True f 0 = kpageflags_flags True g 0"
  then have [simp]: "expand_overloaded_flags f 0 = expand_overloaded_flags g 0"
    by (simp add: kpageflags_flags_def)
  have "bit f n \<longleftrightarrow> bit g n" for n
    unfolding expand_recover [OF f, of n] expand_recover [OF g, of n] by simp
  then show "f = g" by (intro u64_eqI) simp
qed

text \<open>
  \<open>kernel-page-flags.h\<close> defines \<open>KPF_IDLE\<close> (bit 25) but the name table has no entry for it: an
  idle page stops the tool, with the flags folded in either mode.
\<close>

theorem idle_page_is_fatal:
  "page_flag_name (kpageflags_flags raw (BIT KPF_IDLE) 0) = Inl (Fatal ''unknown flag bit 25'')"
proof -
  have b: "bit (kpageflags_flags raw (BIT KPF_IDLE) 0) n \<longleftrightarrow> n = 25" for n
    by (auto simp: kpageflags_flags_def bit_well_known bit_expand)
  have "25 \<notin> known_bits" by (simp add: known_bits_def page_flag_table_def)
  then have "(LEAST n. n = 25 \<and> n \<notin> known_bits) = 25"
    by (intro Least_equality) auto
  moreover have "show_dec 25 = ''25''" by code_simp
  ultimately show ?thesis
    using \<open>25 \<notin> known_bits\<close> by (simp add: page_flag_name_eq b unknown_flag_def)
qed

end
