(* ===== verification/Page_Options.thy ===== *)
theory Page_Options
  imports Page_Flags
begin

text \<open>
  The option parsers of \<open>page-types.c\<close>: numbers, flag names and lists of them, bit filters
  (\<open>--bits\<close>), address ranges (\<open>--addr\<close>), the \<open>maps\<close> file of a process (\<open>--pid\<close>) and
  \<open>--describe\<close>. The static option variables are the record \<open>opts\<close>; an array with its count is the
  list of its used entries.
\<close>

section \<open>State\<close>

record opts =
  opt_raw :: bool
  opt_list :: nat
  opt_no_summary :: bool
  opt_pid :: int
  opt_file :: "string option"
  addr_ranges :: "(u64 \<times> u64) list"
  vmas :: "(u64 \<times> u64) list"
  bit_filters :: "(u64 \<times> u64) list"
  page_size :: u64
  opt_hwpoison :: bool
  opt_unpoison :: bool

text \<open>The static initialisation, with the page size \<open>main\<close> sets first.\<close>

definition no_opts :: "u64 \<Rightarrow> opts" where
  "no_opts pgsz = \<lparr>opt_raw = False, opt_list = 0, opt_no_summary = False, opt_pid = 0, opt_file = None,
     addr_ranges = [], vmas = [], bit_filters = [], page_size = pgsz,
     opt_hwpoison = False, opt_unpoison = False\<rparr>"

definition MAX_ADDR_RANGES :: nat where "MAX_ADDR_RANGES = 1024"
definition MAX_VMAS :: nat where "MAX_VMAS = 10240"
definition MAX_BIT_FILTERS :: nat where "MAX_BIT_FILTERS = 64"

definition ULONG_MAX :: u64 where "ULONG_MAX = NOT 0"

section \<open>Numbers and flag names\<close>

definition parse_number :: "string \<Rightarrow> u64 res" where
  "parse_number str =
     (let n = word_of_int (strtoll 0 str)
      in if n = 0 \<and> hdc str \<noteq> CHR ''0''
         then Inl (Fatal (''invalid name or number: '' @ str)) else Inr n)"

fun flag_name_search :: "string \<Rightarrow> nat \<Rightarrow> nat \<Rightarrow> string option list \<Rightarrow> nat option" where
  "flag_name_search str len i [] = None"
| "flag_name_search str len i (None # nms) = flag_name_search str len (Suc i) nms"
| "flag_name_search str len i (Some s # nms) =
     (if strncmp_eq len str (drop 2 s) then Some i else flag_name_search str len (Suc i) nms)"

definition parse_flag_name :: "string \<Rightarrow> nat \<Rightarrow> u64 res" where
  "parse_flag_name str len =
     (if str = [] \<or> len = 0 then Inr 0
      else if len \<le> 8 \<and> strncmp_eq len str ''compound'' then Inr BITS_COMPOUND
      else case flag_name_search str len 0 page_flag_names of
             Some i \<Rightarrow> Inr (BIT i)
           | None \<Rightarrow> parse_number str)"

text \<open>
  One word of a list, from \<open>str\<close> up to \<open>p = str + len\<close>: the condition
  \<open>(*str != '~') || (*str == '~' && all && *++str)\<close>, whose last operand moves \<open>str\<close>.
\<close>

definition parse_flag_word :: "bool \<Rightarrow> string \<Rightarrow> nat \<Rightarrow> u64 res" where
  "parse_flag_word all str len =
     (if hdc str \<noteq> CHR ''~'' then parse_flag_name str len
      else if all \<and> tl str \<noteq> [] then parse_flag_name (tl str) (len - 1)
      else Inr 0)"

text \<open>The scan: \<open>p\<close> runs through the list, \<open>len\<close> is \<open>p - str\<close>.\<close>

fun parse_flag_names_loop :: "bool \<Rightarrow> string \<Rightarrow> string \<Rightarrow> nat \<Rightarrow> u64 \<Rightarrow> u64 res" where
  "parse_flag_names_loop all str [] len flags =
     rbind (parse_flag_word all str len) (\<lambda>b. Inr (flags OR b))"
| "parse_flag_names_loop all str (c # p) len flags =
     (if c = CHR '','' then
        rbind (parse_flag_word all str len) (\<lambda>b. parse_flag_names_loop all p p 0 (flags OR b))
      else if c = CHR ''='' then
        rbind (parse_flag_word all str len) (\<lambda>b. Inr (flags OR b))
      else parse_flag_names_loop all str p (Suc len) flags)"

definition parse_flag_names :: "string \<Rightarrow> bool \<Rightarrow> u64 res" where
  "parse_flag_names str all = parse_flag_names_loop all str str 0 0"

section \<open>Filters, ranges and the process map\<close>

definition add_bits_filter :: "u64 \<Rightarrow> u64 \<Rightarrow> opts \<Rightarrow> opts res" where
  "add_bits_filter msk bits opts =
     (if MAX_BIT_FILTERS \<le> length (bit_filters opts) then Inl (Fatal ''too much bit filters'')
      else Inr (opts\<lparr>bit_filters := bit_filters opts @ [(msk, bits)]\<rparr>))"

definition parse_bits_mask :: "string \<Rightarrow> opts \<Rightarrow> opts res" where
  "parse_bits_mask optarg opts =
     (case strchr optarg (CHR ''='') of
        Some p \<Rightarrow>
          if p = optarg then
            rbind (parse_flag_names (tl p) False) (\<lambda>bits. add_bits_filter KPF_ALL_BITS bits opts)
          else
            rbind (parse_flag_names optarg False) (\<lambda>msk.
            rbind (parse_flag_names (tl p) False) (\<lambda>bits. add_bits_filter msk bits opts))
      | None \<Rightarrow>
          if strchr optarg (CHR ''~'') \<noteq> None then
            rbind (parse_flag_names optarg True) (\<lambda>msk.
            rbind (parse_flag_names optarg False) (\<lambda>bits. add_bits_filter msk bits opts))
          else
            rbind (parse_flag_names optarg False) (\<lambda>msk. add_bits_filter msk KPF_ALL_BITS opts))"

definition add_addr_range :: "u64 \<Rightarrow> u64 \<Rightarrow> opts \<Rightarrow> opts res" where
  "add_addr_range offset sz opts =
     (if MAX_ADDR_RANGES \<le> length (addr_ranges opts) then Inl (Fatal ''too many addr ranges'')
      else Inr (opts\<lparr>addr_ranges := addr_ranges opts @ [(offset, min sz (ULONG_MAX - offset))]\<rparr>))"

definition parse_addr_range :: "string \<Rightarrow> opts \<Rightarrow> opts res" where
  "parse_addr_range optarg opts =
     (let p = (case strchr optarg (CHR '','') of
                 Some q \<Rightarrow> Some q | None \<Rightarrow> strchr optarg (CHR ''+''))
      in case p of
           Some q \<Rightarrow>
             if q = optarg then
               rbind (parse_number (tl q)) (\<lambda>sz. add_addr_range 0 sz opts)
             else
               rbind (parse_number optarg) (\<lambda>offset.
                 if tl q = [] then add_addr_range offset ULONG_MAX opts
                 else rbind (parse_number (tl q)) (\<lambda>sz.
                   if hdc q = CHR '','' then
                     (if sz < offset
                      then Inl (Fatal (''invalid range: '' @ show_dec (unat offset) @ '','' @ show_dec (unat sz)))
                      else add_addr_range offset (sz - offset) opts)
                   else add_addr_range offset sz opts))
         | None \<Rightarrow> rbind (parse_number optarg) (\<lambda>offset. add_addr_range offset 1 opts))"

text \<open>
  The conversions of the \<open>sscanf\<close> in \<open>parse_pid\<close>, each giving the rest of the input: a number in
  base \<open>b\<close> (white space, then at least one digit), one character, a literal character, and the white
  space a blank of the format stands for. The kernel prints neither signs nor base prefixes here.
\<close>

definition scan_number :: "nat \<Rightarrow> string \<Rightarrow> (nat \<times> string) option" where
  "scan_number b s =
     (let t = dropWhile c_isspace s
      in if digit_of b (hdc t) = None then None
         else Some (digits_value b 0 t, dropWhile (\<lambda>c. digit_of b c \<noteq> None) t))"

definition scan_char :: "string \<Rightarrow> string option" where
  "scan_char s = (case s of [] \<Rightarrow> None | _ # t \<Rightarrow> Some t)"

definition scan_literal :: "char \<Rightarrow> string \<Rightarrow> string option" where
  "scan_literal c s = (case s of [] \<Rightarrow> None | d # t \<Rightarrow> if d = c then Some t else None)"

text \<open>\<open>"%lx-%lx %c%c%c%c %llx %x:%x %lu"\<close>: the first two numbers when all ten conversions succeed.\<close>

definition scan_maps_line :: "string \<Rightarrow> (u64 \<times> u64) option" where
  "scan_maps_line s =
     Option.bind (scan_number 16 s) (\<lambda>(vm_start, s).
     Option.bind (scan_literal (CHR ''-'') s) (\<lambda>s.
     Option.bind (scan_number 16 s) (\<lambda>(vm_end, s).
     Option.bind (scan_char (dropWhile c_isspace s)) (\<lambda>s.
     Option.bind (scan_char s) (\<lambda>s.
     Option.bind (scan_char s) (\<lambda>s.
     Option.bind (scan_char s) (\<lambda>s.
     Option.bind (scan_number 16 s) (\<lambda>(pgoff, s).
     Option.bind (scan_number 16 s) (\<lambda>(major, s).
     Option.bind (scan_literal (CHR '':'') s) (\<lambda>s.
     Option.bind (scan_number 16 s) (\<lambda>(minor, s).
     Option.bind (scan_number 10 s) (\<lambda>(ino, s).
     Some (of_nat vm_start, of_nat vm_end)))))))))))))"

text \<open>The loop over the lines of the \<open>maps\<close> file: bad lines are skipped, a full array ends it.\<close>

fun read_maps :: "u64 \<Rightarrow> string list \<Rightarrow> (u64 \<times> u64) list \<Rightarrow> (u64 \<times> u64) list" where
  "read_maps pgsz [] vs = vs"
| "read_maps pgsz (line # lines) vs =
     (case scan_maps_line line of
        None \<Rightarrow> read_maps pgsz lines vs
      | Some (s, e) \<Rightarrow>
          let vs' = vs @ [(s div pgsz, e div pgsz)]
          in if MAX_VMAS \<le> length vs' then vs' else read_maps pgsz lines vs')"

text \<open>
  \<open>pagemap_ok\<close> is whether \<open>/proc/<pid>/pagemap\<close> opened, \<open>maps\<close> the lines of \<open>/proc/<pid>/maps\<close> when
  that file opened.
\<close>

definition parse_pid :: "(int \<Rightarrow> bool) \<Rightarrow> (int \<Rightarrow> string list option) \<Rightarrow> string \<Rightarrow> opts \<Rightarrow> opts res" where
  "parse_pid pagemap_ok maps str opts =
     rbind (parse_number str) (\<lambda>n.
       let pid = sint (ucast n :: u32);
           opts = opts\<lparr>opt_pid := pid\<rparr>
       in if \<not> pagemap_ok pid then Inl (Fatal (''/proc/'' @ show_int pid @ ''/pagemap''))
          else case maps pid of
                 None \<Rightarrow> Inl (Fatal (''/proc/'' @ show_int pid @ ''/maps''))
               | Some lines \<Rightarrow> Inr (opts\<lparr>vmas := read_maps (page_size opts) lines (vmas opts)\<rparr>))"

definition parse_file :: "string \<Rightarrow> opts \<Rightarrow> opts" where
  "parse_file name opts = opts\<lparr>opt_file := Some name\<rparr>"

text \<open>\<open>%016llx\<close>\<close>

definition fmt_hex16 :: "u64 \<Rightarrow> string" where
  "fmt_hex16 w = (let s = show_hex (unat w) in replicate (16 - length s) (CHR ''0'') @ s)"

definition describe_flags :: "string \<Rightarrow> string res" where
  "describe_flags optarg =
     rbind (parse_flag_names optarg False) (\<lambda>flags.
     rbind (page_flag_name flags) (\<lambda>name.
     rbind (page_flag_longname flags) (\<lambda>longname.
       Inr (''0x'' @ fmt_hex16 flags @ [TAB] @ name @ [TAB] @ longname @ [NL]))))"


section \<open>Flag lists\<close>

text \<open>Specification vocabulary: the flag word of a list of table entries, and lists of words.\<close>

definition flags_of :: "(nat \<times> string) list \<Rightarrow> u64" where
  "flags_of es = foldr (\<lambda>(n, s) w. BIT n OR w) es 0"

fun flag_word :: "bool \<times> nat \<times> string \<Rightarrow> string" where
  "flag_word (neg, n, s) = (if neg then CHR ''~'' # drop 2 s else drop 2 s)"

definition plain_words :: "(nat \<times> string) list \<Rightarrow> (bool \<times> nat \<times> string) list" where
  "plain_words es = map (\<lambda>e. (False, e)) es"

definition negated_words :: "(nat \<times> string) list \<Rightarrow> (bool \<times> nat \<times> string) list" where
  "negated_words es = map (\<lambda>e. (True, e)) es"

definition flag_words :: "(bool \<times> nat \<times> string) list \<Rightarrow> string" where
  "flag_words ws = join_with '','' (map flag_word ws)"

lemma bit_flags_of: "bit (flags_of es) m \<longleftrightarrow> m < 64 \<and> (\<exists>s. (m, s) \<in> set es)"
  by (induction es) (auto simp: flags_of_def bit_or_iff)

lemma flags_of_Cons [simp]: "flags_of ((n, s) # es) = BIT n OR flags_of es"
  and flags_of_Nil [simp]: "flags_of [] = 0"
  by (simp_all add: flags_of_def)

lemma flag_name_search_eq:
  "flag_name_search str len i nms
    = map_option fst (find (\<lambda>(n, s). take len str = take len (drop 2 s)) (named_from i nms))"
  by (induction str len i nms rule: flag_name_search.induct)
    (auto simp: strncmp_eq_iff_take)

definition entry_ok :: "nat \<times> string \<Rightarrow> bool" where
  "entry_ok e = (case e of (n, s) \<Rightarrow>
     (let x = drop 2 s in
      x \<noteq> [] \<and> list_all (\<lambda>c. c \<noteq> CHR '','' \<and> c \<noteq> CHR ''='' \<and> c \<noteq> CHR ''~'') x
      \<and> (8 < length x \<or> x \<noteq> take (length x) ''compound'')
      \<and> map_option fst (find (\<lambda>(n', s'). x = take (length x) (drop 2 s')) page_flag_table) = Some n))"

lemma page_flag_table_ok: "list_all entry_ok page_flag_table"
  by code_simp

lemma entry_okD:
  assumes "(n, s) \<in> set page_flag_table"
  shows "drop 2 s \<noteq> []" "c \<in> set (drop 2 s) \<Longrightarrow> c \<noteq> CHR '','' \<and> c \<noteq> CHR ''='' \<and> c \<noteq> CHR ''~''"
    "parse_flag_name (drop 2 s @ r) (length (drop 2 s)) = Inr (BIT n)"
proof -
  let ?x = "drop 2 s"
  from page_flag_table_ok assms have ok: "entry_ok (n, s)"
    by (simp add: list_all_iff)
  then show "?x \<noteq> []" and "c \<in> set ?x \<Longrightarrow> c \<noteq> CHR '','' \<and> c \<noteq> CHR ''='' \<and> c \<noteq> CHR ''~''"
    by (simp_all add: entry_ok_def Let_def list_all_iff)
  have "flag_name_search (?x @ r) (length ?x) 0 page_flag_names = Some n"
    using ok by (simp add: entry_ok_def Let_def flag_name_search_eq named_page_flag_names)
  moreover have "\<not> (length ?x \<le> 8 \<and> strncmp_eq (length ?x) (?x @ r) ''compound'')"
    using ok by (auto simp: entry_ok_def Let_def strncmp_eq_iff_take)
  ultimately show "parse_flag_name (?x @ r) (length ?x) = Inr (BIT n)"
    using \<open>?x \<noteq> []\<close> unfolding parse_flag_name_def by (auto simp del: length_drop drop_eq_Nil)
qed

lemma parse_flag_word_entry:
  assumes "(n, s) \<in> set page_flag_table"
  shows "parse_flag_word all (flag_word (neg, n, s) @ r) (length (flag_word (neg, n, s)))
    = Inr (if neg \<and> \<not> all then 0 else BIT n)"
proof (cases neg)
  case True
  with entry_okD [OF assms] show ?thesis
    by (auto simp: parse_flag_word_def simp del: length_drop drop_eq_Nil)
next
  case False
  from entry_okD(1,2) [OF assms] obtain c cs where "drop 2 s = c # cs" "c \<noteq> CHR ''~''"
    by (cases "drop 2 s") auto
  with False entry_okD(3) [OF assms, of r] show ?thesis
    by (simp add: parse_flag_word_def del: length_drop drop_eq_Nil)
qed

lemma flag_word_chars:
  "(n, s) \<in> set page_flag_table \<Longrightarrow> c \<in> set (flag_word (neg, n, s)) \<Longrightarrow> c \<noteq> CHR '','' \<and> c \<noteq> CHR ''=''"
  using entry_okD(2) [of n s c] by (auto split: if_splits)

lemma parse_flag_names_loop_skip:
  assumes "\<And>c. c \<in> set y \<Longrightarrow> c \<noteq> CHR '','' \<and> c \<noteq> CHR ''=''"
  shows "parse_flag_names_loop all str (y @ p) len flags
    = parse_flag_names_loop all str p (len + length y) flags"
  using assms by (induction y arbitrary: len) auto

lemma parse_flag_names_loop_words:
  assumes "ws \<noteq> []" "set (map snd ws) \<subseteq> set page_flag_table" "r = [] \<or> (\<exists>r'. r = CHR ''='' # r')"
  shows "parse_flag_names_loop all (flag_words ws @ r) (flag_words ws @ r) 0 flags
    = Inr (flags OR flags_of (map snd (filter (\<lambda>(neg, e). \<not> neg \<or> all) ws)))"
  using assms(1,2)
proof (induction ws arbitrary: flags)
  case (Cons w ws)
  obtain neg n s where w [simp]: "w = (neg, n, s)" by (cases w)
  from Cons.prems(2) have e: "(n, s) \<in> set page_flag_table" by simp
  let ?x = "flag_word (neg, n, s)"
  have skip: "parse_flag_names_loop all str (?x @ p) 0 flags
      = parse_flag_names_loop all str p (length ?x) flags" for str p
    using parse_flag_names_loop_skip [of ?x all str p 0 flags] flag_word_chars [OF e] by simp
  have word: "parse_flag_word all (?x @ p) (length ?x) = Inr (if neg \<and> \<not> all then 0 else BIT n)" for p
    using parse_flag_word_entry [OF e] by simp
  show ?case
  proof (cases ws)
    case Nil
    have skip0: "parse_flag_names_loop all str ?x 0 flags
        = parse_flag_names_loop all str [] (length ?x) flags" for str
      using skip [of str "[]"] by (simp del: flag_word.simps)
    have word0: "parse_flag_word all ?x (length ?x) = Inr (if neg \<and> \<not> all then 0 else BIT n)"
      using word [of "[]"] by (simp del: flag_word.simps)
    from assms(3) Nil show ?thesis
      by (elim disjE exE) (simp_all add: flag_words_def skip skip0 word word0 del: flag_word.simps)
  next
    case (Cons w' ws')
    let ?rest = "flag_words ws @ r"
    have "flag_words (w # ws) @ r = ?x @ CHR '','' # ?rest"
      using Cons by (simp add: flag_words_def del: flag_word.simps)
    moreover have "parse_flag_names_loop all (?x @ CHR '','' # ?rest) (?x @ CHR '','' # ?rest) 0 flags
        = parse_flag_names_loop all ?rest ?rest 0 (flags OR (if neg \<and> \<not> all then 0 else BIT n))"
      by (simp add: skip word del: flag_word.simps)
    ultimately show ?thesis
      using Cons.IH Cons.prems(2) Cons by (simp add: or.assoc)
  qed
qed simp

lemma parse_flag_names_words:
  assumes "set (map snd ws) \<subseteq> set page_flag_table" "r = [] \<or> (\<exists>r'. r = CHR ''='' # r')"
  shows "parse_flag_names (flag_words ws @ r) all
    = Inr (flags_of (map snd (filter (\<lambda>(neg, e). \<not> neg \<or> all) ws)))"
proof (cases "ws = []")
  case True
  with assms(2) show ?thesis
    by (auto simp: parse_flag_names_def flag_words_def parse_flag_word_def parse_flag_name_def NUL_def)
next
  case False
  from parse_flag_names_loop_words [OF this assms] show ?thesis
    by (simp add: parse_flag_names_def)
qed


section \<open>Numbers\<close>

lemma hd_show_dec_zero: "hdc (show_dec n @ r) = CHR ''0'' \<longleftrightarrow> n = 0"
proof (induction n arbitrary: r rule: less_induct)
  case (less n)
  show ?case
  proof (cases "n < 10")
    case True
    with digit_char_cases [of n] show ?thesis
      by (auto simp: show_base.simps digit_char_def)
  next
    case False
    then have "n div 10 < n" "n div 10 \<noteq> 0" by auto
    with less.IH [OF this(1), of "digit_char (n mod 10) # r"] False show ?thesis
      by (subst show_base.simps) simp
  qed
qed

lemma dropWhile_isspace_show: "dropWhile c_isspace (show_base b n @ r) = show_base b n @ r"
  if "2 \<le> b" "b \<le> 16"
proof -
  obtain c cs where c: "show_base b n = c # cs" by (cases "show_base b n") auto
  then have "\<not> c_isspace c" using show_base_chars(1) [OF that, of c n] by simp
  with c show ?thesis by simp
qed

definition number_end :: "string \<Rightarrow> bool" where
  "number_end r \<longleftrightarrow> r = [] \<or> hd r = CHR '','' \<or> hd r = CHR ''+''"

lemma number_end_digit: "number_end r \<Longrightarrow> digit_of b (hdc r) = None"
  by (cases r) (auto simp: number_end_def digit_of_def NUL_def)

lemma strto_magnitude_dec:
  assumes "number_end r"
  shows "strto_magnitude 0 (show_dec n @ r) = n"
proof -
  obtain c cs where c: "show_dec n = c # cs" by (cases "show_dec n") auto
  have "take 2 (show_dec n @ r) \<notin> {''0x'', ''0X''}"
  proof
    assume "take 2 (show_dec n @ r) \<in> {''0x'', ''0X''}"
    then obtain d where d: "take 2 (show_dec n @ r) = [CHR ''0'', d]" "d \<noteq> CHR '',''" "d \<noteq> CHR ''+''"
      by auto
    with c have "n = 0" using hd_show_dec_zero [of n r] by simp
    then have "show_dec n = ''0''" by (simp add: show_base.simps digit_char_def)
    with d assms show False by (cases r) (auto simp: number_end_def)
  qed
  moreover have "digits_value 8 0 (''0'' @ r) = 0"
    using assms by (cases r) (auto simp: number_end_def digit_of_def)
  moreover have "show_dec 0 = ''0''" by (simp add: show_base.simps digit_char_def)
  moreover have "digits_value 10 0 (show_dec n @ r) = n"
    using digits_value_show_base [of 10 0 n r] assms
    by (simp add: digits_value_stop number_end_digit)
  ultimately show ?thesis
    using hd_show_dec_zero [of n r] by (auto simp: strto_magnitude_def)
qed

lemma parse_number_dec:
  assumes "number_end r"
  shows "parse_number (show_dec n @ r) = Inr (of_nat (min n (2 ^ 63 - 1)))"
proof -
  obtain c cs where c: "show_dec n = c # cs" by (cases "show_dec n") auto
  then have sign: "c \<noteq> CHR ''-''" "c \<noteq> CHR ''+''"
    using show_base_chars(2,3) [of 10 c n] by simp_all
  from strto_magnitude_dec [OF assms, of n] have v: "strtoll 0 (show_dec n @ r) = int (min n (2 ^ 63 - 1))"
    using c sign dropWhile_isspace_show [of 10 n r] by (simp add: strtoll_def)
  let ?k = "min n (2 ^ 63 - 1) :: nat"
  have "unat (of_nat ?k :: u64) = ?k" by (simp add: unat_of_nat_u64)
  then have "of_nat ?k = (0 :: u64) \<Longrightarrow> ?k = 0" by (metis unat_0)
  then have "of_nat ?k = (0 :: u64) \<Longrightarrow> n = 0" by (simp add: min_def split: if_splits)
  with hd_show_dec_zero [of n r] have "of_nat ?k = (0 :: u64) \<Longrightarrow> hdc (show_dec n @ r) = CHR ''0''"
    by blast
  with v show ?thesis unfolding parse_number_def Let_def by (auto simp del: of_nat_min)
qed

lemma parse_number_small:
  "number_end r \<Longrightarrow> int n < 2 ^ 63 \<Longrightarrow> parse_number (show_dec n @ r) = Inr (of_nat n)"
  by (simp add: parse_number_dec min_absorb1)

lemma strto_magnitude_hex: "strto_magnitude 0 (''0x'' @ show_hex n) = n"
proof -
  have d: "digit_of 16 (hdc (show_hex n)) \<noteq> None"
    using hd_show_base [of 16 n] by (cases "show_hex n") auto
  have "digits_value 16 0 (show_hex n) = n"
    using digits_value_show_base [of 16 0 n "[]"] by simp
  then show ?thesis using d by (simp add: strto_magnitude_def)
qed

lemma parse_number_hex:
  "parse_number (''0x'' @ show_hex n) = Inr (of_nat (min n (2 ^ 63 - 1)))"
proof -
  from strto_magnitude_hex [of n] have "strtoll 0 (''0x'' @ show_hex n) = int (min n (2 ^ 63 - 1))"
    by (simp add: strtoll_def c_isspace_def)
  then show ?thesis by (simp add: parse_number_def)
qed

lemma unat_ULONG_MAX: "unat ULONG_MAX = 2 ^ 64 - 1"
  by (simp add: ULONG_MAX_def unsigned_minus_1_eq_mask mask_eq_exp_minus_1)

lemma tl_append_not_self: "p = c # b \<Longrightarrow> a \<noteq> [] \<Longrightarrow> p \<noteq> a @ c # b"
  by (induction a) auto

lemma strchr_show_dec:
  "strchr (show_dec n @ r) (CHR '','') = strchr r (CHR '','')"
  "strchr (show_dec n @ r) (CHR ''+'') = strchr r (CHR ''+'')"
  using show_base_chars(3,6) [of 10 _ n] by (auto intro!: strchr_append_notin)

lemma show_dec_append_neq: "c # r \<noteq> show_dec n @ c # r"
  by (cases "show_dec n") auto

subsection \<open>Lists of plain and negated words\<close>

lemma word_lists [simp]:
  "map snd (plain_words es) = es" "map snd (negated_words es) = es"
  "filter (\<lambda>(neg, e). \<not> neg \<or> all) (plain_words es) = plain_words es"
  "filter (\<lambda>(neg, e). \<not> neg \<or> all) (negated_words es) = (if all then negated_words es else [])"
  by (simp_all add: plain_words_def negated_words_def comp_def filter_map)

lemmas word_lists_at [simp] = word_lists(3,4) [of False, simplified] word_lists(3,4) [of True, simplified]

lemma flags_of_append [simp]: "flags_of (es @ es') = flags_of es OR flags_of es'"
  by (induction es) (auto simp: or.assoc)

lemma flag_words_no_eq:
  assumes "set (map snd ws) \<subseteq> set page_flag_table"
  shows "CHR ''='' \<notin> set (flag_words ws)"
proof
  assume "CHR ''='' \<in> set (flag_words ws)"
  then obtain w where "w \<in> set ws" "CHR ''='' \<in> set (flag_word w)"
    using set_join_with [of "'',''" "map flag_word ws"] by (auto simp: flag_words_def)
  with assms flag_word_chars show False by (cases w) fastforce
qed

lemma flag_words_plain_no_tilde:
  assumes "set es \<subseteq> set page_flag_table"
  shows "CHR ''~'' \<notin> set (flag_words (plain_words es))"
proof
  assume "CHR ''~'' \<in> set (flag_words (plain_words es))"
  then obtain e where "e \<in> set es" "CHR ''~'' \<in> set (flag_word (False, e))"
    using set_join_with [of "'',''" "map flag_word (plain_words es)"]
    by (auto simp: flag_words_def plain_words_def)
  with assms entry_okD(2) show False by (cases e) fastforce
qed

lemma flag_words_negated_tilde:
  assumes "es' \<noteq> []"
  shows "CHR ''~'' \<in> set (flag_words (ws @ negated_words es'))"
proof -
  obtain n s es'' where "es' = (n, s) # es''" using assms by (cases es') auto
  then have "flag_word (True, n, s) \<in> set (map flag_word (ws @ negated_words es'))"
    by (simp add: negated_words_def del: flag_word.simps)
  from in_join_with [OF this, of "'',''"] show ?thesis by (auto simp: flag_words_def)
qed

lemma flag_words_not_Nil:
  assumes "set (map snd ws) \<subseteq> set page_flag_table" "ws \<noteq> []"
  shows "flag_words ws \<noteq> []"
proof -
  obtain neg n s ws' where w: "ws = (neg, n, s) # ws'" using assms(2) by (cases ws) auto
  with assms(1) entry_okD(1) [of n s] have "flag_word (neg, n, s) \<noteq> []" by auto
  moreover have "set (flag_word (neg, n, s)) \<subseteq> set (flag_words ws)"
    unfolding flag_words_def w by (intro in_join_with) simp
  ultimately show ?thesis by (cases "flag_word (neg, n, s)") (auto simp del: flag_word.simps)
qed

lemma parse_flag_names_simps:
  assumes "set (map snd ws) \<subseteq> set page_flag_table"
  shows "parse_flag_names (flag_words ws) all
      = Inr (flags_of (map snd (filter (\<lambda>(neg, e). \<not> neg \<or> all) ws)))"
    and "parse_flag_names (flag_words ws @ CHR ''='' # r) all
      = Inr (flags_of (map snd (filter (\<lambda>(neg, e). \<not> neg \<or> all) ws)))"
  using parse_flag_names_words [OF assms, of "[]"] parse_flag_names_words [OF assms, of "CHR ''='' # r"]
  by simp_all

section \<open>Properties\<close>

text \<open>
  C27. Round trip of \<open>--describe\<close>: reading the long name of a flag word back as a list of flag names
  gives the flags of the word that have a name, whichever way negated words are treated.
\<close>

theorem flag_names_roundtrip:
  "rbind (page_flag_longname flags) (\<lambda>s. parse_flag_names s all) = Inr (flags AND flags_of page_flag_table)"
proof -
  let ?es = "filter (\<lambda>(n, s). bit flags n) page_flag_table"
  let ?ws = "map (\<lambda>e. (False, e)) ?es"
  have "flag_words ?ws = join_with '','' (names_of flags)"
    by (auto simp: flag_words_def names_of_def split: prod.splits intro!: arg_cong [where f = "join_with _"])
  moreover have "set (map snd ?ws) \<subseteq> set page_flag_table" by (simp add: comp_def)
  ultimately have "parse_flag_names (join_with '','' (names_of flags)) all
      = Inr (flags_of (map snd (filter (\<lambda>(neg, e). \<not> neg \<or> all) ?ws)))"
    using parse_flag_names_words [of ?ws "[]" all] by simp
  also have "map snd (filter (\<lambda>(neg, e). \<not> neg \<or> all) ?ws) = ?es"
    by (simp add: filter_map comp_def)
  also have "flags_of ?es = flags AND flags_of page_flag_table"
    by (rule u64_eqI) (auto simp: bit_flags_of bit_and_iff)
  finally show ?thesis by (simp add: page_flag_longname_eq)
qed

text \<open>
  The four documented forms of \<open>--bits\<close>, for any lists of flag names: \<open>b1,b2\<close> selects the words
  with one of the flags, \<open>b1,b2=b1\<close> compares the masked word, \<open>b1,~b2\<close> asks for the plain flags and
  against the negated ones, \<open>=b1,b2\<close> asks for exactly these flags.
\<close>

theorem parse_bits_mask_forms:
  assumes es: "set es \<subseteq> set page_flag_table" "es \<noteq> []"
    and es': "set es' \<subseteq> set page_flag_table" "es' \<noteq> []"
    and room: "length (bit_filters opts) < MAX_BIT_FILTERS"
  shows "parse_bits_mask (flag_words (plain_words es)) opts
      = Inr (opts\<lparr>bit_filters := bit_filters opts @ [(flags_of es, KPF_ALL_BITS)]\<rparr>)
    \<and> parse_bits_mask (flag_words (plain_words es) @ ''='' @ flag_words (plain_words es')) opts
      = Inr (opts\<lparr>bit_filters := bit_filters opts @ [(flags_of es, flags_of es')]\<rparr>)
    \<and> parse_bits_mask (flag_words (plain_words es @ negated_words es')) opts
      = Inr (opts\<lparr>bit_filters := bit_filters opts @ [(flags_of es OR flags_of es', flags_of es)]\<rparr>)
    \<and> parse_bits_mask (''='' @ flag_words (plain_words es)) opts
      = Inr (opts\<lparr>bit_filters := bit_filters opts @ [(KPF_ALL_BITS, flags_of es)]\<rparr>)"
proof (intro conjI)
  let ?p = "plain_words es" and ?n = "negated_words es'"
  have tab: "set (map snd ?p) \<subseteq> set page_flag_table" "set (map snd (plain_words es')) \<subseteq> set page_flag_table"
    "set (map snd (?p @ ?n)) \<subseteq> set page_flag_table"
    using es(1) es'(1) by simp_all
  note parse = parse_flag_names_simps [OF tab(1)] parse_flag_names_simps [OF tab(2)]
    parse_flag_names_simps [OF tab(3)]
  have add: "add_bits_filter m b opts = Inr (opts\<lparr>bit_filters := bit_filters opts @ [(m, b)]\<rparr>)" for m b
    using room by (simp add: add_bits_filter_def)
  have no_eq: "strchr (flag_words ws) (CHR ''='') = None" if "set (map snd ws) \<subseteq> set page_flag_table" for ws
    using flag_words_no_eq [OF that] by (simp add: cstr)
  show "parse_bits_mask (flag_words ?p) opts
      = Inr (opts\<lparr>bit_filters := bit_filters opts @ [(flags_of es, KPF_ALL_BITS)]\<rparr>)"
    using no_eq [OF tab(1)] flag_words_plain_no_tilde [OF es(1)]
    by (simp add: parse_bits_mask_def parse add cstr)
  show "parse_bits_mask (flag_words (?p @ ?n)) opts
      = Inr (opts\<lparr>bit_filters := bit_filters opts @ [(flags_of es OR flags_of es', flags_of es)]\<rparr>)"
    using no_eq [OF tab(3)] flag_words_negated_tilde [OF es'(2), of ?p]
    by (simp add: parse_bits_mask_def parse add cstr)
  show "parse_bits_mask (''='' @ flag_words ?p) opts
      = Inr (opts\<lparr>bit_filters := bit_filters opts @ [(KPF_ALL_BITS, flags_of es)]\<rparr>)"
    by (simp add: parse_bits_mask_def parse add)
  have "?p \<noteq> []" using es(2) by (simp add: plain_words_def)
  then have "flag_words ?p \<noteq> []" by (rule flag_words_not_Nil [OF tab(1)])
  moreover have "strchr (flag_words ?p @ CHR ''='' # flag_words (plain_words es')) (CHR ''='')
      = Some (CHR ''='' # flag_words (plain_words es'))"
    using flag_words_no_eq [OF tab(1)] by (simp add: cstr)
  ultimately show "parse_bits_mask (flag_words ?p @ ''='' @ flag_words (plain_words es')) opts
      = Inr (opts\<lparr>bit_filters := bit_filters opts @ [(flags_of es, flags_of es')]\<rparr>)"
    by (simp add: parse_bits_mask_def parse add)
qed


theorem parse_bits_mask_forms_witness:
  "parse_bits_mask ''locked,error''
      (no_opts 4096)
    = Inr ((no_opts 4096)\<lparr>bit_filters := [(flags_of [(0, ''L:locked''), (1, ''E:error'')], KPF_ALL_BITS)]\<rparr>)"
  using parse_bits_mask_forms [of "[(0, ''L:locked''), (1, ''E:error'')]" "[(4, ''D:dirty'')]"
      "no_opts 4096"]
  by (simp add: no_opts_def page_flag_table_def MAX_BIT_FILTERS_def flag_words_def plain_words_def)

text \<open>
  The documented forms of \<open>--addr\<close> for numbers below \<open>2^63\<close>: \<open>N\<close> is one page, \<open>N+M\<close> is \<open>M\<close>
  pages from \<open>N\<close>, \<open>N,M\<close> ends before \<open>M\<close> and is refused when \<open>M < N\<close>, \<open>N,\<close> runs to the end and
  \<open>,M\<close> starts at 0. No range goes past the last page number.
\<close>

theorem parse_addr_range_forms:
  assumes n: "int n < 2 ^ 63" and m: "int m < 2 ^ 63"
    and room: "length (addr_ranges opts) < MAX_ADDR_RANGES"
  shows "parse_addr_range (show_dec n) opts
      = Inr (opts\<lparr>addr_ranges := addr_ranges opts @ [(of_nat n, 1)]\<rparr>)
    \<and> parse_addr_range (show_dec n @ ''+'' @ show_dec m) opts
      = Inr (opts\<lparr>addr_ranges := addr_ranges opts @ [(of_nat n, of_nat m)]\<rparr>)
    \<and> parse_addr_range (show_dec n @ '','' @ show_dec m) opts
      = (if m < n then Inl (Fatal (''invalid range: '' @ show_dec n @ '','' @ show_dec m))
         else Inr (opts\<lparr>addr_ranges := addr_ranges opts @ [(of_nat n, of_nat (m - n))]\<rparr>))
    \<and> parse_addr_range (show_dec n @ '','') opts
      = Inr (opts\<lparr>addr_ranges := addr_ranges opts @ [(of_nat n, ULONG_MAX - of_nat n)]\<rparr>)
    \<and> parse_addr_range ('','' @ show_dec m) opts
      = Inr (opts\<lparr>addr_ranges := addr_ranges opts @ [(0, of_nat m)]\<rparr>)"
proof -
  have un: "unat (of_nat n :: u64) = n" and um: "unat (of_nat m :: u64) = m"
    using n m by (simp_all add: unat_of_nat_u64)
  have max: "unat (ULONG_MAX - of_nat n) = 2 ^ 64 - 1 - n" "of_nat n \<le> ULONG_MAX"
    using un unat_sub [of "of_nat n" ULONG_MAX] unat_ULONG_MAX n
    by (simp_all add: word_le_nat_alt)
  have room_n: "1 \<le> 2 ^ 64 - 1 - n" and room_m: "m \<le> 2 ^ 64 - 1 - n"
    using n m by simp_all
  have le: "min 1 (ULONG_MAX - of_nat n) = 1" "min (of_nat m) (ULONG_MAX - of_nat n) = of_nat m"
    using room_n room_m um by (auto simp add: min_def word_le_nat_alt max)
  have sub: "m \<ge> n \<Longrightarrow> min (of_nat m - of_nat n) (ULONG_MAX - of_nat n) = of_nat (m - n)"
    using room_m um un by (auto simp add: min_def word_le_nat_alt max unat_sub of_nat_diff)
  have less: "(of_nat m :: u64) < of_nat n \<longleftrightarrow> m < n"
    by (simp add: word_less_nat_alt un um)
  have min0: "min (of_nat m) ULONG_MAX = of_nat m" "min ULONG_MAX (ULONG_MAX - of_nat n) = ULONG_MAX - of_nat n"
    by (simp_all add: ULONG_MAX_def min_def word_order.extremum_unique)
  note pn = parse_number_small [OF _ n] parse_number_small [OF _ m]
  note pn0 = parse_number_small [OF _ n, of "[]", simplified] parse_number_small [OF _ m, of "[]", simplified]
  note simps = parse_addr_range_def add_addr_range_def number_end_def pn pn0 room not_le le sub less
    min0 strchr_show_dec strchr_notin show_dec_append_neq un um
  have nc: "strchr (show_dec k) (CHR '','') = None" "strchr (show_dec k) (CHR ''+'') = None" for k
    using strchr_show_dec [of k "[]"] by simp_all
  show ?thesis
    using room by (simp add: simps nc)
qed


theorem parse_addr_range_forms_witness:
  "parse_addr_range ''3,5''
      (no_opts 4096)
    = Inr ((no_opts 4096)\<lparr>addr_ranges := [(3, 2)]\<rparr>)"
  using parse_addr_range_forms [of 3 5 
      "no_opts 4096"]
  by (simp add: no_opts_def MAX_ADDR_RANGES_def show_base.simps digit_char_def)

text \<open>
  A decimal or hexadecimal number is read as itself up to \<open>2^63 - 1\<close> and as \<open>2^63 - 1\<close> above:
  the parser goes through the signed \<open>strtoll\<close>, so the upper half of the words cannot be given.
\<close>

theorem parse_number_saturates:
  "parse_number (show_dec n) = Inr (of_nat (min n (2 ^ 63 - 1)))
    \<and> parse_number (''0x'' @ show_hex n) = Inr (of_nat (min n (2 ^ 63 - 1)))"
  using parse_number_dec [of "[]" n] parse_number_hex [of n] by (simp add: number_end_def)

end
