(* ===== verification/Page_Hash.thy ===== *)
theory Page_Hash
  imports Page_Options
begin

text \<open>
  The page counters of \<open>page-types.c\<close>: the table \<open>page_flags\<close>/\<open>nr_pages\<close> of \<open>HASH_SIZE\<close> slots, the
  search \<open>hash_slot\<close> with linear probing, the counting step of \<open>add_page\<close> and the summary. An array
  is a function from the index; every access of the code is at an index below \<open>HASH_SIZE\<close>.
\<close>

section \<open>The table\<close>

definition HASH_SHIFT :: nat where "HASH_SHIFT = 13"
definition HASH_SIZE :: nat where "HASH_SIZE = 2 ^ HASH_SHIFT"
definition HASH_MASK :: u64 where "HASH_MASK = of_nat HASH_SIZE - 1"
definition HASH_KEY :: "u64 \<Rightarrow> nat" where "HASH_KEY flags = unat (flags AND HASH_MASK)"

record page_table =
  page_flags :: "nat \<Rightarrow> u64"
  nr_pages :: "nat \<Rightarrow> u64"
  total_pages :: u64

definition no_pages :: page_table where
  "no_pages = \<lparr>page_flags = (\<lambda>_. 0), nr_pages = (\<lambda>_. 0), total_pages = 0\<rparr>"

text \<open>The \<open>for\<close> loop; the first argument counts the iterations left.\<close>

fun hash_probe :: "nat \<Rightarrow> (nat \<Rightarrow> u64) \<Rightarrow> u64 \<Rightarrow> nat \<Rightarrow> ((nat \<Rightarrow> u64) \<times> nat) res" where
  "hash_probe 0 pf flags k = Inl (Fatal ''hash table full: bump up HASH_SHIFT?'')"
| "hash_probe (Suc i) pf flags k =
     (let k = (if k = 0 \<or> HASH_SIZE \<le> k then 1 else k)
      in if pf k = 0 then Inr (pf(k := flags), k)
         else if pf k = flags then Inr (pf, k)
         else hash_probe i pf flags (Suc k))"

definition hash_slot :: "(nat \<Rightarrow> u64) \<Rightarrow> u64 \<Rightarrow> ((nat \<Rightarrow> u64) \<times> nat) res" where
  "hash_slot pf flags =
     (if flags = 0 then Inr (pf, 0) else hash_probe (HASH_SIZE - 1) pf flags (HASH_KEY flags))"

text \<open>The last two statements of \<open>add_page\<close>.\<close>

definition count_page :: "u64 \<Rightarrow> page_table \<Rightarrow> page_table res" where
  "count_page flags t =
     rbind (hash_slot (page_flags t) flags) (\<lambda>(pf, k).
       Inr \<lparr>page_flags = pf, nr_pages = (nr_pages t)(k := nr_pages t k + 1),
            total_pages = total_pages t + 1\<rparr>)"

definition summary_line :: "u64 \<Rightarrow> u64 \<Rightarrow> u64 \<Rightarrow> string res" where
  "summary_line pgsz flags n =
     rbind (page_flag_name flags) (\<lambda>name.
     rbind (page_flag_longname flags) (\<lambda>longname.
       Inr (''0x'' @ fmt_hex16 flags @ [TAB] @ fmt_right 10 (show_dec (unat n)) @ '' ''
            @ fmt_right 8 (show_dec (unat (pages2mb pgsz n))) @ ''  '' @ name @ [TAB] @ longname @ [NL])))"

definition summary_slots :: "page_table \<Rightarrow> nat list" where
  "summary_slots t = filter (\<lambda>i. nr_pages t i \<noteq> 0) [0..<HASH_SIZE]"

definition show_summary :: "u64 \<Rightarrow> page_table \<Rightarrow> string res" where
  "show_summary pgsz t =
     rbind (foldE (\<lambda>i out. rbind (summary_line pgsz (page_flags t i) (nr_pages t i)) (\<lambda>l. Inr (out @ l)))
              (summary_slots t)
              (''             flags'' @ [TAB] @ ''page-count       MB  symbolic-flags'' @ [TAB, TAB, TAB]
               @ ''long-symbolic-flags'' @ [NL]))
       (\<lambda>out. Inr (out @ ''             total'' @ [TAB] @ fmt_right 10 (show_dec (unat (total_pages t))) @ '' ''
                    @ fmt_right 8 (show_dec (unat (pages2mb pgsz (total_pages t)))) @ [NL]))"

section \<open>Probing\<close>

definition probe_at :: "nat \<Rightarrow> nat" where
  "probe_at k = (if k = 0 \<or> HASH_SIZE \<le> k then 1 else k)"

fun probe_path :: "nat \<Rightarrow> nat \<Rightarrow> nat list" where
  "probe_path 0 k = []"
| "probe_path (Suc n) k = probe_at k # probe_path n (Suc (probe_at k))"

lemma hash_size_gt: "2 < HASH_SIZE"
  by (simp add: HASH_SIZE_def HASH_SHIFT_def)

lemma hash_probe_numeral:
  "hash_probe (numeral n) pf flags k =
     (let k = (if k = 0 \<or> HASH_SIZE \<le> k then 1 else k)
      in if pf k = 0 then Inr (pf(k := flags), k)
         else if pf k = flags then Inr (pf, k)
         else hash_probe (pred_numeral n) pf flags (Suc k))"
  by (simp add: numeral_eq_Suc)

lemma hash_probe_find:
  "hash_probe n pf flags k
    = (case find (\<lambda>k. pf k = 0 \<or> pf k = flags) (probe_path n k) of
         None \<Rightarrow> Inl (Fatal ''hash table full: bump up HASH_SHIFT?'')
       | Some k \<Rightarrow> Inr (if pf k = 0 then pf(k := flags) else pf, k))"
  by (induction n arbitrary: k) (auto simp: Let_def probe_at_def)

lemma probe_path_eq:
  "probe_path n k = map (\<lambda>j. (probe_at k - 1 + j) mod (HASH_SIZE - 1) + 1) [0..<n]"
proof (induction n arbitrary: k)
  case (Suc n)
  have k: "1 \<le> probe_at k" "probe_at k < HASH_SIZE"
    using hash_size_gt by (auto simp: probe_at_def)
  have "(probe_at (Suc (probe_at k)) - 1 + j) mod (HASH_SIZE - 1)
      = (probe_at k - 1 + Suc j) mod (HASH_SIZE - 1)" for j
  proof (cases "Suc (probe_at k) = HASH_SIZE")
    case True
    then have "probe_at (Suc (probe_at k)) = 1" by (simp add: probe_at_def)
    moreover have "probe_at k - 1 + Suc j = j + (HASH_SIZE - 1)" using True k by simp
    ultimately show ?thesis by (simp only: mod_add_self2 diff_self_eq_0 add_0)
  next
    case False
    with k have "probe_at (Suc (probe_at k)) = Suc (probe_at k)" by (simp add: probe_at_def)
    with k show ?thesis by simp
  qed
  then have "probe_path n (Suc (probe_at k))
      = map (\<lambda>j. (probe_at k - 1 + Suc j) mod (HASH_SIZE - 1) + 1) [0..<n]"
    by (simp add: Suc.IH)
  moreover have "[0..<Suc n] = 0 # map Suc [0..<n]"
    by (simp add: map_Suc_upt upt_conv_Cons del: upt_Suc)
  ultimately show ?case using k by (simp add: comp_def del: upt_Suc)
qed simp

lemma ring_cover:
  assumes "a < m" "r < m"
  shows "\<exists>j<m. (a + j) mod m = (r :: nat)"
proof (cases "a \<le> r")
  case True
  with assms show ?thesis by (intro exI [of _ "r - a"]) simp
next
  case False
  with assms have "a + (r + m - a) = r + m" "r + m - a < m" by simp_all
  with assms show ?thesis by (intro exI [of _ "r + m - a"]) simp
qed

lemma set_probe_path: "set (probe_path (HASH_SIZE - 1) k) = {1..<HASH_SIZE}"
proof -
  let ?m = "HASH_SIZE - 1" and ?a = "probe_at k - 1"
  have "?a < ?m" using hash_size_gt by (auto simp: probe_at_def)
  have "(\<lambda>j. (?a + j) mod ?m + 1) ` {..<?m} = {1..<HASH_SIZE}"
  proof (intro equalityI subsetI)
    fix k' assume "k' \<in> {1..<HASH_SIZE}"
    then have "k' - 1 < ?m" "k' = (k' - 1) + 1" by auto
    moreover from ring_cover [OF \<open>?a < ?m\<close> this(1)]
    obtain j where "j < ?m" "(?a + j) mod ?m = k' - 1" by blast
    ultimately show "k' \<in> (\<lambda>j. (?a + j) mod ?m + 1) ` {..<?m}"
      by (intro image_eqI [of _ _ j]) simp_all
  next
    fix k' assume "k' \<in> (\<lambda>j. (?a + j) mod ?m + 1) ` {..<?m}"
    then obtain j where "k' = (?a + j) mod ?m + 1" by blast
    moreover have "(?a + j) mod ?m < ?m" using \<open>?a < ?m\<close> by (intro mod_less_divisor) simp
    ultimately show "k' \<in> {1..<HASH_SIZE}" by simp
  qed
  then show ?thesis by (simp add: probe_path_eq atLeast0LessThan)
qed

section \<open>The interface of a slot search\<close>

text \<open>
  What counting needs of \<open>hash_slot\<close>: \<open>owner t s\<close> is the key a slot belongs to. Searching gives a
  slot of the key, a slot keeps its key, and no key has two slots.
\<close>

locale slot_search =
  fixes slot :: "'t \<Rightarrow> 'k \<Rightarrow> ('t \<times> 's) res"
    and owner :: "'t \<Rightarrow> 's \<Rightarrow> 'k option"
    and ok :: "'t \<Rightarrow> bool"
  assumes slot_ok: "ok t \<Longrightarrow> slot t key = Inr (t', s) \<Longrightarrow> ok t'"
    and slot_owner: "ok t \<Longrightarrow> slot t key = Inr (t', s) \<Longrightarrow> owner t' s = Some key"
    and slot_other: "ok t \<Longrightarrow> slot t key = Inr (t', s) \<Longrightarrow> r \<noteq> s \<Longrightarrow> owner t' r = owner t r"
    and slot_fresh: "ok t \<Longrightarrow> slot t key = Inr (t', s) \<Longrightarrow> owner t s \<in> {None, Some key}"
    and owner_unique: "ok t \<Longrightarrow> owner t s = Some key \<Longrightarrow> owner t r = Some key \<Longrightarrow> r = s"
begin

definition tally :: "'k \<Rightarrow> 't \<times> ('s \<Rightarrow> 'n) \<Rightarrow> ('t \<times> ('s \<Rightarrow> 'n :: comm_semiring_1)) res" where
  "tally key tc = rbind (slot (fst tc) key) (\<lambda>(t, s). Inr (t, (snd tc)(s := snd tc s + 1)))"

definition tallied :: "'k list \<Rightarrow> 't \<times> ('s \<Rightarrow> 'n :: comm_semiring_1) \<Rightarrow> bool" where
  "tallied ks tc \<longleftrightarrow> ok (fst tc)
     \<and> (\<forall>s. snd tc s = (case owner (fst tc) s of None \<Rightarrow> 0 | Some k \<Rightarrow> of_nat (count_list ks k)))
     \<and> (\<forall>k \<in> set ks. \<exists>s. owner (fst tc) s = Some k)"

lemma tally_step:
  assumes "tallied ks tc" "tally key tc = Inr tc'"
  shows "tallied (ks @ [key]) tc'"
proof -
  from assms(2) obtain t' s where s: "slot (fst tc) key = Inr (t', s)"
    and tc': "tc' = (t', (snd tc)(s := snd tc s + 1))"
    by (auto simp: tally_def)
  have ok: "ok (fst tc)" and cnt: "\<And>s. snd tc s = (case owner (fst tc) s of None \<Rightarrow> 0
      | Some k \<Rightarrow> of_nat (count_list ks k))"
    and all: "\<And>k. k \<in> set ks \<Longrightarrow> \<exists>s. owner (fst tc) s = Some k"
    using assms(1) by (auto simp: tallied_def)
  note own = slot_owner [OF ok s] and other = slot_other [OF ok s] and fresh = slot_fresh [OF ok s]
  have ok': "ok t'" by (rule slot_ok [OF ok s])
  have none: "count_list ks key = 0" if "owner (fst tc) s = None"
  proof (rule ccontr)
    assume "count_list ks key \<noteq> 0"
    then have "key \<in> set ks" by (simp add: count_list_0_iff)
    from all [OF this] obtain r where r: "owner (fst tc) r = Some key" by blast
    with that have "r \<noteq> s" by auto
    with r other [OF this] have "owner t' r = Some key" by simp
    from owner_unique [OF ok' own this] \<open>r \<noteq> s\<close> show False by simp
  qed
  have "snd tc' r = (case owner (fst tc') r of None \<Rightarrow> 0 | Some k \<Rightarrow> of_nat (count_list (ks @ [key]) k))" for r
  proof (cases "r = s")
    case True
    with own fresh cnt [of s] none show ?thesis by (auto simp: tc' add.commute split: option.splits)
  next
    case False
    then have "owner t' r \<noteq> Some key" using owner_unique [OF ok' own, of r] by blast
    with False other [OF False] cnt [of r] show ?thesis
      by (auto simp: tc' split: option.splits)
  qed
  moreover have "\<exists>r. owner t' r = Some k" if "k \<in> set (ks @ [key])" for k
  proof (cases "k = key")
    case True
    with own show ?thesis by blast
  next
    case False
    with that have "k \<in> set ks" by simp
    from all [OF this] obtain r where r: "owner (fst tc) r = Some k" by blast
    with False fresh have "r \<noteq> s" by auto
    from other [OF this] r show ?thesis by auto
  qed
  ultimately show ?thesis using ok' by (auto simp: tallied_def tc')
qed

lemma tally_all:
  assumes "foldE tally ks tc = Inr tc'" "tallied [] tc"
  shows "tallied ks tc'"
  using assms(1)
proof (induction ks arbitrary: tc' rule: rev_induct)
  case Nil
  with assms(2) show ?case by simp
next
  case (snoc k ks)
  then obtain u where "foldE tally ks tc = Inr u" "tally k u = Inr tc'" by auto
  with snoc.IH tally_step show ?case by blast
qed

end

section \<open>\<open>hash_slot\<close> is a slot search\<close>

text \<open>
  The table is sound when slot 0 is left to the word 0 and probing for the word of any other
  occupied slot ends at that slot.
\<close>

definition hash_owner :: "(nat \<Rightarrow> u64) \<Rightarrow> nat \<Rightarrow> u64 option" where
  "hash_owner pf k =
     (if k = 0 then Some 0 else if k < HASH_SIZE \<and> pf k \<noteq> 0 then Some (pf k) else None)"

definition table_ok :: "(nat \<Rightarrow> u64) \<Rightarrow> bool" where
  "table_ok pf \<longleftrightarrow> pf 0 = 0 \<and> (\<forall>k. pf k \<noteq> 0 \<longrightarrow> hash_slot pf (pf k) = Inr (pf, k))"

definition home_path :: "u64 \<Rightarrow> nat list" where
  "home_path flags = probe_path (HASH_SIZE - 1) (HASH_KEY flags)"

lemma hash_slot_find:
  "hash_slot pf flags = (if flags = 0 then Inr (pf, 0) else
     case find (\<lambda>k. pf k = 0 \<or> pf k = flags) (home_path flags) of
       None \<Rightarrow> Inl (Fatal ''hash table full: bump up HASH_SHIFT?'')
     | Some k \<Rightarrow> Inr (if pf k = 0 then pf(k := flags) else pf, k))"
  by (simp add: hash_slot_def hash_probe_find home_path_def)

lemma find_transfer:
  "find P xs = Some s \<Longrightarrow> Q s \<Longrightarrow> (\<And>x. x \<noteq> s \<Longrightarrow> \<not> P x \<Longrightarrow> \<not> Q x) \<Longrightarrow> find Q xs = Some s"
  by (induction xs) (auto split: if_splits)

lemma hash_slot_Some:
  assumes "hash_slot pf flags = Inr (pf', s)" "flags \<noteq> 0"
  shows "1 \<le> s" "s < HASH_SIZE" "pf' = pf(s := flags)" "pf s = 0 \<or> pf s = flags"
    "find (\<lambda>k. pf k = 0 \<or> pf k = flags) (home_path flags) = Some s"
proof -
  from assms show f: "find (\<lambda>k. pf k = 0 \<or> pf k = flags) (home_path flags) = Some s"
    by (auto simp: hash_slot_find split: option.splits)
  then have "s \<in> set (home_path flags)" and P: "pf s = 0 \<or> pf s = flags"
    by (auto simp: find_Some_iff)
  then show "1 \<le> s" "s < HASH_SIZE" using set_probe_path by (auto simp: home_path_def)
  show "pf s = 0 \<or> pf s = flags" by (rule P)
  with assms f show "pf' = pf(s := flags)" by (auto simp: hash_slot_find)
qed

lemma hash_slot_home:
  "find (\<lambda>k. pf k = 0 \<or> pf k = g) (home_path g) = Some k \<Longrightarrow> pf k = g \<Longrightarrow> g \<noteq> 0
    \<Longrightarrow> hash_slot pf g = Inr (pf, k)"
  by (simp add: hash_slot_find)

lemma table_ok_slot:
  assumes ok: "table_ok pf" and slot: "hash_slot pf flags = Inr (pf', s)"
  shows "table_ok pf'"
proof (cases "flags = 0 \<or> pf s = flags")
  case True
  have "pf' = pf"
  proof (cases "flags = 0")
    case True
    with slot show ?thesis by (simp add: hash_slot_def)
  next
    case False
    with True slot hash_slot_Some(3) [OF slot] show ?thesis by auto
  qed
  with ok show ?thesis by simp
next
  case False
  then have nz: "flags \<noteq> 0" and "pf s \<noteq> flags" by auto
  note s = hash_slot_Some [OF slot nz]
  have pf': "pf' = pf(s := flags)" and free: "pf s = 0" using s(3,4) \<open>pf s \<noteq> flags\<close> by auto
  have "hash_slot pf' (pf' k) = Inr (pf', k)" if "pf' k \<noteq> 0" for k
  proof (cases "k = s")
    case True
    have "find (\<lambda>k. pf' k = 0 \<or> pf' k = flags) (home_path flags) = Some s"
      by (rule find_transfer [OF s(5)]) (auto simp: pf')
    with True nz show ?thesis by (simp add: pf' hash_slot_home)
  next
    case False
    with that have "pf k \<noteq> 0" by (simp add: pf')
    with ok have "hash_slot pf (pf k) = Inr (pf, k)" by (simp add: table_ok_def)
    from hash_slot_Some(5) [OF this \<open>pf k \<noteq> 0\<close>]
    have "find (\<lambda>x. pf' x = 0 \<or> pf' x = pf k) (home_path (pf k)) = Some k"
      by (rule find_transfer) (use False free in \<open>auto simp: pf' split: if_splits\<close>)
    with False \<open>pf k \<noteq> 0\<close> show ?thesis by (simp add: pf' hash_slot_home)
  qed
  moreover have "pf' 0 = 0" using ok s(1) by (simp add: pf' table_ok_def)
  ultimately show ?thesis by (simp add: table_ok_def)
qed

lemma hash_owner_Some: "table_ok pf \<Longrightarrow> hash_owner pf k = Some g \<Longrightarrow> hash_slot pf g = Inr (pf, k)"
  by (auto simp: hash_owner_def table_ok_def hash_slot_def split: if_splits)

interpretation hash: slot_search hash_slot hash_owner table_ok
proof unfold_locales
  fix t t' key s
  assume ok: "table_ok t" and slot: "hash_slot t key = Inr (t', s)"
  show "table_ok t'" by (rule table_ok_slot [OF ok slot])
  show "hash_owner t' s = Some key"
  proof (cases "key = 0")
    case True
    with slot show ?thesis by (auto simp: hash_slot_def hash_owner_def)
  next
    case False
    with hash_slot_Some [OF slot False] show ?thesis by (simp add: hash_owner_def)
  qed
  show "hash_owner t s \<in> {None, Some key}"
  proof (cases "key = 0")
    case True
    with slot show ?thesis by (auto simp: hash_slot_def hash_owner_def)
  next
    case False
    with hash_slot_Some [OF slot False] show ?thesis by (auto simp: hash_owner_def)
  qed
  show "hash_owner t' r = hash_owner t r" if "r \<noteq> s" for r
  proof (cases "key = 0")
    case True
    with slot show ?thesis by (auto simp: hash_slot_def)
  next
    case False
    with that hash_slot_Some [OF slot False] show ?thesis by (simp add: hash_owner_def)
  qed
next
  fix t s key r
  assume "table_ok t" "hash_owner t s = Some key" "hash_owner t r = Some key"
  from hash_owner_Some [OF this(1,2)] hash_owner_Some [OF this(1,3)] show "r = s" by simp
qed

lemma hash_slot_full:
  "hash_slot pf flags = Inl e \<longleftrightarrow>
     flags \<noteq> 0 \<and> (\<forall>k \<in> {1..<HASH_SIZE}. pf k \<noteq> 0 \<and> pf k \<noteq> flags)
     \<and> e = Fatal ''hash table full: bump up HASH_SHIFT?''"
proof -
  have "find (\<lambda>k. pf k = 0 \<or> pf k = flags) (home_path flags) = None
    \<longleftrightarrow> (\<forall>k \<in> {1..<HASH_SIZE}. pf k \<noteq> 0 \<and> pf k \<noteq> flags)"
    unfolding find_None_iff home_path_def set_probe_path by auto
  then show ?thesis by (auto simp only: hash_slot_find sum.simps split: option.splits if_splits)
qed

section \<open>Counting pages\<close>

lemma count_page_tally:
  "count_page flags t = Inr t' \<Longrightarrow>
     hash.tally flags (page_flags t, nr_pages t) = Inr (page_flags t', nr_pages t')
     \<and> total_pages t' = total_pages t + 1"
  by (auto simp: count_page_def hash.tally_def)

lemma count_pages_tally:
  "foldE count_page fs t = Inr t' \<Longrightarrow>
     foldE hash.tally fs (page_flags t, nr_pages t) = Inr (page_flags t', nr_pages t')
     \<and> total_pages t' = total_pages t + of_nat (length fs)"
proof (induction fs arbitrary: t)
  case (Cons f fs)
  from Cons.prems obtain u where u: "count_page f t = Inr u" "foldE count_page fs u = Inr t'" by auto
  with Cons.IH [OF u(2)] count_page_tally [OF u(1)] show ?case by (simp add: algebra_simps)
qed simp

lemma table_ok_empty: "table_ok (\<lambda>_. 0)"
  by (simp add: table_ok_def)

lemma count_pages_tallied:
  assumes "foldE count_page fs no_pages = Inr t"
  shows "hash.tallied fs (page_flags t, nr_pages t)" "total_pages t = of_nat (length fs)"
proof -
  have "hash.tallied [] (\<lambda>_. 0, \<lambda>_. 0 :: u64)"
    by (auto simp: hash.tallied_def table_ok_empty split: option.splits)
  with count_pages_tally [OF assms] hash.tally_all
  show "hash.tallied fs (page_flags t, nr_pages t)" "total_pages t = of_nat (length fs)"
    by (auto simp: no_pages_def)
qed

definition occupied :: "(nat \<Rightarrow> u64) \<Rightarrow> nat set" where
  "occupied pf = {k. pf k \<noteq> 0}"

lemma occupied_bounds:
  assumes "table_ok pf"
  shows "occupied pf \<subseteq> {1..<HASH_SIZE}" "inj_on pf (occupied pf)"
proof -
  have k: "hash_slot pf (pf k) = Inr (pf, k)" if "pf k \<noteq> 0" for k
    using assms that by (simp add: table_ok_def)
  show "occupied pf \<subseteq> {1..<HASH_SIZE}"
  proof
    fix k assume "k \<in> occupied pf"
    then have "pf k \<noteq> 0" by (simp add: occupied_def)
    with hash_slot_Some(1,2) [OF k [OF this]] show "k \<in> {1..<HASH_SIZE}" by simp
  qed
  show "inj_on pf (occupied pf)"
  proof (rule inj_onI)
    fix x y assume "x \<in> occupied pf" "y \<in> occupied pf" "pf x = pf y"
    with k [of x] k [of y] show "x = y" by (simp add: occupied_def)
  qed
qed

lemma tallied_image:
  assumes "foldE count_page fs no_pages = Inr t"
  shows "page_flags t ` occupied (page_flags t) = set fs - {0}"
  using assms
proof (induction fs arbitrary: t rule: rev_induct)
  case Nil
  then show ?case by (auto simp: no_pages_def occupied_def)
next
  case (snoc f fs)
  from snoc.prems obtain u where u: "foldE count_page fs no_pages = Inr u" "count_page f u = Inr t"
    by auto
  note IH = snoc.IH [OF u(1)]
  from u(2) obtain k where k: "hash_slot (page_flags u) f = Inr (page_flags t, k)"
    by (auto simp: count_page_def)
  show ?case
  proof (cases "f = 0")
    case True
    with k IH show ?thesis by (auto simp: hash_slot_def)
  next
    case False
    with hash_slot_Some(3,4) [OF k False]
    have "occupied (page_flags t) = insert k (occupied (page_flags u))"
      "page_flags t = (page_flags u)(k := f)"
      by (auto simp: occupied_def)
    moreover have "page_flags u k \<in> {0, f}" using hash_slot_Some(4) [OF k False] by auto
    ultimately show ?thesis using IH False by (auto simp: occupied_def image_iff)
  qed
qed

lemma card_occupied:
  assumes "foldE count_page fs no_pages = Inr t"
  shows "card (occupied (page_flags t)) = card (set fs - {0})"
    "finite (occupied (page_flags t))" "card (occupied (page_flags t)) < HASH_SIZE"
proof -
  have ok: "table_ok (page_flags t)"
    using count_pages_tallied(1) [OF assms] by (simp add: hash.tallied_def)
  show "card (occupied (page_flags t)) = card (set fs - {0})"
    using card_image [OF occupied_bounds(2) [OF ok]] tallied_image [OF assms] by simp
  show "finite (occupied (page_flags t))"
    using occupied_bounds(1) [OF ok] by (rule finite_subset) simp
  have "card (occupied (page_flags t)) \<le> card {1..<HASH_SIZE}"
    using occupied_bounds(1) [OF ok] by (intro card_mono) simp_all
  also have "\<dots> < HASH_SIZE" using hash_size_gt by simp
  finally show "card (occupied (page_flags t)) < HASH_SIZE" .
qed

section \<open>Properties\<close>

text \<open>
  The search never leaves the table: on a sound table it gives a slot below \<open>HASH_SIZE\<close> that
  holds the word asked for, keeps every other slot and the soundness, and a second search for the
  same word gives the same slot and changes nothing.
\<close>

theorem hash_slot_correct:
  assumes "table_ok pf" "hash_slot pf flags = Inr (pf', k)"
  shows "k < HASH_SIZE \<and> pf' = pf(k := flags) \<and> (pf k = 0 \<or> pf k = flags) \<and> (k = 0 \<longleftrightarrow> flags = 0)
    \<and> table_ok pf' \<and> hash_slot pf' flags = Inr (pf', k)"
proof (cases "flags = 0")
  case True
  with assms hash_size_gt show ?thesis by (auto simp: hash_slot_def table_ok_def)
next
  case False
  note k = hash_slot_Some [OF assms(2) False] and ok = table_ok_slot [OF assms]
  from k(3) have "pf' k = flags" by simp
  with ok False have "hash_slot pf' flags = Inr (pf', k)" by (auto simp: table_ok_def)
  with k False ok show ?thesis by simp
qed

theorem hash_slot_correct_witness:
  "hash_slot ((\<lambda>_. 0)(1 := 1, 2 := 8193)) 8193 = Inr ((\<lambda>_. 0)(1 := 1, 2 := 8193), 2)"
proof -
  have s: "HASH_SIZE - 1 = 8191" "HASH_KEY 8193 = Suc 0" "HASH_KEY 1 = Suc 0"
    by (simp_all add: HASH_SIZE_def HASH_SHIFT_def HASH_KEY_def HASH_MASK_def)
  have "\<not> HASH_SIZE \<le> Suc 0" "\<not> HASH_SIZE \<le> Suc (Suc 0)"
    by (simp_all add: HASH_SIZE_def HASH_SHIFT_def)
  then have a: "hash_slot (\<lambda>_. 0) 1 = Inr ((\<lambda>_. 0)(Suc 0 := 1), Suc 0)"
    and b: "hash_slot ((\<lambda>_. 0)(Suc 0 := 1)) 8193
      = Inr ((\<lambda>_. 0)(Suc 0 := 1, Suc (Suc 0) := 8193), Suc (Suc 0))"
    by (simp_all add: hash_slot_def s hash_probe_numeral del: One_nat_def)
  from hash_slot_correct [OF table_ok_empty a] have "table_ok ((\<lambda>_. 0)(Suc 0 := 1))" by simp
  from hash_slot_correct [OF this b] show ?thesis by (simp add: eval_nat_numeral(2,3))
qed

text \<open>
  C4. The counters refine counting in a bag: after a run over the flag words \<open>fs\<close> the summary lists
  each word of \<open>fs\<close> in exactly one slot, with the number of its occurrences, nothing else, and the
  total is their number.
\<close>

theorem summary_counts:
  assumes run: "foldE count_page fs no_pages = Inr t" and len: "int (length fs) < 2 ^ 64"
  shows "inj_on (page_flags t) (set (summary_slots t))
    \<and> (\<lambda>k. (page_flags t k, unat (nr_pages t k))) ` set (summary_slots t)
        = (\<lambda>f. (f, count_list fs f)) ` set fs
    \<and> unat (total_pages t) = length fs"
proof -
  from count_pages_tallied [OF run] have ok: "table_ok (page_flags t)"
    and cnt: "\<And>k. nr_pages t k = (case hash_owner (page_flags t) k of None \<Rightarrow> 0
      | Some f \<Rightarrow> of_nat (count_list fs f))"
    and all: "\<And>f. f \<in> set fs \<Longrightarrow> \<exists>k. hash_owner (page_flags t) k = Some f"
    by (auto simp: hash.tallied_def)
  have small: "unat (of_nat (count_list fs f) :: u64) = count_list fs f" for f
    using len count_le_length [of fs f] by (intro unat_of_nat_u64) simp
  have small0: "(of_nat (count_list fs f) :: u64) = 0 \<longleftrightarrow> f \<notin> set fs" for f
  proof
    assume "(of_nat (count_list fs f) :: u64) = 0"
    with small [of f] have "count_list fs f = 0" by simp
    then show "f \<notin> set fs" by (simp add: count_list_0_iff)
  qed simp
  have pf: "page_flags t k = f" if "hash_owner (page_flags t) k = Some f" for k f
    using that ok by (auto simp: hash_owner_def table_ok_def split: if_splits)
  have slots: "k \<in> set (summary_slots t)
      \<longleftrightarrow> (\<exists>f \<in> set fs. hash_owner (page_flags t) k = Some f)" for k
  proof -
    have "nr_pages t k \<noteq> 0 \<longleftrightarrow> (\<exists>f \<in> set fs. hash_owner (page_flags t) k = Some f)"
      using cnt [of k] by (simp add: small0 split: option.splits)
    moreover have "hash_owner (page_flags t) k = Some f \<Longrightarrow> k < HASH_SIZE" for f
      using hash_size_gt by (auto simp: hash_owner_def split: if_splits)
    ultimately show ?thesis by (auto simp: summary_slots_def)
  qed
  have "inj_on (page_flags t) (set (summary_slots t))"
    by (rule inj_onI) (metis slots pf hash.owner_unique [OF ok])
  moreover have "unat (nr_pages t k) = count_list fs (page_flags t k)" if "k \<in> set (summary_slots t)" for k
    using that slots cnt [of k] small pf by auto
  then have "(\<lambda>k. (page_flags t k, unat (nr_pages t k))) ` set (summary_slots t)
      = (\<lambda>f. (f, count_list fs f)) ` (page_flags t ` set (summary_slots t))"
    by (simp add: image_image)
  moreover have "page_flags t ` set (summary_slots t) = set fs"
    using slots pf all by (auto simp: image_iff) metis+
  ultimately show ?thesis using count_pages_tallied(2) [OF run] len by (simp add: unat_of_nat_u64)
qed

theorem summary_counts_witness:
  "case foldE count_page [4, 0, 4] no_pages of Inl e \<Rightarrow> False
   | Inr t \<Rightarrow> (\<lambda>k. (page_flags t k, unat (nr_pages t k))) ` set (summary_slots t) = {(4, 2), (0, 1)}
            \<and> unat (total_pages t) = 3"
proof -
  have s: "HASH_SIZE - 1 = 8191" "HASH_KEY 4 = 4" "\<not> HASH_SIZE \<le> 4"
    by (simp_all add: HASH_SIZE_def HASH_SHIFT_def HASH_KEY_def HASH_MASK_def)
  obtain t where t: "foldE count_page [4, 0, 4] no_pages = Inr t"
    by (simp add: count_page_def hash_slot_def s hash_probe_numeral no_pages_def del: One_nat_def)
  have "(\<lambda>f. (f, count_list [4, 0, 4] f)) ` set [4, 0, 4 :: u64] = {(4, 2), (0, 1)}" by auto
  moreover have "int (length [4, 0, 4 :: u64]) < 2 ^ 64" by simp
  note summary_counts [OF t this]
  ultimately show ?thesis unfolding t by (simp only: sum.case) simp
qed

text \<open>
  Capacity: counting the pages of \<open>fs\<close> stops with the message about the full table exactly when
  \<open>fs\<close> has \<open>HASH_SIZE\<close> or more distinct flag words other than 0.
\<close>

theorem count_pages_capacity:
  "foldE count_page fs no_pages = Inl e \<longleftrightarrow>
     HASH_SIZE \<le> card (set fs - {0}) \<and> e = Fatal ''hash table full: bump up HASH_SHIFT?''"
proof (induction fs arbitrary: e rule: rev_induct)
  case Nil
  then show ?case using hash_size_gt by simp
next
  case (snoc f fs)
  show ?case
  proof (cases "foldE count_page fs no_pages")
    case (Inl e')
    then have "HASH_SIZE \<le> card (set fs - {0})" "e' = Fatal ''hash table full: bump up HASH_SHIFT?''"
      using snoc.IH by blast+
    moreover have "card (set fs - {0}) \<le> card (set (fs @ [f]) - {0})" by (intro card_mono) auto
    ultimately show ?thesis using Inl by auto
  next
    case (Inr t)
    show ?thesis
    proof (cases "hash_slot (page_flags t) f")
      case (Inr a)
      then obtain t' where "count_page f t = Inr t'" by (cases a) (simp add: count_page_def)
      with \<open>foldE count_page fs no_pages = Inr t\<close>
      have t': "foldE count_page (fs @ [f]) no_pages = Inr t'" by simp
      with card_occupied(1,3) [OF this] show ?thesis by (simp del: foldE_append)
    next
      case (Inl e')
      with hash_slot_full have f: "f \<noteq> 0" "e' = Fatal ''hash table full: bump up HASH_SHIFT?''"
        and full: "\<forall>k \<in> {1..<HASH_SIZE}. page_flags t k \<noteq> 0 \<and> page_flags t k \<noteq> f" by blast+
      have "occupied (page_flags t) = {1..<HASH_SIZE}"
        using full occupied_bounds(1) count_pages_tallied(1) [OF Inr]
        by (auto simp: hash.tallied_def occupied_def)
      moreover from this full have "f \<notin> page_flags t ` occupied (page_flags t)" by auto
      then have "set (fs @ [f]) - {0} = insert f (set fs - {0})" "f \<notin> set fs"
        using f(1) tallied_image [OF Inr] by auto
      ultimately have "card (set (fs @ [f]) - {0}) = HASH_SIZE"
        using card_occupied(1) [OF Inr] hash_size_gt by simp
      moreover have "count_page f t = Inl e'" using Inl by (simp add: count_page_def)
      ultimately show ?thesis using Inr f by auto
    qed
  qed
qed

end
