(* ===== verification/Page_Listing.thy ===== *)
theory Page_Listing
  imports Page_Hash
begin

text \<open>
  The page list of \<open>page-types.c\<close> and \<open>add_page\<close>: \<open>show_page_range\<close> keeps one run of pages in its
  static variables and prints it when the next page does not continue it. What the program has
  written is a list of lines; \<open>line_text\<close> gives the text of each.
\<close>

section \<open>Lines and runs\<close>

datatype line =
  Range_Line u64 u64 u64 string
| Page_Line u64 u64 string
| File_Lines string

definition offset_column :: "opts \<Rightarrow> u64 \<Rightarrow> string" where
  "offset_column opts voffset =
     (if opt_pid opts \<noteq> 0 then show_hex (unat voffset) @ [TAB] else [])
     @ (if opt_file opts \<noteq> None then show_dec (unat voffset) @ [TAB] else [])"

fun line_text :: "opts \<Rightarrow> line \<Rightarrow> string" where
  "line_text opts (Range_Line voff index cnt name) =
     offset_column opts voff @ show_hex (unat index) @ [TAB] @ show_hex (unat cnt) @ [TAB] @ name @ [NL]"
| "line_text opts (Page_Line voffset offset name) =
     offset_column opts voffset @ show_hex (unat offset) @ [TAB] @ name @ [NL]"
| "line_text opts (File_Lines s) = s"

text \<open>The static variables \<open>flags0\<close>, \<open>voff\<close>, \<open>index\<close> and \<open>count\<close>.\<close>

record page_run =
  flags0 :: u64
  run_voff :: u64
  run_index :: u64
  run_count :: u64

definition no_run :: page_run where
  "no_run = \<lparr>flags0 = 0, run_voff = 0, run_index = 0, run_count = 0\<rparr>"

definition print_run :: "page_run \<Rightarrow> line list res" where
  "print_run r =
     (if run_count r = 0 then Inr []
      else rbind (page_flag_name (flags0 r)) (\<lambda>name.
        Inr [Range_Line (run_voff r) (run_index r) (run_count r) name]))"

definition show_page_range ::
    "u64 \<Rightarrow> u64 \<Rightarrow> u64 \<Rightarrow> u64 \<Rightarrow> page_run \<times> line list \<Rightarrow> (page_run \<times> line list) res" where
  "show_page_range voffset offset sz flags st =
     (case st of (r, out) \<Rightarrow>
        if flags = flags0 r \<and> offset = run_index r + run_count r \<and> sz \<noteq> 0
           \<and> voffset = run_voff r + run_count r
        then Inr (r\<lparr>run_count := run_count r + sz\<rparr>, out)
        else rbind (print_run r) (\<lambda>ls.
               Inr (\<lparr>flags0 = flags, run_voff = voffset, run_index = offset, run_count = sz\<rparr>, out @ ls)))"

definition flush_page_range :: "page_run \<times> line list \<Rightarrow> (page_run \<times> line list) res" where
  "flush_page_range st = show_page_range 0 0 0 0 st"

definition show_page :: "u64 \<Rightarrow> u64 \<Rightarrow> u64 \<Rightarrow> line list \<Rightarrow> line list res" where
  "show_page voffset offset flags out =
     rbind (page_flag_name flags) (\<lambda>name. Inr (out @ [Page_Line voffset offset name]))"

section \<open>Adding a page\<close>

text \<open>
  The walker's state; \<open>injected\<close> and \<open>forgotten\<close> are the strings handed to \<open>write\<close> on the two debugfs
  files. A failing \<open>write\<close> is only reported, and \<open>add_page\<close> ignores the result.
\<close>

record walker =
  table :: page_table
  run :: page_run
  lines :: "line list"
  injected :: "string list"
  forgotten :: "string list"

definition init_walker :: walker where
  "init_walker = \<lparr>table = no_pages, run = no_run, lines = [], injected = [], forgotten = []\<rparr>"

definition pfn_line :: "u64 \<Rightarrow> string" where
  "pfn_line offset = ''0x'' @ show_hex (unat offset) @ [NL]"

definition hwpoison_page :: "u64 \<Rightarrow> walker \<Rightarrow> walker" where
  "hwpoison_page offset w = w\<lparr>injected := injected w @ [pfn_line offset]\<rparr>"

definition unpoison_page :: "u64 \<Rightarrow> walker \<Rightarrow> walker" where
  "unpoison_page offset w = w\<lparr>forgotten := forgotten w @ [pfn_line offset]\<rparr>"

definition list_page :: "opts \<Rightarrow> u64 \<Rightarrow> u64 \<Rightarrow> u64 \<Rightarrow> walker \<Rightarrow> walker res" where
  "list_page opts voffset offset flags w =
     (if opt_list opts = 1 then
        rbind (show_page_range voffset offset 1 flags (run w, lines w)) (\<lambda>(r, ls).
          Inr (w\<lparr>run := r, lines := ls\<rparr>))
      else if opt_list opts = 2 then
        rbind (show_page voffset offset flags (lines w)) (\<lambda>ls. Inr (w\<lparr>lines := ls\<rparr>))
      else Inr w)"

definition add_page :: "opts \<Rightarrow> u64 \<Rightarrow> u64 \<Rightarrow> u64 \<Rightarrow> u64 \<Rightarrow> walker \<Rightarrow> walker res" where
  "add_page opts voffset offset flags pme w =
     (let flags = kpageflags_flags (opt_raw opts) flags pme
      in if \<not> bit_mask_ok (bit_filters opts) flags then Inr w
         else
           let w = (if opt_hwpoison opts then hwpoison_page offset w else w);
               w = (if opt_unpoison opts then unpoison_page offset w else w)
           in rbind (list_page opts voffset offset flags w) (\<lambda>w.
              rbind (count_page flags (table w)) (\<lambda>t. Inr (w\<lparr>table := t\<rparr>))))"

section \<open>Runs and their pages\<close>

definition run_pages :: "page_run \<Rightarrow> (u64 \<times> u64 \<times> u64) list" where
  "run_pages r = map (\<lambda>j. (run_voff r + of_nat j, run_index r + of_nat j, flags0 r)) [0..<unat (run_count r)]"

text \<open>The pages a list of lines stands for, one entry of virtual offset, offset and flag names each.\<close>

fun line_pages :: "line \<Rightarrow> (u64 \<times> u64 \<times> string) list" where
  "line_pages (Range_Line voff index cnt name) =
     map (\<lambda>j. (voff + of_nat j, index + of_nat j, name)) [0..<unat cnt]"
| "line_pages (Page_Line voffset offset name) = [(voffset, offset, name)]"
| "line_pages (File_Lines s) = []"

definition named_page :: "u64 \<times> u64 \<times> u64 \<Rightarrow> u64 \<times> u64 \<times> string" where
  "named_page p = (case p of (v, i, f) \<Rightarrow> (v, i, projr (page_flag_name f)))"

definition listed :: "(u64 \<times> u64 \<times> u64) list \<Rightarrow> page_run \<times> line list \<Rightarrow> bool" where
  "listed ps st \<longleftrightarrow> (case st of (r, out) \<Rightarrow>
     (run_count r = 0 \<longrightarrow> r = no_run) \<and>
     map named_page ps = concat (map line_pages out) @ map named_page (run_pages r))"

lemma print_run_pages:
  "print_run r = Inr ls \<Longrightarrow> concat (map line_pages ls) = map named_page (run_pages r)"
  by (auto simp: print_run_def run_pages_def named_page_def split: if_splits)

lemma unat_run_extend:
  assumes "unat (c :: u64) + 1 < 2 ^ 64"
  shows "unat (c + 1) = unat c + 1"
  using assms by (subst unat_add_lem [THEN iffD1]) simp_all

lemma run_pages_extend:
  assumes "unat (run_count r) + 1 < 2 ^ 64"
  shows "run_pages (r\<lparr>run_count := run_count r + 1\<rparr>)
    = run_pages r @ [(run_voff r + run_count r, run_index r + run_count r, flags0 r)]"
  using unat_run_extend [OF assms] by (simp add: run_pages_def)

lemma listed_step:
  assumes "listed ps st" "show_page_range v i 1 f st = Inr st'" "length ps + 1 < 2 ^ 64"
  shows "listed (ps @ [(v, i, f)]) st'"
proof -
  obtain r out where st: "st = (r, out)" by (cases st)
  with assms(1) have zero: "run_count r = 0 \<longrightarrow> r = no_run"
    and pages: "map named_page ps = concat (map line_pages out) @ map named_page (run_pages r)"
    by (simp_all add: listed_def)
  have "length (run_pages r) \<le> length ps"
    using arg_cong [OF pages, of length] by simp
  then have small: "unat (run_count r) + 1 < 2 ^ 64"
    using assms(3) by (simp add: run_pages_def)
  show ?thesis
  proof (cases "f = flags0 r \<and> i = run_index r + run_count r \<and> v = run_voff r + run_count r")
    case True
    then have "st' = (r\<lparr>run_count := run_count r + 1\<rparr>, out)"
      using assms(2) by (simp add: st show_page_range_def)
    moreover have "run_count r + 1 \<noteq> 0" using unat_run_extend [OF small] by (metis add_is_0 one_neq_zero unat_0)
    ultimately show ?thesis
      using True pages by (simp add: listed_def run_pages_extend [OF small])
  next
    case False
    with assms(2) obtain ls where "print_run r = Inr ls"
      "st' = (\<lparr>flags0 = f, run_voff = v, run_index = i, run_count = 1\<rparr>, out @ ls)"
      by (auto simp: st show_page_range_def)
    with pages show ?thesis by (simp add: listed_def print_run_pages run_pages_def)
  qed
qed

lemma listed_flush:
  assumes "listed ps st" "flush_page_range st = Inr st'"
  shows "st' = (no_run, snd st') \<and> concat (map line_pages (snd st')) = map named_page ps"
  using assms by (auto simp: listed_def flush_page_range_def show_page_range_def no_run_def print_run_pages split: prod.splits)

lemma listed_all:
  assumes "foldE (\<lambda>(v, i, f). show_page_range v i 1 f) ps (no_run, []) = Inr st" "length ps < 2 ^ 64"
  shows "listed ps st"
  using assms
proof (induction ps arbitrary: st rule: rev_induct)
  case Nil
  then have "st = (no_run, [])" by simp
  then show ?case by (simp add: listed_def run_pages_def no_run_def)
next
  case (snoc p ps)
  obtain v i f where p: "p = (v, i, f)" by (cases p)
  with snoc.prems obtain u where "foldE (\<lambda>(v, i, f). show_page_range v i 1 f) ps (no_run, []) = Inr u"
    "show_page_range v i 1 f u = Inr st" by auto
  with snoc.IH snoc.prems(2) listed_step [of ps u v i f st] show ?case by (simp add: p)
qed

section \<open>No two lines could be one\<close>

fun mergeable :: "line \<Rightarrow> line \<Rightarrow> bool" where
  "mergeable (Range_Line v i c n) (Range_Line v' i' c' n') = (n' = n \<and> i' = i + c \<and> v' = v + c)"
| "mergeable _ _ = False"

abbreviation separate :: "line list \<Rightarrow> bool" where
  "separate \<equiv> successively (\<lambda>a b. \<not> mergeable a b)"

lemma page_flag_name_inj:
  assumes "page_flag_name a = Inr s" "page_flag_name b = Inr s"
  shows "a = b"
proof (rule u64_eqI)
  fix n :: nat assume "n < 64"
  have named: "\<forall>(n, s) \<in> set page_flag_table. hdc s \<noteq> CHR ''_''" by code_simp
  have known: "\<not> (\<exists>n. bit w n \<and> n \<notin> known_bits)"
    and chars: "s = map (\<lambda>(n, s). if bit w n then hdc s else CHR ''_'') page_flag_table"
    if "page_flag_name w = Inr s" for w
    using that by (auto simp: page_flag_name_eq split: if_splits)
  from trans [OF chars [OF assms(1), symmetric] chars [OF assms(2)]]
  have same: "\<forall>(n, s) \<in> set page_flag_table. (if bit a n then hdc s else CHR ''_'')
      = (if bit b n then hdc s else CHR ''_'')" by (auto simp: map_eq_conv)
  show "bit a n \<longleftrightarrow> bit b n"
  proof (cases "n \<in> known_bits")
    case True
    then obtain s where "(n, s) \<in> set page_flag_table" by (auto simp: known_bits_def)
    with same named show ?thesis by (fastforce split: if_splits)
  next
    case False
    with known [OF assms(1)] known [OF assms(2)] show ?thesis by blast
  qed
qed

text \<open>The pending run does not continue the last line.\<close>

fun run_continues :: "line \<Rightarrow> page_run \<Rightarrow> bool" where
  "run_continues (Range_Line v i c n) r =
     (page_flag_name (flags0 r) = Inr n \<and> run_index r = i + c \<and> run_voff r = v + c)"
| "run_continues _ r = False"

definition lines_separate :: "page_run \<times> line list \<Rightarrow> bool" where
  "lines_separate st = (case st of (r, out) \<Rightarrow>
     if run_count r = 0 then out = [] \<and> r = no_run
     else separate out \<and> (out \<noteq> [] \<longrightarrow> \<not> run_continues (last out) r))"

lemma separate_print:
  assumes "separate out" "out \<noteq> [] \<longrightarrow> \<not> run_continues (last out) r" "print_run r = Inr ls"
  shows "separate (out @ ls)"
proof -
  have "\<not> mergeable (last out) (Range_Line (run_voff r) (run_index r) (run_count r) n)"
    if "out \<noteq> []" "page_flag_name (flags0 r) = Inr n" for n
    using that assms(2) by (cases "last out") auto
  with assms(1,3) show ?thesis
    by (auto simp: print_run_def successively_append_iff split: if_splits)
qed

lemma lines_separate_step:
  assumes "lines_separate st" "show_page_range v i 1 f st = Inr st'"
    and small: "unat (run_count (fst st)) + 1 < 2 ^ 64"
  shows "lines_separate st'"
proof -
  obtain r out where st: "st = (r, out)" by (cases st)
  with small have nz: "run_count r + 1 \<noteq> 0"
    using unat_run_extend [of "run_count r"] by (metis add_is_0 fst_conv one_neq_zero unat_0)
  have continues: "run_continues l (r\<lparr>run_count := c\<rparr>) = run_continues l r" for l c
    by (cases l) simp_all
  show ?thesis
  proof (cases "f = flags0 r \<and> i = run_index r + run_count r \<and> v = run_voff r + run_count r")
    case True
    then have st': "st' = (r\<lparr>run_count := run_count r + 1\<rparr>, out)"
      using assms(2) by (simp add: st show_page_range_def)
    with assms(1) nz show ?thesis
      by (auto simp add: st lines_separate_def continues split: if_splits)
  next
    case False
    with assms(2) obtain ls where ls: "print_run r = Inr ls"
      "st' = (\<lparr>flags0 = f, run_voff = v, run_index = i, run_count = 1\<rparr>, out @ ls)"
      by (auto simp: st show_page_range_def)
    show ?thesis
    proof (cases "run_count r = 0")
      case True
      with ls assms(1) show ?thesis by (simp add: st lines_separate_def print_run_def)
    next
      case nonzero: False
      with ls(1) obtain n where n: "page_flag_name (flags0 r) = Inr n"
        "ls = [Range_Line (run_voff r) (run_index r) (run_count r) n]" by (auto simp: print_run_def)
      have "\<not> run_continues (last (out @ ls)) (fst st')"
        using False page_flag_name_inj [OF n(1)] by (auto simp: n(2) ls(2))
      moreover have "separate (out @ ls)"
        using nonzero assms(1) by (intro separate_print [OF _ _ ls(1)]) (auto simp: st lines_separate_def)
      ultimately show ?thesis by (simp add: ls(2) lines_separate_def)
    qed
  qed
qed

lemma lines_separate_flush:
  assumes "lines_separate st" "flush_page_range st = Inr st'"
  shows "separate (snd st')"
proof -
  obtain r out where st: "st = (r, out)" by (cases st)
  from assms(2) obtain ls where ls: "print_run r = Inr ls" "snd st' = out @ ls"
    by (auto simp: st flush_page_range_def show_page_range_def)
  show ?thesis
  proof (cases "run_count r = 0")
    case True
    with ls assms(1) show ?thesis by (simp add: st lines_separate_def print_run_def)
  next
    case False
    with ls assms(1) show ?thesis
      using separate_print [OF _ _ ls(1)] by (simp add: st lines_separate_def)
  qed
qed

lemma show_pages_run_count:
  assumes "listed ps (r, out)" shows "unat (run_count r) \<le> length ps"
proof -
  from assms have "map named_page ps = concat (map line_pages out) @ map named_page (run_pages r)"
    by (simp add: listed_def)
  from arg_cong [OF this, of length] show ?thesis by (simp add: run_pages_def)
qed

lemma lines_separate_all:
  assumes "foldE (\<lambda>(v, i, f). show_page_range v i 1 f) ps (no_run, []) = Inr st" "length ps < 2 ^ 64"
  shows "lines_separate st"
  using assms
proof (induction ps arbitrary: st rule: rev_induct)
  case Nil
  then have "st = (no_run, [])" by simp
  then show ?case by (simp add: lines_separate_def no_run_def)
next
  case (snoc p ps)
  obtain v i f where p: "p = (v, i, f)" by (cases p)
  with snoc.prems obtain u where u: "foldE (\<lambda>(v, i, f). show_page_range v i 1 f) ps (no_run, []) = Inr u"
    "show_page_range v i 1 f u = Inr st" by auto
  have len: "length ps < 2 ^ 64" using snoc.prems(2) by simp
  have "unat (run_count (fst u)) \<le> length ps"
    using listed_all [OF u(1) len] by (intro show_pages_run_count [of _ _ "snd u"]) simp
  with snoc.prems(2) have "unat (run_count (fst u)) + 1 < 2 ^ 64" by simp
  with lines_separate_step [OF snoc.IH [OF u(1) len] u(2)] show ?case by blast
qed

section \<open>Properties\<close>

text \<open>
  C1. The list of ranges loses nothing: the lines printed for any sequence of pages, once flushed,
  expand to exactly these pages, in their order, with their virtual offsets and flag names.
\<close>

theorem ranges_expand_to_pages:
  assumes "rbind (foldE (\<lambda>(v, i, f). show_page_range v i 1 f) ps (no_run, [])) flush_page_range = Inr st"
    and len: "length ps < 2 ^ 64"
  shows "concat (map line_pages (snd st))
    = map (\<lambda>(v, i, f). (v, i, projr (page_flag_name f))) ps"
proof -
  from assms(1) obtain u where "foldE (\<lambda>(v, i, f). show_page_range v i 1 f) ps (no_run, []) = Inr u"
    "flush_page_range u = Inr st" by auto
  with len have "concat (map line_pages (snd st)) = map named_page ps"
    using listed_all listed_flush by blast
  then show ?thesis by (simp add: named_page_def [abs_def])
qed

theorem ranges_expand_to_pages_witness:
  "\<exists>st. rbind (foldE (\<lambda>(v, i, f). show_page_range v i 1 f) [(7, 7, 4), (8, 8, 4), (9, 9, 0)] (no_run, []))
       flush_page_range = Inr st
     \<and> concat (map line_pages (snd st))
       = map (\<lambda>(v, i, f). (v, i, projr (page_flag_name f))) [(7, 7, 4), (8, 8, 4), (9, 9, 0)]"
proof -
  let ?r = "rbind (foldE (\<lambda>(v, i, f). show_page_range v i 1 f) [(7, 7, 4), (8, 8, 4), (9, 9, 0)] (no_run, []))
       flush_page_range"
  have "\<not> isl ?r" by code_simp
  then obtain st where st: "?r = Inr st" by (cases ?r) auto
  show ?thesis by (intro exI [of _ st] conjI, rule st, rule ranges_expand_to_pages [OF st]) simp
qed

text \<open>
  The list is as short as it can be: no two neighbouring lines of it could be printed as one.
\<close>

theorem ranges_maximal:
  assumes "rbind (foldE (\<lambda>(v, i, f). show_page_range v i 1 f) ps (no_run, [])) flush_page_range = Inr st"
    and "length ps < 2 ^ 64"
  shows "successively (\<lambda>a b. \<not> mergeable a b) (snd st)"
proof -
  from assms(1) obtain u where u: "foldE (\<lambda>(v, i, f). show_page_range v i 1 f) ps (no_run, []) = Inr u"
    "flush_page_range u = Inr st" by auto
  from lines_separate_flush [OF lines_separate_all [OF u(1) assms(2)] u(2)] show ?thesis .
qed

theorem ranges_maximal_witness:
  "\<exists>st. rbind (foldE (\<lambda>(v, i, f). show_page_range v i 1 f) [(7, 7, 4), (8, 8, 4), (10, 10, 4)] (no_run, []))
       flush_page_range = Inr st \<and> successively (\<lambda>a b. \<not> mergeable a b) (snd st)"
proof -
  let ?r = "rbind (foldE (\<lambda>(v, i, f). show_page_range v i 1 f) [(7, 7, 4), (8, 8, 4), (10, 10, 4)] (no_run, []))
       flush_page_range"
  have "\<not> isl ?r" by code_simp
  then obtain st where st: "?r = Inr st" by (cases ?r) auto
  show ?thesis by (intro exI [of _ st] conjI, rule st, rule ranges_maximal [OF st]) simp
qed

text \<open>
  C39. Only what the filters accept is poisoned: the strings written to \<open>corrupt-pfn\<close> and
  \<open>unpoison-pfn\<close> are, in order, the frame numbers of exactly the added pages whose reported flags pass
  every \<open>--bits\<close> filter, and nothing is written without the option.
\<close>

theorem poisoned_pages:
  assumes "foldE (\<lambda>(v, i, f, pme). add_page opts v i f pme) ps w = Inr w'"
  shows "injected w' = injected w @ (if opt_hwpoison opts then
      map (\<lambda>(v, i, f, pme). pfn_line i)
        (filter (\<lambda>(v, i, f, pme). bit_mask_ok (bit_filters opts) (kpageflags_flags (opt_raw opts) f pme)) ps)
      else [])
    \<and> forgotten w' = forgotten w @ (if opt_unpoison opts then
      map (\<lambda>(v, i, f, pme). pfn_line i)
        (filter (\<lambda>(v, i, f, pme). bit_mask_ok (bit_filters opts) (kpageflags_flags (opt_raw opts) f pme)) ps)
      else [])"
  using assms
proof (induction ps arbitrary: w)
  case (Cons p ps)
  obtain v i f pme where p: "p = (v, i, f, pme)" by (cases p)
  with Cons.prems obtain u where u: "add_page opts v i f pme w = Inr u"
    "foldE (\<lambda>(v, i, f, pme). add_page opts v i f pme) ps u = Inr w'" by auto
  have list: "list_page opts v i g x = Inr y \<Longrightarrow> injected y = injected x \<and> forgotten y = forgotten x" for g x y
    by (auto simp: list_page_def split: if_splits)
  have "injected u = injected w @ (if opt_hwpoison opts
        \<and> bit_mask_ok (bit_filters opts) (kpageflags_flags (opt_raw opts) f pme) then [pfn_line i] else [])"
    "forgotten u = forgotten w @ (if opt_unpoison opts
        \<and> bit_mask_ok (bit_filters opts) (kpageflags_flags (opt_raw opts) f pme) then [pfn_line i] else [])"
    using u(1) by (auto simp: add_page_def Let_def hwpoison_page_def unpoison_page_def dest!: list split: if_splits)
  with Cons.IH [OF u(2)] show ?case by (simp add: p)
qed simp

theorem poisoned_pages_witness:
  "\<exists>w. foldE (\<lambda>(v, i, f, pme). add_page ((no_opts 4096)\<lparr>opt_hwpoison := True, bit_filters := [(1, 0)]\<rparr>) v i f pme)
        [(3, 3, 0, 0), (4, 4, 1, 0)] init_walker = Inr w
      \<and> injected w = [''0x3'' @ [NL]] \<and> forgotten w = []"
proof -
  define o1 where "o1 = (no_opts 4096)\<lparr>opt_hwpoison := True, bit_filters := [(1, 0)]\<rparr>"
  have o1: "opt_hwpoison o1" "\<not> opt_unpoison o1" "opt_list o1 = 0"
    by (simp_all add: o1_def no_opts_def)
  have flags: "kpageflags_flags (opt_raw o1) 0 0 = 0" "kpageflags_flags (opt_raw o1) 1 0 = 1"
    "bit_mask_ok (bit_filters o1) 0" "\<not> bit_mask_ok (bit_filters o1) 1"
    unfolding o1_def by code_simp+
  obtain w where w: "foldE (\<lambda>(v, i, f, pme). add_page o1 v i f pme) [(3, 3, 0, 0), (4, 4, 1, 0)] init_walker = Inr w"
    using flags o1 by (simp add: add_page_def list_page_def count_page_def hash_slot_def Let_def)
  from poisoned_pages [OF w]
  have "injected w = injected init_walker @ [pfn_line 3]" "forgotten w = forgotten init_walker"
    using flags o1 by simp_all
  then have "injected w = [''0x3'' @ [NL]]" "forgotten w = []"
    by (simp_all add: init_walker_def pfn_line_def show_base.simps digit_char_def)
  with w show ?thesis unfolding o1_def by blast
qed

end
