(* ===== verification/Page_Walk.thy ===== *)
theory Page_Walk
  imports Page_Listing
begin

text \<open>
  The walkers of \<open>page-types.c\<close>: reading words from \<open>/proc/kpageflags\<close> and \<open>/proc/pid/pagemap\<close> in
  batches, walking page frames, the areas of a process and address ranges. The two files are
  parameters: \<open>pread offset count\<close> gives the bytes read, \<open>None\<close> on an error.
\<close>

section \<open>Reading words\<close>

type_synonym pread = "nat \<Rightarrow> nat \<Rightarrow> u8 list option"

fun words_of_bytes :: "u8 list \<Rightarrow> u64 list" where
  "words_of_bytes (a # b # c # d # e # f # g # h # bs) =
     le_word [a, b, c, d, e, f, g, h] # words_of_bytes bs"
| "words_of_bytes _ = []"

text \<open>
  The words of \<open>buf\<close> that the call filled. The product \<open>(off_t)index * 8\<close> is signed: it has no value
  from \<open>index = 2^60\<close> on, although the guard only asks for \<open>ULONG_MAX / 8\<close>.
\<close>

definition do_u64_read :: "string \<Rightarrow> pread \<Rightarrow> u64 \<Rightarrow> nat \<Rightarrow> u64 list res" where
  "do_u64_read name pread index n =
     (if ULONG_MAX div 8 < index then Inl (Fatal (''index overflow: '' @ show_dec (unat index)))
      else if 2 ^ 63 \<le> unat index * 8 then Inl (Undef ''off_t overflow'')
      else case pread (unat index * 8) (n * 8) of
             None \<Rightarrow> Inl (Fatal name)
           | Some bs \<Rightarrow>
               if n * 8 < length bs then Inl (Undef ''read past the buffer'')
               else if length bs mod 8 \<noteq> 0
               then Inl (Fatal (''partial read: '' @ show_dec (length bs) @ '' bytes''))
               else Inr (words_of_bytes bs))"

definition kpageflags_read :: "pread \<Rightarrow> u64 \<Rightarrow> nat \<Rightarrow> u64 list res" where
  "kpageflags_read pread index pages = do_u64_read ''/proc/kpageflags'' pread index pages"

definition pagemap_read :: "pread \<Rightarrow> u64 \<Rightarrow> nat \<Rightarrow> u64 list res" where
  "pagemap_read pread index pages = do_u64_read ''/proc/pid/pagemap'' pread index pages"

lemma length_words_of_bytes: "length (words_of_bytes bs) = length bs div 8"
  by (induction bs rule: words_of_bytes.induct) simp_all

lemma do_u64_read_length:
  assumes "do_u64_read name pread index n = Inr buf" shows "length buf \<le> n"
  using assms by (auto simp: do_u64_read_def length_words_of_bytes split: if_splits option.splits)

section \<open>Walking\<close>

text \<open>\<open>KPAGEFLAGS_BATCH\<close> and \<open>PAGEMAP_BATCH\<close>\<close>

definition BATCH :: nat where "BATCH = 64 * 2 ^ 10"

text \<open>
  The loop \<open>walk_pfn\<close> and \<open>walk_vma\<close> have in common: read a batch, run the body on each word with the
  index of the batch and the position in it, go on behind what was read.
\<close>

function walk_batches ::
    "(u64 \<Rightarrow> nat \<Rightarrow> u64 list res) \<Rightarrow> (u64 \<Rightarrow> nat \<Rightarrow> u64 \<Rightarrow> 's \<Rightarrow> 's res) \<Rightarrow> u64 \<Rightarrow> u64 \<Rightarrow> 's \<Rightarrow> 's res" where
  "walk_batches rd body index cnt w =
     (if cnt = 0 then Inr w
      else let batch = min (unat cnt) BATCH
           in rbind (rd index batch) (\<lambda>buf.
                if buf = [] then Inr w
                else if batch < length buf then Inl (Undef ''read past the buffer'')
                else rbind (foldE (\<lambda>(i, v). body index i v) (enumerate 0 buf) w)
                       (walk_batches rd body (index + of_nat (length buf)) (cnt - of_nat (length buf)))))"
  by pat_completeness auto

lemma unat_lt64: "unat (c :: u64) < 2 ^ 64"
  using unsigned_less [of c, where ?'a = nat] by simp

lemma unat_sub_of_nat:
  assumes "l \<le> unat (c :: u64)" shows "unat (c - of_nat l) = unat c - l"
proof -
  have "unat (of_nat l :: u64) = l"
    using assms unat_lt64 [of c] by (intro unat_of_nat_u64) simp
  with assms show ?thesis by (simp add: unat_sub word_le_nat_alt)
qed

termination walk_batches
proof (relation "measure (\<lambda>(rd, body, index, cnt, w). unat cnt)")
  fix rd :: "u64 \<Rightarrow> nat \<Rightarrow> u64 list res" and body :: "u64 \<Rightarrow> nat \<Rightarrow> u64 \<Rightarrow> 's \<Rightarrow> 's res"
    and index cnt :: u64 and w x :: 's and batch and buf :: "u64 list"
  assume "batch = min (unat cnt) BATCH" "buf \<noteq> []" "\<not> batch < length buf" "cnt \<noteq> 0"
  then have "length buf \<le> unat cnt" "0 < length buf" "0 < unat cnt" by (simp_all add: unat_gt_0)
  with unat_sub_of_nat [OF this(1)]
  show "((rd, body, index + of_nat (length buf), cnt - of_nat (length buf), x), rd, body, index, cnt, w)
      \<in> measure (\<lambda>(rd, body, index, cnt, w). unat cnt)" by simp
qed simp

declare walk_batches.simps [simp del]

definition walk_pfn :: "pread \<Rightarrow> opts \<Rightarrow> u64 \<Rightarrow> u64 \<Rightarrow> u64 \<Rightarrow> u64 \<Rightarrow> walker \<Rightarrow> walker res" where
  "walk_pfn kpageflags opts voffset index cnt pme w =
     walk_batches (kpageflags_read kpageflags)
       (\<lambda>index i flags. add_page opts (voffset + of_nat i) (index + of_nat i) flags pme) index cnt w"

definition walk_vma :: "pread \<Rightarrow> pread \<Rightarrow> opts \<Rightarrow> u64 \<Rightarrow> u64 \<Rightarrow> walker \<Rightarrow> walker res" where
  "walk_vma kpageflags pagemap opts index cnt w =
     walk_batches (pagemap_read pagemap)
       (\<lambda>index i pme w.
          let pfn = pagemap_pfn pme
          in if pfn \<noteq> 0 then walk_pfn kpageflags opts (index + of_nat i) pfn 1 pme w else Inr w)
       index cnt w"

text \<open>
  \<open>walk_task\<close>, with the call of \<open>walk_vma\<close> as the argument \<open>visit\<close>. The arrays \<open>pg_start\<close> and \<open>pg_end\<close>
  are 0 behind their \<open>nr_vmas\<close> entries; \<open>next_vma\<close> is the inner loop.
\<close>

definition vma_at :: "(u64 \<times> u64) list \<Rightarrow> nat \<Rightarrow> u64 \<times> u64" where
  "vma_at vs i = (if i < length vs then vs ! i else (0, 0))"

function next_vma :: "(u64 \<times> u64) list \<Rightarrow> u64 \<Rightarrow> nat \<Rightarrow> nat option" where
  "next_vma vs index i =
     (if snd (vma_at vs i) \<le> index
      then if length vs \<le> Suc i then None else next_vma vs index (Suc i)
      else Some i)"
  by pat_completeness auto
termination by (relation "measure (\<lambda>(vs, index, i). length vs - i)") auto

declare next_vma.simps [simp del]

lemma next_vma_Some: "next_vma vs index i = Some j \<Longrightarrow> i \<le> j \<and> index < snd (vma_at vs j)"
  by (induction vs index i rule: next_vma.induct)
    (subst (asm) (2) next_vma.simps, auto split: if_splits)

function walk_task_loop ::
    "(u64 \<Rightarrow> u64 \<Rightarrow> 's \<Rightarrow> 's res) \<Rightarrow> (u64 \<times> u64) list \<Rightarrow> u64 \<Rightarrow> u64 \<Rightarrow> nat \<Rightarrow> 's \<Rightarrow> 's res" where
  "walk_task_loop visit vs e index i w =
     (if \<not> index < e then Inr w
      else case next_vma vs index i of
             None \<Rightarrow> Inr w
           | Some i \<Rightarrow>
               if e \<le> fst (vma_at vs i) then Inr w
               else let start = max (fst (vma_at vs i)) index;
                        index = min (snd (vma_at vs i)) e
                    in if \<not> start < index then Inl (Assert ''start < index'')
                       else rbind (visit start (index - start) w) (walk_task_loop visit vs e index i))"
  by pat_completeness auto
termination
proof (relation "measure (\<lambda>(visit, vs, e, index, i, w). unat e - unat index)")
  fix visit :: "u64 \<Rightarrow> u64 \<Rightarrow> 's \<Rightarrow> 's res" and vs e index i j start index' and w x :: 's
  assume "\<not> \<not> index < e" "next_vma vs index i = Some j" "index' = min (snd (vma_at vs j)) e"
  then have "index < index'" "index' \<le> e" using next_vma_Some by auto
  then have "unat index < unat index'" "unat index' \<le> unat e"
    by (simp_all add: word_less_nat_alt word_le_nat_alt)
  then show "((visit, vs, e, index', j, x), visit, vs, e, index, i, w)
      \<in> measure (\<lambda>(visit, vs, e, index, i, w). unat e - unat index)" by simp
qed simp

declare walk_task_loop.simps [simp del]

definition walk_task :: "pread \<Rightarrow> pread \<Rightarrow> opts \<Rightarrow> u64 \<Rightarrow> u64 \<Rightarrow> walker \<Rightarrow> walker res" where
  "walk_task kpageflags pagemap opts index cnt w =
     walk_task_loop (walk_vma kpageflags pagemap opts) (vmas opts) (index + cnt) index 0 w"

text \<open>\<open>checked_open\<close> stops the program when the file cannot be opened.\<close>

definition checked_open :: "(string \<Rightarrow> bool) \<Rightarrow> string \<Rightarrow> unit res" where
  "checked_open openable pathname = (if openable pathname then Inr () else Inl (Fatal pathname))"

definition walk_addr_ranges ::
    "(string \<Rightarrow> bool) \<Rightarrow> pread \<Rightarrow> pread \<Rightarrow> opts \<Rightarrow> walker \<Rightarrow> walker res" where
  "walk_addr_ranges openable kpageflags pagemap opts w =
     rbind (checked_open openable ''/proc/kpageflags'') (\<lambda>_.
     rbind (if addr_ranges opts = [] then add_addr_range 0 ULONG_MAX opts else Inr opts) (\<lambda>opts.
       foldE (\<lambda>(offset, sz) w.
                if opt_pid opts = 0 then walk_pfn kpageflags opts offset offset sz 0 w
                else walk_task kpageflags pagemap opts offset sz w)
             (addr_ranges opts) w))"

section \<open>Reading a file of words\<close>

text \<open>
  Specification vocabulary: a file that holds the words \<open>ws\<close> and whose reads are only cut short by its end.
\<close>

definition serves :: "u64 list \<Rightarrow> pread \<Rightarrow> bool" where
  "serves ws pread \<longleftrightarrow> length ws * 8 < 2 ^ 63 \<and>
     (\<forall>i n. pread (i * 8) (n * 8) = Some (concat (map le_bytes (take n (drop i ws)))))"

lemma words_of_bytes_Cons: "words_of_bytes (le_bytes w @ bs) = w # words_of_bytes bs"
  using le_word_bytes [of w] by (simp add: le_bytes_def upt_rec)

lemma words_of_bytes_concat: "words_of_bytes (concat (map le_bytes ws)) = ws"
  by (induction ws) (simp_all add: words_of_bytes_Cons)

lemma length_concat_le_bytes: "length (concat (map le_bytes ws)) = length (ws :: u64 list) * 8"
  by (induction ws) (simp_all add: le_bytes_def)

lemma do_u64_read_serves:
  assumes "serves ws pread" "unat index \<le> length ws"
  shows "do_u64_read name pread index n = Inr (take n (drop (unat index) ws))"
proof -
  have i: "unat index * 8 < 2 ^ 63" using assms by (simp add: serves_def)
  have "unat (ULONG_MAX div 8) = 2 ^ 61 - 1"
    by (simp add: unat_div unat_ULONG_MAX)
  with i have "\<not> ULONG_MAX div 8 < index" by (simp add: word_less_nat_alt)
  with i assms(1) show ?thesis
    by (simp add: do_u64_read_def serves_def length_concat_le_bytes words_of_bytes_concat)
qed

lemma foldE_enumerate:
  "foldE (\<lambda>(i, v). g i v) (enumerate k xs) w
    = foldE (\<lambda>d. g (k + d) (xs ! d)) [0..<length xs] w"
proof (induction xs arbitrary: k w)
  case (Cons x xs)
  have "[0..<length (x # xs)] = 0 # map Suc [0..<length xs]"
    by (simp add: map_Suc_upt upt_conv_Cons del: upt_Suc)
  then show ?case by (simp add: Cons.IH foldE_map comp_def cong: rbind_cong)
qed simp

lemma walk_batches_serves:
  assumes "\<And>index n. unat index \<le> length ws \<Longrightarrow> rd index n = Inr (take n (drop (unat index) ws))"
    and "length ws * 8 < 2 ^ 63" "unat index \<le> length ws"
  shows "walk_batches rd body index cnt w
    = foldE (\<lambda>d. body (index + of_nat (d - d mod BATCH)) (d mod BATCH) (ws ! (unat index + d)))
        [0..<min (unat cnt) (length ws - unat index)] w"
  using assms(1,3)
proof (induction rd body index cnt w rule: walk_batches.induct)
  case (1 rd body index cnt w)
  let ?g = "\<lambda>d. body (index + of_nat (d - d mod BATCH)) (d mod BATCH) (ws ! (unat index + d))"
  define n where "n = min (unat cnt) BATCH"
  define m where "m = min (unat cnt) (length ws - unat index)"
  define buf where "buf = take n (drop (unat index) ws)"
  define l where "l = length buf"
  have l: "l = min BATCH m" "unat index + l \<le> length ws" "l \<le> n" "l \<le> m"
    using "1.prems"(2) by (auto simp: l_def buf_def n_def m_def min_def)
  have rd: "rd index n = Inr buf" using "1.prems" by (simp add: buf_def)
  show ?case
  proof (cases "cnt = 0 \<or> buf = []")
    case True
    then have "m = 0" using l(1) by (auto simp: l_def BATCH_def m_def)
    then have "foldE ?g [0..<m] w = Inr w" by simp
    with True rd show ?thesis unfolding m_def n_def by (subst walk_batches.simps) (auto simp: Let_def)
  next
    case False
    have "l \<le> unat cnt" using l(4) by (simp add: m_def)
    then have cnt': "unat (cnt - of_nat l) = unat cnt - l" by (rule unat_sub_of_nat)
    have "unat (of_nat l :: u64) = l" using \<open>l \<le> unat cnt\<close> unat_lt64 [of cnt] by (intro unat_of_nat_u64) simp
    then have index': "unat (index + of_nat l) = unat index + l"
      using assms(2) l(2) by (subst unat_add_lem [THEN iffD1]) simp_all
    have first: "foldE (\<lambda>(i, v). body index i v) (enumerate 0 buf) = foldE ?g [0..<l]"
    proof -
      have "d mod BATCH = d" if "d < l" for d using that l(1) by simp
      then have "body index (0 + d) (buf ! d) = ?g d" if "d < l" for d
        using that l(3) "1.prems"(2) by (simp add: buf_def)
      then show ?thesis unfolding foldE_enumerate l_def [symmetric] by (intro ext foldE_cong refl) simp
    qed
    have rest: "walk_batches rd body (index + of_nat l) (cnt - of_nat l) x = foldE ?g [l..<m] x"
      if x: "foldE (\<lambda>(i, v). body index i v) (enumerate 0 buf) w = Inr x" for x
    proof -
      have cond: "cnt \<noteq> 0" "buf \<noteq> []" "\<not> n < length buf" "unat (index + of_nat l) \<le> length ws"
        using False l(2,3) index' by (simp_all add: l_def)
      have IH: "walk_batches rd body (index + of_nat l) (cnt - of_nat l) x
        = foldE (\<lambda>d. body (index + of_nat l + of_nat (d - d mod BATCH)) (d mod BATCH) (ws ! (unat index + l + d)))
            [0..<min (unat cnt - l) (length ws - (unat index + l))] x"
        by (rule "1.IH" [OF cond(1) n_def rd cond(2,3) x, folded l_def, unfolded index' cnt'])
          (use "1.prems"(1) l(2) in simp_all)
      have n': "min (unat cnt - l) (length ws - (unat index + l)) = m - l" by (simp add: m_def)
      show ?thesis
      proof (cases "l = BATCH")
        case True
        have shift: "?g (d + l) = body (index + of_nat l + of_nat (d - d mod BATCH)) (d mod BATCH)
            (ws ! (unat index + l + d))" for d
        proof -
          have "(d + l) mod BATCH = d mod BATCH" "unat index + (d + l) = unat index + l + d"
            "d + l - d mod BATCH = l + (d - d mod BATCH)" using True by simp_all
          then show ?thesis by (simp only: of_nat_add add.assoc)
        qed
        moreover have "[l..<m] = map (\<lambda>d. d + l) [0..<m - l]" using l(4) by (simp add: map_add_upt)
        ultimately show ?thesis unfolding IH n' by (simp only: foldE_map shift)
      next
        case False
        with l(1) have "l = m" by simp
        then show ?thesis unfolding IH n' by simp
      qed
    qed
    have "walk_batches rd body index cnt w
      = rbind (foldE (\<lambda>(i, v). body index i v) (enumerate 0 buf) w)
          (walk_batches rd body (index + of_nat l) (cnt - of_nat l))"
      using False l(3) rd unfolding n_def by (subst walk_batches.simps) (auto simp: Let_def l_def)
    also have "\<dots> = rbind (foldE (\<lambda>(i, v). body index i v) (enumerate 0 buf) w) (foldE ?g [l..<m])"
      by (rule rbind_cong [OF refl rest])
    also have "\<dots> = foldE ?g ([0..<l] @ [l..<m]) w" by (simp only: first foldE_append)
    also have "[0..<l] @ [l..<m] = [0..<m]"
      using l(4) upt_add_eq_append [of 0 l "m - l"] by simp
    finally show ?thesis by (simp only: m_def)
  qed
qed

lemma batch_index: "(index + of_nat (d - d mod BATCH)) + of_nat (d mod BATCH) = (index + of_nat d :: u64)"
proof -
  have "d - d mod BATCH + d mod BATCH = d" by simp
  then show ?thesis by (metis add.assoc of_nat_add)
qed

lemma walk_pfn_serves:
  assumes "serves ws kpageflags" "unat index \<le> length ws"
  shows "walk_pfn kpageflags opts voffset index cnt pme w
    = foldE (\<lambda>d. add_page opts (voffset + of_nat (d mod BATCH)) (index + of_nat d)
                  (ws ! (unat index + d)) pme)
        [0..<min (unat cnt) (length ws - unat index)] w"
proof -
  have "length ws * 8 < 2 ^ 63" using assms(1) by (simp add: serves_def)
  moreover have "kpageflags_read kpageflags i n = Inr (take n (drop (unat i) ws))" if "unat i \<le> length ws" for i n
    unfolding kpageflags_read_def using that by (rule do_u64_read_serves [OF assms(1)])
  ultimately show ?thesis
    unfolding walk_pfn_def using assms(2) by (subst walk_batches_serves [of ws]) (simp_all only: batch_index)
qed

section \<open>The areas of a process\<close>

definition vmas_sorted :: "(u64 \<times> u64) list \<Rightarrow> bool" where
  "vmas_sorted vs \<longleftrightarrow> sorted_wrt (\<lambda>v w. snd v \<le> fst w) vs \<and> list_all (\<lambda>v. fst v < snd v) vs"

definition clip :: "u64 \<Rightarrow> u64 \<Rightarrow> (u64 \<times> u64) list \<Rightarrow> (u64 \<times> u64) list" where
  "clip a b vs = filter (\<lambda>(s, e). s < e) (map (\<lambda>(s, e). (max s a, min e b)) vs)"

lemma clip_Nil [simp]: "clip a b [] = []"
  and clip_Cons [simp]: "clip a b ((s, e) # vs)
    = (if max s a < min e b then (max s a, min e b) # clip a b vs else clip a b vs)"
  and clip_append [simp]: "clip a b (us @ vs) = clip a b us @ clip a b vs"
  by (simp_all add: clip_def)

lemma clip_empty: "(\<And>v. v \<in> set vs \<Longrightarrow> snd v \<le> a \<or> b \<le> fst v) \<Longrightarrow> clip a b vs = []"
proof (induction vs)
  case (Cons v vs)
  have "clip a b vs = []" using Cons by simp
  moreover have "snd v \<le> a \<or> b \<le> fst v" using Cons.prems by simp
  ultimately show ?case by (cases v) (auto simp: max_def min_def)
qed simp

lemma clip_shift: "(\<And>v. v \<in> set vs \<Longrightarrow> a \<le> fst v \<and> a' \<le> fst v) \<Longrightarrow> clip a b vs = clip a' b vs"
proof (induction vs)
  case (Cons v vs)
  then have "clip a b vs = clip a' b vs" "a \<le> fst v" "a' \<le> fst v" by simp_all
  then show ?case by (cases v) (simp add: max_absorb1)
qed simp

lemma next_vma_None: "next_vma vs index i = None \<Longrightarrow> v \<in> set (drop i vs) \<Longrightarrow> snd v \<le> index"
proof (induction vs index i rule: next_vma.induct)
  case (1 vs index i)
  then have i: "i < length vs" by (cases "i < length vs") auto
  then have d: "drop i vs = vs ! i # drop (Suc i) vs" by (simp add: Cons_nth_drop_Suc)
  from "1.prems"(1) have le: "snd (vs ! i) \<le> index"
    using i by (subst (asm) next_vma.simps) (auto simp: vma_at_def split: if_splits)
  show ?case
  proof (cases "length vs \<le> Suc i")
    case True
    with d le "1.prems"(2) show ?thesis by simp
  next
    case False
    with "1.prems"(1) le i have "next_vma vs index (Suc i) = None"
      by (subst (asm) next_vma.simps) (simp add: vma_at_def)
    with 1 False le i d show ?thesis by (auto simp: vma_at_def)
  qed
qed

lemma next_vma_Some_range:
  "next_vma vs index i = Some j \<Longrightarrow>
     i \<le> j \<and> j < length vs \<and> index < snd (vs ! j) \<and> (\<forall>v \<in> set (take (j - i) (drop i vs)). snd v \<le> index)"
proof (induction vs index i rule: next_vma.induct)
  case (1 vs index i)
  show ?case
  proof (cases "snd (vma_at vs i) \<le> index")
    case True
    with "1.prems" have i: "Suc i < length vs" "next_vma vs index (Suc i) = Some j"
      by (subst (asm) next_vma.simps, simp split: if_splits)+
    with 1 True have IH: "Suc i \<le> j \<and> j < length vs \<and> index < snd (vs ! j)
        \<and> (\<forall>v \<in> set (take (j - Suc i) (drop (Suc i) vs)). snd v \<le> index)" by simp
    then have "i < j" by simp
    then have "j - i = Suc (j - Suc i)" by (rule Suc_diff_Suc [symmetric])
    then have "take (j - i) (drop i vs) = vs ! i # take (j - Suc i) (drop (Suc i) vs)"
      using i(1) by (simp add: Cons_nth_drop_Suc [symmetric])
    with IH True i(1) show ?thesis by (simp add: vma_at_def)
  next
    case False
    with "1.prems" have "j = i" by (subst (asm) next_vma.simps) simp
    with False show ?thesis by (cases "i < length vs") (auto simp: vma_at_def)
  qed
qed

lemma vmas_sortedD:
  assumes "vmas_sorted vs" "j < length vs"
  shows "fst (vs ! j) < snd (vs ! j)" "v \<in> set (drop (Suc j) vs) \<Longrightarrow> snd (vs ! j) \<le> fst v"
proof -
  show "fst (vs ! j) < snd (vs ! j)" using assms by (simp add: vmas_sorted_def list_all_length)
  assume "v \<in> set (drop (Suc j) vs)"
  then obtain k where "k < length vs - Suc j" "v = vs ! (Suc j + k)" by (auto simp: in_set_conv_nth)
  then show "snd (vs ! j) \<le> fst v"
    using assms by (auto simp: vmas_sorted_def sorted_wrt_iff_nth_less)
qed

lemma drop_nth: "j < length vs \<Longrightarrow> drop j vs = (fst (vs ! j), snd (vs ! j)) # drop (Suc j) vs"
  by (simp add: Cons_nth_drop_Suc)

text \<open>The areas that are passed over contribute nothing, nor do those behind the end; a visited one is used up.\<close>

lemma clip_skip:
  assumes "next_vma vs index i = Some j"
  shows "clip index e (drop i vs) = clip index e (drop j vs)"
proof -
  from next_vma_Some_range [OF assms] have j: "i \<le> j"
    and skipped: "\<And>v. v \<in> set (take (j - i) (drop i vs)) \<Longrightarrow> snd v \<le> index" by auto
  have "drop i vs = take (j - i) (drop i vs) @ drop j vs"
    using j by (metis append_take_drop_id drop_drop le_add_diff_inverse2)
  moreover have "clip index e (take (j - i) (drop i vs)) = []" using skipped by (intro clip_empty) blast
  ultimately show ?thesis by (metis clip_append append_Nil)
qed

lemma clip_beyond:
  assumes "vmas_sorted vs" "j < length vs" "e \<le> fst (vs ! j)"
  shows "clip index e (drop j vs) = []"
proof -
  note order = vmas_sortedD [OF assms(1,2)]
  have "e \<le> fst v" if "v \<in> set (drop j vs)" for v
  proof (cases "v = vs ! j")
    case False
    with that have "snd (vs ! j) \<le> fst v" using order(2) [of v] by (simp add: drop_nth [OF assms(2)])
    with assms(3) order(1) show ?thesis by simp
  qed (use assms(3) in simp)
  then show ?thesis by (intro clip_empty) blast
qed

lemma clip_next:
  assumes "vmas_sorted vs" "j < length vs" "index < snd (vs ! j)"
  shows "clip (min (snd (vs ! j)) e) e (drop j vs) = clip index e (drop (Suc j) vs)"
proof -
  let ?t = "min (snd (vs ! j)) e"
  have "clip ?t e (drop j vs) = clip ?t e (drop (Suc j) vs)"
    unfolding drop_nth [OF assms(2)] clip_Cons by (auto simp: min_def)
  also have "\<dots> = clip index e (drop (Suc j) vs)"
    using vmas_sortedD(2) [OF assms(1,2)] assms(3)
    by (intro clip_shift) (meson le_cases min.coboundedI1 order_trans less_imp_le)
  finally show ?thesis .
qed

lemma walk_task_loop_clip:
  assumes "vmas_sorted vs"
  shows "walk_task_loop visit vs e index i w
    = foldE (\<lambda>(s, t). visit s (t - s)) (clip index e (drop i vs)) w"
  using assms
proof (induction visit vs e index i w rule: walk_task_loop.induct)
  case (1 visit vs e index i w)
  consider "\<not> index < e" | "index < e" "next_vma vs index i = None"
    | j where "index < e" "next_vma vs index i = Some j" by (cases "next_vma vs index i") auto
  then show ?case
  proof cases
    case 1
    then have "clip index e (drop i vs) = []"
      by (auto simp: clip_def filter_empty_conv max_def min_def split: if_splits)
    with 1 show ?thesis by (subst walk_task_loop.simps) simp
  next
    case 2
    then have "clip index e (drop i vs) = []" using next_vma_None by (intro clip_empty) blast
    with 2 show ?thesis by (subst walk_task_loop.simps) simp
  next
    case (3 j)
    let ?v = "vs ! j"
    from next_vma_Some_range [OF 3(2)] have j: "j < length vs" "index < snd ?v" by auto
    note here = clip_skip [OF 3(2), of e]
    show ?thesis
    proof (cases "e \<le> fst ?v")
      case True
      with 3 clip_beyond [OF "1.prems" j(1) True] j(1) here show ?thesis
        by (subst walk_task_loop.simps) (simp add: vma_at_def)
    next
      case False
      let ?s = "max (fst ?v) index" and ?t = "min (snd ?v) e"
      have lt: "?s < ?t" using 3(1) False j(2) vmas_sortedD(1) [OF "1.prems" j(1)] by simp
      have IH: "walk_task_loop visit vs e ?t j x
        = foldE (\<lambda>(s, t). visit s (t - s)) (clip index e (drop (Suc j) vs)) x"
        if "visit ?s (?t - ?s) w = Inr x" for x
        using "1.IH" [of j ?s ?t x] "1.prems" 3 False lt that j(1) clip_next [OF "1.prems" j, of e]
        by (simp add: vma_at_def)
      have "walk_task_loop visit vs e index i w
        = rbind (visit ?s (?t - ?s) w) (walk_task_loop visit vs e ?t j)"
        using 3 False lt j(1) by (subst walk_task_loop.simps) (simp add: vma_at_def Let_def)
      also have "\<dots> = rbind (visit ?s (?t - ?s) w)
          (foldE (\<lambda>(s, t). visit s (t - s)) (clip index e (drop (Suc j) vs)))"
        by (rule rbind_cong [OF refl IH])
      also have "\<dots> = foldE (\<lambda>(s, t). visit s (t - s)) (clip index e (drop j vs)) w"
        using lt unfolding drop_nth [OF j(1)] clip_Cons by simp
      finally show ?thesis by (simp only: here)
    qed
  qed
qed

section \<open>Properties\<close>

text \<open>
  C8. \<open>walk_pfn\<close> adds every page frame of the range that \<open>/proc/kpageflags\<close> covers exactly once and
  in order, with its flag word; the walk ends at the end of the file. The virtual offset starts again
  at \<open>voffset\<close> with every batch of 64k pages, as the loop moves \<open>index\<close> but not \<open>voffset\<close>.
\<close>

theorem walk_pfn_pages:
  assumes "serves ws kpageflags" "unat index \<le> length ws"
  shows "walk_pfn kpageflags opts voffset index cnt pme w
    = foldE (\<lambda>d. add_page opts (voffset + of_nat (d mod BATCH)) (index + of_nat d)
                  (ws ! (unat index + d)) pme)
        [0..<min (unat cnt) (length ws - unat index)] w"
  using assms by (rule walk_pfn_serves)

theorem walk_pfn_pages_witness:
  "walk_pfn (\<lambda>off n. Some (concat (map le_bytes (take (n div 8) (drop (off div 8) [4 :: u64, 0, 4])))))
      (no_opts 4096) 1 1 5 0 init_walker
    = rbind (add_page (no_opts 4096) 1 1 0 0 init_walker) (\<lambda>w. rbind (add_page (no_opts 4096) 2 2 4 0 w) Inr)"
proof -
  have "serves [4, 0, 4] (\<lambda>off n. Some (concat (map le_bytes (take (n div 8) (drop (off div 8) [4 :: u64, 0, 4])))))"
    by (simp add: serves_def)
  moreover have "[0..<2] = [0, Suc 0]" by (simp add: upt_rec)
  ultimately show ?thesis
    using walk_pfn_pages [of "[4, 0, 4]" _ 1 "no_opts 4096" 1 5 0 init_walker] by (simp add: BATCH_def cong: rbind_cong)
qed

text \<open>
  C28. \<open>walk_task\<close> walks exactly the parts of the areas of the process that lie in the range, in
  order, when the areas are the ordered disjoint ones the kernel prints; in particular its assertion
  holds.
\<close>

theorem walk_task_areas:
  assumes "vmas_sorted (vmas opts)"
  shows "walk_task kpageflags pagemap opts index cnt w
    = foldE (\<lambda>(s, e). walk_vma kpageflags pagemap opts s (e - s))
        (clip index (index + cnt) (vmas opts)) w"
  unfolding walk_task_def using walk_task_loop_clip [OF assms, of _ _ _ 0] by simp

theorem walk_task_areas_witness:
  "let k = (\<lambda>off n. None); o1 = (no_opts 4096)\<lparr>opt_pid := 1, vmas := [(1, 3), (3, 4), (5, 9)]\<rparr>
   in walk_task k k o1 2 5 init_walker
      = rbind (walk_vma k k o1 2 1 init_walker) (\<lambda>w. rbind (walk_vma k k o1 3 1 w) (\<lambda>w.
          rbind (walk_vma k k o1 5 2 w) Inr))"
  using walk_task_areas [of "(no_opts 4096)\<lparr>opt_pid := 1, vmas := [(1, 3), (3, 4), (5, 9)]\<rparr>"
      "\<lambda>off n. None" "\<lambda>off n. None" 2 5 init_walker]
  by (simp add: vmas_sorted_def clip_def Let_def cong: rbind_cong)

text \<open>
  \<open>walk_vma\<close> looks at every page of the area that the pagemap covers, once and in order, and walks
  the frame of each present one, with its pagemap entry.
\<close>

theorem walk_vma_pages:
  assumes "serves ps pagemap" "unat index \<le> length ps"
  shows "walk_vma kpageflags pagemap opts index cnt w
    = foldE (\<lambda>d w. if pagemap_pfn (ps ! (unat index + d)) = 0 then Inr w
               else walk_pfn kpageflags opts (index + of_nat d) (pagemap_pfn (ps ! (unat index + d))) 1
                      (ps ! (unat index + d)) w)
        [0..<min (unat cnt) (length ps - unat index)] w"
proof -
  have flip: "(if x \<noteq> 0 then a else b) = (if x = 0 then b else a)" for x :: u64 and a b :: "walker res"
    by simp
  have "length ps * 8 < 2 ^ 63" using assms(1) by (simp add: serves_def)
  moreover have "pagemap_read pagemap i n = Inr (take n (drop (unat i) ps))" if "unat i \<le> length ps" for i n
    unfolding pagemap_read_def using that by (rule do_u64_read_serves [OF assms(1)])
  ultimately show ?thesis
    unfolding walk_vma_def using assms(2)
    by (subst walk_batches_serves [of ps]) (simp_all only: Let_def batch_index flip)
qed

theorem walk_vma_pages_witness:
  "walk_vma (\<lambda>off n. None) (\<lambda>off n. Some (concat (map le_bytes (take (n div 8) (drop (off div 8) [0 :: u64, 3])))))
      (no_opts 4096) 0 5 init_walker = Inr init_walker"
proof -
  have "serves [0, 3] (\<lambda>off n. Some (concat (map le_bytes (take (n div 8) (drop (off div 8) [0 :: u64, 3])))))"
    by (simp add: serves_def)
  moreover have "[0..<2] = [0, Suc 0]" by (simp add: upt_rec)
  moreover have "pagemap_pfn 0 = 0" "pagemap_pfn 3 = 0" by (simp_all add: pagemap_pfn_def PM_PRESENT_def)
  ultimately show ?thesis
    using walk_vma_pages [of "[0, 3]" _ 0 "\<lambda>off n. None" "no_opts 4096" 5 init_walker] by simp
qed

end
