(* ===== verification/Page_Main.thy ===== *)
theory Page_Main
  imports Page_Walk
begin

text \<open>
  The rest of \<open>page-types.c\<close>: finding and mounting debugfs, the page cache of files, the usage text
  and \<open>main\<close>. The file system and the kernel are parameters: which paths open, what \<open>statfs\<close>, \<open>mmap\<close>
  and \<open>nftw\<close> report, which mapped pages are resident and which raise SIGBUS.
\<close>

section \<open>debugfs\<close>

definition DEBUGFS_MAGIC :: int where "DEBUGFS_MAGIC = 0x64626720"
definition DEBUGFS_DEFAULT_PATH :: string where "DEBUGFS_DEFAULT_PATH = ''/sys/kernel/debug''"
definition debugfs_known_mountpoints :: "string list" where
  "debugfs_known_mountpoints = [''/sys/kernel/debug'', ''/debug'']"

text \<open>\<open>statfs\<close> gives the type of the file system a path lies in; \<open>proc_mounts\<close> the mount points and
  types the \<open>fscanf\<close> on \<open>/proc/mounts\<close> reads, \<open>None\<close> when the file does not open.\<close>

record mount_env =
  statfs_type :: "string \<Rightarrow> int option"
  proc_mounts :: "(string \<times> string) list option"
  getenv_debugfs :: "string option"
  mount_ok :: "string \<Rightarrow> bool"

definition valid_mountpoint :: "mount_env \<Rightarrow> string \<Rightarrow> int \<Rightarrow> bool" where
  "valid_mountpoint env mnt magic = (statfs_type env mnt = Some magic)"

text \<open>
  The scan of \<open>/proc/mounts\<close>: \<open>mountpoint\<close> and \<open>type\<close> keep the last line read. With no line at all
  \<open>type\<close> is read uninitialised. The format's field width is the size of the buffer \<open>mountpoint\<close>, one
  more than the characters that fit.
\<close>

fun scan_mounts :: "string \<Rightarrow> nat \<Rightarrow> (string \<times> string) option \<Rightarrow> (string \<times> string) list
    \<Rightarrow> (string \<times> string) res" where
  "scan_mounts fstype len None [] = Inl (Undef ''type is not initialised'')"
| "scan_mounts fstype len (Some l) [] = Inr l"
| "scan_mounts fstype len seen ((mountpoint, type) # ms) =
     (if len \<le> length mountpoint then Inl (Undef ''mountpoint overflow'')
      else if type = fstype then Inr (mountpoint, type)
      else scan_mounts fstype len (Some (mountpoint, type)) ms)"

definition find_mountpoint :: "mount_env \<Rightarrow> string \<Rightarrow> int \<Rightarrow> nat \<Rightarrow> string list \<Rightarrow> string option res" where
  "find_mountpoint env fstype magic len known =
     (case find (\<lambda>p. valid_mountpoint env p magic) known of
        Some p \<Rightarrow> Inr (Some (take (len - 1) p))
      | None \<Rightarrow>
          (case proc_mounts env of
             None \<Rightarrow> Inr None
           | Some ms \<Rightarrow>
               rbind (scan_mounts fstype len None ms) (\<lambda>(mountpoint, type).
                 Inr (if type = fstype then Some mountpoint else None))))"

text \<open>The static \<open>debugfs_mountpoint\<close>, \<open>None\<close> while \<open>debugfs_found\<close> is false.\<close>

definition debugfs_find_mountpoint :: "mount_env \<Rightarrow> string option \<Rightarrow> string option res" where
  "debugfs_find_mountpoint env found =
     (case found of
        Some p \<Rightarrow> Inr (Some p)
      | None \<Rightarrow> find_mountpoint env ''debugfs'' DEBUGFS_MAGIC 4097 debugfs_known_mountpoints)"

definition debugfs_mount :: "mount_env \<Rightarrow> string option \<Rightarrow> string option \<Rightarrow> string option res" where
  "debugfs_mount env mountpoint found =
     rbind (debugfs_find_mountpoint env found) (\<lambda>r.
       case r of
         Some p \<Rightarrow> Inr (Some p)
       | None \<Rightarrow>
           let mnt = (case mountpoint of
                        Some m \<Rightarrow> m
                      | None \<Rightarrow> (case getenv_debugfs env of Some m \<Rightarrow> m | None \<Rightarrow> DEBUGFS_DEFAULT_PATH))
           in if \<not> mount_ok env mnt then Inr None else Inr (Some (take 4097 mnt)))"

text \<open>
  The state of \<open>prepare_hwpoison_fd\<close>: the mount point found and the two descriptors, as the paths they
  were opened on (0 is \<open>None\<close>).
\<close>

record hw_fds =
  debugfs_path :: "string option"
  inject_fd :: "string option"
  forget_fd :: "string option"

definition prepare_hwpoison_fd :: "mount_env \<Rightarrow> (string \<Rightarrow> bool) \<Rightarrow> opts \<Rightarrow> hw_fds \<Rightarrow> hw_fds res" where
  "prepare_hwpoison_fd env openable opts fds =
     rbind (debugfs_mount env None (debugfs_path fds)) (\<lambda>r.
       case r of
         None \<Rightarrow> Inl (Fatal ''mount debugfs'')
       | Some dir \<Rightarrow>
           let fds = fds\<lparr>debugfs_path := Some dir\<rparr>;
               corrupt = take 255 (dir @ ''/hwpoison/corrupt-pfn'');
               forget = take 255 (dir @ ''/hwpoison/unpoison-pfn'')
           in rbind (if opt_hwpoison opts \<and> inject_fd fds = None
                     then rbind (checked_open openable corrupt) (\<lambda>_. Inr (fds\<lparr>inject_fd := Some corrupt\<rparr>))
                     else Inr fds)
              (\<lambda>fds. if opt_unpoison opts \<and> forget_fd fds = None
                     then rbind (checked_open openable forget) (\<lambda>_. Inr (fds\<lparr>forget_fd := Some forget\<rparr>))
                     else Inr fds))"

section \<open>The page cache of a file\<close>

datatype file_kind = Regular | Directory | Other_File

record file_stat =
  st_kind :: file_kind
  st_size :: nat
  st_ino :: nat
  st_mtime :: int
  st_atime :: int

text \<open>
  What the kernel does for one mapping of a file: its address, the pages that \<open>mincore\<close> calls resident
  (\<open>None\<close>: the call fails), and whether reading a page raises SIGBUS at the page's address.
\<close>

record file_env =
  map_at :: "string \<Rightarrow> nat \<Rightarrow> u64 option"
  resident :: "string \<Rightarrow> nat \<Rightarrow> (nat \<Rightarrow> bool) option"
  madvise_ok :: "string \<Rightarrow> nat \<Rightarrow> bool"
  sigbus_at :: "string \<Rightarrow> nat \<Rightarrow> nat \<Rightarrow> bool"
  self_pagemap :: pread
  flags_file :: pread
  time_now :: int
  time_text :: "int \<Rightarrow> string"

definition show_file :: "file_env \<Rightarrow> u64 \<Rightarrow> string \<Rightarrow> file_stat \<Rightarrow> string" where
  "show_file env pgsz name st =
     name @ [TAB] @ ''Inode: '' @ show_dec (st_ino st mod 2 ^ 32) @ [TAB] @ ''Size: '' @ show_dec (st_size st)
     @ '' ('' @ show_dec ((st_size st + unat pgsz - 1) div unat pgsz) @ '' pages)'' @ [NL]
     @ ''Modify: '' @ time_text env (st_mtime st) @ '' ('' @ show_int (time_now env - st_mtime st)
     @ '' seconds ago)'' @ [NL]
     @ ''Access: '' @ time_text env (st_atime st) @ '' ('' @ show_int (time_now env - st_atime st)
     @ '' seconds ago)'' @ [NL]"

text \<open>
  The pages of one mapping, after the population of the page tables: present frames whose flags can be
  read are added, the first of them after the lines about the file.
\<close>

definition walk_mapped_page ::
    "file_env \<Rightarrow> opts \<Rightarrow> string \<Rightarrow> file_stat \<Rightarrow> nat \<Rightarrow> nat \<Rightarrow> u64 \<Rightarrow> bool \<times> walker \<Rightarrow> (bool \<times> walker) res" where
  "walk_mapped_page env opts name st off i pme fw =
     (case fw of (first, w) \<Rightarrow>
        let pfn = pagemap_pfn pme
        in if pfn = 0 then Inr (first, w)
           else rbind (kpageflags_read (flags_file env) pfn 1) (\<lambda>buf.
             case buf of
               [] \<Rightarrow> Inr (first, w)
             | flags # _ \<Rightarrow>
                 rbind (if first \<and> opt_list opts \<noteq> 0
                        then rbind (flush_page_range (run w, lines w)) (\<lambda>(r, ls).
                               Inr (False, w\<lparr>run := r,
                                      lines := ls @ [File_Lines (show_file env (page_size opts) name st)]\<rparr>))
                        else Inr (first, w)) (\<lambda>(first, w).
                 rbind (add_page opts (of_nat (off div unat (page_size opts) + i)) pfn flags pme w) (\<lambda>w.
                   Inr (first, w)))))"

text \<open>
  SIGBUS at page \<open>k\<close> of the mapping ends the population; \<open>end\<close> becomes the distance of that address
  from the mapping, as \<open>off + sigbus_addr ? a : b\<close> is \<open>(off + sigbus_addr) ? a : b\<close>.
\<close>

definition first_sigbus :: "file_env \<Rightarrow> string \<Rightarrow> nat \<Rightarrow> (nat \<Rightarrow> bool) \<Rightarrow> nat \<Rightarrow> nat option" where
  "first_sigbus env name off vec n = find (\<lambda>i. vec i \<and> sigbus_at env name off i) [0..<n]"

definition PAGEMAP_BATCH :: nat where "PAGEMAP_BATCH = 64 * 2 ^ 10"

definition batch_pages :: "nat \<Rightarrow> nat \<Rightarrow> nat \<Rightarrow> nat" where
  "batch_pages pgsz off fin = min ((fin - off + pgsz - 1) div pgsz) PAGEMAP_BATCH"

definition new_end :: "nat option \<Rightarrow> nat \<Rightarrow> nat \<Rightarrow> nat" where
  "new_end fault pgsz fin = (case fault of None \<Rightarrow> fin | Some k \<Rightarrow> k * pgsz)"

function walk_file_loop ::
    "file_env \<Rightarrow> opts \<Rightarrow> string \<Rightarrow> file_stat \<Rightarrow> nat \<Rightarrow> nat \<Rightarrow> bool \<times> walker \<Rightarrow> (bool \<times> walker) res" where
  "walk_file_loop env opts name st off fin fw =
     (if \<not> off < fin then Inr fw
      else if page_size opts = 0 then Inl (Undef ''division by zero'')
      else
        let pgsz = unat (page_size opts);
            n = batch_pages pgsz off fin;
            len = n * pgsz
        in case map_at env name off of
             None \<Rightarrow> Inl (Fatal (''mmap failed: '' @ name))
           | Some ptr \<Rightarrow>
               (case resident env name off of
                  None \<Rightarrow> Inl (Fatal (''mincore failed: '' @ name))
                | Some vec \<Rightarrow>
                    if \<not> madvise_ok env name off then Inl (Fatal (''madvice failed: '' @ name))
                    else rbind (pagemap_read (self_pagemap env) (ptr div page_size opts) n) (\<lambda>buf.
                      if length buf \<noteq> n then Inl (Fatal ''cannot read pagemap'')
                      else rbind (foldE (\<lambda>(i, pme). walk_mapped_page env opts name st off i pme)
                                    (enumerate 0 buf) fw)
                             (walk_file_loop env opts name st (off + len)
                                (new_end (first_sigbus env name off vec n) pgsz fin)))))"
  by pat_completeness auto

lemma find_upt_lt: "find P [0..<n] = Some k \<Longrightarrow> k < n"
  by (auto simp: find_Some_iff)

termination walk_file_loop
proof (relation "measure (\<lambda>(env, opts, name, st, off, fin, fw). fin - off)")
  fix env opts name st off fin fw x vec pgsz n len
  assume "\<not> \<not> off < fin" "page_size (opts :: opts) \<noteq> 0" "pgsz = unat (page_size opts)"
    "n = batch_pages pgsz off fin" "len = n * pgsz"
  moreover from this have p: "0 < pgsz" by (simp add: unat_gt_0)
  moreover from calculation have "1 \<le> (fin - off + pgsz - 1) div pgsz"
    by (simp add: div_greater_zero_iff Suc_le_eq)
  ultimately have n: "0 < n" by (simp add: batch_pages_def PAGEMAP_BATCH_def)
  have len: "0 < len" using n p \<open>len = n * pgsz\<close> by simp
  have "new_end (first_sigbus env name off vec n) pgsz fin \<le> fin
     \<or> new_end (first_sigbus env name off vec n) pgsz fin \<le> off + len"
  proof (cases "first_sigbus env name off vec n")
    case (Some k)
    then have "k < n" unfolding first_sigbus_def by (rule find_upt_lt)
    then have "k * pgsz \<le> off + len" by (simp add: \<open>len = n * pgsz\<close> trans_le_add2)
    with Some show ?thesis by (simp add: new_end_def)
  qed (simp add: new_end_def)
  with len \<open>\<not> \<not> off < fin\<close>
  show "((env, opts, name, st, off + len, new_end (first_sigbus env name off vec n) pgsz fin, x),
      env, opts, name, st, off, fin, fw) \<in> measure (\<lambda>(env, opts, name, st, off, fin, fw). fin - off)"
    by auto
qed simp

declare walk_file_loop.simps [simp del]

definition walk_file ::
    "file_env \<Rightarrow> (string \<Rightarrow> bool) \<Rightarrow> opts \<Rightarrow> string \<Rightarrow> file_stat \<Rightarrow> walker \<Rightarrow> walker res" where
  "walk_file env openable opts name st w =
     rbind (checked_open openable name) (\<lambda>_.
     rbind (walk_file_loop env opts name st 0 (st_size st) (True, w)) (\<lambda>(first, w). Inr w))"

text \<open>The type \<open>nftw\<close> reports for an entry.\<close>

datatype ftw_type = FTW_F | FTW_DNR | FTW_Other

definition walk_tree ::
    "file_env \<Rightarrow> (string \<Rightarrow> bool) \<Rightarrow> opts \<Rightarrow> string \<times> file_stat \<times> ftw_type \<Rightarrow> walker \<Rightarrow> walker res" where
  "walk_tree env openable opts entry w =
     (case entry of (name, st, type) \<Rightarrow>
        (case type of
           FTW_F \<Rightarrow> if st_kind st = Regular then walk_file env openable opts name st w else Inr w
         | FTW_DNR \<Rightarrow> Inr w
         | FTW_Other \<Rightarrow> Inr w))"

text \<open>
  \<open>stat_of\<close> is \<open>stat\<close>; \<open>tree name\<close> lists the entries \<open>nftw\<close> visits and whether it succeeds.
\<close>

definition walk_page_cache ::
    "file_env \<Rightarrow> (string \<Rightarrow> bool) \<Rightarrow> (string \<Rightarrow> file_stat option)
      \<Rightarrow> (string \<Rightarrow> (string \<times> file_stat \<times> ftw_type) list \<times> bool) \<Rightarrow> opts \<Rightarrow> string \<Rightarrow> walker \<Rightarrow> walker res" where
  "walk_page_cache env openable stat_of tree opts name w =
     rbind (checked_open openable ''/proc/kpageflags'') (\<lambda>_.
     rbind (checked_open openable ''/proc/self/pagemap'') (\<lambda>_.
       case stat_of name of
         None \<Rightarrow> Inl (Fatal (''stat failed: '' @ name))
       | Some st \<Rightarrow>
           (case st_kind st of
              Regular \<Rightarrow> walk_file env openable opts name st w
            | Directory \<Rightarrow>
                rbind (foldE (walk_tree env openable opts) (fst (tree name)) w) (\<lambda>w.
                  if \<not> snd (tree name) then Inl (Fatal (''nftw failed: '' @ name)) else Inr w)
            | Other_File \<Rightarrow> Inl (Fatal (''unhandled file type: '' @ name)))))"

section \<open>The command line\<close>

definition usage_lines :: "string list" where
  "usage_lines =
    [''page-types [options]'',
     ''            -r|--raw                   Raw mode, for kernel developers'',
     ''            -d|--describe flags        Describe flags'',
     ''            -a|--addr    addr-spec     Walk a range of pages'',
     ''            -b|--bits    bits-spec     Walk pages with specified bits'',
     ''            -p|--pid     pid           Walk process address space'',
     ''            -f|--file    filename      Walk file address space'',
     ''            -l|--list                  Show page details in ranges'',
     ''            -L|--list-each             Show page details one by one'',
     ''            -N|--no-summary            Don't show summary info'',
     ''            -X|--hwpoison              hwpoison pages'',
     ''            -x|--unpoison              unpoison pages'',
     ''            -h|--help                  Show this usage message'',
     ''flags:'',
     ''            0x10                       bitfield format, e.g.'',
     ''            anon                       bit-name, e.g.'',
     ''            0x10,anon                  comma-separated list, e.g.'',
     ''addr-spec:'',
     ''            N                          one page at offset N (unit: pages)'',
     ''            N+M                        pages range from N to N+M-1'',
     ''            N,M                        pages range from N to M-1'',
     ''            N,                         pages range from N to end'',
     ''            ,M                         pages range from 0 to M-1'',
     ''bits-spec:'',
     ''            bit1,bit2                  (flags & (bit1|bit2)) != 0'',
     ''            bit1,bit2=bit1             (flags & (bit1|bit2)) == bit1'',
     ''            bit1,~bit2                 (flags & (bit1|bit2)) == bit1'',
     ''            =bit1,bit2                 flags == (bit1|bit2)'',
     ''bit-names:'']"

text \<open>The table of names at the end, four in a line; \<open>j\<close> counts the names of the line.\<close>

fun usage_names :: "nat \<Rightarrow> nat \<Rightarrow> string option list \<Rightarrow> string" where
  "usage_names i j [] = []"
| "usage_names i j (None # nms) = usage_names (Suc i) j nms"
| "usage_names i j (Some s # nms) =
     fmt_right 16 (drop 2 s) @ page_flag_type (BIT i)
     @ (if 3 < Suc j then NL # usage_names (Suc i) 0 nms else usage_names (Suc i) (Suc j) nms)"

definition usage :: string where
  "usage = concat (map (\<lambda>l. l @ [NL]) usage_lines) @ usage_names 0 0 page_flag_names
     @ [NL] @ replicate 35 (CHR '' '') @ ''(r) raw mode bits  (o) overloaded bits'' @ [NL]"

text \<open>
  One round of the option loop: \<open>c\<close> and \<open>optarg\<close> are what \<open>getopt_long\<close> returned. \<open>Leave\<close> is an
  \<open>exit\<close>, with the output before it.
\<close>

record proc_env =
  mounts :: mount_env
  openable :: "string \<Rightarrow> bool"
  pagemap_ok :: "int \<Rightarrow> bool"
  maps_of :: "int \<Rightarrow> string list option"

datatype progress = Continue opts hw_fds | Leave string int

definition handle_option :: "proc_env \<Rightarrow> char \<Rightarrow> string \<Rightarrow> opts \<Rightarrow> hw_fds \<Rightarrow> progress res" where
  "handle_option env c optarg opts fds =
     (if c = CHR ''r'' then Inr (Continue (opts\<lparr>opt_raw := True\<rparr>) fds)
      else if c = CHR ''p'' then
        rbind (parse_pid (pagemap_ok env) (maps_of env) optarg opts) (\<lambda>opts. Inr (Continue opts fds))
      else if c = CHR ''f'' then Inr (Continue (parse_file optarg opts) fds)
      else if c = CHR ''a'' then rbind (parse_addr_range optarg opts) (\<lambda>opts. Inr (Continue opts fds))
      else if c = CHR ''b'' then rbind (parse_bits_mask optarg opts) (\<lambda>opts. Inr (Continue opts fds))
      else if c = CHR ''d'' then rbind (describe_flags optarg) (\<lambda>s. Inr (Leave s 0))
      else if c = CHR ''l'' then Inr (Continue (opts\<lparr>opt_list := 1\<rparr>) fds)
      else if c = CHR ''L'' then Inr (Continue (opts\<lparr>opt_list := 2\<rparr>) fds)
      else if c = CHR ''N'' then Inr (Continue (opts\<lparr>opt_no_summary := True\<rparr>) fds)
      else if c = CHR ''X'' then
        (let opts = opts\<lparr>opt_hwpoison := True\<rparr>
         in rbind (prepare_hwpoison_fd (mounts env) (openable env) opts fds) (\<lambda>fds. Inr (Continue opts fds)))
      else if c = CHR ''x'' then
        (let opts = opts\<lparr>opt_unpoison := True\<rparr>
         in rbind (prepare_hwpoison_fd (mounts env) (openable env) opts fds) (\<lambda>fds. Inr (Continue opts fds)))
      else if c = CHR ''h'' then Inr (Leave usage 0)
      else Inr (Leave usage 1))"

fun handle_options :: "proc_env \<Rightarrow> (char \<times> string) list \<Rightarrow> opts \<Rightarrow> hw_fds \<Rightarrow> progress res" where
  "handle_options env [] opts fds = Inr (Continue opts fds)"
| "handle_options env ((c, optarg) # cs) opts fds =
     rbind (handle_option env c optarg opts fds) (\<lambda>p.
       case p of
         Continue opts fds \<Rightarrow> handle_options env cs opts fds
       | Leave s code \<Rightarrow> Inr (Leave s code))"

definition no_fds :: hw_fds where
  "no_fds = \<lparr>debugfs_path = None, inject_fd = None, forget_fd = None\<rparr>"

definition list_header :: "opts \<Rightarrow> string" where
  "list_header opts =
     (if opt_list opts \<noteq> 0 \<and> opt_pid opts \<noteq> 0 then ''voffset'' @ [TAB] else [])
     @ (if opt_list opts \<noteq> 0 \<and> opt_file opts \<noteq> None then ''foffset'' @ [TAB] else [])
     @ (if opt_list opts = 1 then ''offset'' @ [TAB] @ ''len'' @ [TAB] @ ''flags'' @ [NL] else [])
     @ (if opt_list opts = 2 then ''offset'' @ [TAB] @ ''flags'' @ [NL] else [])"

text \<open>
  \<open>main\<close>: the standard output, the exit code and the final walker. \<open>flags_file\<close> of the file
  environment is \<open>/proc/kpageflags\<close>, \<open>task_pagemap\<close> the pagemap opened by \<open>parse_pid\<close>.
\<close>

definition main_page_types ::
    "proc_env \<Rightarrow> file_env \<Rightarrow> pread \<Rightarrow> (string \<Rightarrow> file_stat option)
      \<Rightarrow> (string \<Rightarrow> (string \<times> file_stat \<times> ftw_type) list \<times> bool) \<Rightarrow> u64 \<Rightarrow> (char \<times> string) list
      \<Rightarrow> (string \<times> int \<times> walker) res" where
  "main_page_types env fenv task_pagemap stat_of tree pgsz args =
     rbind (handle_options env args (no_opts pgsz) no_fds) (\<lambda>p.
       case p of
         Leave s code \<Rightarrow> Inr (s, code, init_walker)
       | Continue opts fds \<Rightarrow>
           rbind (case opt_file opts of
                    Some name \<Rightarrow> walk_page_cache fenv (openable env) stat_of tree opts name init_walker
                  | None \<Rightarrow> walk_addr_ranges (openable env) (flags_file fenv) task_pagemap opts init_walker) (\<lambda>w.
           rbind (if opt_list opts = 1
                  then rbind (flush_page_range (run w, lines w)) (\<lambda>(r, ls). Inr (w\<lparr>run := r, lines := ls\<rparr>))
                  else Inr w) (\<lambda>w.
             let listing = list_header opts @ concat (map (line_text opts) (lines w))
             in if opt_no_summary opts then Inr (listing, 0, w)
                else rbind (show_summary pgsz (table w)) (\<lambda>summary.
                  Inr (listing @ (if opt_list opts \<noteq> 0 then [NL, NL] else []) @ summary, 0, w)))))"

section \<open>Properties\<close>

text \<open>
  C25. The default walk counts memory: without lists and poisoning, walking all pages counts, for every
  word of \<open>/proc/kpageflags\<close> in turn, the reported flags if the filters accept them, and stops only
  when the counting stops.
\<close>

theorem walk_all_counts:
  assumes "serves ws kpageflags" "opens ''/proc/kpageflags''"
    and opts: "addr_ranges opts = []" "opt_pid opts = 0" "opt_list opts = 0"
      "\<not> opt_hwpoison opts" "\<not> opt_unpoison opts"
  shows "walk_addr_ranges opens kpageflags pagemap opts init_walker
    = rbind (foldE count_page
               (filter (bit_mask_ok (bit_filters opts))
                  (map (\<lambda>f. kpageflags_flags (opt_raw opts) f 0) ws)) no_pages)
        (\<lambda>t. Inr (init_walker\<lparr>table := t\<rparr>))"
proof -
  let ?fs = "\<lambda>ws. filter (bit_mask_ok (bit_filters opts)) (map (\<lambda>f. kpageflags_flags (opt_raw opts) f 0) ws)"
  let ?step = "\<lambda>f w. if bit_mask_ok (bit_filters opts) (kpageflags_flags (opt_raw opts) f 0)
       then rbind (count_page (kpageflags_flags (opt_raw opts) f 0) (table w)) (\<lambda>t. Inr (w\<lparr>table := t\<rparr>))
       else Inr w"
  have quiet: "add_page opts v i f 0 = ?step f" for v i f
    using opts by (intro ext) (simp add: add_page_def list_page_def Let_def)
  have count: "foldE ?step xs (init_walker\<lparr>table := t\<rparr>)
      = rbind (foldE count_page (?fs xs) t) (\<lambda>t. Inr (init_walker\<lparr>table := t\<rparr>))" for xs t
    by (induction xs arbitrary: t) (simp_all cong: rbind_cong)
  have nth: "foldE (\<lambda>d. ?step (ws ! d)) [0..<length ws] = foldE ?step ws"
    by (intro ext) (simp only: foldE_map [of ?step "(!) ws", symmetric] map_nth)
  have len: "length ws * 8 < 2 ^ 63" using assms(1) by (simp add: serves_def)
  let ?o = "opts\<lparr>addr_ranges := [(0, ULONG_MAX)]\<rparr>"
  have "add_page ?o v i f pme = add_page opts v i f pme" for v i f pme
    by (intro ext) (simp add: add_page_def list_page_def Let_def)
  moreover have "min (unat ULONG_MAX) (length ws - unat (0 :: u64)) = length ws"
    using len by (simp add: unat_ULONG_MAX)
  moreover have "init_walker = init_walker\<lparr>table := no_pages\<rparr>" by (simp add: init_walker_def)
  ultimately have "walk_pfn kpageflags ?o 0 0 ULONG_MAX 0 init_walker
      = foldE ?step ws (init_walker\<lparr>table := no_pages\<rparr>)"
    using walk_pfn_serves [OF assms(1), of 0 ?o 0 ULONG_MAX 0 init_walker]
    by (simp only: quiet nth unat_0 add_0 le0)
  with count assms(2) opts(1,2) show ?thesis
    by (simp add: walk_addr_ranges_def checked_open_def add_addr_range_def MAX_ADDR_RANGES_def)
qed

theorem walk_all_counts_witness:
  "walk_addr_ranges (\<lambda>_. True)
      (\<lambda>off n. Some (concat (map le_bytes (take (n div 8) (drop (off div 8) [5 :: u64, 0, 5])))))
      (\<lambda>off n. None) (no_opts 4096) init_walker
    = rbind (foldE count_page [5, 0, 5] no_pages) (\<lambda>t. Inr (init_walker\<lparr>table := t\<rparr>))"
proof -
  have "serves [5, 0, 5] (\<lambda>off n. Some (concat (map le_bytes (take (n div 8) (drop (off div 8) [5 :: u64, 0, 5])))))"
    by (simp add: serves_def)
  note walk_all_counts [OF this, of "\<lambda>_. True" "no_opts 4096" "\<lambda>off n. None"]
  moreover have "kpageflags_flags False 5 0 = 5" "kpageflags_flags False 0 0 = 0" by code_simp+
  ultimately show ?thesis by (simp add: no_opts_def)
qed

text \<open>
  After a SIGBUS the walk of a file ends with the mapping in which it happened: the new \<open>end\<close>, a
  distance from the mapping, is never behind the next mapping, whatever its offset in the file.
\<close>

theorem sigbus_ends_file:
  assumes "first_sigbus env name off vec n = Some k"
  shows "walk_file_loop env opts name st (off + n * pgsz)
      (new_end (first_sigbus env name off vec n) pgsz fin) fw = Inr fw"
proof -
  have "k < n" using assms unfolding first_sigbus_def by (rule find_upt_lt)
  then have "k * pgsz \<le> off + n * pgsz" by (simp add: trans_le_add2)
  with assms show ?thesis by (subst walk_file_loop.simps) (simp add: new_end_def)
qed

theorem sigbus_ends_file_witness:
  "let env = \<lparr>map_at = (\<lambda>_ _. Some 4096), resident = (\<lambda>_ _. Some (\<lambda>_. True)), madvise_ok = (\<lambda>_ _. True),
        sigbus_at = (\<lambda>_ _ i. i = 1), self_pagemap = (\<lambda>_ _. None), flags_file = (\<lambda>_ _. None),
        time_now = 0, time_text = (\<lambda>_. [])\<rparr>
   in walk_file_loop env (no_opts 4096) ''f''
        \<lparr>st_kind = Regular, st_size = 20480, st_ino = 1, st_mtime = 0, st_atime = 0\<rparr> (0 + 5 * 4096)
        (new_end (first_sigbus env ''f'' 0 (\<lambda>_. True) 5) 4096 20480) (True, init_walker)
      = Inr (True, init_walker)"
  unfolding Let_def by (rule sigbus_ends_file [of _ _ _ _ _ 1]) (simp add: first_sigbus_def upt_rec)

end
