(* ===== verification/Splitstr.thy ===== *)
theory Splitstr
  imports Prelude
begin

text \<open>
  \<open>tools/ltp-pan/splitstr.c\<close>: splitting a string at separators into an array of pointers. A token is
  its offset in the copy of the string and its text; the array is the list of its cells, which
  \<open>malloc\<close> leaves uninitialised. Whether the allocations succeed is a parameter.
\<close>

section \<open>strtok\<close>

text \<open>
  \<open>strtok\<close> on the rest of the string from offset \<open>off\<close>: skip separators, cut the token at the next
  separator, whose place becomes the end of the token. The result is the token and the new rest.
\<close>

definition strtok :: "string \<Rightarrow> nat \<times> string \<Rightarrow> ((nat \<times> string) \<times> nat \<times> string) option" where
  "strtok sep cur =
     (case cur of (off, s) \<Rightarrow>
        let s' = dropWhile (\<lambda>c. c \<in> set sep) s;
            off' = off + length (takeWhile (\<lambda>c. c \<in> set sep) s);
            tok = takeWhile (\<lambda>c. c \<notin> set sep) s'
        in if s' = [] then None
           else Some ((off', tok), off' + length tok + 1, drop (length tok + 1) s'))"

section \<open>The array\<close>

datatype cell = Uninit | Null | Tok nat string

definition set_cell :: "nat \<Rightarrow> cell \<Rightarrow> cell list \<Rightarrow> cell list res" where
  "set_cell i v arr = (if i < length arr then Inr (arr[i := v]) else Inl (Undef ''write past the array''))"

text \<open>\<open>realloc\<close> to more elements: the old ones are kept. On failure the code goes on with NULL.\<close>

definition grow :: "bool \<Rightarrow> cell list \<Rightarrow> cell list res" where
  "grow ok arr = (if ok then Inr (arr @ replicate 20 Uninit) else Inl (Undef ''arg_array is NULL''))"

lemma strtok_rest:
  assumes "strtok sep (off, s) = Some (t, off', s')" shows "length s' < length s"
proof -
  let ?d = "dropWhile (\<lambda>c. c \<in> set sep) s"
  from assms obtain k where "s' = drop (k + 1) ?d" "?d \<noteq> []"
    by (auto simp: strtok_def Let_def split: if_splits)
  then have "length s' < length ?d" by (cases ?d) simp_all
  also have "\<dots> \<le> length s" by (rule length_dropWhile_le)
  finally show ?thesis .
qed

text \<open>The \<open>while\<close> loop; \<open>mem k\<close> is whether the \<open>k\<close>-th \<open>realloc\<close> succeeds.\<close>

function split_loop ::
    "(nat \<Rightarrow> bool) \<Rightarrow> string \<Rightarrow> ((nat \<times> string) \<times> nat \<times> string) option \<Rightarrow> nat \<Rightarrow> nat \<Rightarrow> cell list
      \<Rightarrow> (nat \<times> nat \<times> cell list) res" where
  "split_loop mem sep None n m arr = Inr (n, m, arr)"
| "split_loop mem sep (Some ((off, tok), rest)) n m arr =
     rbind (set_cell n (Tok off tok) arr) (\<lambda>arr.
     rbind (if Suc n = m then rbind (grow (mem (Suc n)) arr) (\<lambda>arr. Inr (m + 20, arr)) else Inr (m, arr))
       (\<lambda>(m, arr). split_loop mem sep (strtok sep rest) (Suc n) m arr))"
  by pat_completeness auto
termination
proof (relation "measure (\<lambda>(mem, sep, cur, n, m, arr). case cur of None \<Rightarrow> 0 | Some (t, off, s) \<Rightarrow> Suc (length s))")
  fix mem :: "nat \<Rightarrow> bool" and sep off tok and rest :: "nat \<times> string" and n m m' arr arr'
  show "((mem, sep, strtok sep rest, Suc n, m', arr'), mem, sep, Some ((off, tok), rest), n, m, arr)
    \<in> measure (\<lambda>(mem, sep, cur, n, m, arr). case cur of None \<Rightarrow> 0 | Some (t, off, s) \<Rightarrow> Suc (length s))"
    using strtok_rest by (cases rest) (auto split: option.splits)
qed simp

text \<open>\<open>for(i=num_toks+1;i<max_toks;i++) arg_array[i] = NULL;\<close>\<close>

fun null_rest :: "nat \<Rightarrow> nat \<Rightarrow> cell list \<Rightarrow> cell list res" where
  "null_rest i 0 arr = Inr arr"
| "null_rest i (Suc k) arr = rbind (set_cell i Null arr) (null_rest (Suc i) k)"

text \<open>
  The result is the array and the count stored in \<open>*argcount\<close>; \<open>None\<close> is the NULL of an error, with
  count 0. \<open>str\<close> and \<open>separator\<close> may be NULL.
\<close>

definition splitstr ::
    "bool \<Rightarrow> bool \<Rightarrow> (nat \<Rightarrow> bool) \<Rightarrow> string option \<Rightarrow> string option \<Rightarrow> (cell list option \<times> nat) res" where
  "splitstr dup_ok malloc_ok mem str separator =
     (case str of
        None \<Rightarrow> Inr (None, 0)
      | Some s \<Rightarrow>
          if \<not> dup_ok then Inr (None, 0)
          else if \<not> malloc_ok then Inr (None, 0)
          else
            let sep = (case separator of None \<Rightarrow> [CHR '' '', TAB] | Some x \<Rightarrow> x)
            in rbind (split_loop mem sep (strtok sep (0, s)) 0 20 (replicate 20 Uninit)) (\<lambda>(n, m, arr).
               rbind (set_cell n Null arr) (\<lambda>arr.
               rbind (null_rest (Suc n) (m - Suc n) arr) (\<lambda>arr.
                 Inr (Some arr, n)))))"

text \<open>
  \<open>splitstr_free\<close>: \<open>*p_return\<close> is read before the test for NULL, and is taken for the start of the
  string. The result is whether the copy of the string was freed; the array always is.
\<close>

definition splitstr_free :: "cell list option \<Rightarrow> bool res" where
  "splitstr_free p_return =
     (case p_return of
        None \<Rightarrow> Inl (Undef ''NULL dereference'')
      | Some [] \<Rightarrow> Inl (Undef ''read past the array'')
      | Some (c # _) \<Rightarrow>
          (case c of
             Uninit \<Rightarrow> Inl (Undef ''uninitialised read'')
           | Null \<Rightarrow> Inr False
           | Tok off _ \<Rightarrow> if off = 0 then Inr True else Inl (Undef ''free of an interior pointer'')))"

section \<open>The words of a string\<close>

text \<open>
  Specification: cutting a string at every separator, and the parts that are not empty. \<open>occurs\<close> says
  that a token stands at its offset in the string.
\<close>

fun fields :: "string \<Rightarrow> string \<Rightarrow> string list" where
  "fields sep [] = [[]]"
| "fields sep (c # s) =
     (if c \<in> set sep then [] # fields sep s
      else (c # hd (fields sep s)) # tl (fields sep s))"

definition words :: "string \<Rightarrow> string \<Rightarrow> string list" where
  "words sep s = filter (\<lambda>w. w \<noteq> []) (fields sep s)"

definition occurs :: "string \<Rightarrow> nat \<times> string \<Rightarrow> bool" where
  "occurs s t = (case t of (off, w) \<Rightarrow> take (length w) (drop off s) = w)"

text \<open>The tokens \<open>strtok\<close> gives one after the other.\<close>

function tokens :: "string \<Rightarrow> nat \<times> string \<Rightarrow> (nat \<times> string) list" where
  "tokens sep cur = (case strtok sep cur of None \<Rightarrow> [] | Some (t, rest) \<Rightarrow> t # tokens sep rest)"
  by pat_completeness auto
termination
  by (relation "measure (\<lambda>(sep, off, s). length s)") (auto dest: strtok_rest)

declare tokens.simps [simp del]

lemma fields_not_Nil [simp]: "fields sep s \<noteq> []"
  by (cases s) simp_all

lemma words_skip: "(\<And>c. c \<in> set a \<Longrightarrow> c \<in> set sep) \<Longrightarrow> words sep (a @ s) = words sep s"
  by (induction a) (simp_all add: words_def)

lemma fields_token:
  "(\<And>c. c \<in> set w \<Longrightarrow> c \<notin> set sep) \<Longrightarrow>
     fields sep (w @ s) = (w @ hd (fields sep s)) # tl (fields sep s)"
  by (induction w) simp_all

lemma words_token:
  assumes "w \<noteq> []" "\<And>c. c \<in> set w \<Longrightarrow> c \<notin> set sep" "s = [] \<or> hd s \<in> set sep"
  shows "words sep (w @ s) = w # words sep (drop 1 s)"
  using assms fields_token [of w sep s] by (cases s) (auto simp: words_def)

lemma strtok_parts:
  assumes "strtok sep (off, s) = Some ((o1, w), o2, s')"
  obtains a r where "s = a @ w @ r" "\<And>c. c \<in> set a \<Longrightarrow> c \<in> set sep" "\<And>c. c \<in> set w \<Longrightarrow> c \<notin> set sep"
    "w \<noteq> []" "r = [] \<or> hd r \<in> set sep" "s' = drop 1 r" "o1 = off + length a" "o2 = o1 + length w + 1"
proof -
  let ?P = "\<lambda>c. c \<in> set sep"
  let ?d = "dropWhile ?P s"
  from assms have w: "w = takeWhile (\<lambda>c. \<not> ?P c) ?d" "?d \<noteq> []" and
    o: "o1 = off + length (takeWhile ?P s)" "o2 = o1 + length w + 1" "s' = drop (length w + 1) ?d"
    by (auto simp: strtok_def Let_def split: if_splits)
  let ?r = "dropWhile (\<lambda>c. \<not> ?P c) ?d"
  have d: "?d = w @ ?r" by (simp add: w(1))
  show ?thesis
  proof
    show "s = takeWhile ?P s @ w @ ?r" by (simp add: d [symmetric])
    show "\<And>c. c \<in> set (takeWhile ?P s) \<Longrightarrow> ?P c" by (rule set_takeWhileD [THEN conjunct2])
    show "\<And>c. c \<in> set w \<Longrightarrow> \<not> ?P c" unfolding w(1) by (blast dest: set_takeWhileD)
    show "w \<noteq> []" using hd_dropWhile [of ?P s] w by (cases ?d) auto
    show "?r = [] \<or> ?P (hd ?r)" using hd_dropWhile [of "\<lambda>c. \<not> ?P c" ?d] by blast
    have "drop (length w + 1) (w @ ?r) = drop 1 ?r" by simp
    then show "s' = drop 1 ?r" using o(3) by (simp only: d [symmetric])
  qed (use o in simp_all)
qed

lemma strtok_None: "strtok sep (off, s) = None \<Longrightarrow> words sep s = []"
proof -
  assume "strtok sep (off, s) = None"
  then have "dropWhile (\<lambda>c. c \<in> set sep) s = []" by (auto simp: strtok_def Let_def split: if_splits)
  then have "\<forall>c \<in> set s. c \<in> set sep" by (simp add: dropWhile_eq_Nil_conv)
  with words_skip [of s sep "[]"] show ?thesis by (simp add: words_def)
qed

lemma tokens_words: "map snd (tokens sep (off, s)) = words sep s"
proof (induction "length s" arbitrary: off s rule: less_induct)
  case less
  show ?case
  proof (cases "strtok sep (off, s)")
    case None
    with strtok_None show ?thesis by (subst tokens.simps) simp
  next
    case (Some x)
    then obtain o1 w o2 s' where x: "strtok sep (off, s) = Some ((o1, w), o2, s')" by (cases x) auto
    from strtok_parts [OF x] obtain a r where p: "s = a @ w @ r" "\<And>c. c \<in> set a \<Longrightarrow> c \<in> set sep"
      "\<And>c. c \<in> set w \<Longrightarrow> c \<notin> set sep" "w \<noteq> []" "r = [] \<or> hd r \<in> set sep" "s' = drop 1 r" by metis
    have "words sep s = w # words sep s'"
      unfolding p(1,6) using words_skip [OF p(2)] words_token [OF p(4,3,5)] by simp
    with less [OF strtok_rest [OF x]] x show ?thesis by (subst tokens.simps) simp
  qed
qed

lemma tokens_occur:
  "t \<in> set (tokens sep (off, s)) \<Longrightarrow> off \<le> fst t \<and> occurs s (fst t - off, snd t)"
proof (induction "length s" arbitrary: off s rule: less_induct)
  case less
  from less.prems obtain o1 w o2 s' where x: "strtok sep (off, s) = Some ((o1, w), o2, s')"
    and t: "t = (o1, w) \<or> t \<in> set (tokens sep (o2, s'))"
    using tokens.simps [of sep "(off, s)"] by (auto split: option.splits)
  from strtok_parts [OF x] obtain a r where p: "s = a @ w @ r" "s' = drop 1 r"
    "o1 = off + length a" "o2 = o1 + length w + 1" by metis
  from t show ?case
  proof
    assume "t = (o1, w)"
    with p show ?thesis by (simp add: occurs_def)
  next
    assume "t \<in> set (tokens sep (o2, s'))"
    with less.hyps [OF strtok_rest [OF x]] have o: "o2 \<le> fst t" "occurs s' (fst t - o2, snd t)" by blast+
    from o(1) obtain d where "fst t = o2 + d" by (blast dest: le_Suc_ex)
    then have "drop (fst t - o2) s' = drop (fst t - off) s" by (simp add: p)
    then have "occurs s (fst t - off, snd t)" using o(2) by (simp add: occurs_def)
    moreover have "off \<le> fst t" using o(1) p(3,4) by simp
    ultimately show ?thesis by blast
  qed
qed

section \<open>The loop fills the array\<close>

abbreviation tok_cells :: "(nat \<times> string) list \<Rightarrow> cell list" where
  "tok_cells ts \<equiv> map (\<lambda>(off, w). Tok off w) ts"

definition room :: "nat \<Rightarrow> nat" where
  "room n = 20 * (n div 20 + 1)"

lemma room_gt: "n < room n"
  by (simp add: room_def)

lemma room_Suc: "room (Suc n) = (if Suc n = room n then room n + 20 else room n)"
proof -
  define q r where "q = n div 20" and "r = n mod 20"
  then have n: "n = 20 * q + r" "r < 20" by simp_all
  show ?thesis
  proof (cases "r = 19")
    case True
    with n have "Suc n = 20 * (q + 1)" by simp
    then have "Suc n div 20 = q + 1" by simp
    with n True show ?thesis by (simp add: room_def)
  next
    case False
    with n have "Suc n div 20 = q" by simp
    with n False show ?thesis by (simp add: room_def)
  qed
qed

lemma split_loop_tokens:
  assumes "length ts = n"
  shows "split_loop (\<lambda>_. True) sep (strtok sep cur) n (room n) (tok_cells ts @ replicate (room n - n) Uninit)
    = (let us = ts @ tokens sep cur; k = length us
       in Inr (k, room k, tok_cells us @ replicate (room k - k) Uninit))"
  using assms
proof (induction "length (snd cur)" arbitrary: cur n ts rule: less_induct)
  case less
  show ?case
  proof (cases "strtok sep cur")
    case None
    then show ?thesis using less.prems by (subst tokens.simps) simp
  next
    case (Some x)
    obtain off s where cur: "cur = (off, s)" by (cases cur)
    from Some obtain o1 w o2 s' where x: "strtok sep cur = Some ((o1, w), o2, s')" by (cases x) auto
    have shorter: "length (snd (o2, s')) < length (snd cur)" using strtok_rest x by (simp add: cur)
    have "room n - n = Suc (room n - Suc n)" using room_gt [of n] by simp
    then have set: "set_cell n (Tok o1 w) (tok_cells ts @ replicate (room n - n) Uninit)
        = Inr (tok_cells (ts @ [(o1, w)]) @ replicate (room n - Suc n) Uninit)"
      using less.prems by (simp add: set_cell_def list_update_append)
    have grown: "replicate (room n - Suc n) Uninit @ (if Suc n = room n then replicate 20 Uninit else [])
        = replicate (room (Suc n) - Suc n) Uninit"
      by (simp add: room_Suc)
    have "split_loop (\<lambda>_. True) sep (strtok sep cur) n (room n) (tok_cells ts @ replicate (room n - n) Uninit)
      = split_loop (\<lambda>_. True) sep (strtok sep (o2, s')) (Suc n) (room (Suc n))
          (tok_cells (ts @ [(o1, w)]) @ replicate (room (Suc n) - Suc n) Uninit)"
      using grown by (simp add: x set grow_def room_Suc split: if_splits)
    also have "\<dots> = (let us = ts @ tokens sep cur; k = length us
       in Inr (k, room k, tok_cells us @ replicate (room k - k) Uninit))"
    proof -
      have "tokens sep cur = (o1, w) # tokens sep (o2, s')" using x by (subst tokens.simps) simp
      moreover have "length (ts @ [(o1, w)]) = Suc n" using less.prems by simp
      note less.hyps [OF shorter this]
      ultimately show ?thesis by (simp only: append.assoc append_Cons append_Nil)
    qed
    finally show ?thesis .
  qed
qed

lemma null_rest_fill:
  "k \<le> length xs \<Longrightarrow> null_rest (length as) k (as @ xs) = Inr (as @ replicate k Null @ drop k xs)"
proof (induction k arbitrary: as xs)
  case (Suc k)
  then obtain y ys where xs: "xs = y # ys" by (cases xs) auto
  with Suc.IH [of ys "as @ [Null]"] Suc.prems show ?case by (simp add: set_cell_def)
qed simp

lemma splitstr_eq:
  "splitstr True True (\<lambda>_. True) (Some s) separator
    = (let ts = tokens (case separator of None \<Rightarrow> [CHR '' '', TAB] | Some x \<Rightarrow> x) (0, s)
       in Inr (Some (tok_cells ts @ replicate (room (length ts) - length ts) Null), length ts))"
proof -
  let ?sep = "case separator of None \<Rightarrow> [CHR '' '', TAB] | Some x \<Rightarrow> x"
  let ?ts = "tokens ?sep (0, s)" let ?n = "length ?ts"
  have r: "room ?n - ?n = Suc (room ?n - Suc ?n)" using room_gt [of ?n] by simp
  have "room 0 = 20" by (simp add: room_def)
  with split_loop_tokens [of "[]" 0 ?sep "(0, s)"]
  have "split_loop (\<lambda>_. True) ?sep (strtok ?sep (0, s)) 0 20 (replicate 20 Uninit)
    = Inr (?n, room ?n, tok_cells ?ts @ replicate (room ?n - ?n) Uninit)" by (simp add: Let_def)
  moreover have "set_cell ?n Null (tok_cells ?ts @ replicate (room ?n - ?n) Uninit)
    = Inr ((tok_cells ?ts @ [Null]) @ replicate (room ?n - Suc ?n) Uninit)"
    by (simp add: set_cell_def list_update_append r)
  moreover have "null_rest (Suc ?n) (room ?n - Suc ?n) ((tok_cells ?ts @ [Null]) @ replicate (room ?n - Suc ?n) Uninit)
    = Inr (tok_cells ?ts @ replicate (room ?n - ?n) Null)"
    using null_rest_fill [of "room ?n - Suc ?n" "replicate (room ?n - Suc ?n) Uninit" "tok_cells ?ts @ [Null]"]
    by (simp add: r)
  ultimately show ?thesis by (simp add: splitstr_def Let_def)
qed

section \<open>Properties\<close>

text \<open>
  C34. With memory at hand, splitting gives the words of the string in order, each standing at its
  offset in the copy, then only NULL up to a capacity that is the next multiple of 20 above their
  number: there is always a NULL behind the last word, and no write leaves the array.
\<close>

theorem splitstr_correct:
  "\<exists>ts. map snd ts = words [CHR '' '', TAB] s \<and> list_all (occurs s) ts
    \<and> splitstr True True (\<lambda>_. True) (Some s) None
      = Inr (Some (map (\<lambda>(off, w). Tok off w) ts
                   @ replicate (20 * (length ts div 20 + 1) - length ts) Null), length ts)"
proof -
  let ?sep = "[CHR '' '', TAB]" let ?ts = "tokens ?sep (0, s)"
  have "list_all (occurs s) ?ts" using tokens_occur [of _ ?sep 0 s] by (auto simp: list_all_iff)
  with tokens_words [of ?sep 0 s] splitstr_eq [of s None, unfolded Let_def room_def option.case]
  show ?thesis by blast
qed

text \<open>
  \<open>splitstr_free\<close> on the result of \<open>splitstr\<close> is defined only when the first word is at the very
  start: leading separators make it free an address inside the copy, and without any word the copy is
  never freed.
\<close>

theorem splitstr_free_cases:
  "rbind (splitstr True True (\<lambda>_. True) (Some s) (Some sep)) (\<lambda>(r, n). splitstr_free r)
    = (if words sep s = [] then Inr False
       else if hd s \<in> set sep then Inl (Undef ''free of an interior pointer'')
       else Inr True)"
proof (cases "strtok sep (0, s)")
  case None
  then have "tokens sep (0, s) = []" by (subst tokens.simps) simp
  moreover have "replicate (room 0) Null = Null # replicate 19 Null"
    using replicate_Suc [of 19 Null] by (simp add: room_def)
  ultimately show ?thesis using strtok_None [OF None]
    by (simp add: splitstr_eq splitstr_free_def)
next
  case (Some x)
  then obtain o1 w o2 s' where x: "strtok sep (0, s) = Some ((o1, w), o2, s')" by (cases x) auto
  then have t: "tokens sep (0, s) = (o1, w) # tokens sep (o2, s')" by (subst tokens.simps) simp
  with tokens_words [of sep 0 s] have "words sep s \<noteq> []" by auto
  moreover from strtok_parts [OF x] obtain a r where "s = a @ w @ r" "\<And>c. c \<in> set a \<Longrightarrow> c \<in> set sep"
    "\<And>c. c \<in> set w \<Longrightarrow> c \<notin> set sep" "w \<noteq> []" "o1 = 0 + length a" by metis
  then have "o1 = 0 \<longleftrightarrow> hd s \<notin> set sep" by (cases a; cases w) auto
  ultimately show ?thesis by (simp add: splitstr_eq t splitstr_free_def)
qed

text \<open>
  Round trip: words without blanks, put together with single blanks between them, are split into
  exactly these words.
\<close>

theorem splitstr_join:
  assumes "\<And>w. w \<in> set ws \<Longrightarrow> w \<noteq> [] \<and> CHR '' '' \<notin> set w \<and> TAB \<notin> set w"
  shows "\<exists>ts. map snd ts = ws
    \<and> splitstr True True (\<lambda>_. True) (Some (join_with '' '' ws)) None
      = Inr (Some (map (\<lambda>(off, w). Tok off w) ts
                   @ replicate (20 * (length ws div 20 + 1) - length ws) Null), length ws)"
proof -
  let ?sep = "[CHR '' '', TAB]"
  have "words ?sep (join_with '' '' ws) = ws"
    using assms
  proof (induction ws)
    case (Cons w ws)
    have w: "w \<noteq> []" "\<And>c. c \<in> set w \<Longrightarrow> c \<notin> set ?sep" using Cons.prems [of w] by auto
    show ?case
    proof (cases ws)
      case Nil
      with words_token [OF w, of "[]"] show ?thesis by (simp add: words_def)
    next
      case (Cons v vs)
      with words_token [OF w, of "'' '' @ join_with '' '' ws"] Cons.IH Cons.prems show ?thesis by simp
    qed
  qed (simp add: words_def)
  with tokens_words [of ?sep 0 "join_with '' '' ws"]
  have t: "map snd (tokens ?sep (0, join_with '' '' ws)) = ws" by simp
  then have "length (tokens ?sep (0, join_with '' '' ws)) = length ws" by (metis length_map)
  with t splitstr_eq [of "join_with '' '' ws" None, unfolded Let_def room_def option.case]
  show ?thesis by metis
qed

theorem splitstr_join_witness:
  "\<exists>ts. map snd ts = [''a'', ''bc'']
    \<and> splitstr True True (\<lambda>_. True) (Some ''a bc'') None
      = Inr (Some (map (\<lambda>(off, w). Tok off w) ts @ replicate 18 Null), 2)"
proof -
  have "w \<noteq> [] \<and> CHR '' '' \<notin> set w \<and> TAB \<notin> set w" if "w \<in> set [''a'', ''bc'']" for w
    using that by (auto simp: TAB_def)
  from splitstr_join [of "[''a'', ''bc'']", OF this] show ?thesis by (simp add: numeral_2_eq_2)
qed

section \<open>The unit test\<close>

text \<open>
  \<open>main\<close> with \<open>UNIT_TEST\<close>: the words \<open>arg0\<close>, \<open>arg1\<close>, \<open>...\<close>, each followed by a blank, are put together and
  split again. \<open>snprintf\<close> cuts at 15 characters, \<open>test_str\<close> has 32768.
\<close>

definition test_word :: "nat \<Rightarrow> string" where
  "test_word y = take 15 (''arg'' @ show_dec y)"

fun test_str :: "nat list \<Rightarrow> string \<Rightarrow> string res" where
  "test_str [] s = Inr s"
| "test_str (y # ys) s =
     (let t = s @ take 15 (''arg'' @ show_dec y @ '' '')
      in if 32768 \<le> length t then Inl (Undef ''test_str overflow'') else test_str ys t)"

fun check_words :: "nat list \<Rightarrow> cell list \<Rightarrow> unit res" where
  "check_words [] arr = Inr ()"
| "check_words (y # ys) arr =
     (if length arr \<le> y then Inl (Undef ''read past the array'')
      else case arr ! y of
          Tok off w \<Rightarrow> if w = test_word y then check_words ys arr else Inl (Assert ''strcmp(ret[y],test_str_array[y])==0'')
        | _ \<Rightarrow> Inl (Undef ''strcmp of no string''))"

definition split_round :: "nat \<Rightarrow> unit res" where
  "split_round i =
     rbind (test_str [0..<i] []) (\<lambda>s.
     rbind (splitstr True True (\<lambda>_. True) (Some s) None) (\<lambda>(ret, size_ret).
       if size_ret \<noteq> i then Inl (Assert ''size_ret == i'')
       else rbind (case ret of None \<Rightarrow> check_words [0..<i] [] | Some arr \<Rightarrow> check_words [0..<i] arr) (\<lambda>_.
            rbind (splitstr_free ret) (\<lambda>_. Inr ()))))"

fun split_rounds :: "nat list \<Rightarrow> unit res" where
  "split_rounds [] = Inr ()"
| "split_rounds (i # is) = rbind (split_round i) (\<lambda>_. split_rounds is)"

definition splitstr_main :: "nat \<Rightarrow> int res" where
  "splitstr_main test_size = rbind (split_rounds [0..<test_size]) (\<lambda>_. Inr 0)"

lemma test_word_short:
  assumes "y < 1000"
  shows "test_word y = ''arg'' @ show_dec y" "take 15 (''arg'' @ show_dec y @ '' '') = test_word y @ '' ''"
    "length (test_word y) \<le> 6"
proof -
  have "length (show_dec y) \<le> 3" by (rule length_show_dec) (use assms in simp_all)
  then show "test_word y = ''arg'' @ show_dec y" "take 15 (''arg'' @ show_dec y @ '' '') = test_word y @ '' ''"
    "length (test_word y) \<le> 6" by (simp_all add: test_word_def)
qed

lemma test_str_words:
  assumes "\<And>y. y \<in> set ys \<Longrightarrow> y < 1000" "length s + 7 * length ys < 32768"
  shows "test_str ys s = Inr (s @ concat (map (\<lambda>y. test_word y @ '' '') ys))"
  using assms
proof (induction ys arbitrary: s)
  case (Cons y ys)
  have y: "y < 1000" using Cons.prems(1) by simp
  have "length (s @ test_word y @ '' '') + 7 * length ys < 32768" using Cons.prems(2) test_word_short(3) [OF y] by simp
  with Cons.IH [of "s @ test_word y @ '' ''"] Cons.prems(1) show ?case
    by (simp only: test_str.simps Let_def test_word_short(2) [OF y]) (simp add: not_le)
qed simp

lemma test_words:
  assumes "\<And>y. y \<in> set ys \<Longrightarrow> y < 1000"
  shows "words [CHR '' '', TAB] (concat (map (\<lambda>y. test_word y @ '' '') ys)) = map test_word ys"
  using assms
proof (induction ys)
  case (Cons y ys)
  let ?sep = "[CHR '' '', TAB]"
  have "set (show_dec y) \<subseteq> digit_char ` {..<10}" using set_show_base [of 10 y] by auto
  moreover have "digit_char ` {..<10} \<inter> set ?sep = {}"
    by (auto simp: digit_char_def TAB_def lessThan_nat_numeral lessThan_Suc numeral_eq_Suc)
  ultimately have "c \<notin> set ?sep" if "c \<in> set (test_word y)" for c
    using that test_word_short(1) [of y] Cons.prems by (auto simp: TAB_def)
  moreover have "test_word y \<noteq> []" by (simp add: test_word_def)
  ultimately show ?case using words_token [of "test_word y" ?sep "'' '' @ concat (map (\<lambda>y. test_word y @ '' '') ys)"] Cons
    by (simp add: words_skip [of "'' ''"])
qed (simp add: words_def)

lemma check_words_ok:
  assumes "\<And>y. y \<in> set ys \<Longrightarrow> y < length arr \<and> (\<exists>off. arr ! y = Tok off (test_word y))"
  shows "check_words ys arr = Inr ()"
  using assms by (induction ys) fastforce+

lemma split_round_ok:
  assumes "i \<le> 1000"
  shows "split_round i = Inr ()"
proof -
  let ?sep = "[CHR '' '', TAB]" and ?s = "concat (map (\<lambda>y. test_word y @ '' '') [0..<i])"
  have str: "test_str [0..<i] [] = Inr ?s" using test_str_words [of "[0..<i]" "[]"] assms by simp
  have words: "words ?sep ?s = map test_word [0..<i]" using test_words [of "[0..<i]"] assms by simp
  let ?ts = "tokens ?sep (0, ?s)"
  have snds: "map snd ?ts = map test_word [0..<i]" using tokens_words [of ?sep 0 ?s] words by simp
  then have n: "length ?ts = i" using length_map [of snd ?ts] by simp
  let ?arr = "tok_cells ?ts @ replicate (room i - i) Null"
  have split: "splitstr True True (\<lambda>_. True) (Some ?s) separator = Inr (Some ?arr, i)"
    if "separator = None \<or> separator = Some ?sep" for separator
    using that splitstr_eq [of ?s separator] n by auto
  have "check_words [0..<i] ?arr = Inr ()"
  proof (rule check_words_ok)
    fix y assume "y \<in> set [0..<i]"
    then have y: "y < i" by simp
    then have "snd (?ts ! y) = test_word y" using nth_map [of y ?ts snd] n snds by simp
    with y n show "y < length ?arr \<and> (\<exists>off. ?arr ! y = Tok off (test_word y))"
      by (cases "?ts ! y") (simp add: nth_append)
  qed
  moreover have "\<exists>b. splitstr_free (Some ?arr) = Inr b"
  proof -
    have "i = 0 \<or> ?s \<noteq> [] \<and> hd ?s = CHR ''a''" by (cases "i = 0") (simp_all add: upt_conv_Cons test_word_def)
    then have "words ?sep ?s = [] \<or> hd ?s \<notin> set ?sep" unfolding words by (auto simp: TAB_def)
    moreover have "rbind (splitstr True True (\<lambda>_. True) (Some ?s) (Some ?sep)) (\<lambda>(r, n). splitstr_free r) = splitstr_free (Some ?arr)"
      by (simp add: split)
    ultimately have "splitstr_free (Some ?arr) = Inr False \<or> splitstr_free (Some ?arr) = Inr True"
      using splitstr_free_cases [of ?s ?sep] by presburger
    then show ?thesis by blast
  qed
  ultimately show ?thesis by (auto simp: split_round_def str split)
qed

text \<open>
  The unit test of the file passes: for every number of words below its 1000 the words come back, no buffer is too short,
  and what is given to \<open>splitstr_free\<close> can be freed.
\<close>

theorem splitstr_unit_test:
  assumes "test_size \<le> 1000"
  shows "splitstr_main test_size = Inr 0"
proof -
  have "split_rounds is = Inr ()" if "\<forall>i \<in> set is. i \<le> 1000" for "is"
    using that by (induction "is") (simp_all add: split_round_ok)
  with assms show ?thesis by (simp add: splitstr_main_def)
qed

theorem splitstr_unit_test_witness: "splitstr_main 1000 = Inr 0"
  by (rule splitstr_unit_test) simp

end
