(* ===== verification/Pan_Collection.thy ===== *)
theory Pan_Collection
  imports Splitstr
begin

text \<open>
  The commands of \<open>ltp-pan.c\<close>: reading the collection from the command file and the arguments, the
  substitution of \<open>%f\<close> and how a child decides between a shell and a direct \<open>execvp\<close>.
\<close>

section \<open>The collection\<close>

text \<open>\<open>pcnt_f\<close> is only ever tested for NULL, so it is whether the line had a \<open>%f\<close>.\<close>

record coll_entry =
  entry_name :: string
  cmdline :: string
  pcnt_f :: bool

text \<open>\<open>slurp\<close>: the text of the file up to its first NUL, when \<open>open\<close>, \<open>fstat\<close> and \<open>read\<close> succeed.\<close>

definition slurp :: "(string \<Rightarrow> string option) \<Rightarrow> string \<Rightarrow> string option" where
  "slurp files file = map_option (takeWhile (\<lambda>c. c \<noteq> NUL)) (files file)"

text \<open>The lines the loop over \<open>strchr (a, '\n')\<close> sees: the last one is what follows the last newline.\<close>

fun split_lines :: "string \<Rightarrow> string list" where
  "split_lines [] = [[]]"
| "split_lines (c # s) =
     (if c = NL then [] # split_lines s else (c # hd (split_lines s)) # tl (split_lines s))"

text \<open>\<open>if ((n->pcnt_f = strstr(a, "%f"))) n->pcnt_f[1] = 's';\<close>\<close>

definition mark_pcnt_f :: "string \<Rightarrow> string \<times> bool" where
  "mark_pcnt_f s = (case strstr s ''%f'' of None \<Rightarrow> (s, False) | Some i \<Rightarrow> (s[Suc i := CHR ''s''], True))"

definition comment_line :: "string \<Rightarrow> bool" where
  "comment_line a \<longleftrightarrow> hdc a = CHR ''#'' \<or> hdc a = NUL \<or> hdc a = CHR '' ''"

text \<open>\<open>strsep\<close> cuts the name; without a separator it leaves \<open>a\<close> NULL, and \<open>strdup\<close> is called on it.\<close>

definition entry_of_line :: "string \<Rightarrow> coll_entry res" where
  "entry_of_line line =
     (case mark_pcnt_f line of (a, pf) \<Rightarrow>
        let name = takeWhile (\<lambda>c. c \<noteq> CHR '' '' \<and> c \<noteq> TAB) a
        in (case drop (length name) a of
              [] \<Rightarrow> Inl (Undef ''strdup of NULL'')
            | _ # rest \<Rightarrow> Inr \<lparr>entry_name = name, cmdline = rest, pcnt_f = pf\<rparr>))"

fun entries_of_lines :: "string list \<Rightarrow> coll_entry list res" where
  "entries_of_lines [] = Inr []"
| "entries_of_lines (a # as) =
     (if comment_line a then entries_of_lines as
      else rbind (entry_of_line a) (\<lambda>e. rbind (entries_of_lines as) (\<lambda>es. Inr (e # es))))"

text \<open>
  \<open>strncat (workstr, s, workstr_left)\<close>: the bound is an \<open>int\<close> that can be negative and is then a huge
  \<open>size_t\<close>. \<open>workstr\<close> has room for 1023 characters.
\<close>

definition strncat_work :: "string \<Rightarrow> string \<Rightarrow> int \<Rightarrow> string res" where
  "strncat_work w s left =
     (let w' = w @ (if left < 0 then s else take (nat left) s)
      in if 1023 < length w' then Inl (Undef ''workstr overflow'') else Inr w')"

fun fill_workstr :: "string list \<Rightarrow> string \<Rightarrow> int \<Rightarrow> string res" where
  "fill_workstr [] w left = Inr w"
| "fill_workstr (arg # args) w left =
     rbind (strncat_work w arg left) (\<lambda>w.
       let left = left - int (length arg)
       in rbind (strncat_work w '' '' left) (\<lambda>w. fill_workstr args w (left - 1)))"

definition cmdln_entry :: "string list \<Rightarrow> coll_entry res" where
  "cmdln_entry args =
     rbind (fill_workstr args [] 1023) (\<lambda>w.
       case mark_pcnt_f w of (s, pf) \<Rightarrow> Inr \<lparr>entry_name = ''cmdln'', cmdline = s, pcnt_f = pf\<rparr>)"

text \<open>\<open>args\<close> are the arguments from \<open>optind\<close> on. \<open>None\<close> is the NULL after a failed \<open>slurp\<close>.\<close>

definition get_collection :: "(string \<Rightarrow> string option) \<Rightarrow> string \<Rightarrow> string list \<Rightarrow> coll_entry list option res" where
  "get_collection files file args =
     (case slurp files file of
        None \<Rightarrow> Inr None
      | Some buf \<Rightarrow>
          rbind (entries_of_lines (split_lines buf)) (\<lambda>es.
            if args = [] then Inr (Some es)
            else rbind (cmdln_entry args) (\<lambda>e. Inr (Some (es @ [e])))))"

section \<open>Substitution of \<open>%f\<close>\<close>

text \<open>
  The command line is the format of an \<open>snprintf\<close> with one string argument: \<open>%s\<close> takes it, \<open>%%\<close> is a
  percent sign; any other conversion, or a second \<open>%s\<close>, reads an argument that was not passed.
\<close>

fun format_str :: "string \<Rightarrow> string option \<Rightarrow> string res" where
  "format_str [] arg = Inr []"
| "format_str [c] arg = (if c = CHR ''%'' then Inl (Undef ''incomplete conversion'') else Inr [c])"
| "format_str (c # d # s) arg =
     (if c = CHR ''%'' then
        (if d = CHR ''%'' then rbind (format_str s arg) (\<lambda>t. Inr (CHR ''%'' # t))
         else if d = CHR ''s'' then
           (case arg of
              None \<Rightarrow> Inl (Undef ''missing argument'')
            | Some x \<Rightarrow> rbind (format_str s None) (\<lambda>t. Inr (x @ t)))
         else Inl (Undef ''conversion without its argument''))
      else rbind (format_str (d # s) arg) (\<lambda>t. Inr (c # t)))"

text \<open>The static counter is passed along.\<close>

definition subst_pcnt_f :: "int \<Rightarrow> int \<Rightarrow> coll_entry \<Rightarrow> (string \<times> int) res" where
  "subst_pcnt_f pid counter colle =
     (if \<not> pcnt_f colle then Inr (cmdline colle, counter)
      else rbind (format_str (cmdline colle) (Some (take 19 (show_int pid @ ''_'' @ show_int counter))))
             (\<lambda>s. Inr (take 1023 s, counter + 1)))"

section \<open>Executing a command\<close>

datatype exec_plan = Exec_Shell string | Exec_Argv "string list"

definition shell_chars :: string where
  "shell_chars = [CHR 0x22, CHR 0x27, CHR '';'', CHR ''|'', CHR ''<'', CHR ''>'', CHR ''$'', CHR 0x5C]"

text \<open>The strings \<open>execvp\<close> takes from the array: up to the first NULL.\<close>

fun argv_of :: "cell list \<Rightarrow> string list" where
  "argv_of (Tok off w # cs) = w # argv_of cs"
| "argv_of _ = []"

definition exec_plan_of :: "string \<Rightarrow> exec_plan res" where
  "exec_plan_of c_cmdline =
     (if list_ex (\<lambda>c. c \<in> set shell_chars) c_cmdline then Inr (Exec_Shell c_cmdline)
      else rbind (splitstr True True (\<lambda>_. True) (Some c_cmdline) None) (\<lambda>(arr, n).
             case arr of None \<Rightarrow> Inl (Undef ''arg_v is NULL'') | Some cs \<Rightarrow> Inr (Exec_Argv (argv_of cs))))"

section \<open>Facts\<close>

lemma strstr_None_iff: "strstr s pat = None \<longleftrightarrow> (\<nexists>a b. s = a @ pat @ b)"
proof (induction s)
  case Nil
  then show ?case by simp
next
  case (Cons x xs)
  have "take (length pat) (x # xs) = pat \<longleftrightarrow> (\<exists>b. x # xs = pat @ b)"
    by (metis append_eq_conv_conj)
  moreover have "(\<exists>a b. x # xs = a @ pat @ b) \<longleftrightarrow> (\<exists>b. x # xs = pat @ b) \<or> (\<exists>a b. xs = a @ pat @ b)"
    by (auto simp: Cons_eq_append_conv)
  ultimately show ?case using Cons.IH by auto
qed

lemma strstr_first:
  assumes "pat \<noteq> []" "hd pat \<notin> set a"
  shows "strstr (a @ pat @ b) pat = Some (length a)"
  using assms
proof (induction a)
  case Nil
  then show ?case by (cases pat) simp_all
next
  case (Cons x a)
  then have "take (length pat) (x # a @ pat @ b) \<noteq> pat" by (cases pat) auto
  with Cons show ?case by simp
qed

lemma mark_pcnt_f_once:
  "CHR ''%'' \<notin> set a \<Longrightarrow> mark_pcnt_f (a @ ''%f'' @ b) = (a @ ''%s'' @ b, True)"
  using strstr_first [of "''%f''" a b] by (simp add: mark_pcnt_f_def list_update_append)

lemma format_str_plain:
  "CHR ''%'' \<notin> set s \<Longrightarrow> format_str s arg = Inr s"
  by (induction s arg rule: format_str.induct) auto

lemma format_str_append:
  "CHR ''%'' \<notin> set a \<Longrightarrow> format_str (a @ s) arg = rbind (format_str s arg) (\<lambda>t. Inr (a @ t))"
proof (induction a)
  case Nil
  then show ?case by (cases "format_str s arg") simp_all
next
  case (Cons c a)
  then show ?case
    by (cases "a @ s") (auto cong: rbind_cong)
qed

lemma fill_workstr_overrun:
  "left < 0 \<Longrightarrow> int (length w) = 1023 \<Longrightarrow> args \<noteq> [] \<Longrightarrow>
     fill_workstr args w left = Inl (Undef ''workstr overflow'')"
  by (cases args) (auto simp: strncat_work_def Let_def)

definition args_text :: "string list \<Rightarrow> string" where
  "args_text args = concat (map (\<lambda>a. a @ '' '') args)"

lemma fill_workstr_eq:
  assumes "int (length w) + left = 1023" "0 \<le> left"
  shows "fill_workstr args w left =
    (if length (w @ args_text args) \<le> 1024 then Inr (take 1023 (w @ args_text args))
     else Inl (Undef ''workstr overflow''))"
  using assms
proof (induction args arbitrary: w left)
  case Nil
  then show ?case by (simp add: args_text_def)
next
  case (Cons a args)
  have more: "args_text (a # args) = a @ '' '' @ args_text args" by (simp add: args_text_def)
  consider "int (length a) < left" | "int (length a) = left" | "left < int (length a)" by linarith
  then show ?case
  proof cases
    case 1
    with Cons.prems have "fill_workstr (a # args) w left
      = fill_workstr args (w @ a @ '' '') (left - int (length a) - 1)"
      by (simp add: strncat_work_def Let_def nat_diff_distrib)
    with Cons.IH [of "w @ a @ '' ''" "left - int (length a) - 1"] 1 Cons.prems show ?thesis
      by (simp add: more)
  next
    case 2
    with Cons.prems have "fill_workstr (a # args) w left = fill_workstr args (w @ a) (- 1)"
      and len: "length (w @ a) = 1023"
      by (simp_all add: strncat_work_def Let_def)
    with fill_workstr_overrun [of "- 1" "w @ a" args] show ?thesis
      by (cases args) (simp_all add: more args_text_def)
  next
    case 3
    then have l: "nat left < length a" "length w + nat left = 1023" using Cons.prems by linarith+
    with 3 Cons.prems show ?thesis by (simp add: more strncat_work_def Let_def)
  qed
qed

lemma argv_of_toks: "argv_of (map (\<lambda>(off, w). Tok off w) ts @ replicate k Null) = map snd ts"
proof (induction ts)
  case Nil
  then show ?case by (cases k) simp_all
next
  case (Cons t ts)
  then show ?case by (cases t) simp
qed

section \<open>Properties\<close>

text \<open>
  A line \<open>name args\<close> of the command file becomes an entry with this name and command line; the
  first \<open>%f\<close> is remembered and turned into \<open>%s\<close>. A line without a separator makes the program pass
  NULL to \<open>strdup\<close>.
\<close>

theorem entry_of_line_cases:
  assumes "CHR '' '' \<notin> set name" "TAB \<notin> set name" "CHR ''%'' \<notin> set name" "CHR ''%'' \<notin> set a" "CHR ''%'' \<notin> set b"
    and sep: "sep = CHR '' '' \<or> sep = TAB"
  shows "entry_of_line (name @ sep # a) = Inr \<lparr>entry_name = name, cmdline = a, pcnt_f = False\<rparr>
    \<and> entry_of_line (name @ sep # a @ ''%f'' @ b)
        = Inr \<lparr>entry_name = name, cmdline = a @ ''%s'' @ b, pcnt_f = True\<rparr>
    \<and> entry_of_line name = Inl (Undef ''strdup of NULL'')"
proof -
  have nosep: "takeWhile (\<lambda>c. c \<noteq> CHR '' '' \<and> c \<noteq> TAB) (name @ sep # r) = name"
    "takeWhile (\<lambda>c. c \<noteq> CHR '' '' \<and> c \<noteq> TAB) name = name" for r
  proof -
    have all: "\<forall>c \<in> set name. c \<noteq> CHR '' '' \<and> c \<noteq> TAB" using assms(1,2) by blast
    then show "takeWhile (\<lambda>c. c \<noteq> CHR '' '' \<and> c \<noteq> TAB) name = name" by (simp add: takeWhile_eq_all_conv)
    have "\<not> (sep \<noteq> CHR '' '' \<and> sep \<noteq> TAB)" using sep by blast
    with all show "takeWhile (\<lambda>c. c \<noteq> CHR '' '' \<and> c \<noteq> TAB) (name @ sep # r) = name"
      by (simp add: takeWhile_append2)
  qed
  have sep': "sep \<noteq> CHR ''%''" using sep by (auto simp: TAB_def)
  have none: "mark_pcnt_f s = (s, False)" if "CHR ''%'' \<notin> set s" for s
  proof -
    have "strstr s ''%f'' = None" using that by (auto simp: strstr_None_iff)
    then show ?thesis by (simp add: mark_pcnt_f_def)
  qed
  have "mark_pcnt_f ((name @ sep # a) @ ''%f'' @ b) = ((name @ sep # a) @ ''%s'' @ b, True)"
    using assms sep' by (intro mark_pcnt_f_once) auto
  with none [of name] none [of "name @ sep # a"] assms(3,4) sep' show ?thesis
    by (simp add: entry_of_line_def nosep Let_def)
qed

theorem entry_of_line_cases_witness:
  "entry_of_line ''mm01 mmap -x %f -v'' = Inr \<lparr>entry_name = ''mm01'', cmdline = ''mmap -x %s -v'', pcnt_f = True\<rparr>
    \<and> entry_of_line ''mm01'' = Inl (Undef ''strdup of NULL'')"
  using entry_of_line_cases [of "''mm01''" "''mmap -x ''" "'' -v''" "CHR '' ''"] by (simp add: TAB_def)

text \<open>
  The command given as arguments is joined with blanks as long as it fits: with at most 1024
  characters, the blanks included, the result is their text cut to 1023 characters; beyond that the
  bound passed to \<open>strncat\<close> has become negative and the buffer on the stack is overrun.
\<close>

theorem command_line_buffer:
  "fill_workstr args [] 1023
    = (if length (concat (map (\<lambda>a. a @ '' '') args)) \<le> 1024
       then Inr (take 1023 (concat (map (\<lambda>a. a @ '' '') args)))
       else Inl (Undef ''workstr overflow''))"
  using fill_workstr_eq [of "[]" 1023 args] by (simp add: args_text_def)

text \<open>
  A \<open>%f\<close> is replaced by the process id and a number that is different for every start; a second
  \<open>%f\<close> in the command is still a conversion of the format string when its turn comes, and has no
  argument.
\<close>

theorem subst_pcnt_f_cases:
  assumes "CHR ''%'' \<notin> set a" "CHR ''%'' \<notin> set b"
    and "cmdline e = fst (mark_pcnt_f (a @ ''%f'' @ b))" "pcnt_f e"
    and "cmdline e2 = fst (mark_pcnt_f (a @ ''%f'' @ b @ ''%f''))" "pcnt_f e2"
  shows "subst_pcnt_f pid n e
      = Inr (take 1023 (a @ take 19 (show_int pid @ ''_'' @ show_int n) @ b), n + 1)
    \<and> subst_pcnt_f pid n e2 = Inl (Undef ''conversion without its argument'')"
  using assms mark_pcnt_f_once [OF assms(1), of b] mark_pcnt_f_once [OF assms(1), of "b @ ''%f''"]
    format_str_append [OF assms(1), of "''%s'' @ b"] format_str_append [OF assms(1), of "''%s'' @ b @ ''%f''"]
    format_str_append [OF assms(2), of "''%f''" None]
  by (simp add: subst_pcnt_f_def format_str_plain)

theorem subst_pcnt_f_cases_witness:
  "subst_pcnt_f 12 1 \<lparr>entry_name = ''a'', cmdline = ''x %s y'', pcnt_f = True\<rparr> = Inr (''x 12_1 y'', 2)
    \<and> subst_pcnt_f 12 1 \<lparr>entry_name = ''a'', cmdline = ''x %s y%f'', pcnt_f = True\<rparr>
        = Inl (Undef ''conversion without its argument'')"
  using subst_pcnt_f_cases [of "''x ''" "'' y''" "\<lparr>entry_name = ''a'', cmdline = ''x %s y'', pcnt_f = True\<rparr>"
      "\<lparr>entry_name = ''a'', cmdline = ''x %s y%f'', pcnt_f = True\<rparr>" 12 1]
  by (simp add: mark_pcnt_f_def show_int_def show_base.simps digit_char_def)

text \<open>
  A command without shell characters is executed directly with exactly its words as arguments; any
  other goes to \<open>sh -c\<close> unchanged.
\<close>

theorem exec_plan_words:
  "exec_plan_of s = (if list_ex (\<lambda>c. c \<in> set shell_chars) s then Inr (Exec_Shell s)
     else Inr (Exec_Argv (words [CHR '' '', TAB] s)))"
proof -
  let ?ts = "tokens [CHR '' '', TAB] (0, s)"
  have "splitstr True True (\<lambda>_. True) (Some s) None
    = Inr (Some (map (\<lambda>(off, w). Tok off w) ?ts @ replicate (room (length ?ts) - length ?ts) Null), length ?ts)"
    using splitstr_eq [of s None] by (simp add: Let_def)
  with argv_of_toks [of ?ts] tokens_words [of "[CHR '' '', TAB]" 0 s] show ?thesis
    by (simp add: exec_plan_of_def)
qed

end
