(* ===== verification/Zoolib.thy ===== *)
theory Zoolib
  imports Prelude
begin

text \<open>
  \<open>tools/ltp-pan/zoolib.c\<close>: the zoo file that records the running tests. The file is its text; an open
  \<open>zoo_t\<close> is the file and whether this process holds the lock. What \<open>fcntl\<close> and \<open>fseek\<close> answer is a
  parameter.
\<close>

section \<open>The file\<close>

record zoo =
  contents :: string
  locked :: bool

text \<open>\<open>lock_ok\<close>, \<open>unlock_ok\<close>: the \<open>fcntl\<close> that ends the retries on \<open>EINTR\<close> succeeded; \<open>seek_ok\<close>: \<open>fseek\<close> did.\<close>

record zoo_env =
  lock_ok :: bool
  unlock_ok :: bool
  seek_ok :: bool

definition BUFLEN :: nat where "BUFLEN = 81"

text \<open>\<open>fgets (buf, n, fp)\<close> at the rest \<open>s\<close> of the file: the line or its first \<open>n - 1\<close> characters.\<close>

fun fgets_line :: "nat \<Rightarrow> string \<Rightarrow> string" where
  "fgets_line 0 s = []"
| "fgets_line (Suc n) [] = []"
| "fgets_line (Suc n) (c # s) = (if c = NL then [c] else c # fgets_line n s)"

definition fgets :: "nat \<Rightarrow> string \<Rightarrow> (string \<times> string) option" where
  "fgets n s = (if s = [] then None
     else Some (fgets_line (n - 1) s, drop (length (fgets_line (n - 1) s)) s))"

text \<open>Writing at a position in a file opened for update: the text replaces what is there.\<close>

definition write_at :: "nat \<Rightarrow> string \<Rightarrow> string \<Rightarrow> string" where
  "write_at pos txt s = take pos s @ txt @ drop (pos + length txt) s"

section \<open>Operations\<close>

definition zoo_getname :: "string option \<Rightarrow> string option" where
  "zoo_getname env_zoo = map_option (\<lambda>zoo. take 1023 (zoo @ ''/active'')) env_zoo"

text \<open>
  \<open>open_update\<close> is \<open>fopen (name, "r+")\<close>: the file's text, \<open>Inl True\<close> when it does not exist and
  \<open>Inl False\<close> on another error; \<open>create\<close> is whether \<open>"a+"\<close> can create it and the second \<open>"r+"\<close> works.
\<close>

definition zoo_open :: "bool + string \<Rightarrow> bool \<Rightarrow> zoo option" where
  "zoo_open open_update create =
     (case open_update of
        Inr s \<Rightarrow> Some \<lparr>contents = s, locked = False\<rparr>
      | Inl enoent \<Rightarrow> if enoent \<and> create then Some \<lparr>contents = [], locked = False\<rparr> else None)"

definition zoo_lock :: "zoo_env \<Rightarrow> zoo \<Rightarrow> int \<times> zoo" where
  "zoo_lock env z = (if lock_ok env then (0, z\<lparr>locked := True\<rparr>) else (-1, z))"

definition zoo_unlock :: "zoo_env \<Rightarrow> zoo \<Rightarrow> int \<times> zoo" where
  "zoo_unlock env z = (if unlock_ok env then (0, z\<lparr>locked := False\<rparr>) else (-1, z))"

lemma fgets_line_length: "length (fgets_line n s) \<le> length s"
  by (induction n s rule: fgets_line.induct) auto

lemma fgets_rest: "fgets n s = Some (buf, r) \<Longrightarrow> 1 < n \<Longrightarrow> length r < length s"
  using fgets_line_length [of "n - 1" s]
  by (cases s; cases "n - 1") (auto simp: fgets_def split: if_splits)

text \<open>The search for a free line: its position and the length of what \<open>fgets\<close> put into \<open>buf\<close>.\<close>

function first_fit :: "nat \<Rightarrow> string \<Rightarrow> (nat \<times> nat) option" where
  "first_fit pos s =
     (case fgets BUFLEN s of
        None \<Rightarrow> None
      | Some (buf, r) \<Rightarrow>
          if hdc buf = CHR ''#'' then Some (pos, length buf) else first_fit (pos + length buf) r)"
  by pat_completeness auto
termination
  by (relation "measure (\<lambda>(pos, s). length s)") (auto dest: fgets_rest simp: BUFLEN_def)

declare first_fit.simps [simp del]

text \<open>\<open>fprintf (fp, "%-*.*s\n", n, n, entry)\<close>. The two early returns after a failed seek keep the lock.\<close>

definition zoo_mark :: "zoo_env \<Rightarrow> zoo option \<Rightarrow> string \<Rightarrow> int \<times> zoo option" where
  "zoo_mark env z entry =
     (case z of
        None \<Rightarrow> (-1, None)
      | Some z \<Rightarrow>
          (case zoo_lock env z of (ret, z) \<Rightarrow>
             if ret \<noteq> 0 then (-1, Some z)
             else
               (if \<not> seek_ok env then (-1, Some z)
                else
                  let z = (case first_fit 0 (contents z) of
                             Some (pos, n) \<Rightarrow>
                               z\<lparr>contents := write_at pos (fmt_pad (n - 1) entry @ [NL]) (contents z)\<rparr>
                           | None \<Rightarrow> z\<lparr>contents := contents z @ fmt_pad 79 entry @ [NL]\<rparr>)
                  in (case zoo_unlock env z of (ret, z) \<Rightarrow> (if ret \<noteq> 0 then -1 else 0, Some z)))))"

text \<open>\<open>snprintf (new_entry, 80, "%d,%s,%s", p, tag, cmdline)\<close>\<close>

definition entry_text :: "int \<Rightarrow> string \<Rightarrow> string \<Rightarrow> string" where
  "entry_text p tag cmdline = take 79 (show_int p @ '','' @ tag @ '','' @ cmdline)"

definition zoo_mark_cmdline :: "zoo_env \<Rightarrow> zoo option \<Rightarrow> int \<Rightarrow> string \<Rightarrow> string \<Rightarrow> int \<times> zoo option" where
  "zoo_mark_cmdline env z p tag cmdline = zoo_mark env z (entry_text p tag cmdline)"

text \<open>\<open>cat_args\<close>; with no argument it writes the terminator into a block of size 0.\<close>

definition cat_args :: "string list \<Rightarrow> string res" where
  "cat_args argv =
     (if argv = [] then Inl (Undef ''write past the block'') else Inr (join_with '' '' argv))"

definition zoo_mark_args ::
    "zoo_env \<Rightarrow> zoo option \<Rightarrow> int \<Rightarrow> string \<Rightarrow> string list \<Rightarrow> (int \<times> zoo option) res" where
  "zoo_mark_args env z p tag av =
     rbind (cat_args av) (\<lambda>cmdline. Inr (zoo_mark_cmdline env z p tag cmdline))"

function find_pid :: "int \<Rightarrow> nat \<Rightarrow> string \<Rightarrow> nat option" where
  "find_pid p pos s =
     (case fgets BUFLEN s of
        None \<Rightarrow> None
      | Some (buf, r) \<Rightarrow>
          if hdc buf = CHR ''#'' then find_pid p (pos + length buf) r
          else if atoi buf = p then Some pos
          else find_pid p (pos + length buf) r)"
  by pat_completeness auto
termination
  by (relation "measure (\<lambda>(p, pos, s). length s)") (auto dest: fgets_rest simp: BUFLEN_def)

declare find_pid.simps [simp del]

definition zoo_clear :: "zoo_env \<Rightarrow> zoo option \<Rightarrow> int \<Rightarrow> int \<times> zoo option" where
  "zoo_clear env z p =
     (case z of
        None \<Rightarrow> (-1, None)
      | Some z \<Rightarrow>
          (case zoo_lock env z of (ret, z) \<Rightarrow>
             if ret \<noteq> 0 then (-1, Some z)
             else
               (case find_pid p 0 (contents z) of
                  Some pos \<Rightarrow>
                    if \<not> seek_ok env then (-1, Some z)
                    else
                      (case zoo_unlock env (z\<lparr>contents := write_at pos ''#'' (contents z)\<rparr>) of (ret, z) \<Rightarrow>
                         (if ret \<noteq> 0 then -1 else 0, Some z))
                | None \<Rightarrow>
                    (case zoo_unlock env z of (ret, z) \<Rightarrow> (if ret \<noteq> 0 then -1 else 1, Some z)))))"

function find_tag :: "string \<Rightarrow> string \<Rightarrow> int" where
  "find_tag tag s =
     (case fgets BUFLEN s of
        None \<Rightarrow> -1
      | Some (buf, r) \<Rightarrow>
          if hdc buf = CHR ''#'' then find_tag tag r
          else (case strchr buf (CHR '','') of
                  None \<Rightarrow> find_tag tag r
                | Some t \<Rightarrow>
                    if \<not> strncmp_eq (length tag) (tl t) tag then find_tag tag r else atoi buf))"
  by pat_completeness auto
termination
  by (relation "measure (\<lambda>(tag, s). length s)") (auto dest: fgets_rest simp: BUFLEN_def)

declare find_tag.simps [simp del]

definition zoo_getpid :: "zoo_env \<Rightarrow> zoo option \<Rightarrow> string \<Rightarrow> int \<times> zoo option" where
  "zoo_getpid env z tag =
     (case z of
        None \<Rightarrow> (-1, None)
      | Some z \<Rightarrow>
          (case zoo_lock env z of (ret, z) \<Rightarrow>
             if ret \<noteq> 0 then (-1, Some z)
             else
               let this_pid = find_tag tag (contents z)
               in (case zoo_unlock env z of (ret, z) \<Rightarrow> (if ret \<noteq> 0 then -1 else this_pid, Some z))))"

section \<open>The lines of a zoo file\<close>

text \<open>
  Specification: the documented format is lines of 79 characters; a line is free when it starts with
  \<open>#\<close>. On the list of lines the operations are \<open>mark_lines\<close> and \<open>clear_lines\<close>.
\<close>

definition line_ok :: "string \<Rightarrow> bool" where
  "line_ok l \<longleftrightarrow> length l = 79 \<and> NL \<notin> set l"

definition zoo_text :: "string list \<Rightarrow> string" where
  "zoo_text ls = concat (map (\<lambda>l. l @ [NL]) ls)"

definition zoo_ok :: "zoo \<Rightarrow> bool" where
  "zoo_ok z \<longleftrightarrow> (\<exists>ls. list_all line_ok ls \<and> contents z = zoo_text ls)"

definition free_line :: "string \<Rightarrow> bool" where
  "free_line l \<longleftrightarrow> hdc l = CHR ''#''"

fun mark_lines :: "string \<Rightarrow> string list \<Rightarrow> string list" where
  "mark_lines e [] = [fmt_pad 79 e]"
| "mark_lines e (l # ls) = (if free_line l then fmt_pad 79 e # ls else l # mark_lines e ls)"

definition line_pid :: "string \<Rightarrow> int" where
  "line_pid l = atoi (l @ [NL])"

fun clear_lines :: "int \<Rightarrow> string list \<Rightarrow> string list" where
  "clear_lines p [] = []"
| "clear_lines p (l # ls) =
     (if free_line l then l # clear_lines p ls
      else if line_pid l = p then (CHR ''#'' # tl l) # ls else l # clear_lines p ls)"

definition pids_of :: "string list \<Rightarrow> int multiset" where
  "pids_of ls = mset (map line_pid (filter (\<lambda>l. \<not> free_line l) ls))"

function running :: "string \<Rightarrow> int multiset" where
  "running s =
     (case fgets BUFLEN s of
        None \<Rightarrow> {#}
      | Some (buf, r) \<Rightarrow> if hdc buf = CHR ''#'' then running r else add_mset (atoi buf) (running r))"
  by pat_completeness auto
termination
  by (relation "measure length") (auto dest: fgets_rest simp: BUFLEN_def)

declare running.simps [simp del]

lemma zoo_text_simps [simp]:
  "zoo_text [] = []" "zoo_text (l # ls) = l @ NL # zoo_text ls" "zoo_text (ls @ ms) = zoo_text ls @ zoo_text ms"
  by (simp_all add: zoo_text_def)

lemma fgets_line_to_NL: "NL \<notin> set l \<Longrightarrow> length l < n \<Longrightarrow> fgets_line n (l @ NL # s) = l @ [NL]"
proof (induction l arbitrary: n)
  case Nil
  then show ?case by (cases n) simp_all
next
  case (Cons c l)
  then show ?case by (cases n) auto
qed

lemma fgets_zoo [simp]: "line_ok l \<Longrightarrow> fgets BUFLEN (l @ NL # s) = Some (l @ [NL], s)"
  using fgets_line_to_NL [of l 80 s] by (simp add: fgets_def BUFLEN_def line_ok_def)

lemma fgets_Nil [simp]: "fgets n [] = None"
  by (simp add: fgets_def)

lemma line_ok_head: "line_ok l \<Longrightarrow> hdc (l @ s) = hdc l"
  by (cases l) (auto simp: line_ok_def)

lemma line_ok_length: "line_ok l \<Longrightarrow> length l = 79"
  by (simp add: line_ok_def)

lemma write_line:
  "length t = length l \<Longrightarrow> write_at (length a) (t @ [NL]) (a @ l @ NL # s) = a @ t @ NL # s"
  by (simp add: write_at_def)

lemma scan_steps:
  "first_fit pos [] = None" "find_pid p pos [] = None" "running [] = {#}"
  "line_ok l \<Longrightarrow> first_fit pos (l @ NL # s) = (if free_line l then Some (pos, 80) else first_fit (pos + 80) s)"
  "line_ok l \<Longrightarrow> find_pid p pos (l @ NL # s)
    = (if free_line l then find_pid p (pos + 80) s
       else if line_pid l = p then Some pos else find_pid p (pos + 80) s)"
  "line_ok l \<Longrightarrow> running (l @ NL # s)
    = (if free_line l then running s else add_mset (line_pid l) (running s))"
  by (simp_all add: first_fit.simps find_pid.simps running.simps line_ok_head free_line_def line_pid_def
      line_ok_length)

lemma mark_refines:
  assumes "list_all line_ok ls"
  shows "(case first_fit (length a) (zoo_text ls) of
      Some (pos, n) \<Rightarrow> write_at pos (fmt_pad (n - 1) e @ [NL]) (a @ zoo_text ls)
    | None \<Rightarrow> a @ zoo_text ls @ fmt_pad 79 e @ [NL]) = a @ zoo_text (mark_lines e ls)"
  using assms
proof (induction ls arbitrary: a)
  case Nil
  then show ?case by (simp add: scan_steps)
next
  case (Cons l ls)
  then have l: "line_ok l" by simp
  note IH = Cons.IH [of "a @ l @ [NL]"]
  from l Cons.prems IH write_line [of "fmt_pad 79 e" l a "zoo_text ls"] show ?case
    by (auto simp: scan_steps line_ok_length split: option.splits)
qed

lemma write_hash: "line_ok l \<Longrightarrow> write_at (length a) ''#'' (a @ l @ s) = a @ CHR ''#'' # tl l @ s"
  by (cases l) (simp_all add: write_at_def line_ok_def)

lemma find_pid_refines:
  assumes "list_all line_ok ls"
  shows "(case find_pid p (length a) (zoo_text ls) of
      Some pos \<Rightarrow> write_at pos ''#'' (a @ zoo_text ls) | None \<Rightarrow> a @ zoo_text ls)
        = a @ zoo_text (clear_lines p ls)"
  using assms
proof (induction ls arbitrary: a)
  case Nil
  then show ?case by (simp add: scan_steps)
next
  case (Cons l ls)
  then have l: "line_ok l" by simp
  with Cons.IH [of "a @ l @ [NL]"] Cons.prems show ?case
    by (auto simp: scan_steps line_ok_length write_hash split: option.splits)
qed

lemma find_pid_found:
  "list_all line_ok ls \<Longrightarrow> find_pid p k (zoo_text ls) = None \<longleftrightarrow> p \<notin># pids_of ls"
  by (induction ls arbitrary: k) (simp_all add: scan_steps pids_of_def)

lemma running_lines: "list_all line_ok ls \<Longrightarrow> running (zoo_text ls) = pids_of ls"
  by (induction ls) (simp_all add: scan_steps pids_of_def)

lemma pids_of_simps [simp]:
  "pids_of [] = {#}"
  "pids_of (l # ls) = (if free_line l then pids_of ls else add_mset (line_pid l) (pids_of ls))"
  by (simp_all add: pids_of_def)

lemma pids_mark: "\<not> free_line (fmt_pad 79 e) \<Longrightarrow> pids_of (mark_lines e ls) = add_mset (line_pid (fmt_pad 79 e)) (pids_of ls)"
  by (induction ls) auto

lemma pids_clear: "pids_of (clear_lines p ls) = pids_of ls - {#p#}"
proof (induction ls)
  case (Cons l ls)
  show ?case
  proof (cases "free_line l \<or> line_pid l = p")
    case True
    with Cons show ?thesis by (auto simp: free_line_def)
  next
    case False
    then have "add_mset (line_pid l) (pids_of ls) - {#p#} = add_mset (line_pid l) (pids_of ls - {#p#})"
      by (simp add: diff_add_mset_swap)
    with False Cons show ?thesis by simp
  qed
qed simp

lemma mark_lines_ok:
  assumes "list_all line_ok ls" "NL \<notin> set e"
  shows "list_all line_ok (mark_lines e ls)"
proof -
  have "NL \<notin> set (fmt_pad 79 e)" using set_fmt_pad [of 79 e] assms(2) by (auto simp: NL_def)
  with assms(1) show ?thesis by (induction ls) (auto simp: line_ok_def)
qed

lemma clear_lines_ok:
  assumes "list_all line_ok ls" shows "list_all line_ok (clear_lines p ls)"
proof -
  have "line_ok l \<Longrightarrow> line_ok (CHR ''#'' # tl l)" for l by (cases l) (auto simp: line_ok_def NL_def)
  with assms show ?thesis by (induction ls) auto
qed

lemma length_mark_lines:
  "length (mark_lines e ls) = (if list_ex free_line ls then length ls else Suc (length ls))"
  by (induction ls) auto

section \<open>Entries\<close>

definition pid_ok :: "int \<Rightarrow> bool" where
  "pid_ok p \<longleftrightarrow> 0 \<le> p \<and> p < 2 ^ 31"

definition words_ok :: "string \<Rightarrow> string \<Rightarrow> bool" where
  "words_ok tag cmdline \<longleftrightarrow> NL \<notin> set tag \<and> NL \<notin> set cmdline"

lemma entry_text_shape:
  assumes "pid_ok p"
  obtains r where "fmt_pad 79 (entry_text p tag cmdline) = show_int p @ '','' @ r"
    "r = fmt_pad (78 - length (show_int p)) (tag @ '','' @ cmdline)"
proof -
  have "nat p < 10 ^ 10" using assms by (simp add: pid_ok_def nat_less_iff)
  then have len: "length (show_int p) \<le> 10"
    using assms length_show_dec [of "nat p" 10] by (simp add: show_int_def pid_ok_def)
  let ?k = "length (show_int p)" and ?t = "tag @ '','' @ cmdline"
  have "79 - ?k = Suc (78 - ?k)" using len by simp
  then have "entry_text p tag cmdline = show_int p @ '','' @ take (78 - ?k) ?t"
    using len by (simp add: entry_text_def)
  moreover have "fmt_pad 79 (show_int p @ '','' @ take (78 - ?k) ?t) = show_int p @ '','' @ fmt_pad (78 - ?k) ?t"
    using len by (simp add: fmt_pad_def)
  ultimately show ?thesis using that by simp
qed

lemma entry_line:
  assumes "pid_ok p"
  shows "line_pid (fmt_pad 79 (entry_text p tag cmdline)) = p"
    "\<not> free_line (fmt_pad 79 (entry_text p tag cmdline))"
proof -
  obtain r where e: "fmt_pad 79 (entry_text p tag cmdline) = show_int p @ '','' @ r"
    using entry_text_shape [OF assms] by blast
  then show "line_pid (fmt_pad 79 (entry_text p tag cmdline)) = p"
    using assms atoi_show_int [of p "'','' @ r @ [NL]"] by (simp add: line_pid_def pid_ok_def)
  obtain c cs where "show_int p = c # cs" "c \<noteq> CHR ''#''"
    using assms show_base_chars(7) [of 10 _ "nat p"]
    by (cases "show_dec (nat p)") (auto simp: show_int_def pid_ok_def)
  with e show "\<not> free_line (fmt_pad 79 (entry_text p tag cmdline))" by (simp add: free_line_def)
qed

lemma NL_entry: "pid_ok p \<Longrightarrow> words_ok tag cmdline \<Longrightarrow> NL \<notin> set (entry_text p tag cmdline)"
  using show_base_chars(5) [of 10 _ "nat p"]
  by (auto simp: entry_text_def words_ok_def show_int_def pid_ok_def NL_def dest!: in_set_takeD)

section \<open>The operations on lines\<close>

definition env_ok :: zoo_env where
  "env_ok = \<lparr>lock_ok = True, unlock_ok = True, seek_ok = True\<rparr>"

lemma zoo_mark_lines:
  assumes "list_all line_ok ls" "contents z = zoo_text ls"
  shows "zoo_mark env_ok (Some z) e
    = (0, Some (z\<lparr>contents := zoo_text (mark_lines e ls), locked := False\<rparr>))"
  using mark_refines [OF assms(1), of "[]" e] assms(2)
  by (auto simp: zoo_mark_def zoo_lock_def zoo_unlock_def env_ok_def Let_def split: option.splits)

lemma clear_lines_absent: "p \<notin># pids_of ls \<Longrightarrow> clear_lines p ls = ls"
  by (induction ls) (auto split: if_splits)

lemma zoo_clear_lines:
  assumes "list_all line_ok ls" "contents z = zoo_text ls"
  shows "zoo_clear env_ok (Some z) p
    = (if p \<in># pids_of ls then 0 else 1,
       Some (z\<lparr>contents := zoo_text (clear_lines p ls), locked := False\<rparr>))"
  using find_pid_refines [OF assms(1), where p = p and a = "[]"] find_pid_found [OF assms(1), of p 0] assms(2)
  by (auto simp: zoo_clear_def zoo_lock_def zoo_unlock_def env_ok_def split: option.splits)

section \<open>The interface of a registry of processes\<close>

text \<open>
  What the scheduler uses of the zoo: a bag of running processes to which \<open>begin\<close> adds one and from
  which \<open>finish\<close> takes one. \<open>fits\<close> are the process and the description an entry can hold.
\<close>

datatype ('p, 'd) event = Begin 'p 'd | Finish 'p

locale pid_registry =
  fixes enter :: "'p \<Rightarrow> 'd \<Rightarrow> 'z \<Rightarrow> 'z"
    and leave :: "'p \<Rightarrow> 'z \<Rightarrow> 'z"
    and active :: "'z \<Rightarrow> 'p multiset"
    and sound :: "'z \<Rightarrow> bool"
    and fits :: "'p \<Rightarrow> 'd \<Rightarrow> bool"
  assumes enter_sound: "sound z \<Longrightarrow> fits p d \<Longrightarrow> sound (enter p d z)"
    and leave_sound: "sound z \<Longrightarrow> sound (leave p z)"
    and enter_active: "sound z \<Longrightarrow> fits p d \<Longrightarrow> active (enter p d z) = add_mset p (active z)"
    and leave_active: "sound z \<Longrightarrow> active (leave p z) = active z - {#p#}"
begin

fun apply_event :: "('p, 'd) event \<Rightarrow> 'z \<Rightarrow> 'z" where
  "apply_event (Begin p d) z = enter p d z"
| "apply_event (Finish p) z = leave p z"

fun event_fits :: "('p, 'd) event \<Rightarrow> bool" where
  "event_fits (Begin p d) = fits p d"
| "event_fits (Finish p) = True"

fun bag :: "('p, 'd) event list \<Rightarrow> 'p multiset \<Rightarrow> 'p multiset" where
  "bag [] m = m"
| "bag (Begin p d # es) m = bag es (add_mset p m)"
| "bag (Finish p # es) m = bag es (m - {#p#})"

lemma events_active:
  assumes "sound z" "list_all event_fits es"
  shows "sound (fold apply_event es z) \<and> active (fold apply_event es z) = bag es (active z)"
  using assms
proof (induction es arbitrary: z)
  case (Cons e es)
  then show ?case
    by (cases e) (simp_all add: enter_sound leave_sound enter_active leave_active)
qed simp

lemma bag_enter_all: "bag (map (\<lambda>(p, d). Begin p d) ps) m = m + mset (map fst ps)"
  by (induction ps arbitrary: m) auto

lemma bag_leave_all: "bag (map Finish ps) m = m - mset ps"
  by (induction ps arbitrary: m) simp_all

lemma bag_append: "bag (es @ es') m = bag es' (bag es m)"
  by (induction es m rule: bag.induct) simp_all

lemma all_finished:
  assumes "sound z" "\<And>p d. (p, d) \<in> set ps \<Longrightarrow> fits p d" "mset qs = mset (map fst ps)"
  shows "active (fold apply_event (map (\<lambda>(p, d). Begin p d) ps @ map Finish qs) z) = active z"
proof -
  have "list_all event_fits (map (\<lambda>(p, d). Begin p d) ps @ map Finish qs)"
    using assms(2) by (auto simp: list_all_iff)
  with events_active [OF assms(1) this] show ?thesis
    by (simp add: bag_append bag_enter_all bag_leave_all assms(3))
qed

end

text \<open>The zoo file, with the locks granted, is such a registry.\<close>

definition zoo_enter :: "int \<Rightarrow> string \<times> string \<Rightarrow> zoo \<Rightarrow> zoo" where
  "zoo_enter p d z = the (snd (zoo_mark_cmdline env_ok (Some z) p (fst d) (snd d)))"

definition zoo_leave :: "int \<Rightarrow> zoo \<Rightarrow> zoo" where
  "zoo_leave p z = the (snd (zoo_clear env_ok (Some z) p))"

definition zoo_fits :: "int \<Rightarrow> string \<times> string \<Rightarrow> bool" where
  "zoo_fits p d \<longleftrightarrow> pid_ok p \<and> words_ok (fst d) (snd d)"

lemma zoo_mark_cmdline_ok:
  assumes "zoo_ok z" "pid_ok p" "words_ok tag cmdline"
  shows "\<exists>z'. zoo_mark_cmdline env_ok (Some z) p tag cmdline = (0, Some z') \<and> zoo_ok z' \<and> \<not> locked z'
    \<and> running (contents z') = add_mset p (running (contents z))"
proof -
  from assms(1) obtain ls where ls: "list_all line_ok ls" "contents z = zoo_text ls"
    by (auto simp: zoo_ok_def)
  let ?e = "entry_text p tag cmdline"
  have ok: "list_all line_ok (mark_lines ?e ls)"
    using NL_entry [OF assms(2,3)] by (rule mark_lines_ok [OF ls(1)])
  then have "zoo_ok (z\<lparr>contents := zoo_text (mark_lines ?e ls), locked := False\<rparr>)"
    by (auto simp: zoo_ok_def)
  with ok ls entry_line [OF assms(2), of tag cmdline] show ?thesis
    by (simp add: zoo_mark_cmdline_def zoo_mark_lines [OF ls] running_lines pids_mark)
qed

lemma zoo_clear_ok:
  assumes "zoo_ok z"
  shows "\<exists>z'. zoo_clear env_ok (Some z) p
      = (if p \<in># running (contents z) then 0 else 1, Some z') \<and> zoo_ok z' \<and> \<not> locked z'
    \<and> running (contents z') = running (contents z) - {#p#}"
proof -
  from assms obtain ls where ls: "list_all line_ok ls" "contents z = zoo_text ls"
    by (auto simp: zoo_ok_def)
  have ok: "list_all line_ok (clear_lines p ls)" by (rule clear_lines_ok [OF ls(1)])
  then have "zoo_ok (z\<lparr>contents := zoo_text (clear_lines p ls), locked := False\<rparr>)"
    by (auto simp: zoo_ok_def)
  with ok ls show ?thesis by (simp add: zoo_clear_lines [OF ls] running_lines pids_clear)
qed

interpretation zoo_registry: pid_registry zoo_enter zoo_leave "\<lambda>z. running (contents z)" zoo_ok zoo_fits
proof unfold_locales
  fix z p d
  assume "zoo_ok z" "zoo_fits p d"
  then obtain z' where "zoo_mark_cmdline env_ok (Some z) p (fst d) (snd d) = (0, Some z')" "zoo_ok z'"
    "running (contents z') = add_mset p (running (contents z))"
    using zoo_mark_cmdline_ok by (auto simp: zoo_fits_def) blast
  then show "zoo_ok (zoo_enter p d z)"
    "running (contents (zoo_enter p d z)) = add_mset p (running (contents z))"
    by (simp_all add: zoo_enter_def)
next
  fix z p
  assume "zoo_ok z"
  from zoo_clear_ok [OF this, of p] show "zoo_ok (zoo_leave p z)"
    "running (contents (zoo_leave p z)) = running (contents z) - {#p#}"
    by (auto simp: zoo_leave_def)
qed

section \<open>Properties\<close>

text \<open>
  Recording a process in a well-formed zoo succeeds, gives up the lock, keeps the 80-column format
  and adds exactly this pid to the running ones, whatever the lengths of the tag and the command line.
\<close>

theorem zoo_mark_adds:
  assumes "zoo_ok z" "0 \<le> p" "p < 2 ^ 31" "NL \<notin> set tag" "NL \<notin> set cmdline"
  shows "\<exists>z'. zoo_mark_cmdline env_ok (Some z) p tag cmdline = (0, Some z') \<and> zoo_ok z' \<and> \<not> locked z'
    \<and> running (contents z') = add_mset p (running (contents z))"
  using zoo_mark_cmdline_ok assms by (simp add: pid_ok_def words_ok_def)

theorem zoo_mark_adds_witness:
  "\<exists>z'. zoo_mark_cmdline env_ok (Some \<lparr>contents = [], locked = False\<rparr>) 42 ''fork01'' ''fork01 -i 3'' = (0, Some z')
    \<and> running (contents z') = {#42#}"
proof -
  have "zoo_ok \<lparr>contents = [], locked = False\<rparr>" by (auto simp: zoo_ok_def intro: exI [of _ "[]"])
  from zoo_mark_adds [OF this, of 42 "''fork01''" "''fork01 -i 3''"] show ?thesis
    by (auto simp: NL_def scan_steps)
qed

text \<open>
  Clearing a pid in a well-formed zoo removes one entry of it and returns 0 when there is one, and
  returns 1 with the same running processes otherwise; the lock is given up and the format kept.
\<close>

theorem zoo_clear_removes:
  assumes "zoo_ok z"
  shows "\<exists>z'. zoo_clear env_ok (Some z) p
      = (if p \<in># running (contents z) then 0 else 1, Some z') \<and> zoo_ok z' \<and> \<not> locked z'
    \<and> running (contents z') = running (contents z) - {#p#}"
  using assms by (rule zoo_clear_ok)

theorem zoo_clear_removes_witness:
  "\<exists>z'. zoo_clear env_ok (Some \<lparr>contents = [], locked = False\<rparr>) 42 = (1, Some z')
    \<and> running (contents z') = {#}"
proof -
  have "zoo_ok \<lparr>contents = [], locked = False\<rparr>" by (auto simp: zoo_ok_def intro: exI [of _ "[]"])
  from zoo_clear_removes [OF this, of 42] show ?thesis by (auto simp: scan_steps)
qed

text \<open>
  C10. When every process that was recorded has been cleared, in any order, the zoo lists exactly the
  processes it listed before.
\<close>

theorem zoo_balanced:
  assumes "zoo_ok z" "list_all (\<lambda>(p, d). zoo_fits p d) ps" "mset qs = mset (map fst ps)"
  shows "running (contents (fold zoo_leave qs (fold (\<lambda>(p, d). zoo_enter p d) ps z)))
    = running (contents z)"
proof -
  have "fold zoo_leave qs (fold (\<lambda>(p, d). zoo_enter p d) ps z)
      = fold zoo_registry.apply_event (map (\<lambda>(p, d). Begin p d) ps @ map Finish qs) z"
  proof -
    have "zoo_registry.apply_event (Begin p d) = zoo_enter p d" "zoo_registry.apply_event (Finish p) = zoo_leave p" for p d
      by (rule ext, simp)+
    then show ?thesis by (simp add: fold_map comp_def case_prod_unfold)
  qed
  with zoo_registry.all_finished [OF assms(1) _ assms(3)] assms(2) show ?thesis
    by (auto simp: list_all_iff)
qed

theorem zoo_balanced_witness:
  "running (contents (fold zoo_leave [2, 1] (fold (\<lambda>(p, d). zoo_enter p d) [(1, ''a'', ''b''), (2, ''c'', ''d'')]
      \<lparr>contents = [], locked = False\<rparr>))) = {#}"
proof -
  have "zoo_ok \<lparr>contents = [], locked = False\<rparr>" by (auto simp: zoo_ok_def intro: exI [of _ "[]"])
  moreover have "list_all (\<lambda>(p, d). zoo_fits p d) [(1, ''a'', ''b''), (2, ''c'', ''d'')]"
    by (simp add: zoo_fits_def pid_ok_def words_ok_def NL_def)
  ultimately have "running (contents (fold zoo_leave [2, 1] (fold (\<lambda>(p, d). zoo_enter p d)
      [(1, ''a'', ''b''), (2, ''c'', ''d'')] \<lparr>contents = [], locked = False\<rparr>)))
    = running (contents \<lparr>contents = [], locked = False\<rparr>)"
    by (rule zoo_balanced) simp
  also have "\<dots> = {#}" by (simp add: scan_steps)
  finally show ?thesis .
qed

text \<open>
  A failed seek leaves the zoo locked: \<open>zoo_mark\<close> then returns -1 without unlocking, so every other
  user of the file waits.
\<close>

theorem zoo_mark_seek_error_keeps_lock:
  "zoo_mark (env_ok\<lparr>seek_ok := False\<rparr>) (Some z) entry = (-1, Some (z\<lparr>locked := True\<rparr>))"
  by (simp add: zoo_mark_def zoo_lock_def env_ok_def)

text \<open>
  Looking up a tag accepts any running test whose tag only starts with it: after recording the tag
  \<open>tag @ ext\<close> in an empty zoo, \<open>zoo_getpid\<close> answers its pid for \<open>tag\<close>.
\<close>

theorem zoo_getpid_accepts_prefix:
  assumes "0 \<le> p" "p < 2 ^ 31" "NL \<notin> set (tag @ ext)" "NL \<notin> set cmdline"
    and "length (show_int p) + length tag \<le> 78"
  shows "fst (zoo_getpid env_ok
      (snd (zoo_mark_cmdline env_ok (Some \<lparr>contents = [], locked = False\<rparr>) p (tag @ ext) cmdline)) tag) = p"
proof -
  have p: "pid_ok p" using assms(1,2) by (simp add: pid_ok_def)
  let ?l = "fmt_pad 79 (entry_text p (tag @ ext) cmdline)"
  have words: "words_ok (tag @ ext) cmdline" using assms(3,4) by (simp add: words_ok_def)
  have l: "line_ok ?l" "\<not> free_line ?l" "line_pid ?l = p"
    using entry_line [OF p, of "tag @ ext" cmdline] NL_entry [OF p words] set_fmt_pad [of 79 "entry_text p (tag @ ext) cmdline"]
    by (auto simp: line_ok_def NL_def)
  from entry_text_shape [OF p, of "tag @ ext" cmdline] obtain r where
    r: "?l = show_int p @ '','' @ r" "r = fmt_pad (78 - length (show_int p)) ((tag @ ext) @ '','' @ cmdline)" by blast
  have "CHR '','' \<notin> set (show_int p)"
    using show_base_chars(6) [of 10 _ "nat p"] assms(1) by (auto simp: show_int_def)
  then have "strchr (?l @ [NL]) (CHR '','') = Some (CHR '','' # r @ [NL])" unfolding r(1) by (simp add: cstr)
  moreover have "take (length tag) (r @ [NL]) = tag"
    using assms(5) by (simp add: r(2) fmt_pad_def)
  then have "strncmp_eq (length tag) (r @ [NL]) tag" by (simp add: strncmp_eq_iff_take)
  ultimately have "find_tag tag (?l @ NL # []) = p"
    using l fgets_zoo [OF l(1), of "[]"] line_ok_head [OF l(1), of "[NL]"]
    by (subst find_tag.simps) (simp add: free_line_def line_pid_def)
  moreover have "zoo_mark env_ok (Some \<lparr>contents = [], locked = False\<rparr>) (entry_text p (tag @ ext) cmdline)
      = (0, Some \<lparr>contents = ?l @ [NL], locked = False\<rparr>)"
    using zoo_mark_lines [of "[]" "\<lparr>contents = [], locked = False\<rparr>"] by simp
  ultimately show ?thesis
    by (simp add: zoo_mark_cmdline_def zoo_getpid_def zoo_lock_def zoo_unlock_def env_ok_def)
qed

theorem zoo_getpid_accepts_prefix_witness:
  "fst (zoo_getpid env_ok
      (snd (zoo_mark_cmdline env_ok (Some \<lparr>contents = [], locked = False\<rparr>) 7 ''fork12'' ''fork12 -x'')) ''fork1'') = 7"
  using zoo_getpid_accepts_prefix [of 7 "''fork1''" "''2''" "''fork12 -x''"]
  by (simp add: NL_def show_int_def show_base.simps digit_char_def)

end
