(* ===== verification/Pan_Process.thy ===== *)
theory Pan_Process
  imports Pan_Collection Zoolib
begin

text \<open>
  The processes of \<open>ltp-pan.c\<close>: the signal ratchet, starting a test in a slot, reaping a child, the
  list of orphaned process groups and the propagation of signals. The operating system is a record of
  functions on a world \<open>'w\<close>; a call gives its answer and the next world.
\<close>

section \<open>State\<close>

definition SIGHUP :: int where "SIGHUP = 1"
definition SIGINT :: int where "SIGINT = 2"
definition SIGKILL :: int where "SIGKILL = 9"
definition SIGUSR1 :: int where "SIGUSR1 = 10"
definition SIGUSR2 :: int where "SIGUSR2 = 12"
definition SIGALRM :: int where "SIGALRM = 14"
definition SIGTERM :: int where "SIGTERM = 15"
definition EPERM :: int where "EPERM = 1"
definition ESRCH :: int where "ESRCH = 3"
definition EINTR :: int where "EINTR = 4"

record tag_pgrp =
  pgrp :: int
  stopping :: bool
  mystime :: int
  cmd :: "coll_entry option"
  outfile :: string

definition free_slot :: tag_pgrp where
  "free_slot = \<lparr>pgrp = 0, stopping = False, mystime = 0, cmd = None, outfile = []\<rparr>"

text \<open>
  \<open>outfile\<close> of a slot is its \<open>output\<close>; \<open>orphans\<close> are the \<open>pgrp\<close> fields of the linked list, from its head on; \<open>out\<close>, \<open>logged\<close> and
  \<open>failed\<close> what was written to standard output, the log file and the file of failed commands.
\<close>

record pan =
  slots :: "tag_pgrp list"
  orphans :: "int list"
  zoofile :: "zoo option"
  rec_signal :: int
  send_signal :: int
  lastsent :: int
  num_active :: int
  failcnt :: int
  counter :: int
  cmdno :: int
  out :: "string list"
  logged :: "string list"
  failed :: "string list"

text \<open>The options that stay fixed; \<open>has_log\<close> and \<open>has_failcmd\<close> are whether the two files are open.\<close>

record pan_conf =
  panname :: string
  pan_pid :: int
  test_out_dir :: "string option"
  rts :: bool
  keep_active :: nat
  fmt_print :: bool
  quiet_mode :: bool
  has_log :: bool
  has_failcmd :: bool
  sequential :: bool
  track_exit_stats :: bool
  has_brakes :: bool
  zoo_locks :: zoo_env

datatype wait_result = Reaped int int | Wait_Error int

text \<open>
  What happens to a child: \<open>Not_Started\<close> carries the message it wrote to the pipe and its wait status.
\<close>

datatype fork_result = Fork_Failed | Not_Started string int | Started int

text \<open>
  \<open>os_kill\<close> gives the error number, 0 for success; \<open>os_times\<close> the differences of the children's user
  and system time over a \<open>wait\<close>; \<open>os_open\<close> how many of the numbered output files exist already and
  whether opening the next one succeeds.
\<close>

record 'w os =
  os_kill :: "int \<Rightarrow> int \<Rightarrow> 'w \<Rightarrow> int \<times> 'w"
  os_wait :: "'w \<Rightarrow> wait_result \<times> 'w"
  os_times :: "'w \<Rightarrow> int \<times> int"
  os_time :: "'w \<Rightarrow> int"
  os_slurp :: "string \<Rightarrow> 'w \<Rightarrow> string option"
  os_open :: "string \<Rightarrow> int \<Rightarrow> 'w \<Rightarrow> (nat \<times> bool) \<times> 'w"
  os_pipe :: "'w \<Rightarrow> bool"
  os_fork :: "exec_plan \<Rightarrow> 'w \<Rightarrow> fork_result \<times> 'w"
  os_rand :: "'w \<Rightarrow> nat \<times> 'w"
  os_stop_file :: "'w \<Rightarrow> bool \<times> 'w"

section \<open>Signals\<close>

definition wait_handler :: "int \<Rightarrow> pan \<Rightarrow> pan" where
  "wait_handler sig p =
     (if sig = 0 then p\<lparr>lastsent := 0\<rparr>
      else
        let p = p\<lparr>rec_signal := sig\<rparr>
        in if sig = SIGUSR2 then p
           else
             let s = (if lastsent p = 0 then sig
                      else if lastsent p = SIGUSR1 then SIGINT
                      else if lastsent p = sig then SIGTERM
                      else if lastsent p = SIGTERM then SIGHUP
                      else if lastsent p = SIGHUP then SIGKILL
                      else send_signal p)
             in p\<lparr>send_signal := s, lastsent := s\<rparr>)"

text \<open>
  The points inside a round of the loops where it matters that a signal arrives: before the reads and writes of the variables
  of \<open>wait_handler\<close>, and while a system call blocks. The handlers are installed without \<open>SA_RESTART\<close>, so that such a
  call fails with \<open>EINTR\<close>. \<open>arr pt\<close> are the signals that arrive at \<open>pt\<close>. The handler itself is not interrupted, and
  \<open>rec_signal = send_signal = 0\<close> is one step.
\<close>

datatype point =
    Abort | Reading_Length | Reading_Message | Waiting_For_It
  | Test_Usr2 | Test_Usr1 | Test_Alarm | Set_Term | Kill_Slot nat | Kill_Orphans | Reset_Signals
  | Waiting | After_Wait | Reset_Ratchet | Force_Signal

type_synonym arrivals = "point \<Rightarrow> int list"

definition quiet :: arrivals where "quiet pt = []"

definition arrive :: "arrivals \<Rightarrow> point \<Rightarrow> pan \<Rightarrow> pan" where
  "arrive arr pt p = fold wait_handler (arr pt) p"

lemma arrive_quiet [simp]: "arrive quiet pt p = p"
  by (simp add: arrive_def quiet_def)

text \<open>An orphaned group that no longer exists is cleared from the zoo and its cell freed.\<close>

fun check_orphans ::
    "'w os \<Rightarrow> zoo_env \<Rightarrow> int \<Rightarrow> int list \<Rightarrow> zoo option \<Rightarrow> 'w \<Rightarrow> int list \<times> zoo option \<times> 'w" where
  "check_orphans os zenv sig [] z w = ([], z, w)"
| "check_orphans os zenv sig (g # gs) z w =
     (if g = 0 then
        (case check_orphans os zenv sig gs z w of (gs, z, w) \<Rightarrow> (g # gs, z, w))
      else
        (case os_kill os (- g) sig w of (e, w) \<Rightarrow>
           let (g, z) = (if e = ESRCH then (0, snd (zoo_clear zenv z g)) else (g, z))
           in case check_orphans os zenv sig gs z w of (gs, z, w) \<Rightarrow> (g # gs, z, w)))"

text \<open>The first free cell is used again; otherwise a new one goes behind the head.\<close>

fun reuse_cell :: "int list \<Rightarrow> int \<Rightarrow> int list option" where
  "reuse_cell [] cpid = None"
| "reuse_cell (g # gs) cpid =
     (if g = 0 then Some (cpid # gs) else map_option ((#) g) (reuse_cell gs cpid))"

definition mark_orphan :: "int list \<Rightarrow> int \<Rightarrow> int list" where
  "mark_orphan gs cpid =
     (case reuse_cell gs cpid of Some gs' \<Rightarrow> gs' | None \<Rightarrow> take 1 gs @ cpid # drop 1 gs)"

text \<open>The loop of \<open>propagate_signal\<close> over the slots from number \<open>i\<close> on; a failing \<open>kill\<close> is only reported.\<close>

fun signal_slots :: "arrivals \<Rightarrow> 'w os \<Rightarrow> nat \<Rightarrow> tag_pgrp list \<Rightarrow> pan \<Rightarrow> 'w \<Rightarrow> tag_pgrp list \<times> pan \<times> 'w" where
  "signal_slots arr os i [] p w = ([], p, w)"
| "signal_slots arr os i (s # ss) p w =
     (if pgrp s = 0 then (case signal_slots arr os (Suc i) ss p w of (ss, p, w) \<Rightarrow> (s # ss, p, w))
      else
        let p = arrive arr (Kill_Slot i) p
        in case os_kill os (- pgrp s) (send_signal p) w of (e, w) \<Rightarrow>
             (case signal_slots arr os (Suc i) ss p w of (ss, p, w) \<Rightarrow> (s\<lparr>stopping := True\<rparr> # ss, p, w)))"

definition propagate_signal :: "arrivals \<Rightarrow> pan_conf \<Rightarrow> 'w os \<Rightarrow> pan \<Rightarrow> 'w \<Rightarrow> pan \<times> 'w" where
  "propagate_signal arr conf os p w =
     (let p = arrive arr Test_Alarm p;
          p = (if rec_signal p = SIGALRM
               then (arrive arr Set_Term (p\<lparr>out := out p @ [''PAN stop Alarm was received'' @ [NL]]\<rparr>))\<lparr>rec_signal := SIGTERM\<rparr>
               else p)
      in case signal_slots arr os 0 (slots p) p w of (ss, p, w) \<Rightarrow>
         let p = arrive arr Kill_Orphans p
         in case check_orphans os (zoo_locks conf) (send_signal p) (orphans p) (zoofile p) w of (gs, z, w) \<Rightarrow>
            ((arrive arr Reset_Signals p)\<lparr>slots := ss, orphans := gs, zoofile := z, rec_signal := 0, send_signal := 0\<rparr>, w))"

section \<open>Reports\<close>

definition QUOTE :: string where "QUOTE = [CHR 0x22]"

definition slot_name :: "tag_pgrp \<Rightarrow> string" where
  "slot_name s = (case cmd s of None \<Rightarrow> [] | Some e \<Rightarrow> entry_name e)"

definition slot_cmdline :: "tag_pgrp \<Rightarrow> string" where
  "slot_cmdline s = (case cmd s of None \<Rightarrow> [] | Some e \<Rightarrow> cmdline e)"

definition write_test_start :: "pan_conf \<Rightarrow> tag_pgrp \<Rightarrow> string" where
  "write_test_start conf s =
     (if rts conf then
        ''<<<test_start>>>'' @ [NL] @ ''tag='' @ slot_name s @ '' stime='' @ show_int (mystime s) @ [NL]
        @ ''cmdline='' @ QUOTE @ slot_cmdline s @ QUOTE @ [NL] @ ''contacts='' @ QUOTE @ QUOTE @ [NL]
        @ ''analysis=exit'' @ [NL] @ ''<<<test_output>>>'' @ [NL]
      else [])"

text \<open>\<open>stat_loc & 0200\<close> is the core bit of the wait status.\<close>

definition core_text :: "int \<Rightarrow> string" where
  "core_text stat_loc = (if stat_loc div 128 mod 2 = 1 then ''yes'' else ''no'')"

definition write_test_end ::
    "pan_conf \<Rightarrow> tag_pgrp \<Rightarrow> string \<Rightarrow> int \<Rightarrow> string \<Rightarrow> int \<Rightarrow> int \<Rightarrow> int \<times> int \<Rightarrow> string" where
  "write_test_end conf s init_status exit_time term_type stat_loc term_id tms =
     (if rts conf then
        ''<<<execution_status>>>'' @ [NL] @ ''initiation_status='' @ QUOTE @ init_status @ QUOTE @ [NL]
        @ ''duration='' @ show_int (exit_time - mystime s) @ '' termination_type='' @ term_type
        @ '' termination_id='' @ show_int term_id @ '' corefile='' @ core_text stat_loc @ [NL]
        @ ''cutime='' @ show_int (fst tms) @ '' cstime='' @ show_int (snd tms) @ [NL]
        @ ''<<<test_end>>>'' @ [NL]
      else [])"

text \<open>An empty file makes the test for the final newline look at the character before the buffer.\<close>

definition copy_buffered_output :: "string option \<Rightarrow> string res" where
  "copy_buffered_output tag_output =
     (case tag_output of
        None \<Rightarrow> Inr []
      | Some s \<Rightarrow>
          if s = [] then Inl (Undef ''read before the buffer'')
          else Inr (if last s \<noteq> NL then s @ [NL] else s))"

text \<open>\<open>%-5d\<close>\<close>

definition fmt_left :: "nat \<Rightarrow> string \<Rightarrow> string" where
  "fmt_left w s = s @ replicate (w - length s) (CHR '' '')"

definition log_line ::
    "pan_conf \<Rightarrow> tag_pgrp \<Rightarrow> int \<Rightarrow> string \<Rightarrow> int \<Rightarrow> int \<Rightarrow> int \<times> int \<Rightarrow> string" where
  "log_line conf s t status term stat_loc tms =
     (if \<not> fmt_print conf then
        ''tag='' @ slot_name s @ '' stime='' @ show_int (mystime s) @ '' dur='' @ show_int (t - mystime s)
        @ '' exit='' @ status @ '' stat='' @ show_int term @ '' core='' @ core_text stat_loc
        @ '' cu='' @ show_int (fst tms) @ '' cs='' @ show_int (snd tms) @ [NL]
      else
        fmt_pad 30 (slot_name s) @ '' '' @ fmt_pad 10 (if term \<noteq> 0 then ''FAIL'' else ''PASS'') @ '' ''
        @ fmt_left 5 (show_int term) @ [NL])"

section \<open>Reaping a child\<close>

text \<open>
  The wait status macros of Linux, in the order of the tests: the number and the word for it. The last
  two cases cannot come from \<open>wait\<close>.
\<close>

definition wait_status :: "int \<Rightarrow> int \<times> string" where
  "wait_status stat_loc =
     (if stat_loc mod 128 \<noteq> 0 \<and> stat_loc mod 128 \<noteq> 127 then (stat_loc mod 128, ''signaled'')
      else if stat_loc mod 128 = 0 then (stat_loc div 256 mod 256, ''exited'')
      else if stat_loc mod 256 = 127 then (stat_loc div 256 mod 256, ''stopped'')
      else (0, ''unknown''))"

fun find_slot :: "int \<Rightarrow> nat \<Rightarrow> tag_pgrp list \<Rightarrow> nat option" where
  "find_slot cpid i [] = None"
| "find_slot cpid i (s # ss) = (if pgrp s = cpid then Some i else find_slot cpid (Suc i) ss)"

text \<open>The reports for the child in slot \<open>s\<close>.\<close>

definition report_child ::
    "pan_conf \<Rightarrow> 'w os \<Rightarrow> tag_pgrp \<Rightarrow> int \<Rightarrow> string \<Rightarrow> int \<Rightarrow> pan \<Rightarrow> 'w \<Rightarrow> pan res" where
  "report_child conf os s stat_loc status term p w =
     (let t = os_time os w;
          tms = os_times os w;
          p = (if has_log conf
               then p\<lparr>logged := logged p @ [log_line conf s t status term stat_loc tms],
                      failcnt := failcnt p + (if fmt_print conf \<and> term \<noteq> 0 then 1 else 0)\<rparr>
               else p);
          p = (if has_failcmd conf \<and> term \<noteq> 0
               then p\<lparr>failed := failed p @ [slot_name s @ '' '' @ slot_cmdline s @ [NL]]\<rparr> else p);
          status = (if stopping s then ''driver_interrupt'' else status)
      in rbind (if test_out_dir conf \<noteq> None
                then rbind (copy_buffered_output (os_slurp os (outfile s) w)) (\<lambda>text.
                       Inr ((if quiet_mode conf then [] else [write_test_start conf s]) @ [text]))
                else Inr []) (\<lambda>texts.
           Inr (p\<lparr>out := out p @ texts
                  @ (if quiet_mode conf then [] else [write_test_end conf s ''ok'' t status stat_loc term tms])\<rparr>)))"

text \<open>Lines 778 to 794: free the slot, clear the zoo, keep an eye on what is left of the group.\<close>

definition release_slot ::
    "pan_conf \<Rightarrow> 'w os \<Rightarrow> nat \<Rightarrow> int \<Rightarrow> pan \<Rightarrow> 'w \<Rightarrow> (pan \<times> 'w) res" where
  "release_slot conf os i cpid p w =
     (let s = slots p ! i;
          p = p\<lparr>slots := (slots p)[i := s\<lparr>pgrp := 0\<rparr>]\<rparr>
      in case zoo_clear (zoo_locks conf) (zoofile p) cpid of (e, z) \<Rightarrow>
         if e \<noteq> 0 then Inl (Exit 1)
         else
           let p = p\<lparr>zoofile := z\<rparr>
           in case os_kill os (- cpid) 0 w of (e, w) \<Rightarrow>
              if e = 0 \<or> e = EPERM then
                (case zoo_mark_cmdline (zoo_locks conf) z cpid ''panorphan'' (slot_cmdline s) of (e, z) \<Rightarrow>
                   if e \<noteq> 0 then Inl (Exit 1)
                   else Inr (p\<lparr>zoofile := z, orphans := mark_orphan (orphans p) cpid\<rparr>,
                             snd (os_kill os (- cpid) SIGTERM w)))
              else Inr (p, w))"

text \<open>
  The result is the number of failures found (0 or more) with the new state. A child that exits with
  130 after it was told to stop counts as success.
\<close>

definition check_pids :: "pan_conf \<Rightarrow> 'w os \<Rightarrow> pan \<Rightarrow> 'w \<Rightarrow> (int \<times> pan \<times> 'w) res" where
  "check_pids conf os p w =
     (case check_orphans os (zoo_locks conf) 0 (orphans p) (zoofile p) w of (gs, z, w) \<Rightarrow>
        let p = p\<lparr>orphans := gs, zoofile := z\<rparr>
        in case os_wait os w of
             (Wait_Error e, w) \<Rightarrow> Inr (0, p, w)
           | (Reaped cpid stat_loc, w) \<Rightarrow>
               if cpid \<le> 0 then Inr (0, p, w)
               else
                 (case wait_status stat_loc of (term, status) \<Rightarrow>
                    let ended = (status = ''signaled'' \<or> status = ''exited'');
                        p = (if ended then p\<lparr>num_active := num_active p - 1\<rparr> else p);
                        ret = (if status = ''exited'' \<and> term \<noteq> 0 \<or> \<not> ended then 1 else 0)
                    in case find_slot cpid 0 (slots p) of
                         None \<Rightarrow> Inr (ret, p, w)
                       | Some i \<Rightarrow>
                           let s = slots p ! i;
                               forgiven = (term = 130 \<and> stopping s \<and> status = ''exited'');
                               term = (if forgiven then 0 else term);
                               ret = (if forgiven then ret - 1 else ret)
                           in rbind (report_child conf os s stat_loc status term p w) (\<lambda>p.
                              rbind (release_slot conf os i cpid p w) (\<lambda>(p, w).
                                Inr (ret + (if status = ''signaled'' \<and> \<not> stopping s then 1 else 0), p, w)))))"

section \<open>Starting a child\<close>

text \<open>
  The file for the output of the test: \<open>os_open\<close> tells how many names with a number behind them were there already, and
  whether the next one could be made.
\<close>

definition open_outfile :: "pan_conf \<Rightarrow> 'w os \<Rightarrow> coll_entry \<Rightarrow> nat \<Rightarrow> pan \<Rightarrow> 'w \<Rightarrow> bool \<times> pan \<times> 'w" where
  "open_outfile conf os colle i p w =
     (case test_out_dir conf of
        None \<Rightarrow> (True, p, w)
      | Some dir \<Rightarrow>
          (case os_open os (dir @ ''/'' @ entry_name colle @ ''.'') (cmdno p) w of ((k, ok), w) \<Rightarrow>
             (ok,
              p\<lparr>slots := (slots p)[i := (slots p ! i)\<lparr>outfile :=
                    dir @ ''/'' @ entry_name colle @ ''.'' @ show_int (cmdno p + int k)\<rparr>],
                cmdno := cmdno p + int k + 1\<rparr>, w)))"

text \<open>
  The parent behind \<open>fork\<close>: what the pipe brings of the child and its entry in the zoo. A signal that comes while the parent
  reads the length makes \<open>read\<close> return -1, which the test takes for a message, with a length that has no value; one while
  it reads the message leaves the text without a value, and one in \<open>waitpid\<close> the wait status.
\<close>

definition run_parent ::
    "arrivals \<Rightarrow> pan_conf \<Rightarrow> 'w os \<Rightarrow> coll_entry \<Rightarrow> nat \<Rightarrow> tag_pgrp \<Rightarrow> pan \<Rightarrow> fork_result \<times> 'w \<Rightarrow> (int \<times> pan \<times> 'w) res" where
  "run_parent arr conf os colle i s p forked =
     (case forked of (r, w) \<Rightarrow>
        if r = Fork_Failed then Inr (-1, p, w)
        else if arr Reading_Length \<noteq> [] then Inl (Undef ''errlen has no value'')
        else case r of
          Not_Started errbuf status \<Rightarrow>
            if arr Reading_Message \<noteq> [] \<and> rts conf \<and> \<not> quiet_mode conf then Inl (Undef ''errbuf has no value'')
            else if arr Waiting_For_It \<noteq> [] then Inl (Undef ''status has no value'')
            else
              (case wait_status status of (termid, termtype) \<Rightarrow>
                 Inr (-1, p\<lparr>out := out p @ (if quiet_mode conf then []
                        else [write_test_end conf s errbuf (os_time os w) termtype status termid (0, 0)])\<rparr>,
                      w))
        | Started cpid \<Rightarrow>
            (case zoo_mark_cmdline (zoo_locks conf) (zoofile p) cpid (entry_name colle) (cmdline colle) of
               (e, z) \<Rightarrow>
                 if e \<noteq> 0 then Inl (Exit 1)
                 else Inr (cpid, p\<lparr>slots := (slots p)[i := s\<lparr>pgrp := cpid, stopping := False\<rparr>],
                                   zoofile := z\<rparr>, w))
        | Fork_Failed \<Rightarrow> Inr (-1, p, w))"

text \<open>
  The parent's side of \<open>run_child\<close> for slot \<open>i\<close>; what the child executes is \<open>exec_plan_of\<close>. The result
  is the pid or -1.
\<close>

definition run_child ::
    "arrivals \<Rightarrow> pan_conf \<Rightarrow> 'w os \<Rightarrow> coll_entry \<Rightarrow> nat \<Rightarrow> pan \<Rightarrow> 'w \<Rightarrow> (int \<times> pan \<times> 'w) res" where
  "run_child arr conf os colle i p w =
     (case open_outfile conf os colle i p w of (ok, p, w) \<Rightarrow>
         if \<not> ok then Inr (-1, p, w)
         else
           rbind (subst_pcnt_f (pan_pid conf) (counter p) colle) (\<lambda>(c_cmdline, n).
             let p = p\<lparr>counter := n\<rparr>
             in if \<not> os_pipe os w then Inr (-1, p, w)
                else
                  let s = (slots p ! i)\<lparr>mystime := os_time os w, cmd := Some colle\<rparr>;
                      p = p\<lparr>slots := (slots p)[i := s],
                            out := out p @ (if test_out_dir conf = None \<and> \<not> quiet_mode conf
                                            then [write_test_start conf s] else [])\<rparr>
                  in rbind (exec_plan_of c_cmdline) (\<lambda>plan.
                     run_parent arr conf os colle i s p (os_fork os plan w))))"

end
