(* ===== verification/Pan_Invariant.thy ===== *)
theory Pan_Invariant
  imports Pan_Process
begin

text \<open>
  What the process operations of \<open>ltp-pan.c\<close> keep: the number of active tests is the number of busy
  slots, every busy slot holds one child of the process, and the zoo file lists exactly the busy and
  the orphaned groups besides what it listed at first.
\<close>

section \<open>The invariant\<close>

definition busy :: "pan \<Rightarrow> int multiset" where
  "busy p = filter_mset (\<lambda>g. g \<noteq> 0) (mset (map pgrp (slots p)))"

definition nonzero :: "int list \<Rightarrow> int multiset" where
  "nonzero gs = filter_mset (\<lambda>g. g \<noteq> 0) (mset gs)"

text \<open>
  The documented behaviour of the system calls the scheduler relies on, with \<open>children w\<close> the pids of
  the children that were not waited for: \<open>wait\<close> reaps one of them, which has exited or was killed (the
  program never asks for stopped children), and \<open>fork\<close> gives a new positive pid.
\<close>

definition wait_lawful :: "('w \<Rightarrow> int set) \<Rightarrow> 'w \<Rightarrow> wait_result \<times> 'w \<Rightarrow> bool" where
  "wait_lawful children w r = (case r of
       (Wait_Error e, w') \<Rightarrow> children w' = children w
     | (Reaped pid st, w') \<Rightarrow> pid \<in> children w \<and> children w' = children w - {pid}
                             \<and> snd (wait_status st) \<in> {''exited'', ''signaled''})"

definition fork_lawful :: "('w \<Rightarrow> int set) \<Rightarrow> 'w \<Rightarrow> fork_result \<times> 'w \<Rightarrow> bool" where
  "fork_lawful children w r = (case r of
       (Started pid, w') \<Rightarrow> 0 < pid \<and> pid < 2 ^ 31 \<and> pid \<notin> children w \<and> children w' = insert pid (children w)
     | (_, w') \<Rightarrow> children w' = children w)"

definition os_lawful :: "'w os \<Rightarrow> ('w \<Rightarrow> int set) \<Rightarrow> bool" where
  "os_lawful os children \<longleftrightarrow>
     (\<forall>g s w. children (snd (os_kill os g s w)) = children w) \<and>
     (\<forall>f n w. children (snd (os_open os f n w)) = children w) \<and>
     (\<forall>w. children (snd (os_rand os w)) = children w) \<and> (\<forall>w. children (snd (os_stop_file os w)) = children w) \<and>
     (\<forall>w. wait_lawful children w (os_wait os w)) \<and>
     (\<forall>plan w. fork_lawful children w (os_fork os plan w))"

definition slot_ok :: "tag_pgrp \<Rightarrow> bool" where
  "slot_ok s \<longleftrightarrow> pgrp s = 0 \<or> pid_ok (pgrp s) \<and> words_ok (slot_name s) (slot_cmdline s)"

definition zoo_holds :: "zoo option \<Rightarrow> int multiset \<Rightarrow> bool" where
  "zoo_holds z m \<longleftrightarrow> (case z of None \<Rightarrow> False | Some z \<Rightarrow> zoo_ok z \<and> running (contents z) = m)"

definition pan_inv :: "pan_conf \<Rightarrow> int multiset \<Rightarrow> int set \<Rightarrow> pan \<Rightarrow> bool" where
  "pan_inv conf base children p \<longleftrightarrow>
     zoo_locks conf = env_ok \<and> length (slots p) = keep_active conf \<and> num_active p = int (size (busy p)) \<and>
     (\<forall>g. count (busy p) g \<le> 1) \<and> set_mset (busy p) = children \<and> list_all slot_ok (slots p) \<and>
     zoo_holds (zoofile p) (base + busy p + nonzero (orphans p))"

section \<open>The zoo and the orphans\<close>

lemma zoo_clear_holds:
  "zoo_holds z m \<Longrightarrow> g \<in># m \<Longrightarrow> fst (zoo_clear env_ok z g) = 0 \<and> zoo_holds (snd (zoo_clear env_ok z g)) (m - {#g#})"
  using zoo_clear_ok [of "the z" g] by (cases z) (auto simp: zoo_holds_def)

lemma zoo_mark_holds:
  "zoo_holds z m \<Longrightarrow> pid_ok g \<Longrightarrow> words_ok tag c \<Longrightarrow>
     fst (zoo_mark_cmdline env_ok z g tag c) = 0 \<and> zoo_holds (snd (zoo_mark_cmdline env_ok z g tag c)) (add_mset g m)"
  using zoo_mark_cmdline_ok [of "the z" g tag c] by (cases z) (auto simp: zoo_holds_def)

lemma nonzero_simps [simp]:
  "nonzero [] = {#}" "nonzero (g # gs) = (if g = 0 then nonzero gs else add_mset g (nonzero gs))"
  by (simp_all add: nonzero_def)

lemma check_orphans_inv:
  assumes "os_lawful os children" "zoo_holds z (m + nonzero gs)"
    "check_orphans os env_ok sig gs z w = (gs', z', w')"
  shows "zoo_holds z' (m + nonzero gs') \<and> children w' = children w"
  using assms(2,3)
proof (induction gs arbitrary: m z w gs')
  case (Cons g gs)
  show ?case
  proof (cases "g = 0")
    case True
    with Cons.prems obtain hs where "check_orphans os env_ok sig gs z w = (hs, z', w')" "gs' = 0 # hs"
      by (auto split: prod.splits)
    with Cons.IH [of z m w hs] Cons.prems(1) True show ?thesis by simp
  next
    case False
    obtain e u where k: "os_kill os (- g) sig w = (e, u)" by (cases "os_kill os (- g) sig w")
    with assms(1) have u: "children u = children w" by (metis os_lawful_def snd_conv)
    show ?thesis
    proof (cases "e = ESRCH")
      case True
      let ?z = "snd (zoo_clear env_ok z g)"
      have "zoo_holds ?z (m + nonzero gs)"
        using zoo_clear_holds [OF Cons.prems(1), of g] False by simp
      moreover from Cons.prems(2) False k True obtain hs where
        "check_orphans os env_ok sig gs ?z u = (hs, z', w')" "gs' = 0 # hs"
        by (auto split: prod.splits)
      ultimately show ?thesis using Cons.IH [of ?z m u hs] u by simp
    next
      case kept: False
      have "zoo_holds z (add_mset g m + nonzero gs)" using Cons.prems(1) False by simp
      moreover from Cons.prems(2) False k kept obtain hs where
        "check_orphans os env_ok sig gs z u = (hs, z', w')" "gs' = g # hs"
        by (auto split: prod.splits)
      ultimately show ?thesis using Cons.IH [of z "add_mset g m" u hs] u False by simp
    qed
  qed
qed simp

lemma reuse_cell_nonzero:
  "reuse_cell gs cpid = Some gs' \<Longrightarrow> cpid \<noteq> 0 \<Longrightarrow> nonzero gs' = add_mset cpid (nonzero gs)"
  by (induction gs arbitrary: gs') (auto split: if_splits)

lemma nonzero_mark_orphan:
  assumes "cpid \<noteq> 0" shows "nonzero (mark_orphan gs cpid) = add_mset cpid (nonzero gs)"
proof (cases "reuse_cell gs cpid")
  case None
  have "nonzero (xs @ ys) = nonzero xs + nonzero ys" for xs ys by (simp add: nonzero_def)
  moreover have "nonzero gs = nonzero (take 1 gs) + nonzero (drop 1 gs)"
    by (simp add: nonzero_def flip: mset_append filter_union_mset)
  ultimately show ?thesis using None assms by (simp add: mark_orphan_def)
next
  case (Some gs')
  with reuse_cell_nonzero [OF Some assms] show ?thesis by (simp add: mark_orphan_def)
qed

section \<open>The slots\<close>

lemma find_slot_Some: "find_slot g k ss = Some i \<Longrightarrow> k \<le> i \<and> i - k < length ss \<and> pgrp (ss ! (i - k)) = g"
proof (induction g k ss rule: find_slot.induct)
  case (2 g k s ss)
  show ?case
  proof (cases "pgrp s = g")
    case False
    with 2 have "Suc k \<le> i \<and> i - Suc k < length ss \<and> pgrp (ss ! (i - Suc k)) = g" by simp
    moreover from this have "k < i" by simp
    then have "i - k = Suc (i - Suc k)" by (rule Suc_diff_Suc [symmetric])
    ultimately show ?thesis by simp
  qed (use 2 in simp)
qed simp

lemma find_slot_None: "find_slot g k ss = None \<longleftrightarrow> g \<notin> pgrp ` set ss"
  by (induction g k ss rule: find_slot.induct) auto

lemma busy_update:
  assumes "i < length (slots p)"
  shows "filter_mset (\<lambda>g. g \<noteq> 0) (mset (map pgrp ((slots p)[i := s])))
    = (if pgrp s = 0 then {#} else {#pgrp s#}) + (busy p - {#pgrp (slots p ! i)#})"
proof -
  have "mset (map pgrp ((slots p)[i := s])) = add_mset (pgrp s) (mset (map pgrp (slots p)) - {#pgrp (slots p ! i)#})"
    using assms by (simp add: map_update mset_update)
  moreover have "filter_mset (\<lambda>g. g \<noteq> 0) (M - {#x#}) = filter_mset (\<lambda>g. g \<noteq> 0) M - {#x#}" for M and x :: int
    by (simp add: multiset_eq_iff)
  ultimately show ?thesis by (simp add: busy_def)
qed

lemma busy_same: "map pgrp (slots q) = map pgrp (slots p) \<Longrightarrow> busy q = busy p"
  by (simp add: busy_def del: mset_map)

text \<open>Signals only change the variables of the handler.\<close>

lemma wait_handler_fields:
  "slots (wait_handler sig p) = slots p" "orphans (wait_handler sig p) = orphans p"
  "zoofile (wait_handler sig p) = zoofile p" "num_active (wait_handler sig p) = num_active p"
  by (simp_all add: wait_handler_def Let_def)

lemma arrive_fields [simp]:
  "slots (arrive arr pt p) = slots p" "orphans (arrive arr pt p) = orphans p"
  "zoofile (arrive arr pt p) = zoofile p" "num_active (arrive arr pt p) = num_active p"
proof -
  have "slots (fold wait_handler sigs p) = slots p \<and> orphans (fold wait_handler sigs p) = orphans p
      \<and> zoofile (fold wait_handler sigs p) = zoofile p \<and> num_active (fold wait_handler sigs p) = num_active p" for sigs
    by (induction sigs arbitrary: p) (simp_all add: wait_handler_fields)
  then show "slots (arrive arr pt p) = slots p" "orphans (arrive arr pt p) = orphans p"
    "zoofile (arrive arr pt p) = zoofile p" "num_active (arrive arr pt p) = num_active p"
    by (simp_all add: arrive_def)
qed

lemma signal_slots_inv:
  assumes "os_lawful os children" "signal_slots arr os i ss p w = (ss', p', w')"
  shows "map pgrp ss' = map pgrp ss \<and> map cmd ss' = map cmd ss \<and> children w' = children w
    \<and> orphans p' = orphans p \<and> zoofile p' = zoofile p \<and> num_active p' = num_active p"
  using assms(2)
proof (induction ss arbitrary: i p w ss')
  case (Cons s ss)
  show ?case
  proof (cases "pgrp s = 0")
    case True
    with Cons.prems obtain ts where "signal_slots arr os (Suc i) ss p w = (ts, p', w')" "ss' = s # ts"
      by (auto split: prod.splits)
    with Cons.IH [of "Suc i" p w ts] show ?thesis by simp
  next
    case False
    let ?p = "arrive arr (Kill_Slot i) p"
    obtain e u where k: "os_kill os (- pgrp s) (send_signal ?p) w = (e, u)"
      by (cases "os_kill os (- pgrp s) (send_signal ?p) w")
    with assms(1) have u: "children u = children w" by (metis os_lawful_def snd_conv)
    from Cons.prems False k obtain ts where "signal_slots arr os (Suc i) ss ?p u = (ts, p', w')"
      "ss' = s\<lparr>stopping := True\<rparr> # ts" by (auto simp: Let_def split: prod.splits)
    with Cons.IH [of "Suc i" ?p u ts] u show ?thesis by simp
  qed
qed simp

lemma slot_ok_cong: "map pgrp ss' = map pgrp ss \<Longrightarrow> map cmd ss' = map cmd ss \<Longrightarrow> list_all slot_ok ss' = list_all slot_ok ss"
proof (induction ss' arbitrary: ss)
  case (Cons t ts)
  then obtain s rs where "ss = s # rs" "pgrp t = pgrp s" "cmd t = cmd s" "map pgrp ts = map pgrp rs"
    "map cmd ts = map cmd rs" by auto
  with Cons.IH [of rs] show ?case by (simp add: slot_ok_def slot_name_def slot_cmdline_def)
qed simp

section \<open>Preservation\<close>

lemma wait_handler_inv: "pan_inv conf base ch (wait_handler sig p) = pan_inv conf base ch p"
  by (simp add: pan_inv_def busy_def wait_handler_fields)

lemma arrive_inv [simp]: "pan_inv conf base ch (arrive arr pt p) = pan_inv conf base ch p"
  by (simp add: pan_inv_def busy_def)

lemma signal_slots_fields:
  "signal_slots arr os i ss p w = (ss', p', w') \<Longrightarrow>
     orphans p' = orphans p \<and> zoofile p' = zoofile p \<and> num_active p' = num_active p"
proof (induction ss arbitrary: i p w ss')
  case (Cons s ss)
  then show ?case by (fastforce simp: Let_def split: prod.splits if_splits)
qed simp

lemma propagate_num_active: "propagate_signal arr conf os p w = (p', w') \<Longrightarrow> num_active p' = num_active p"
  by (auto simp: propagate_signal_def Let_def dest!: signal_slots_fields split: prod.splits if_splits)

lemma propagate_inv:
  assumes "os_lawful os children" "pan_inv conf base (children w) p"
    "propagate_signal arr conf os p w = (p', w')"
  shows "pan_inv conf base (children w') p' \<and> rec_signal p' = 0 \<and> send_signal p' = 0 \<and> num_active p' = num_active p"
proof -
  have locks: "zoo_locks conf = env_ok" using assms(2) by (simp add: pan_inv_def)
  define q where "q = (let p = arrive arr Test_Alarm p in if rec_signal p = SIGALRM
      then (arrive arr Set_Term (p\<lparr>out := out p @ [''PAN stop Alarm was received'' @ [NL]]\<rparr>))\<lparr>rec_signal := SIGTERM\<rparr> else p)"
  have q: "slots q = slots p" "orphans q = orphans p" "zoofile q = zoofile p" "num_active q = num_active p"
    by (simp_all add: q_def Let_def)
  obtain ss r u where ss: "signal_slots arr os 0 (slots q) q w = (ss, r, u)" by (metis prod_cases3)
  let ?r = "arrive arr Kill_Orphans r"
  obtain gs z v where gs: "check_orphans os env_ok (send_signal ?r) (orphans ?r) (zoofile ?r) u = (gs, z, v)"
    by (metis prod_cases3)
  from signal_slots_inv [OF assms(1) ss] q have same: "map pgrp ss = map pgrp (slots p)" "map cmd ss = map cmd (slots p)"
    "children u = children w" "orphans r = orphans p" "zoofile r = zoofile p" "num_active r = num_active p" by auto
  have p': "w' = v" "slots p' = ss" "orphans p' = gs" "zoofile p' = z" "num_active p' = num_active p"
    "rec_signal p' = 0" "send_signal p' = 0"
    using assms(3) same(6) locks ss gs by (auto simp: propagate_signal_def Let_def q_def [unfolded Let_def, symmetric])
  have "zoo_holds (zoofile p) ((base + busy p) + nonzero (orphans p))" using assms(2) by (simp add: pan_inv_def)
  from check_orphans_inv [OF assms(1) this, of _ u gs z v] gs same have "zoo_holds z (base + busy p + nonzero gs)"
    "children v = children u" by auto
  moreover have "busy p' = busy p" using same(1) p'(2) by (intro busy_same) simp
  moreover have "length ss = length (slots p)" using same(1) by (rule map_eq_imp_length_eq)
  ultimately show ?thesis
    using assms(2) p' same slot_ok_cong [OF same(1,2)] by (simp add: pan_inv_def)
qed

lemma report_child_fields:
  "report_child conf os s stat_loc status term p w = Inr p' \<Longrightarrow>
     slots p' = slots p \<and> orphans p' = orphans p \<and> zoofile p' = zoofile p \<and> num_active p' = num_active p"
  by (auto simp: report_child_def Let_def split: if_splits)

lemma report_child_stop:
  "report_child conf os s stat_loc status term p w = Inl e \<Longrightarrow> e = Undef ''read before the buffer''"
  by (auto simp: report_child_def Let_def rbind_eq_Inl copy_buffered_output_def split: if_splits option.splits)

lemma words_ok_panorphan: "words_ok tag c \<Longrightarrow> words_ok ''panorphan'' c"
  by (simp add: words_ok_def NL_def)

text \<open>The state between \<open>wait\<close> and the release of the slot: the counter has gone down already.\<close>

definition reaped_inv :: "pan_conf \<Rightarrow> int multiset \<Rightarrow> int set \<Rightarrow> int \<Rightarrow> pan \<Rightarrow> bool" where
  "reaped_inv conf base ch cpid p \<longleftrightarrow>
     pan_inv conf base (insert cpid ch) (p\<lparr>num_active := num_active p + 1\<rparr>) \<and> cpid \<notin> ch"

lemma release_slot_inv:
  assumes lawful: "os_lawful os children" and inv: "reaped_inv conf base (children w) cpid p"
    and i: "i < length (slots p)" "pgrp (slots p ! i) = cpid" "cpid \<noteq> 0"
  shows "\<exists>p' w'. release_slot conf os i cpid p w = Inr (p', w') \<and> pan_inv conf base (children w') p'
    \<and> children w' = children w"
proof -
  from inv have locks: "zoo_locks conf = env_ok" and len: "length (slots p) = keep_active conf"
    and active: "num_active p + 1 = int (size (busy p))" and one: "\<And>g. count (busy p) g \<le> 1"
    and set: "set_mset (busy p) = insert cpid (children w)" "cpid \<notin> children w"
    and ok: "list_all slot_ok (slots p)"
    and zoo: "zoo_holds (zoofile p) (base + busy p + nonzero (orphans p))"
    by (auto simp: reaped_inv_def pan_inv_def busy_def)
  let ?s = "slots p ! i" let ?ss = "(slots p)[i := ?s\<lparr>pgrp := 0\<rparr>]"
  have cpid: "cpid \<in># busy p" using set(1) by simp
  have slot: "slot_ok ?s" using ok i(1) by (simp add: list_all_length)
  have busy': "filter_mset (\<lambda>g. g \<noteq> 0) (mset (map pgrp ?ss)) = busy p - {#cpid#}"
    using busy_update [OF i(1), of "?s\<lparr>pgrp := 0\<rparr>"] i(2) by simp
  have "count (busy p) cpid = 1" using one [of cpid] cpid by (simp add: le_antisym Suc_leI)
  then have gone: "set_mset (busy p - {#cpid#}) = children w"
    using set at_most_one_mset_mset_diff [of cpid "busy p"] by (simp add: not_in_iff)
  have "list_all slot_ok ?ss"
    using ok by (auto simp: list_all_iff slot_ok_def dest!: set_update_subset_insert [THEN subsetD])
  moreover have "size (busy p - {#cpid#}) = size (busy p) - 1" "0 < size (busy p)"
    using cpid by (simp_all add: size_Diff_singleton nonempty_has_size [symmetric]) auto
  moreover have "count (busy p - {#cpid#}) g \<le> 1" for g using one [of g] by simp
  ultimately have inv': "pan_inv conf base (children w) (p\<lparr>slots := ?ss, zoofile := z, orphans := gs\<rparr>)"
    if "zoo_holds z (base + (busy p - {#cpid#}) + nonzero gs)" for z gs
    using that active gone len locks busy' by (simp add: pan_inv_def busy_def)
  obtain e z where clear: "zoo_clear env_ok (zoofile p) cpid = (e, z)" by (cases "zoo_clear env_ok (zoofile p) cpid")
  have total: "base + busy p + nonzero (orphans p) - {#cpid#} = base + (busy p - {#cpid#}) + nonzero (orphans p)"
  proof -
    from cpid obtain m where "busy p = add_mset cpid m" by (rule mset_add)
    then show ?thesis by simp
  qed
  have "cpid \<in># base + busy p + nonzero (orphans p)" using cpid by simp
  note cleared = zoo_clear_holds [OF zoo this, unfolded clear fst_conv snd_conv total]
  have e: "e = 0" using cleared by (rule conjunct1)
  have z: "zoo_holds z (base + (busy p - {#cpid#}) + nonzero (orphans p))" using cleared by (rule conjunct2)
  have pinv: "pan_inv conf base (children w) (p\<lparr>slots := ?ss, zoofile := z\<rparr>)"
    using inv' [OF z] by (simp add: pan_inv_def busy_def)
  obtain k u where kill: "os_kill os (- cpid) 0 w = (k, u)" by (cases "os_kill os (- cpid) 0 w")
  have u: "children u = children w" "children (snd (os_kill os (- cpid) SIGTERM u)) = children u"
    using lawful kill by (metis os_lawful_def snd_conv)+
  show ?thesis
  proof (cases "k = 0 \<or> k = EPERM")
    case False
    with kill clear e locks pinv u show ?thesis by (simp add: release_slot_def Let_def)
  next
    case True
    have words: "pid_ok cpid" "words_ok ''panorphan'' (slot_cmdline ?s)"
      using slot i words_ok_panorphan by (auto simp: slot_ok_def)
    obtain e2 z2 where mark: "zoo_mark_cmdline env_ok z cpid ''panorphan'' (slot_cmdline ?s) = (e2, z2)"
      by (cases "zoo_mark_cmdline env_ok z cpid ''panorphan'' (slot_cmdline ?s)")
    from zoo_mark_holds [OF z words] mark have "e2 = 0"
      "zoo_holds z2 (base + (busy p - {#cpid#}) + nonzero (mark_orphan (orphans p) cpid))"
      using nonzero_mark_orphan [OF i(3)] by simp_all
    with inv' [of z2 "mark_orphan (orphans p) cpid"] True kill clear e locks u mark show ?thesis
      by (simp add: release_slot_def Let_def)
  qed
qed

lemma check_pids_inv:
  assumes lawful: "os_lawful os children" and inv: "pan_inv conf base (children w) p"
  shows "case check_pids conf os p w of
      Inl e \<Rightarrow> e = Undef ''read before the buffer''
    | Inr (ret, p', w') \<Rightarrow> pan_inv conf base (children w') p'"
proof -
  from inv have locks: "zoo_locks conf = env_ok"
    and zoo: "zoo_holds (zoofile p) ((base + busy p) + nonzero (orphans p))"
    by (simp_all add: pan_inv_def)
  obtain gs z u where gs: "check_orphans os env_ok 0 (orphans p) (zoofile p) w = (gs, z, u)" by (metis prod_cases3)
  let ?p = "p\<lparr>orphans := gs, zoofile := z\<rparr>"
  from check_orphans_inv [OF lawful zoo gs] have p1: "pan_inv conf base (children u) ?p"
    using inv by (simp add: pan_inv_def busy_def)
  obtain r v where r: "os_wait os u = (r, v)" by (cases "os_wait os u")
  have wait: "wait_lawful children u (r, v)" using lawful r unfolding os_lawful_def by metis
  show ?thesis
  proof (cases r)
    case (Wait_Error e)
    with wait p1 r gs locks show ?thesis by (simp add: check_pids_def Let_def wait_lawful_def)
  next
    case (Reaped cpid st)
    obtain tn status where st: "wait_status st = (tn, status)" by (cases "wait_status st")
    from wait Reaped st have c: "cpid \<in> children u" "children v = children u - {cpid}"
      "status = ''exited'' \<or> status = ''signaled''" by (auto simp: wait_lawful_def)
    let ?q = "?p\<lparr>num_active := num_active ?p - 1\<rparr>"
    have "cpid \<in># busy ?p" using p1 c(1) by (auto simp: pan_inv_def)
    then obtain i where i: "find_slot cpid 0 (slots p) = Some i" and "cpid \<noteq> 0"
      using find_slot_None [of cpid 0 "slots p"] by (cases "find_slot cpid 0 (slots p)") (auto simp: busy_def)
    from find_slot_Some [OF i] have i': "i < length (slots p)" "pgrp (slots p ! i) = cpid" by auto
    have "slot_ok (slots p ! i)" using p1 i'(1) by (simp add: pan_inv_def list_all_length)
    with i'(2) \<open>cpid \<noteq> 0\<close> have pos: "\<not> cpid \<le> 0" by (auto simp: slot_ok_def pid_ok_def)
    have reaped: "reaped_inv conf base (children v) cpid q"
      if "slots q = slots p" "orphans q = gs" "zoofile q = z" "num_active q = num_active p - 1" for q
      using p1 c that by (simp add: reaped_inv_def pan_inv_def busy_def insert_absorb)
    define rep where "rep = (\<lambda>t. report_child conf os (slots p ! i) st status t ?q v)"
    have fields: "slots q = slots p \<and> orphans q = gs \<and> zoofile q = z \<and> num_active q = num_active p - 1"
      if "rep t = Inr q" for t q using report_child_fields [OF that [unfolded rep_def]] by simp
    have rel: "\<exists>p' w'. release_slot conf os i cpid q v = Inr (p', w') \<and> pan_inv conf base (children w') p'"
      if "rep t = Inr q" for t q
      using release_slot_inv [OF lawful reaped, of q i] fields [OF that] i' \<open>cpid \<noteq> 0\<close> by auto
    have res: "case rbind (rep t) (\<lambda>p. rbind (release_slot conf os i cpid p v) (\<lambda>(p, w). Inr (f p w, p, w))) of
        Inl e \<Rightarrow> e = Undef ''read before the buffer'' | Inr (ret, p', w') \<Rightarrow> pan_inv conf base (children w') p'"
      for t and f :: "pan \<Rightarrow> 'a \<Rightarrow> int"
    proof (cases "rep t")
      case (Inl e)
      then show ?thesis using report_child_stop by (simp add: rep_def)
    next
      case (Inr q)
      with rel [OF Inr] show ?thesis by auto
    qed
    have "\<exists>t f. check_pids conf os p w
        = rbind (rep t) (\<lambda>p. rbind (release_slot conf os i cpid p v) (\<lambda>(p, w). Inr (f p w, p, w)))"
      using gs locks r Reaped st c(3) i pos by (auto simp: check_pids_def Let_def rep_def)
    with res show ?thesis by fastforce
  qed
qed

lemma pan_inv_fields:
  "slots q = slots p \<Longrightarrow> orphans q = orphans p \<Longrightarrow> zoofile q = zoofile p \<Longrightarrow> num_active q = num_active p \<Longrightarrow>
     pan_inv conf base ch q = pan_inv conf base ch p"
  by (simp add: pan_inv_def busy_def)

lemma pan_inv_touch:
  assumes "pan_inv conf base ch p" "i < length (slots p)" "pgrp (slots p ! i) = 0" "pgrp s = 0"
  shows "pan_inv conf base ch (p\<lparr>slots := (slots p)[i := s]\<rparr>)"
proof -
  have "0 \<notin># busy p" by (simp add: busy_def)
  then have "busy (p\<lparr>slots := (slots p)[i := s]\<rparr>) = busy p"
    using busy_update [OF assms(2), of s] assms(3,4) by (simp add: busy_def diff_single_trivial)
  moreover have "list_all slot_ok ((slots p)[i := s])"
    using assms(1,4) by (auto simp: pan_inv_def list_all_iff slot_ok_def dest!: set_update_subset_insert [THEN subsetD])
  ultimately show ?thesis using assms(1) by (simp add: pan_inv_def)
qed

lemma pan_inv_start:
  assumes inv: "pan_inv conf base ch p" and i: "i < length (slots p)" "pgrp (slots p ! i) = 0"
    and cpid: "pgrp s = cpid" "pid_ok cpid" "0 < cpid" "cpid \<notin> ch" and words: "words_ok (slot_name s) (slot_cmdline s)"
    and zoo: "zoo_holds z (add_mset cpid (base + busy p + nonzero (orphans p)))"
  shows "pan_inv conf base (insert cpid ch)
    (p\<lparr>slots := (slots p)[i := s], zoofile := z, num_active := num_active p + 1\<rparr>)"
proof -
  have "0 \<notin># busy p" by (simp add: busy_def)
  then have b: "filter_mset (\<lambda>g. g \<noteq> 0) (mset (map pgrp ((slots p)[i := s]))) = add_mset cpid (busy p)"
    using busy_update [OF i(1), of s] i(2) cpid by (simp add: diff_single_trivial)
  have "list_all slot_ok ((slots p)[i := s])"
    using inv cpid words by (auto simp: pan_inv_def list_all_iff slot_ok_def dest!: set_update_subset_insert [THEN subsetD])
  moreover have "count (busy p) cpid = 0" using inv cpid(4) by (simp add: pan_inv_def count_eq_zero_iff)
  ultimately show ?thesis using inv zoo b by (simp add: pan_inv_def busy_def)
qed

lemma format_str_stop: "format_str s arg = Inl e \<Longrightarrow> \<exists>m. e = Undef m"
  by (induction s arg rule: format_str.induct) (auto simp: rbind_eq_Inl split: if_splits option.splits)

lemma subst_pcnt_f_stop: "subst_pcnt_f pid n e = Inl x \<Longrightarrow> \<exists>m. x = Undef m"
  using format_str_stop by (auto simp: subst_pcnt_f_def rbind_eq_Inl split: if_splits)

lemma exec_plan_of_defined: "\<exists>plan. exec_plan_of s = Inr plan"
  by (cases "list_ex (\<lambda>c. c \<in> set shell_chars) s") (simp_all add: exec_plan_of_def splitstr_eq Let_def)

lemma os_open_children: "os_lawful os children \<Longrightarrow> os_open os f n w = (r, u) \<Longrightarrow> children u = children w"
  by (metis os_lawful_def snd_conv)

lemma open_outfile_inv:
  assumes lawful: "os_lawful os children" and inv: "pan_inv conf base (children w) p"
    and i: "i < length (slots p)" "pgrp (slots p ! i) = 0" and o: "open_outfile conf os e i p w = (ok, q, u)"
  shows "pan_inv conf base (children u) q" "i < length (slots q)" "pgrp (slots q ! i) = 0"
proof -
  have u: "children u = children w" using o lawful
    by (auto simp: open_outfile_def os_open_children split: option.splits prod.splits)
  have "pan_inv conf base (children w) q"
  proof (cases "test_out_dir conf")
    case None
    with o inv show ?thesis by (simp add: open_outfile_def)
  next
    case (Some dir)
    with o obtain name n where "q = p\<lparr>slots := (slots p)[i := (slots p ! i)\<lparr>outfile := name\<rparr>], cmdno := n\<rparr>"
      by (auto simp: open_outfile_def split: prod.splits)
    then show ?thesis
      using pan_inv_touch [OF inv i, of "(slots p ! i)\<lparr>outfile := name\<rparr>"] i(2)
      by (simp add: pan_inv_def busy_def)
  qed
  with u show "pan_inv conf base (children u) q" by simp
  show "i < length (slots q)" "pgrp (slots q ! i) = 0"
    using o i by (auto simp: open_outfile_def split: option.splits prod.splits)
qed

text \<open>What \<open>start_one\<close> makes of the result of \<open>run_child\<close>.\<close>

definition started_inv where
  "started_inv conf base children r \<longleftrightarrow>
     (case r of
        Inl x \<Rightarrow> \<exists>m. x = Undef m
      | Inr (cpid, p', w') \<Rightarrow>
          pan_inv conf base (children w') (if cpid \<noteq> -1 then p'\<lparr>num_active := num_active p' + 1\<rparr> else p'))"

lemma run_parent_inv:
  assumes inv: "pan_inv conf base (children u) q" and slot: "i < length (slots q)" "pgrp (slots q ! i) = 0"
    and s: "s = (slots q ! i)\<lparr>mystime := t, cmd := Some e\<rparr>"
    and r: "slots r = (slots q)[i := s]" "orphans r = orphans q" "zoofile r = zoofile q" "num_active r = num_active q"
    and words: "words_ok (entry_name e) (cmdline e)" and fork: "fork_lawful children u (f, v)"
  shows "started_inv conf base children (run_parent arr conf os e i s r (f, v))"
proof -
  have "pan_inv conf base (children u) (q\<lparr>slots := (slots q)[i := s]\<rparr>)"
    using inv slot by (intro pan_inv_touch) (simp_all add: s)
  then have kept: "pan_inv conf base (children u) r'"
    if "slots r' = slots r" "orphans r' = orphans r" "zoofile r' = zoofile r" "num_active r' = num_active r" for r'
    using that r by (subst pan_inv_fields [of r' "q\<lparr>slots := (slots q)[i := s]\<rparr>"]) simp_all
  show ?thesis
  proof (cases f)
    case Fork_Failed
    with fork kept show ?thesis by (simp add: started_inv_def run_parent_def fork_lawful_def)
  next
    case (Not_Started m st)
    with fork kept show ?thesis
      by (cases "wait_status st") (simp add: started_inv_def run_parent_def fork_lawful_def)
  next
    case (Started cpid)
    with fork have c: "0 < cpid" "cpid < 2 ^ 31" "cpid \<notin> children u" "children v = insert cpid (children u)"
      by (simp_all add: fork_lawful_def)
    then have pid: "pid_ok cpid" "cpid \<noteq> -1" by (simp_all add: pid_ok_def)
    have locks: "zoo_locks conf = env_ok" and zoo: "zoo_holds (zoofile q) (base + busy q + nonzero (orphans q))"
      using inv by (simp_all add: pan_inv_def)
    obtain k z where mark: "zoo_mark_cmdline env_ok (zoofile q) cpid (entry_name e) (cmdline e) = (k, z)"
      by (cases "zoo_mark_cmdline env_ok (zoofile q) cpid (entry_name e) (cmdline e)")
    with zoo_mark_holds [OF zoo pid(1) words] have k: "k = 0"
      "zoo_holds z (add_mset cpid (base + busy q + nonzero (orphans q)))" by simp_all
    let ?t = "s\<lparr>pgrp := cpid, stopping := False\<rparr>"
    let ?q = "q\<lparr>slots := (slots q)[i := ?t], zoofile := z, num_active := num_active q + 1\<rparr>"
    have "pan_inv conf base (insert cpid (children u)) ?q"
      using words by (intro pan_inv_start [OF inv slot _ pid(1) c(1,3) _ k(2)])
        (simp_all add: s slot_name_def slot_cmdline_def)
    then have "pan_inv conf base (insert cpid (children u))
        (r\<lparr>slots := (slots r)[i := ?t], zoofile := z, num_active := num_active r + 1\<rparr>)"
      using r by (subst pan_inv_fields [of _ ?q]) simp_all
    with Started locks mark k(1) c(4) pid(2) r(3) show ?thesis by (simp add: started_inv_def run_parent_def)
  qed
qed

lemma run_child_inv:
  assumes lawful: "os_lawful os children" and inv: "pan_inv conf base (children w) p"
    and i: "i < length (slots p)" "pgrp (slots p ! i) = 0" and words: "words_ok (entry_name e) (cmdline e)"
  shows "case run_child arr conf os e i p w of
      Inl x \<Rightarrow> \<exists>m. x = Undef m
    | Inr (cpid, p', w') \<Rightarrow>
        pan_inv conf base (children w') (if cpid \<noteq> -1 then p'\<lparr>num_active := num_active p' + 1\<rparr> else p')"
proof -
  obtain ok q u where o: "open_outfile conf os e i p w = (ok, q, u)" by (cases "open_outfile conf os e i p w")
  note q = open_outfile_inv [OF lawful inv i o]
  have "started_inv conf base children (run_child arr conf os e i p w)"
  proof (cases "ok")
    case False
    with q show ?thesis by (simp add: run_child_def o started_inv_def)
  next
    case ok: True
    show ?thesis
    proof (cases "subst_pcnt_f (pan_pid conf) (counter q) e")
      case (Inl x)
      with subst_pcnt_f_stop [OF Inl] ok show ?thesis by (simp add: run_child_def o started_inv_def)
    next
      case (Inr cn)
      obtain c n where cn: "cn = (c, n)" by (cases cn)
      obtain plan where plan: "exec_plan_of c = Inr plan" using exec_plan_of_defined by blast
      obtain f v where f: "os_fork os plan u = (f, v)" by (cases "os_fork os plan u")
      have fork: "fork_lawful children u (f, v)" using lawful f unfolding os_lawful_def by metis
      note parent = run_parent_inv [OF q refl _ _ _ _ words fork]
      show ?thesis
        using ok Inr cn plan f q(1) pan_inv_fields [of "q\<lparr>counter := n\<rparr>" q]
        by (cases "os_pipe os u") (simp_all add: run_child_def o Let_def parent, simp_all add: started_inv_def)
    qed
  qed
  then show ?thesis by (simp add: started_inv_def)
qed

end
