(* ===== verification/Pan_Sched.thy ===== *)
theory Pan_Sched
  imports Pan_Invariant
begin

text \<open>
  The scheduler of \<open>ltp-pan.c\<close>: the loops of \<open>main\<close> from the preparation of the zoo file to the last
  orphan, as a step relation in which signals can arrive between any two rounds and at any point inside them.
\<close>

section \<open>Preparing the zoo file\<close>

text \<open>
  \<open>pan\<close> records itself and, so that the file does not grow later, marks and clears a line for every
  slot. The result is the exit on an error.
\<close>

fun mark_spaces :: "zoo_env \<Rightarrow> string \<Rightarrow> nat list \<Rightarrow> zoo option \<Rightarrow> zoo option res" where
  "mark_spaces zenv name [] z = Inr z"
| "mark_spaces zenv name (c # cs) z =
     (case zoo_mark_cmdline zenv z (int c) name [] of (e, z) \<Rightarrow>
        if e \<noteq> 0 then Inl (Exit 1) else mark_spaces zenv name cs z)"

fun clear_spaces :: "zoo_env \<Rightarrow> nat list \<Rightarrow> zoo option \<Rightarrow> zoo option res" where
  "clear_spaces zenv [] z = Inr z"
| "clear_spaces zenv (c # cs) z =
     (case zoo_clear zenv z (int c) of (e, z) \<Rightarrow>
        if e \<noteq> 0 then Inl (Exit 1) else clear_spaces zenv cs z)"

definition setup_zoo :: "pan_conf \<Rightarrow> string list \<Rightarrow> zoo option \<Rightarrow> zoo option res" where
  "setup_zoo conf argv z =
     (if z = None then Inl (Exit 1)
      else rbind (zoo_mark_args (zoo_locks conf) z (pan_pid conf) (panname conf) argv) (\<lambda>(e, z).
        if e \<noteq> 0 then Inl (Exit 1)
        else rbind (mark_spaces (zoo_locks conf) (panname conf) [0..<keep_active conf] z)
               (clear_spaces (zoo_locks conf) [0..<keep_active conf])))"

section \<open>The scheduling loop\<close>

text \<open>The local variables of \<open>main\<close> that the loop changes; \<open>cur\<close> is \<open>c\<close>.\<close>

record sched =
  starts :: int
  stop :: int
  go_idle :: int
  exit_stat :: int
  fork_in_road :: bool
  cur :: nat

definition init_pan :: "pan_conf \<Rightarrow> zoo option \<Rightarrow> pan" where
  "init_pan conf z =
     \<lparr>slots = replicate (keep_active conf) free_slot, orphans = [0], zoofile = z, rec_signal = 0,
      send_signal = 0, lastsent = 0, num_active = 0, failcnt = 0, counter = 1, cmdno = 0,
      out = [], logged = [], failed = []\<rparr>"

definition init_sched :: "int \<Rightarrow> bool \<Rightarrow> sched" where
  "init_sched n restart = \<lparr>starts = n, stop = 0, go_idle = 0, exit_stat = 0, fork_in_road = restart, cur = 0\<rparr>"

datatype phase = Filling | Checking | Draining | Finished

text \<open>
  One round of the inner loop: \<open>True\<close> with the new state, or \<open>False\<close> when no slot was free although
  \<open>num_active < keep_active\<close>, which makes the program stop everything.
\<close>

definition start_one ::
    "arrivals \<Rightarrow> pan_conf \<Rightarrow> 'w os \<Rightarrow> coll_entry list \<Rightarrow> sched \<Rightarrow> pan \<Rightarrow> 'w \<Rightarrow> (bool \<times> sched \<times> pan \<times> 'w) res" where
  "start_one arr conf os coll s p w =
     (case (if sequential conf then (cur s, w)
            else (case os_rand os w of (r, w) \<Rightarrow> (r mod length coll, w))) of (c, w) \<Rightarrow>
        let s = s\<lparr>cur := c\<rparr>
        in case find_slot 0 0 (slots p) of
             None \<Rightarrow> Inr (False, s\<lparr>exit_stat := exit_stat s + 1\<rparr>, wait_handler SIGINT (arrive arr Abort p), w)
           | Some i \<Rightarrow>
               rbind (run_child arr conf os (coll ! c) i p w) (\<lambda>(cpid, p, w).
                 let p = (if cpid \<noteq> -1 then p\<lparr>num_active := num_active p + 1\<rparr> else p);
                     s = (if (cpid \<noteq> -1 \<or> sequential conf) \<and> 0 < starts s
                          then s\<lparr>starts := starts s - 1\<rparr> else s);
                     s = (if sequential conf
                          then s\<lparr>cur := (if length coll \<le> Suc (cur s) then 0 else Suc (cur s))\<rparr> else s)
                 in Inr (True, s, p, w)))"

definition may_start :: "pan_conf \<Rightarrow> sched \<Rightarrow> pan \<Rightarrow> bool" where
  "may_start conf s p \<longleftrightarrow> num_active p < int (keep_active conf) \<and> starts s \<noteq> 0
     \<and> stop s = 0 \<and> rec_signal p = 0 \<and> go_idle s = 0"

text \<open>The statements between the inner loop and \<open>check_pids\<close>: counting down, the stop file, signals.\<close>

definition look_for_stop :: "pan_conf \<Rightarrow> 'w os \<Rightarrow> sched \<Rightarrow> pan \<Rightarrow> 'w \<Rightarrow> sched \<times> pan \<times> 'w" where
  "look_for_stop conf os s p w =
     (if starts s = 0 then
        (s\<lparr>stop := stop s + 1\<rparr>,
         p\<lparr>out := out p @ (if quiet_mode conf then [] else [''incrementing stop'' @ [NL]])\<rparr>, w)
      else if starts s = -1 then
        (case os_stop_file os w of (there, w) \<Rightarrow>
           if there then (s\<lparr>stop := stop s + 1\<rparr>, p\<lparr>out := out p @ [''Got PAN_STOP_FILE Stopping!'' @ [NL]]\<rparr>, w)
           else (s, p, w))
      else (s, p, w))"

definition idle_or_stop :: "sched \<Rightarrow> sched" where
  "idle_or_stop s = (if fork_in_road s then s\<lparr>go_idle := go_idle s + 1\<rparr> else s\<lparr>stop := stop s + 1\<rparr>)"

definition handle_signals :: "arrivals \<Rightarrow> pan_conf \<Rightarrow> 'w os \<Rightarrow> sched \<Rightarrow> pan \<Rightarrow> 'w \<Rightarrow> sched \<times> pan \<times> 'w" where
  "handle_signals arr conf os s p w =
     (if rec_signal p = 0 then (s, p, w)
      else
        let p = arrive arr Test_Usr2 p
        in if rec_signal p = SIGUSR2
           then (idle_or_stop s, (arrive arr Reset_Signals p)\<lparr>rec_signal := 0, send_signal := 0\<rparr>, w)
           else
             let p = arrive arr Test_Usr1 p;
                 s = (if rec_signal p = SIGUSR1 then s\<lparr>fork_in_road := False\<rparr> else s)
             in case propagate_signal arr conf os p w of (p, w) \<Rightarrow> (idle_or_stop s, p, w))"

definition account_errors :: "pan_conf \<Rightarrow> int \<Rightarrow> sched \<Rightarrow> pan \<Rightarrow> sched \<times> pan" where
  "account_errors conf err s p =
     (if err = 0 then (s, p)
      else
        let s = (if fork_in_road s then s\<lparr>go_idle := go_idle s + 1\<rparr> else s);
            s = (if track_exit_stats conf then s\<lparr>exit_stat := exit_stat s + 1\<rparr> else s)
        in (s, if has_brakes conf then wait_handler SIGINT p else p))"

text \<open>
  A signal that comes while \<open>wait\<close> blocks makes it fail; one that comes elsewhere in \<open>check_pids\<close>, which does not look at what
  the handler writes, is as good as one that comes behind it.
\<close>

definition interrupt_wait :: "arrivals \<Rightarrow> 'w os \<Rightarrow> 'w os" where
  "interrupt_wait arr os = (if arr Waiting = [] then os else os\<lparr>os_wait := \<lambda>w. (Wait_Error EINTR, w)\<rparr>)"

definition check_round ::
    "arrivals \<Rightarrow> pan_conf \<Rightarrow> 'w os \<Rightarrow> sched \<Rightarrow> pan \<Rightarrow> 'w \<Rightarrow> (phase \<times> sched \<times> pan \<times> 'w) res" where
  "check_round arr conf os s p w =
     (case look_for_stop conf os s p w of (s, p, w) \<Rightarrow>
      case handle_signals arr conf os s p w of (s, p, w) \<Rightarrow>
        rbind (check_pids conf (interrupt_wait arr os) p w) (\<lambda>(err, p, w).
          case account_errors conf err s (arrive arr After_Wait (arrive arr Waiting p)) of (s, p) \<Rightarrow>
            if stop s \<noteq> 0 \<and> num_active p = 0 then Inr (Draining, s, p, w)
            else if go_idle s \<noteq> 0 \<and> num_active p = 0
            then Inr (Filling, s\<lparr>go_idle := 0\<rparr>, wait_handler 0 (arrive arr Reset_Ratchet p), w)
            else Inr (Filling, s, p, w)))"

text \<open>One round of the loop that waits for the orphans, and what follows it.\<close>

definition drain_round ::
    "arrivals \<Rightarrow> pan_conf \<Rightarrow> 'w os \<Rightarrow> sched \<Rightarrow> pan \<Rightarrow> 'w \<Rightarrow> phase \<times> sched \<times> pan \<times> 'w" where
  "drain_round arr conf os s p w =
     (if list_ex (\<lambda>g. g \<noteq> 0) (orphans p) then
        let p = (if rec_signal p = 0 then wait_handler SIGINT (arrive arr Force_Signal p) else p)
        in case propagate_signal arr conf os p w of (p, w) \<Rightarrow> (Draining, s, p, w)
      else
        (case zoo_clear (zoo_locks conf) (zoofile p) (pan_pid conf) of (e, z) \<Rightarrow>
           (Finished, if e \<noteq> 0 then s\<lparr>exit_stat := exit_stat s + 1\<rparr> else s, p\<lparr>zoofile := z\<rparr>, w)))"

definition pan_round ::
    "arrivals \<Rightarrow> pan_conf \<Rightarrow> 'w os \<Rightarrow> coll_entry list \<Rightarrow> phase \<times> sched \<times> pan \<times> 'w \<Rightarrow> (phase \<times> sched \<times> pan \<times> 'w) res" where
  "pan_round arr conf os coll st =
     (case st of (ph, s, p, w) \<Rightarrow>
        (case ph of
           Filling \<Rightarrow>
             if may_start conf s p then
               rbind (start_one arr conf os coll s p w) (\<lambda>(going, s, p, w).
                 Inr (if going then Filling else Checking, s, p, w))
             else Inr (Checking, s, p, w)
         | Checking \<Rightarrow> check_round arr conf os s p w
         | Draining \<Rightarrow> Inr (drain_round arr conf os s p w)
         | Finished \<Rightarrow> Inr st))"

text \<open>A round in which no signal arrives.\<close>

definition pan_next ::
    "pan_conf \<Rightarrow> 'w os \<Rightarrow> coll_entry list \<Rightarrow> phase \<times> sched \<times> pan \<times> 'w \<Rightarrow> (phase \<times> sched \<times> pan \<times> 'w) res" where
  "pan_next = pan_round quiet"

lemmas pan_next_rounds = pan_round_def [of quiet, folded pan_next_def]

lemma interrupt_wait_quiet [simp]: "interrupt_wait quiet os = os"
  by (simp add: interrupt_wait_def quiet_def)

definition handled_signals :: "int set" where
  "handled_signals = {SIGALRM, SIGINT, SIGTERM, SIGHUP, SIGUSR1, SIGUSR2}"

text \<open>A round, with signals at any of its points; and a signal between two rounds.\<close>

inductive pan_step ::
    "pan_conf \<Rightarrow> 'w os \<Rightarrow> coll_entry list \<Rightarrow> phase \<times> sched \<times> pan \<times> 'w \<Rightarrow> phase \<times> sched \<times> pan \<times> 'w \<Rightarrow> bool"
  for conf os coll where
  advance: "pan_round arr conf os coll st = Inr st' \<Longrightarrow> \<forall>pt. set (arr pt) \<subseteq> handled_signals \<Longrightarrow> pan_step conf os coll st st'"
| deliver: "sig \<in> handled_signals \<Longrightarrow> pan_step conf os coll (ph, s, p, w) (ph, s, wait_handler sig p, w)"

inductive reachable ::
    "pan_conf \<Rightarrow> 'w os \<Rightarrow> coll_entry list \<Rightarrow> phase \<times> sched \<times> pan \<times> 'w \<Rightarrow> phase \<times> sched \<times> pan \<times> 'w \<Rightarrow> bool"
  for conf os coll st0 where
  start: "reachable conf os coll st0 st0"
| step: "reachable conf os coll st0 st \<Longrightarrow> pan_step conf os coll st st' \<Longrightarrow> reachable conf os coll st0 st'"

inductive_cases pan_stepE: "pan_step conf os coll st st'"

section \<open>The invariant of the scheduler\<close>

text \<open>In \<open>Finished\<close> the program's own entry is gone, the slots are empty and no orphan is left.\<close>

fun sched_inv :: "pan_conf \<Rightarrow> ('w \<Rightarrow> int set) \<Rightarrow> int multiset \<Rightarrow> phase \<times> sched \<times> pan \<times> 'w \<Rightarrow> bool" where
  "sched_inv conf children base (ph, s, p, w) =
     (if ph = Finished then children w = {} \<and> nonzero (orphans p) = {#} \<and> zoo_holds (zoofile p) base
      else pan_inv conf (add_mset (pan_pid conf) base) (children w) p
        \<and> (ph = Draining \<longrightarrow> num_active p = 0))"

text \<open>\<open>coll->ary[c]\<close> is only read inside the array.\<close>

fun cur_ok :: "coll_entry list \<Rightarrow> phase \<times> sched \<times> pan \<times> 'w \<Rightarrow> bool" where
  "cur_ok coll (ph, s, p, w) = (cur s < length coll)"

definition coll_ok :: "coll_entry list \<Rightarrow> bool" where
  "coll_ok coll \<longleftrightarrow> coll \<noteq> [] \<and> list_all (\<lambda>e. words_ok (entry_name e) (cmdline e)) coll"

lemma free_slot_exists:
  assumes "pan_inv conf base ch p" "num_active p < int (keep_active conf)"
  shows "\<exists>i. find_slot 0 0 (slots p) = Some i"
proof (rule ccontr)
  assume "\<nexists>i. find_slot 0 0 (slots p) = Some i"
  then have "\<forall>s \<in> set (slots p). pgrp s \<noteq> 0" using find_slot_None [of 0 0 "slots p"] by force
  then have "busy p = mset (map pgrp (slots p))" by (auto simp: busy_def filter_mset_eq_conv)
  then have "size (busy p) = length (slots p)" by simp
  with assms show False by (simp add: pan_inv_def)
qed

lemma busy_empty: "pan_inv conf base ch p \<Longrightarrow> num_active p = 0 \<Longrightarrow> busy p = {#} \<and> ch = {}"
  by (auto simp: pan_inv_def)

lemma start_one_inv:
  assumes lawful: "os_lawful os children" and coll: "coll_ok coll"
    and inv: "pan_inv conf base (children w) p" and active: "num_active p < int (keep_active conf)"
    and cur: "cur s < length coll"
  shows "case start_one arr conf os coll s p w of
      Inl x \<Rightarrow> \<exists>m. x = Undef m
    | Inr (going, s', p', w') \<Rightarrow> going \<and> pan_inv conf base (children w') p' \<and> cur s' < length coll"
proof -
  obtain c u where c: "(if sequential conf then (cur s, w)
      else (case os_rand os w of (r, w) \<Rightarrow> (r mod length coll, w))) = (c, u)" by fastforce
  have u: "children u = children w" and c_lt: "c < length coll"
    using c lawful cur coll by (auto simp: os_lawful_def coll_ok_def split: if_splits prod.splits) (metis snd_conv)+
  obtain i where i: "find_slot 0 0 (slots p) = Some i" using free_slot_exists [OF inv active] by blast
  then have i': "i < length (slots p)" "pgrp (slots p ! i) = 0" using find_slot_Some [OF i] by auto
  have "words_ok (entry_name (coll ! c)) (cmdline (coll ! c))"
    using coll c_lt by (simp add: coll_ok_def list_all_length)
  with run_child_inv [OF lawful _ i', of conf base u "coll ! c" arr] inv u
  have r: "case run_child arr conf os (coll ! c) i p u of Inl x \<Rightarrow> \<exists>m. x = Undef m
    | Inr (cpid, p', w') \<Rightarrow> pan_inv conf base (children w') (if cpid \<noteq> -1 then p'\<lparr>num_active := num_active p' + 1\<rparr> else p')"
    by simp
  show ?thesis
  proof (cases "run_child arr conf os (coll ! c) i p u")
    case (Inl x)
    with r i show ?thesis unfolding start_one_def c by (simp add: Let_def)
  next
    case (Inr q)
    obtain cpid p' w' where q: "q = (cpid, p', w')" by (metis prod_cases3)
    have "coll \<noteq> []" using coll by (simp add: coll_ok_def)
    with q r Inr i c_lt show ?thesis unfolding start_one_def c by (simp add: Let_def)
  qed
qed

lemma handle_signals_inv:
  assumes "os_lawful os children" "pan_inv conf base (children w) p" "handle_signals arr conf os s p w = (s', p', w')"
  shows "pan_inv conf base (children w') p' \<and> cur s' = cur s \<and> num_active p' = num_active p"
proof -
  have same: "pan_inv conf base ch (q\<lparr>rec_signal := 0, send_signal := 0\<rparr>) = pan_inv conf base ch q" for ch q
    by (rule pan_inv_fields) simp_all
  have "cur (idle_or_stop t) = cur t" for t by (simp add: idle_or_stop_def)
  moreover have "pan_inv conf base (children w) (arrive arr Test_Usr1 (arrive arr Test_Usr2 p))" using assms(2) by simp
  note propagate_inv [OF assms(1) this, of arr]
  ultimately show ?thesis using assms(2,3) same
    by (cases "propagate_signal arr conf os (arrive arr Test_Usr1 (arrive arr Test_Usr2 p)) w")
      (auto simp: handle_signals_def Let_def split: if_splits)
qed

lemma interrupt_wait_lawful: "os_lawful os children \<Longrightarrow> os_lawful (interrupt_wait arr os) children"
  by (simp add: interrupt_wait_def os_lawful_def wait_lawful_def)

lemma look_for_stop_inv:
  assumes "os_lawful os children" "pan_inv conf base (children w) p" "look_for_stop conf os s p w = (s', p', w')"
  shows "pan_inv conf base (children w') p' \<and> cur s' = cur s"
proof -
  have same: "pan_inv conf base ch (p\<lparr>out := x\<rparr>) = pan_inv conf base ch p" for ch x
    by (rule pan_inv_fields) simp_all
  obtain there u where u: "os_stop_file os w = (there, u)" by (cases "os_stop_file os w")
  with assms(1) have "children u = children w" by (metis os_lawful_def snd_conv)
  with assms(2,3) same u show ?thesis by (auto simp: look_for_stop_def split: if_splits)
qed

lemma check_round_inv:
  assumes lawful: "os_lawful os children" and inv: "pan_inv conf base (children w) p"
    and r: "check_round arr conf os s p w = Inr (ph, s', p', w')"
  shows "pan_inv conf base (children w') p' \<and> cur s' = cur s \<and> ph \<noteq> Finished \<and> (ph = Draining \<longrightarrow> num_active p' = 0)"
proof -
  obtain s1 p1 w1 where 1: "look_for_stop conf os s p w = (s1, p1, w1)" by (metis prod_cases3)
  obtain s2 p2 w2 where 2: "handle_signals arr conf os s1 p1 w1 = (s2, p2, w2)" by (metis prod_cases3)
  from r 1 2 obtain err p3 w3 where 3: "check_pids conf (interrupt_wait arr os) p2 w2 = Inr (err, p3, w3)"
    by (auto simp: check_round_def)
  let ?p3 = "arrive arr After_Wait (arrive arr Waiting p3)"
  obtain s4 p4 where 4: "account_errors conf err s2 ?p3 = (s4, p4)" by (cases "account_errors conf err s2 ?p3")
  note i1 = look_for_stop_inv [OF lawful inv 1]
  note i2 = handle_signals_inv [OF lawful conjunct1 [OF i1] 2]
  have i3: "pan_inv conf base (children w3) ?p3"
    using check_pids_inv [OF interrupt_wait_lawful [OF lawful, of arr] conjunct1 [OF i2]] 3 by simp
  have i4: "pan_inv conf base (children w3) p4 \<and> cur s4 = cur s2"
    using i3 4 by (auto simp: account_errors_def Let_def wait_handler_inv split: if_splits)
  from r 1 2 3 4 i4 show ?thesis
    using i1 i2 by (auto simp: check_round_def wait_handler_inv wait_handler_fields split: if_splits)
qed

lemma drain_round_inv:
  assumes lawful: "os_lawful os children" and inv: "pan_inv conf (add_mset (pan_pid conf) base) (children w) p"
    and idle: "num_active p = 0"
  shows "sched_inv conf children base (drain_round arr conf os s p w)"
proof (cases "list_ex (\<lambda>g. g \<noteq> 0) (orphans p)")
  case True
  let ?q = "if rec_signal p = 0 then wait_handler SIGINT (arrive arr Force_Signal p) else p"
  obtain p' w' where p': "propagate_signal arr conf os ?q w = (p', w')" by (cases "propagate_signal arr conf os ?q w")
  have "pan_inv conf (add_mset (pan_pid conf) base) (children w) ?q" using inv by (simp add: wait_handler_inv)
  from propagate_inv [OF lawful this p'] True p' idle show ?thesis
    by (auto simp: drain_round_def wait_handler_fields Let_def)
next
  case False
  then have none: "nonzero (orphans p) = {#}" by (induction "orphans p") (auto simp: nonzero_def list_ex_iff filter_mset_eq_conv)
  from busy_empty [OF inv idle] have b: "busy p = {#}" "children w = {}" by auto
  have locks: "zoo_locks conf = env_ok" and zoo: "zoo_holds (zoofile p) (add_mset (pan_pid conf) base)"
    using inv none b by (simp_all add: pan_inv_def)
  obtain e z where c: "zoo_clear env_ok (zoofile p) (pan_pid conf) = (e, z)"
    by (cases "zoo_clear env_ok (zoofile p) (pan_pid conf)")
  with zoo_clear_holds [OF zoo, of "pan_pid conf"] have "e = 0" "zoo_holds z base" by simp_all
  with False none b locks c show ?thesis by (simp add: drain_round_def)
qed

lemma sched_inv_step:
  assumes lawful: "os_lawful os children" and coll: "coll_ok coll"
    and inv: "sched_inv conf children base st" "cur_ok coll st" and pan_step: "pan_step conf os coll st st'"
  shows "sched_inv conf children base st' \<and> cur_ok coll st'"
  using pan_step inv
proof cases
  case (deliver sig ph s p w)
  with inv show ?thesis by (simp add: wait_handler_inv wait_handler_fields)
next
  case (advance arr)
  obtain ph s p w where st: "st = (ph, s, p, w)" by (metis prod_cases4)
  show ?thesis
  proof (cases ph)
    case Filling
    then have i: "pan_inv conf (add_mset (pan_pid conf) base) (children w) p" "cur s < length coll"
      using inv by (simp_all add: st)
    show ?thesis
    proof (cases "may_start conf s p")
      case True
      then have "num_active p < int (keep_active conf)" by (simp add: may_start_def)
      from start_one_inv [OF lawful coll i(1) this i(2), of arr] advance True Filling st show ?thesis
        by (cases "start_one arr conf os coll s p w") (auto simp: pan_round_def)
    next
      case False
      with advance Filling st i show ?thesis by (auto simp: pan_round_def)
    qed
  next
    case Checking
    then have i: "pan_inv conf (add_mset (pan_pid conf) base) (children w) p" "cur s < length coll"
      using inv by (simp_all add: st)
    obtain ph' s' p' w' where st': "st' = (ph', s', p', w')" by (metis prod_cases4)
    with advance Checking st have "check_round arr conf os s p w = Inr (ph', s', p', w')" by (simp add: pan_round_def)
    from check_round_inv [OF lawful i(1) this] i(2) show ?thesis by (simp add: st')
  next
    case Draining
    then have i: "pan_inv conf (add_mset (pan_pid conf) base) (children w) p" "num_active p = 0" "cur s < length coll"
      using inv by (simp_all add: st)
    from advance Draining st have st': "st' = drain_round arr conf os s p w" by (simp add: pan_round_def)
    have "cur_ok coll (drain_round arr conf os s p w)"
      using i(3)
      by (cases "propagate_signal arr conf os p w";
          cases "propagate_signal arr conf os (wait_handler SIGINT (arrive arr Force_Signal p)) w")
        (auto simp: drain_round_def Let_def split: prod.splits)
    with drain_round_inv [OF lawful i(1,2), of arr] st' show ?thesis by simp
  next
    case Finished
    with advance inv st show ?thesis by (simp add: pan_round_def)
  qed
qed

lemma reachable_inv:
  assumes "os_lawful os children" "coll_ok coll" "sched_inv conf children base st0" "cur_ok coll st0"
    and "reachable conf os coll st0 st"
  shows "sched_inv conf children base st \<and> cur_ok coll st"
  using assms(5)
proof (induction rule: reachable.induct)
  case start
  with assms show ?case by simp
next
  case (step st st')
  with sched_inv_step [OF assms(1,2)] show ?case by blast
qed

lemma init_inv:
  assumes "zoo_locks conf = env_ok" "zoo_holds z (add_mset (pan_pid conf) base)" "children w = {}" "coll \<noteq> []"
  shows "sched_inv conf children base (Filling, init_sched n restart, init_pan conf z, w)
    \<and> cur_ok coll (Filling, init_sched n restart, init_pan conf z, w)"
proof -
  have "busy (init_pan conf z) = {#}" by (simp add: busy_def init_pan_def free_slot_def)
  with assms show ?thesis
    by (simp add: pan_inv_def init_sched_def init_pan_def list_all_iff slot_ok_def free_slot_def)
qed

section \<open>The prepared zoo\<close>

lemma zoo_enter_eq:
  "zoo_ok z \<Longrightarrow> zoo_fits p (tag, c) \<Longrightarrow>
     zoo_mark_cmdline env_ok (Some z) p tag c = (0, Some (zoo_enter p (tag, c) z))"
  using zoo_mark_cmdline_ok [of z p tag c] by (auto simp: zoo_enter_def zoo_fits_def)

lemma zoo_leave_eq:
  "zoo_ok z \<Longrightarrow> p \<in># running (contents z) \<Longrightarrow> zoo_clear env_ok (Some z) p = (0, Some (zoo_leave p z))"
  using zoo_clear_ok [of z p] by (auto simp: zoo_leave_def)

definition space_marks :: "string \<Rightarrow> nat list \<Rightarrow> (int \<times> string \<times> string) list" where
  "space_marks name cs = map (\<lambda>c. (int c, name, [])) cs"

lemma mark_spaces_fold:
  assumes "zoo_ok z" "\<And>c. c \<in> set cs \<Longrightarrow> zoo_fits (int c) (name, [])"
  shows "mark_spaces env_ok name cs (Some z)
    = Inr (Some (fold zoo_registry.apply_event (map (\<lambda>(p, d). Begin p d) (space_marks name cs)) z))"
  using assms
proof (induction cs arbitrary: z)
  case (Cons c cs)
  then have "zoo_ok (zoo_enter (int c) (name, []) z)" using zoo_registry.enter_sound by simp
  with Cons show ?case by (simp add: zoo_enter_eq space_marks_def)
qed (simp add: space_marks_def)

lemma clear_spaces_fold:
  assumes "zoo_ok z" "mset (map int cs) \<subseteq># running (contents z)"
  shows "clear_spaces env_ok cs (Some z)
    = Inr (Some (fold zoo_registry.apply_event (map Finish (map int cs)) z))"
  using assms
proof (induction cs arbitrary: z)
  case (Cons c cs)
  let ?m = "mset (map int cs)"
  have sub: "add_mset (int c) ?m \<subseteq># running (contents z)" using Cons.prems(2) by simp
  then have c: "int c \<in># running (contents z)" by (rule mset_subset_eqD) simp
  have ok: "zoo_ok (zoo_leave (int c) z)" using zoo_registry.leave_sound [OF Cons.prems(1)] .
  have "?m \<subseteq># running (contents z) - {#int c#}" using sub c by (simp add: insert_subset_eq_iff)
  then have "mset (map int cs) \<subseteq># running (contents (zoo_leave (int c) z))"
    by (simp only: zoo_registry.leave_active [OF Cons.prems(1)])
  from Cons.IH [OF ok this] c Cons.prems(1) show ?case by (simp add: zoo_leave_eq)
qed simp

lemma setup_zoo_holds:
  assumes z: "zoo_ok z" and locks: "zoo_locks conf = env_ok" and pid: "pid_ok (pan_pid conf)"
    and argv: "argv \<noteq> []" "words_ok (panname conf) (join_with '' '' argv)" and keep: "int (keep_active conf) < 2 ^ 31"
  shows "\<exists>z'. setup_zoo conf argv (Some z) = Inr z' \<and> zoo_holds z' (add_mset (pan_pid conf) (running (contents z)))"
proof -
  let ?d = "(panname conf, join_with '' '' argv)"
  define cs where "cs = [0..<keep_active conf]"
  define qs where "qs = map int cs"
  let ?z1 = "zoo_enter (pan_pid conf) ?d z"
  have fit: "zoo_fits (pan_pid conf) ?d" using pid argv(2) by (simp add: zoo_fits_def)
  have z1: "zoo_ok ?z1" "running (contents ?z1) = add_mset (pan_pid conf) (running (contents z))"
    using zoo_registry.enter_sound [OF z fit] zoo_registry.enter_active [OF z fit] by simp_all
  have fits: "zoo_fits (int c) (panname conf, [])" if "c \<in> set cs" for c
    using that keep argv(2) by (simp add: zoo_fits_def pid_ok_def words_ok_def cs_def)
  define ps where "ps = space_marks (panname conf) cs"
  let ?z2 = "fold zoo_registry.apply_event (map (\<lambda>(p, d). Begin p d) ps) ?z1"
  have pids: "map fst ps = qs" by (simp add: ps_def qs_def space_marks_def comp_def)
  have in_ps: "zoo_fits p d" if "(p, d) \<in> set ps" for p d
    using that fits by (auto simp: ps_def space_marks_def)
  then have all: "list_all zoo_registry.event_fits (map (\<lambda>(p, d). Begin p d) ps)"
    by (auto simp: list_all_iff)
  from zoo_registry.events_active [OF z1(1) all] have z2: "zoo_ok ?z2"
    "running (contents ?z2) = running (contents ?z1) + mset qs"
    by (simp_all add: zoo_registry.bag_enter_all pids del: mset_map)
  then have "mset (map int cs) \<subseteq># running (contents ?z2)" by (simp add: qs_def [symmetric] del: mset_map)
  note clear = clear_spaces_fold [OF z2(1) this, folded qs_def]
  let ?z3 = "fold zoo_registry.apply_event (map Finish qs) ?z2"
  have "list_all zoo_registry.event_fits (map Finish qs)" by (simp add: list_all_iff)
  from zoo_registry.events_active [OF z2(1) this] have z3: "zoo_ok ?z3" by blast
  have same: "running (contents ?z3) = running (contents ?z1)"
    using zoo_registry.all_finished [OF z1(1) in_ps, of ps qs] pids by simp
  have mark: "mark_spaces env_ok (panname conf) cs (Some ?z1) = Inr (Some ?z2)"
    unfolding ps_def using fits by (rule mark_spaces_fold [OF z1(1)])
  have "setup_zoo conf argv (Some z) = Inr (Some ?z3)"
    using mark clear fit z argv(1)
    by (simp add: setup_zoo_def locks zoo_mark_args_def cat_args_def zoo_enter_eq cs_def [symmetric])
  with z3 same z1(2) show ?thesis by (simp add: zoo_holds_def)
qed

section \<open>A concrete system\<close>

text \<open>
  A system with the laws: the world is the list of the living children, each alone in its process group, which exit with 0
  one after the other.
\<close>

definition demo_fork :: "int list \<Rightarrow> fork_result \<times> int list" where
  "demo_fork w = (let pid = fold max w 100 + 1
     in if pid < 2 ^ 31 then (Started pid, pid # w) else (Fork_Failed, w))"

definition demo_wait :: "int list \<Rightarrow> wait_result \<times> int list" where
  "demo_wait w = (case w of [] \<Rightarrow> (Wait_Error 10, []) | c # cs \<Rightarrow> (Reaped c 0, filter (\<lambda>d. d \<noteq> c) cs))"

definition demo_os :: "int list os" where
  "demo_os = \<lparr>os_kill = (\<lambda>g s w. (if - g \<in> set w then 0 else ESRCH, w)), os_wait = demo_wait, os_times = (\<lambda>_. (0, 0)),
     os_time = (\<lambda>_. 0), os_slurp = (\<lambda>_ _. None), os_open = (\<lambda>_ _ w. ((0, True), w)),
     os_pipe = (\<lambda>_. True), os_fork = (\<lambda>_. demo_fork), os_rand = (\<lambda>w. (0, w)),
     os_stop_file = (\<lambda>w. (False, w))\<rparr>"

lemma fold_max_init: "(a :: int) \<le> fold max w a"
proof (induction w arbitrary: a)
  case (Cons y w)
  from Cons.IH [of "max y a"] have "max y a \<le> fold max (y # w) a" by simp
  then show ?case by (rule order_trans [OF max.cobounded2])
qed simp

lemma fold_max_ge: "x \<in> set w \<Longrightarrow> (x :: int) \<le> fold max w a"
proof (induction w arbitrary: a)
  case (Cons y w)
  have "y \<le> fold max (y # w) a" using fold_max_init [of "max y a" w] by simp
  with Cons show ?case by auto
qed simp

lemma demo_lawful: "os_lawful demo_os set"
proof -
  have "wait_lawful set w (demo_wait w)" for w
    by (auto simp: wait_lawful_def demo_wait_def wait_status_def split: list.split)
  moreover have "fork_lawful set w (demo_fork w)" for w
  proof -
    have "fold max w 100 + 1 \<notin> set w" using fold_max_ge [of "fold max w 100 + 1" w 100] by auto
    moreover have "0 < fold max w 100 + 1" using fold_max_init [of 100 w] by simp
    ultimately show ?thesis by (simp add: fork_lawful_def demo_fork_def Let_def)
  qed
  ultimately show ?thesis by (simp add: os_lawful_def demo_os_def)
qed

definition demo_conf :: pan_conf where
  "demo_conf = \<lparr>panname = ''pan'', pan_pid = 50, test_out_dir = None, rts = True, keep_active = 2,
     fmt_print = False, quiet_mode = True, has_log = False, has_failcmd = False, sequential = True,
     track_exit_stats = False, has_brakes = False, zoo_locks = env_ok\<rparr>"

definition demo_coll :: "coll_entry list" where
  "demo_coll = [\<lparr>entry_name = ''a'', cmdline = ''true'', pcnt_f = False\<rparr>]"

definition demo_zoo :: "zoo option" where
  "demo_zoo = snd (zoo_mark_cmdline env_ok (Some \<lparr>contents = [], locked = False\<rparr>) 50 ''pan'' ''pan -S'')"

lemma zoo_ok_empty: "zoo_ok \<lparr>contents = [], locked = False\<rparr>"
  by (auto simp: zoo_ok_def intro: exI [of _ "[]"])

lemma demo_zoo_holds: "zoo_holds demo_zoo {#50#}"
  using zoo_mark_cmdline_ok [OF zoo_ok_empty, of 50 "''pan''" "''pan -S''"]
  by (auto simp: demo_zoo_def zoo_holds_def pid_ok_def words_ok_def NL_def scan_steps)

lemma demo_coll_ok: "coll_ok demo_coll"
  by (simp add: coll_ok_def demo_coll_def words_ok_def NL_def)

section \<open>Where signals make no difference\<close>

definition set_signals :: "int \<Rightarrow> int \<Rightarrow> int \<Rightarrow> pan \<Rightarrow> pan" where
  "set_signals a b c p = p\<lparr>rec_signal := a, send_signal := b, lastsent := c\<rparr>"

lemma report_child_signals:
  "report_child conf os s st status tn (set_signals a b c p) w
    = rbind (report_child conf os s st status tn p w) (\<lambda>q. Inr (set_signals a b c q))"
  by (cases "copy_buffered_output (os_slurp os (outfile s) w)") (simp_all add: report_child_def Let_def set_signals_def)

lemma release_slot_signals:
  "release_slot conf os i cpid (set_signals a b c p) w
    = rbind (release_slot conf os i cpid p w) (\<lambda>(q, v). Inr (set_signals a b c q, v))"
  by (simp add: release_slot_def Let_def set_signals_def split: prod.split)

lemma check_pids_signals:
  "check_pids conf os (set_signals a b c p) (w :: 'w)
    = rbind (check_pids conf os p w) (\<lambda>(n, q, v). Inr (n, set_signals a b c q, v))"
proof -
  have outer: "(set_signals a b c p)\<lparr>orphans := gs, zoofile := z\<rparr> = set_signals a b c (p\<lparr>orphans := gs, zoofile := z\<rparr>)"
    "(set_signals a b c q)\<lparr>num_active := n\<rparr> = set_signals a b c (q\<lparr>num_active := n\<rparr>)"
    "orphans (set_signals a b c q) = orphans q" "zoofile (set_signals a b c q) = zoofile q"
    "num_active (set_signals a b c q) = num_active q" "slots (set_signals a b c q) = slots q" for gs z q n
    by (simp_all add: set_signals_def)
  have push: "rbind (case x of (q, v) \<Rightarrow> Inr (g q, v)) h = (case x of (q, v) \<Rightarrow> h (g q, v))"
    for x and g :: "pan \<Rightarrow> pan" and h :: "pan \<times> 'w \<Rightarrow> (int \<times> pan \<times> 'w) res"
    by (cases x) simp
  show ?thesis
    by (simp add: check_pids_def Let_def outer push report_child_signals release_slot_signals rbind_assoc
        split: prod.split wait_result.split option.split)
qed

lemma run_child_signals:
  "run_child arr conf os e i (set_signals a b c p) (w :: 'w)
    = rbind (run_child arr conf os e i p w) (\<lambda>(n, q, v). Inr (n, set_signals a b c q, v))"
proof -
  have outer: "(set_signals a b c q)\<lparr>slots := x\<rparr> = set_signals a b c (q\<lparr>slots := x\<rparr>)"
    "(set_signals a b c q)\<lparr>zoofile := z\<rparr> = set_signals a b c (q\<lparr>zoofile := z\<rparr>)"
    "(set_signals a b c q)\<lparr>cmdno := k\<rparr> = set_signals a b c (q\<lparr>cmdno := k\<rparr>)"
    "(set_signals a b c q)\<lparr>out := y\<rparr> = set_signals a b c (q\<lparr>out := y\<rparr>)"
    "(set_signals a b c q)\<lparr>counter := k\<rparr> = set_signals a b c (q\<lparr>counter := k\<rparr>)"
    "zoofile (set_signals a b c q) = zoofile q" "slots (set_signals a b c q) = slots q" "out (set_signals a b c q) = out q"
    "counter (set_signals a b c q) = counter q" "cmdno (set_signals a b c q) = cmdno q" for q x y z k
    by (simp_all add: set_signals_def)
  have parent: "run_parent arr conf os e i s (set_signals a b c q) r
      = rbind (run_parent arr conf os e i s q r) (\<lambda>(n, q, v). Inr (n, set_signals a b c q, v))" for s q and r :: "fork_result \<times> 'w"
    by (auto simp: run_parent_def outer split: prod.split fork_result.split)
  have opened: "open_outfile conf os e i (set_signals a b c p) w
      = (case open_outfile conf os e i p w of (ok, q, v) \<Rightarrow> (ok, set_signals a b c q, v))"
    by (simp add: open_outfile_def outer split: option.split prod.split)
  obtain ok q v where "open_outfile conf os e i p w = (ok, q, v)" by (metis prod_cases3)
  then show ?thesis
    by (cases "subst_pcnt_f (pan_pid conf) (counter q) e")
      (auto simp: run_child_def opened outer parent Let_def split: prod.split)
qed

text \<open>Hence a signal in one of the two, unless it interrupts a call, is as good as one right behind it.\<close>

lemma set_signals_same: "set_signals a b c q = q \<longleftrightarrow> rec_signal q = a \<and> send_signal q = b \<and> lastsent q = c"
  by (cases q) (auto simp: set_signals_def)

lemma wait_handler_set:
  assumes "set_signals (rec_signal p) (send_signal p) (lastsent p) q = q"
  shows "wait_handler sig q = set_signals (rec_signal (wait_handler sig p)) (send_signal (wait_handler sig p))
      (lastsent (wait_handler sig p)) q"
  using assms by (cases p; cases q) (auto simp: wait_handler_def set_signals_def Let_def)

lemma signal_commutes:
  assumes f: "\<And>a b c. f (set_signals a b c p) = rbind (f p) (\<lambda>(n, q, v). Inr (n, set_signals a b c q, v))"
  shows "f (wait_handler sig p) = rbind (f p) (\<lambda>(n, q, v). Inr (n, wait_handler sig q, v))"
proof (cases "f p")
  case (Inl x)
  with f have "f (set_signals a b c p) = Inl x" for a b c by simp
  with wait_handler_set [of p p sig] have "f (wait_handler sig p) = Inl x" by (metis set_signals_same)
  with Inl show ?thesis by simp
next
  case (Inr r)
  obtain n q v where r: "r = (n, q, v)" by (metis prod_cases3)
  have "set_signals (rec_signal p) (send_signal p) (lastsent p) p = p" by (simp add: set_signals_same)
  from f [of "rec_signal p" "send_signal p" "lastsent p", unfolded this] Inr r
  have "set_signals (rec_signal p) (send_signal p) (lastsent p) q = q" by simp
  note q = wait_handler_set [OF this, of sig]
  have "wait_handler sig p = set_signals (rec_signal (wait_handler sig p)) (send_signal (wait_handler sig p))
      (lastsent (wait_handler sig p)) p"
    by (rule wait_handler_set) (simp add: set_signals_same)
  then have "f (wait_handler sig p) = rbind (f p) (\<lambda>(n, q, v). Inr (n, set_signals (rec_signal (wait_handler sig p))
      (send_signal (wait_handler sig p)) (lastsent (wait_handler sig p)) q, v))"
    using f by metis
  with q Inr r show ?thesis by simp
qed

lemmas signals_around = signal_commutes [of "\<lambda>p. check_pids conf os p w" for conf os w, OF check_pids_signals]
  signal_commutes [of "\<lambda>p. run_child arr conf os e i p w" for arr conf os e i w, OF run_child_signals]

end
