(* ===== verification/Pan_Runs.thy ===== *)
theory Pan_Runs
  imports Pan_Sched
begin

text \<open>
  What holds in every state of a run of \<open>ltp-pan\<close> from the prepared zoo file on, wherever the signals
  arrive, and that a run without signals comes to its end.
\<close>

section \<open>Runs\<close>

definition run_start ::
    "pan_conf \<Rightarrow> int \<Rightarrow> bool \<Rightarrow> zoo option \<Rightarrow> 'w \<Rightarrow> phase \<times> sched \<times> pan \<times> 'w" where
  "run_start conf n restart z w = (Filling, init_sched n restart, init_pan conf z, w)"

text \<open>The parameters under which the zoo file and the children can be followed.\<close>

definition run_ok ::
    "pan_conf \<Rightarrow> 'w os \<Rightarrow> ('w \<Rightarrow> int set) \<Rightarrow> coll_entry list \<Rightarrow> string list \<Rightarrow> zoo \<Rightarrow> 'w \<Rightarrow> bool" where
  "run_ok conf os children coll argv z w \<longleftrightarrow>
     os_lawful os children \<and> coll_ok coll \<and> zoo_locks conf = env_ok \<and> pid_ok (pan_pid conf) \<and>
     argv \<noteq> [] \<and> words_ok (panname conf) (join_with '' '' argv) \<and> int (keep_active conf) < 2 ^ 31 \<and>
     zoo_ok z \<and> children w = {}"

lemma run_inv:
  assumes ok: "run_ok conf os children coll argv z w" and zoo: "setup_zoo conf argv (Some z) = Inr z'"
    and reach: "reachable conf os coll (run_start conf n restart z' w) st"
  shows "sched_inv conf children (running (contents z)) st \<and> cur_ok coll st"
proof -
  have "zoo_holds z' (add_mset (pan_pid conf) (running (contents z)))"
    using setup_zoo_holds [of z conf argv] ok zoo by (auto simp: run_ok_def)
  moreover have "os_lawful os children" "coll_ok coll" "zoo_locks conf = env_ok" "children w = {}" "coll \<noteq> []"
    using ok by (simp_all add: run_ok_def coll_ok_def)
  moreover from calculation have "sched_inv conf children (running (contents z)) (run_start conf n restart z' w)"
    "cur_ok coll (run_start conf n restart z' w)"
    unfolding run_start_def by (blast dest: init_inv)+
  ultimately show ?thesis using reachable_inv [OF _ _ _ _ reach] by blast
qed

lemma zoo_holds_lists: "zoo_holds z m \<longleftrightarrow> (\<exists>x. z = Some x \<and> zoo_ok x \<and> running (contents x) = m)"
  by (cases z) (auto simp: zoo_holds_def)

text \<open>The system of \<open>Pan_Sched\<close> satisfies the parameters, and its runs exist.\<close>

definition demo_file :: zoo where "demo_file = \<lparr>contents = [], locked = False\<rparr>"

lemma demo_run_ok: "run_ok demo_conf demo_os set demo_coll [''pan'', ''-S''] demo_file []"
  by (simp add: run_ok_def demo_lawful demo_coll_ok demo_file_def zoo_ok_empty)
    (simp add: demo_conf_def pid_ok_def words_ok_def NL_def)

lemma demo_setup: "\<exists>z'. setup_zoo demo_conf [''pan'', ''-S''] (Some demo_file) = Inr z'"
  using setup_zoo_holds [of demo_file demo_conf "[''pan'', ''-S'']"] demo_run_ok
  by (auto simp: run_ok_def)

lemma reachable_advance:
  "reachable conf os coll st0 st \<Longrightarrow> pan_next conf os coll st = Inr st' \<Longrightarrow> reachable conf os coll st0 st'"
  unfolding pan_next_def by (erule reachable.step, erule pan_step.advance) (simp add: quiet_def)

section \<open>Bookkeeping\<close>

text \<open>C2. As long as the scheduler runs, \<open>num_active\<close> is the number of busy slots, the busy slots hold exactly
  the pids of the children that were started and not yet waited for, and the zoo file lists, besides
  what it listed before, exactly \<open>pan\<close> itself, the busy slots and the orphaned process groups.\<close>

theorem pan_bookkeeping:
  assumes "run_ok conf os children coll argv z w" "setup_zoo conf argv (Some z) = Inr z'"
    "reachable conf os coll (run_start conf n restart z' w) (ph, s, p, w')" "ph \<noteq> Finished"
  shows "num_active p = int (length (filter (\<lambda>t. pgrp t \<noteq> 0) (slots p)))
    \<and> children w' = pgrp ` {t \<in> set (slots p). pgrp t \<noteq> 0}
    \<and> (\<exists>x. zoofile p = Some x \<and> running (contents x) = running (contents z) + {#pan_pid conf#}
           + mset (filter (\<lambda>g. g \<noteq> 0) (map pgrp (slots p))) + mset (filter (\<lambda>g. g \<noteq> 0) (orphans p)))"
proof -
  have inv: "pan_inv conf (add_mset (pan_pid conf) (running (contents z))) (children w') p"
    using run_inv [OF assms(1-3)] assms(4) by simp
  have "size (busy p) = length (filter (\<lambda>t. pgrp t \<noteq> 0) (slots p))"
    by (simp add: busy_def filter_mset_image_mset flip: mset_filter)
  moreover have "set_mset (busy p) = pgrp ` {t \<in> set (slots p). pgrp t \<noteq> 0}" by (auto simp: busy_def)
  moreover have "busy p = mset (filter (\<lambda>g. g \<noteq> 0) (map pgrp (slots p)))"
    "nonzero (orphans p) = mset (filter (\<lambda>g. g \<noteq> 0) (orphans p))"
    by (simp_all add: busy_def nonzero_def flip: mset_map)
  moreover from inv have "zoo_holds (zoofile p) (add_mset (pan_pid conf) (running (contents z)) + busy p + nonzero (orphans p))"
    by (simp add: pan_inv_def)
  then have "\<exists>x. zoofile p = Some x
      \<and> running (contents x) = running (contents z) + {#pan_pid conf#} + busy p + nonzero (orphans p)"
    by (auto simp: zoo_holds_lists)
  ultimately show ?thesis using inv by (simp only: pan_inv_def)
qed

theorem pan_bookkeeping_witness:
  "\<exists>z' st'. reachable demo_conf demo_os demo_coll (run_start demo_conf 3 False z' []) st'
     \<and> num_active (fst (snd (snd st'))) = int (length (filter (\<lambda>t. pgrp t \<noteq> 0) (slots (fst (snd (snd st'))))))"
proof -
  obtain z' where z': "setup_zoo demo_conf [''pan'', ''-S''] (Some demo_file) = Inr z'" using demo_setup by blast
  have st: "reachable demo_conf demo_os demo_coll (run_start demo_conf 3 False z' [])
      (Filling, init_sched 3 False, init_pan demo_conf z', [])"
    by (simp add: run_start_def reachable.start)
  have "num_active (init_pan demo_conf z')
      = int (length (filter (\<lambda>t. pgrp t \<noteq> 0) (slots (init_pan demo_conf z'))))"
    by (rule conjunct1 [OF pan_bookkeeping [OF demo_run_ok z' st]]) simp
  with st show ?thesis by (metis fst_conv snd_conv)
qed

section \<open>Slots\<close>

lemma active_bounds: "pan_inv conf base ch p \<Longrightarrow> 0 \<le> num_active p \<and> num_active p \<le> int (keep_active conf)"
proof -
  assume inv: "pan_inv conf base ch p"
  have "size (busy p) \<le> size (mset (map pgrp (slots p)))"
    unfolding busy_def by (rule size_mset_mono) simp
  with inv show ?thesis by (simp add: pan_inv_def)
qed

text \<open>At most \<open>keep_active\<close> tests run at a time, and whenever the loop is about to start one, a slot is free
  and the index into the collection is inside it: the branch that prints \<open>Aborting: i == keep_active\<close>
  and stops everything is never taken.\<close>

theorem slot_always_free:
  assumes "run_ok conf os children coll argv z w" "setup_zoo conf argv (Some z) = Inr z'"
    "reachable conf os coll (run_start conf n restart z' w) (Filling, s, p, w')"
  shows "0 \<le> num_active p \<and> num_active p \<le> int (keep_active conf) \<and> cur s < length coll
    \<and> \<not> (may_start conf s p \<and> find_slot 0 0 (slots p) = None)
    \<and> \<not> (may_start conf s p \<and> (\<exists>s' p' w''. start_one arr conf os coll s p w' = Inr (False, s', p', w'')))"
proof -
  let ?base = "add_mset (pan_pid conf) (running (contents z))"
  have inv: "pan_inv conf ?base (children w') p" and cur: "cur s < length coll"
    using run_inv [OF assms] by simp_all
  have lawful: "os_lawful os children" and coll: "coll_ok coll" using assms(1) by (simp_all add: run_ok_def)
  note bounds = active_bounds [OF inv]
  show ?thesis
  proof (cases "may_start conf s p")
    case True
    then have less: "num_active p < int (keep_active conf)" by (simp add: may_start_def)
    from start_one_inv [OF lawful coll inv less cur, of arr] free_slot_exists [OF inv less] bounds cur show ?thesis
      by auto
  next
    case False
    with bounds cur show ?thesis by simp
  qed
qed

theorem slot_always_free_witness:
  "\<exists>z'. may_start demo_conf (init_sched 3 False) (init_pan demo_conf z')
     \<and> find_slot 0 0 (slots (init_pan demo_conf z')) \<noteq> None"
proof -
  obtain z' where z': "setup_zoo demo_conf [''pan'', ''-S''] (Some demo_file) = Inr z'" using demo_setup by blast
  have st: "reachable demo_conf demo_os demo_coll (run_start demo_conf 3 False z' [])
      (Filling, init_sched 3 False, init_pan demo_conf z', [])"
    by (simp add: run_start_def reachable.start)
  have "may_start demo_conf (init_sched 3 False) (init_pan demo_conf z')"
    by (simp add: may_start_def init_sched_def init_pan_def demo_conf_def)
  with slot_always_free [OF demo_run_ok z' st] show ?thesis by blast
qed

section \<open>The end of a run\<close>

text \<open>C5. When the program has finished, every child was waited for, no orphaned group is left and the zoo file
  lists exactly the processes it listed before \<open>pan\<close> was started.\<close>

theorem finished_clean:
  assumes "run_ok conf os children coll argv z w" "setup_zoo conf argv (Some z) = Inr z'"
    "reachable conf os coll (run_start conf n restart z' w) (Finished, s, p, w')"
  shows "children w' = {} \<and> filter (\<lambda>g. g \<noteq> 0) (orphans p) = []
    \<and> (\<exists>x. zoofile p = Some x \<and> running (contents x) = running (contents z))"
proof -
  have "children w' = {} \<and> nonzero (orphans p) = {#} \<and> zoo_holds (zoofile p) (running (contents z))"
    using run_inv [OF assms] by simp
  then show ?thesis by (auto simp: zoo_holds_lists nonzero_def simp flip: mset_filter)
qed

lemma demo_steps:
  assumes "pan_next demo_conf demo_os demo_coll st0 = Inr st1" "pan_next demo_conf demo_os demo_coll st1 = Inr st2"
    "pan_next demo_conf demo_os demo_coll st2 = Inr st3"
  shows "reachable demo_conf demo_os demo_coll st0 st3"
  using assms by (blast intro: reachable_advance reachable.start)

theorem finished_clean_witness:
  "\<exists>z' s p. reachable demo_conf demo_os demo_coll (run_start demo_conf 0 False z' []) (Finished, s, p, [])
     \<and> (\<exists>x. zoofile p = Some x \<and> running (contents x) = {#})"
proof -
  obtain z' where z': "setup_zoo demo_conf [''pan'', ''-S''] (Some demo_file) = Inr z'" using demo_setup by blast
  let ?p = "init_pan demo_conf z'" let ?s = "init_sched 0 False"
  have simple: "slots ?p = [free_slot, free_slot]" "orphans ?p = [0]" "num_active ?p = 0" "rec_signal ?p = 0"
    by (simp_all add: init_pan_def demo_conf_def numeral_2_eq_2)
  obtain e x where clear: "zoo_clear env_ok (zoofile ?p) 50 = (e, x)" by (cases "zoo_clear env_ok (zoofile ?p) 50")
  have conf: "pan_pid demo_conf = 50" "zoo_locks demo_conf = env_ok" "quiet_mode demo_conf"
    by (simp_all add: demo_conf_def)
  have os: "os_wait demo_os [] = (Wait_Error 10, [])" by (simp add: demo_os_def demo_wait_def)
  have 1: "pan_next demo_conf demo_os demo_coll (run_start demo_conf 0 False z' []) = Inr (Checking, ?s, ?p, [])"
    by (simp add: pan_next_rounds run_start_def may_start_def init_sched_def)
  have pids: "check_pids demo_conf demo_os ?p [] = Inr (0, ?p, [])"
    using simple os by (simp add: check_pids_def Let_def)
  have 2: "pan_next demo_conf demo_os demo_coll (Checking, ?s, ?p, [])
      = Inr (Draining, ?s\<lparr>stop := 1\<rparr>, ?p, [])"
    using pids simple conf
    by (simp add: pan_next_rounds check_round_def look_for_stop_def handle_signals_def account_errors_def init_sched_def)
  obtain s' where 3: "pan_next demo_conf demo_os demo_coll (Draining, ?s\<lparr>stop := 1\<rparr>, ?p, [])
      = Inr (Finished, s', ?p\<lparr>zoofile := x\<rparr>, [])"
    using simple conf clear by (simp add: pan_next_rounds drain_round_def)
  note reach = demo_steps [OF 1 2 3]
  have "running (contents demo_file) = {#}" by (simp add: demo_file_def running.simps [of "[]"])
  with finished_clean [OF demo_run_ok z' reach]
  have "\<exists>y. zoofile (?p\<lparr>zoofile := x\<rparr>) = Some y \<and> running (contents y) = {#}" by simp
  with reach show ?thesis by blast
qed

section \<open>Progress\<close>

lemma report_child_defined:
  "test_out_dir conf = None \<Longrightarrow> \<exists>p'. report_child conf os s stat_loc status term p w = Inr p'"
  by (simp add: report_child_def Let_def)

text \<open>Whether a child that ended counts as a failure: 130 is forgiven after the test was told to stop.\<close>

definition test_failed :: "string \<Rightarrow> int \<Rightarrow> bool \<Rightarrow> bool" where
  "test_failed status tn told =
     (if status = ''signaled'' then \<not> told else tn \<noteq> 0 \<and> \<not> (tn = 130 \<and> told))"

definition reported :: "string \<Rightarrow> int \<Rightarrow> bool \<Rightarrow> int" where
  "reported status tn told = (if tn = 130 \<and> told \<and> status = ''exited'' then 0 else tn)"

lemma check_pids_reaped:
  assumes "check_orphans os (zoo_locks conf) 0 (orphans p) (zoofile p) w = (gs, z, u)"
    "os_wait os u = (Reaped cpid st, v)" "0 < cpid" "wait_status st = (tn, status)"
    "status \<in> {''exited'', ''signaled''}" "find_slot cpid 0 (slots p) = Some i"
  shows "check_pids conf os p w =
    rbind (report_child conf os (slots p ! i) st status (reported status tn (stopping (slots p ! i)))
             (p\<lparr>orphans := gs, zoofile := z, num_active := num_active p - 1\<rparr>) v) (\<lambda>q.
      rbind (release_slot conf os i cpid q v) (\<lambda>(q, v).
        Inr (if test_failed status tn (stopping (slots p ! i)) then 1 else 0, q, v)))"
  using assms
  by (auto simp: check_pids_def Let_def test_failed_def reported_def intro!: rbind_cong)

lemma check_pids_cases:
  assumes lawful: "os_lawful os children" and inv: "pan_inv conf base (children w) p"
  obtains (none) gs z u e v where
      "check_orphans os (zoo_locks conf) 0 (orphans p) (zoofile p) w = (gs, z, u)" "os_wait os u = (Wait_Error e, v)"
      "children u = children w" "check_pids conf os p w = Inr (0, p\<lparr>orphans := gs, zoofile := z\<rparr>, v)"
  | (child) gs z u cpid st v tn status i where
      "check_orphans os (zoo_locks conf) 0 (orphans p) (zoofile p) w = (gs, z, u)"
      "os_wait os u = (Reaped cpid st, v)" "0 < cpid" "wait_status st = (tn, status)"
      "status \<in> {''exited'', ''signaled''}" "find_slot cpid 0 (slots p) = Some i"
proof -
  from inv have locks: "zoo_locks conf = env_ok"
    and zoo: "zoo_holds (zoofile p) ((base + busy p) + nonzero (orphans p))"
    by (simp_all add: pan_inv_def)
  obtain gs z u where gs: "check_orphans os env_ok 0 (orphans p) (zoofile p) w = (gs, z, u)" by (metis prod_cases3)
  from check_orphans_inv [OF lawful zoo gs] have u: "children u = children w" by simp
  obtain r v where r: "os_wait os u = (r, v)" by (cases "os_wait os u")
  have wait: "wait_lawful children u (r, v)" using lawful r unfolding os_lawful_def by metis
  show thesis
  proof (cases r)
    case (Wait_Error e)
    with gs locks r have "check_pids conf os p w = Inr (0, p\<lparr>orphans := gs, zoofile := z\<rparr>, v)"
      by (simp add: check_pids_def Let_def)
    with none [of gs z u e v] gs locks r u Wait_Error show thesis by simp
  next
    case (Reaped cpid st)
    with wait have "cpid \<in> children w" and st: "snd (wait_status st) \<in> {''exited'', ''signaled''}"
      by (simp_all add: wait_lawful_def u)
    with inv have "cpid \<in># busy p" by (simp add: pan_inv_def)
    then have c: "cpid \<in> pgrp ` set (slots p)" "cpid \<noteq> 0" by (auto simp: busy_def)
    then obtain i where i: "find_slot cpid 0 (slots p) = Some i"
      using find_slot_None [of cpid 0 "slots p"] by (cases "find_slot cpid 0 (slots p)") auto
    have "0 < cpid" using c inv by (auto simp: pan_inv_def list_all_iff slot_ok_def pid_ok_def)
    with child [of gs z u cpid st v _ _ i] gs r Reaped i st locks show thesis by (cases "wait_status st") simp
  qed
qed

lemma check_pids_defined:
  assumes "os_lawful os children" "pan_inv conf base (children w) p" "test_out_dir conf = None"
  shows "\<exists>r. check_pids conf os p w = Inr r"
  using assms(1,2)
proof (cases rule: check_pids_cases)
  case (child gs z u cpid st v tn status i)
  from check_pids_inv [OF assms(1,2)] have "check_pids conf os p w \<noteq> Inl (Exit n)" for n by (auto split: sum.splits)
  moreover have "check_pids conf os p w \<noteq> Inl (Undef m)" for m
  proof -
    obtain q where "report_child conf os (slots p ! i) st status (reported status tn (stopping (slots p ! i)))
        (p\<lparr>orphans := gs, zoofile := z, num_active := num_active p - 1\<rparr>) v = Inr q"
      using report_child_defined [OF assms(3), where os = os] by blast
    then show ?thesis
      by (auto simp: check_pids_reaped [OF child] rbind_eq_Inl release_slot_def Let_def split: prod.splits if_splits)
  qed
  moreover have "x = Undef ''read before the buffer''" if "check_pids conf os p w = Inl x" for x
    using check_pids_inv [OF assms(1,2)] that by simp
  ultimately show ?thesis by (metis obj_sumE)
qed blast

lemma run_child_defined:
  assumes "os_lawful os children" "pan_inv conf base (children w) p" "i < length (slots p)" "pgrp (slots p ! i) = 0"
    "words_ok (entry_name e) (cmdline e)" "\<not> pcnt_f e"
  shows "\<exists>r. run_child quiet conf os e i p w = Inr r"
proof (cases "run_child quiet conf os e i p w")
  case (Inl x)
  with run_child_inv [OF assms(1-5), of quiet] obtain m where x: "x = Undef m" by auto
  have "run_child quiet conf os e i p w \<noteq> Inl (Undef m)"
    using assms(6) exec_plan_of_defined [of "cmdline e"]
    by (auto simp: run_child_def run_parent_def quiet_def open_outfile_def subst_pcnt_f_def Let_def rbind_eq_Inl split: prod.splits option.splits fork_result.splits if_splits)
  with Inl x show ?thesis by blast
qed blast

lemma start_one_defined:
  assumes lawful: "os_lawful os children" and coll: "coll_ok coll"
    and inv: "pan_inv conf base (children w) p" and active: "num_active p < int (keep_active conf)"
    and cur: "cur s < length coll" and plain: "list_all (\<lambda>e. \<not> pcnt_f e) coll"
  shows "\<exists>r. start_one quiet conf os coll s p w = Inr r"
proof -
  obtain c u where c: "(if sequential conf then (cur s, w)
      else (case os_rand os w of (r, w) \<Rightarrow> (r mod length coll, w))) = (c, u)" by fastforce
  have u: "children u = children w" and c_lt: "c < length coll"
    using c lawful cur coll by (auto simp: os_lawful_def coll_ok_def split: if_splits prod.splits) (metis snd_conv)+
  obtain i where i: "find_slot 0 0 (slots p) = Some i" using free_slot_exists [OF inv active] by blast
  have e: "words_ok (entry_name (coll ! c)) (cmdline (coll ! c))" "\<not> pcnt_f (coll ! c)"
    using coll plain c_lt by (simp_all add: coll_ok_def list_all_length)
  have "pan_inv conf base (children u) p" using inv u by simp
  from run_child_defined [OF lawful this _ _ e] find_slot_Some [OF i]
  have "\<exists>r. run_child quiet conf os (coll ! c) i p u = Inr r" by auto
  with i show ?thesis unfolding start_one_def c by (auto simp: Let_def)
qed

lemma next_defined:
  assumes "run_ok conf os children coll argv z w" "setup_zoo conf argv (Some z) = Inr z'"
    "reachable conf os coll (run_start conf n restart z' w) st"
    "test_out_dir conf = None" "list_all (\<lambda>e. \<not> pcnt_f e) coll"
  shows "\<exists>st'. pan_next conf os coll st = Inr st'"
proof -
  obtain ph s p u where st: "st = (ph, s, p, u)" by (metis prod_cases4)
  let ?base = "add_mset (pan_pid conf) (running (contents z))"
  have lawful: "os_lawful os children" and coll: "coll_ok coll" using assms(1) by (simp_all add: run_ok_def)
  have inv: "pan_inv conf ?base (children u) p" if "ph \<noteq> Finished" and cur: "cur s < length coll"
    using run_inv [OF assms(1-3)] st that by simp_all
  have cur: "cur s < length coll" using run_inv [OF assms(1-3)] st by simp
  show ?thesis
  proof (cases ph)
    case Filling
    with inv cur have i: "pan_inv conf ?base (children u) p" by simp
    have "\<exists>r. start_one quiet conf os coll s p u = Inr r" if "may_start conf s p"
      using start_one_defined [OF lawful coll i _ cur assms(5)] that by (simp add: may_start_def)
    with Filling st show ?thesis by (auto simp: pan_next_rounds)
  next
    case Checking
    with inv cur have i: "pan_inv conf ?base (children u) p" by simp
    obtain s1 p1 w1 where 1: "look_for_stop conf os s p u = (s1, p1, w1)" by (metis prod_cases3)
    obtain s2 p2 w2 where 2: "handle_signals quiet conf os s1 p1 w1 = (s2, p2, w2)" by (metis prod_cases3)
    have "pan_inv conf ?base (children w2) p2"
      using look_for_stop_inv [OF lawful i 1] handle_signals_inv [OF lawful _ 2] by blast
    from check_pids_defined [OF lawful this assms(4)] obtain r where "check_pids conf os p2 w2 = Inr r" by blast
    with Checking st 1 2 show ?thesis
      by (cases r) (auto simp: pan_next_rounds check_round_def split: prod.split)
  next
    case Draining
    then show ?thesis unfolding st pan_next_rounds by simp (meson prod_cases4)
  qed (simp add: st pan_next_rounds)
qed



section \<open>Reaping a test\<close>

text \<open>C33. When \<open>check_pids\<close> reaps a child, the child is in a slot; afterwards no slot has it, one test less is active,
  and the number of failures it reports is 1 or 0: 1 for a signal the test was not sent by \<open>pan\<close> and for
  a non-zero exit value, except that 130 is forgiven after the test was told to stop.\<close>

theorem check_pids_verdict:
  assumes "os_lawful os children" "pan_inv conf base (children w) p"
    "check_orphans os (zoo_locks conf) 0 (orphans p) (zoofile p) w = (gs, z, u)"
    "os_wait os u = (Reaped cpid st, v)" "check_pids conf os p w = Inr (ret, p', w')"
  shows "\<exists>i. i < length (slots p) \<and> pgrp (slots p ! i) = cpid
    \<and> ret = (if test_failed (snd (wait_status st)) (fst (wait_status st)) (stopping (slots p ! i)) then 1 else 0)
    \<and> pgrp (slots p' ! i) = 0 \<and> cpid \<notin> pgrp ` set (slots p') \<and> num_active p' = num_active p - 1"
  using assms(1,2)
proof (cases rule: check_pids_cases)
  case (none gs z u e v)
  with assms(3,4) show ?thesis by simp
next
  case (child gs z u cpid2 st2 v2 tn status i)
  then have same: "cpid2 = cpid" "st2 = st" using assms(3,4) by simp_all
  note i = find_slot_Some [OF child(6), simplified]
  obtain q x where q: "report_child conf os (slots p ! i) st status (reported status tn (stopping (slots p ! i)))
        (p\<lparr>orphans := gs, zoofile := z, num_active := num_active p - 1\<rparr>) v2 = Inr q"
      "release_slot conf os i cpid q v2 = Inr (p', x)"
      "ret = (if test_failed status tn (stopping (slots p ! i)) then 1 else 0)"
    using assms(5) by (auto simp: check_pids_reaped [OF child] same rbind_eq_Inr)
  note f = report_child_fields [OF q(1), simplified]
  have p': "slots p' = (slots p)[i := (slots p ! i)\<lparr>pgrp := 0\<rparr>]" "num_active p' = num_active p - 1"
    using q(2) f by (auto simp: release_slot_def Let_def split: prod.splits if_splits)
  have once: "count (busy p) cpid \<le> 1" using assms(2) by (simp add: pan_inv_def)
  have "busy p' = busy p - {#cpid#}"
    using busy_update [of i p "(slots p ! i)\<lparr>pgrp := 0\<rparr>"] i p' same by (simp add: busy_def)
  with once have "cpid \<notin># busy p'" by (simp add: not_in_iff)
  then have "cpid \<notin> pgrp ` set (slots p')" using child(3) same by (auto simp: busy_def)
  with i p' q(3) child(4) same show ?thesis by (intro exI [of _ i]) simp
qed

definition demo_slot :: tag_pgrp where
  "demo_slot = \<lparr>pgrp = 101, stopping = False, mystime = 0, cmd = Some (hd demo_coll), outfile = []\<rparr>"

definition demo_pan :: pan where
  "demo_pan = (init_pan demo_conf
     (snd (zoo_mark_cmdline env_ok (Some demo_file) 101 ''a'' ''true'')))\<lparr>slots := [demo_slot, free_slot], num_active := 1\<rparr>"

lemma demo_pan_inv: "pan_inv demo_conf {#} {101} demo_pan"
proof -
  have "zoo_holds (zoofile demo_pan) {#101#}"
    using zoo_mark_cmdline_ok [OF zoo_ok_empty, of 101 "''a''" "''true''"]
    by (auto simp: demo_pan_def demo_file_def init_pan_def zoo_holds_def pid_ok_def words_ok_def NL_def scan_steps)
  moreover have "slots demo_pan = [demo_slot, free_slot]" "orphans demo_pan = [0]" "num_active demo_pan = 1"
    by (simp_all add: demo_pan_def init_pan_def)
  moreover have "slot_ok demo_slot" "slot_ok free_slot"
    by (simp_all add: slot_ok_def demo_slot_def free_slot_def pid_ok_def words_ok_def NL_def slot_name_def
        slot_cmdline_def demo_coll_def)
  ultimately show ?thesis
    by (simp add: pan_inv_def busy_def demo_slot_def free_slot_def demo_conf_def)
qed

theorem check_pids_verdict_witness:
  "\<exists>p' w'. check_pids demo_conf demo_os demo_pan [101] = Inr (0, p', w') \<and> 101 \<notin> pgrp ` set (slots p')"
proof -
  have inv: "pan_inv demo_conf {#} (set [101]) demo_pan" using demo_pan_inv by simp
  have "test_out_dir demo_conf = None" by (simp add: demo_conf_def)
  from check_pids_defined [OF demo_lawful inv this] obtain ret p' w' where
    r: "check_pids demo_conf demo_os demo_pan [101] = Inr (ret, p', w')" by (metis prod_cases3)
  have "orphans demo_pan = [0]" "slots demo_pan = [demo_slot, free_slot]" by (simp_all add: demo_pan_def init_pan_def)
  then have gs: "check_orphans demo_os (zoo_locks demo_conf) 0 (orphans demo_pan) (zoofile demo_pan) [101]
      = ([0], zoofile demo_pan, [101])" by simp
  have w: "os_wait demo_os [101] = (Reaped 101 0, [])" by (simp add: demo_os_def demo_wait_def)
  from check_pids_verdict [OF demo_lawful inv gs w r] r show ?thesis
    by (auto simp: test_failed_def wait_status_def)
qed

end
