(* ===== verification/Pan_Liveness.thy ===== *)
theory Pan_Liveness
  imports Pan_Runs
begin

text \<open>
  The run of \<open>ltp-pan -S\<close> without signals comes to an end: a bound on the rounds of the scheduling loop.
\<close>

section \<open>Running with fuel\<close>

fun pan_run ::
    "nat \<Rightarrow> pan_conf \<Rightarrow> 'w os \<Rightarrow> coll_entry list \<Rightarrow> phase \<times> sched \<times> pan \<times> 'w \<Rightarrow> (phase \<times> sched \<times> pan \<times> 'w) res" where
  "pan_run 0 conf os coll st = Inr st"
| "pan_run (Suc k) conf os coll st = rbind (pan_next conf os coll st) (pan_run k conf os coll)"

lemma pan_run_reachable:
  "reachable conf os coll st0 st \<Longrightarrow> pan_run k conf os coll st = Inr st' \<Longrightarrow> reachable conf os coll st0 st'"
proof (induction k arbitrary: st)
  case (Suc k)
  then obtain st1 where "pan_next conf os coll st = Inr st1" "pan_run k conf os coll st1 = Inr st'" by auto
  with Suc.IH [OF reachable_advance [OF Suc.prems(1)]] show ?case by blast
qed simp

text \<open>\<open>wait\<close> does not fail while there are children.\<close>

definition wait_reaps :: "'w os \<Rightarrow> ('w \<Rightarrow> int set) \<Rightarrow> bool" where
  "wait_reaps os children \<longleftrightarrow> (\<forall>w. children w \<noteq> {} \<longrightarrow> (\<exists>pid st w'. os_wait os w = (Reaped pid st, w')))"

section \<open>The measure\<close>

fun work :: "phase \<times> sched \<times> pan \<times> 'w \<Rightarrow> nat" where
  "work (ph, s, p, w) = nat (3 * starts s + 2 * num_active p) + (if ph = Filling then 1 else 0)"

text \<open>The part of the state the measure needs; \<open>stop\<close> only grows.\<close>

fun counting :: "phase \<times> sched \<times> pan \<times> 'w \<Rightarrow> bool" where
  "counting (ph, s, p, w) =
     (0 \<le> starts s \<and> 0 \<le> stop s \<and> go_idle s = 0 \<and> \<not> fork_in_road s
      \<and> (ph = Checking \<and> num_active p = 0 \<longrightarrow> starts s = 0 \<or> stop s \<noteq> 0 \<or> rec_signal p \<noteq> 0))"

lemma run_child_keeps:
  assumes r: "run_child quiet conf os e i p w = Inr (cpid, p', w')"
  shows "num_active p' = num_active p \<and> rec_signal p' = rec_signal p \<and> orphans p' = orphans p"
proof -
  let ?same = "\<lambda>q. num_active q = num_active p \<and> rec_signal q = rec_signal p \<and> orphans q = orphans p"
  obtain ok q u where o: "open_outfile conf os e i p w = (ok, q, u)" by (cases "open_outfile conf os e i p w")
  then have q: "?same q" by (auto simp: open_outfile_def split: option.splits prod.splits)
  note r = r [unfolded run_child_def run_parent_def, unfolded o Let_def]
  show ?thesis
  proof (cases "ok \<and> os_pipe os u")
    case False
    with r q show ?thesis by (auto split: if_splits)
  next
    case True
    with r obtain c n plan where "subst_pcnt_f (pan_pid conf) (counter q) e = Inr (c, n)" "exec_plan_of c = Inr plan"
      by auto
    with r True q show ?thesis by (auto split: prod.splits fork_result.splits if_splits)
  qed
qed

lemma start_one_work:
  assumes "start_one quiet conf os coll s p w = Inr (True, s', p', w')" "sequential conf" "0 < starts s"
  shows "starts s' = starts s - 1 \<and> stop s' = stop s \<and> go_idle s' = go_idle s \<and> fork_in_road s' = fork_in_road s
    \<and> num_active p' \<in> {num_active p, num_active p + 1}"
proof -
  from assms(1,2) obtain i where "find_slot 0 0 (slots p) = Some i"
    by (cases "find_slot 0 0 (slots p)") (simp_all add: start_one_def Let_def)
  moreover from assms(1,2) this obtain cpid q where r: "run_child quiet conf os (coll ! cur s) i p w = Inr (cpid, q, w')"
    by (auto simp: start_one_def Let_def)
  ultimately show ?thesis using assms run_child_keeps [OF r] by (auto simp: start_one_def Let_def split: if_splits)
qed

lemma look_for_stop_work:
  "look_for_stop conf os s p w = (s', p', w') \<Longrightarrow> 0 \<le> stop s \<Longrightarrow>
     starts s' = starts s \<and> stop s \<le> stop s' \<and> (starts s = 0 \<longrightarrow> 0 < stop s') \<and> go_idle s' = go_idle s
     \<and> fork_in_road s' = fork_in_road s \<and> num_active p' = num_active p \<and> rec_signal p' = rec_signal p"
  by (auto simp: look_for_stop_def split: if_splits prod.splits)

lemma handle_signals_work:
  "handle_signals quiet conf os s p w = (s', p', w') \<Longrightarrow> 0 \<le> stop s \<Longrightarrow> \<not> fork_in_road s \<Longrightarrow>
     starts s' = starts s \<and> stop s \<le> stop s' \<and> (rec_signal p \<noteq> 0 \<longrightarrow> 0 < stop s') \<and> go_idle s' = go_idle s
     \<and> \<not> fork_in_road s' \<and> num_active p' = num_active p"
  by (auto simp: handle_signals_def idle_or_stop_def Let_def propagate_num_active split: if_splits prod.splits)

lemma account_errors_work:
  "account_errors conf err s p = (s', p') \<Longrightarrow> \<not> fork_in_road s \<Longrightarrow>
     starts s' = starts s \<and> stop s' = stop s \<and> go_idle s' = go_idle s \<and> \<not> fork_in_road s' \<and> num_active p' = num_active p"
  by (auto simp: account_errors_def Let_def wait_handler_fields split: if_splits)

lemma check_pids_work:
  assumes lawful: "os_lawful os children" and reaps: "wait_reaps os children"
    and inv: "pan_inv conf base (children w) p" and r: "check_pids conf os p w = Inr (ret, p', w')"
  shows "num_active p' = (if num_active p = 0 then 0 else num_active p - 1)"
  using lawful inv
proof (cases rule: check_pids_cases)
  case (none gs z u e v)
  with reaps have "children w = {}" by (fastforce simp: wait_reaps_def)
  with inv have "num_active p = 0" by (simp add: pan_inv_def)
  with none r show ?thesis by simp
next
  case (child gs z u cpid st v tn status i)
  from find_slot_Some [OF child(6)] child(3) have "cpid \<in># busy p" by (auto simp: busy_def)
  with inv have "0 < num_active p" by (auto simp: pan_inv_def intro: nonempty_has_size [THEN iffD1])
  moreover from r obtain q x where "report_child conf os (slots p ! i) st status (reported status tn (stopping (slots p ! i)))
        (p\<lparr>orphans := gs, zoofile := z, num_active := num_active p - 1\<rparr>) v = Inr q"
      "release_slot conf os i cpid q v = Inr (p', x)"
    by (auto simp: check_pids_reaped [OF child])
  then have "num_active p' = num_active p - 1"
    using report_child_fields by (fastforce simp: release_slot_def Let_def split: prod.splits if_splits)
  ultimately show ?thesis by simp
qed

lemma filling_work:
  assumes st: "counting (Filling, s, p, w)" and conf: "sequential conf" "0 < keep_active conf"
    and going: "\<And>s' p' w'. may_start conf s p \<Longrightarrow> start_one quiet conf os coll s p w \<noteq> Inr (False, s', p', w')"
    and inv: "0 \<le> num_active p" and r: "pan_next conf os coll (Filling, s, p, w) = Inr st'"
  shows "counting st' \<and> fst st' \<in> {Filling, Checking} \<and> work st' < work (Filling, s, p, w)"
proof (cases "may_start conf s p")
  case True
  with r obtain going s' p' w' where one: "start_one quiet conf os coll s p w = Inr (going, s', p', w')"
    and to: "st' = (if going then Filling else Checking, s', p', w')"
    by (auto simp: pan_next_rounds)
  with True going have start: "start_one quiet conf os coll s p w = Inr (True, s', p', w')"
    and st': "st' = (Filling, s', p', w')" by (cases going; auto)+
  have pos: "0 < starts s" using True st by (simp add: may_start_def)
  from start_one_work [OF start conf(1) pos] pos st inv show ?thesis by (auto simp: st')
next
  case False
  with r have "st' = (Checking, s, p, w)" by (simp add: pan_next_rounds)
  with False st conf(2) inv show ?thesis by (auto simp: may_start_def)
qed

lemma checking_work:
  assumes lawful: "os_lawful os children" and reaps: "wait_reaps os children"
    and inv: "pan_inv conf base (children w) p" and st: "counting (Checking, s, p, w)"
    and r: "check_round quiet conf os s p w = Inr st'"
  shows "fst st' = Draining \<or> counting st' \<and> fst st' = Filling \<and> work st' < work (Checking, s, p, w)"
proof -
  have pos: "0 \<le> num_active p" using active_bounds [OF inv] by simp
  have s: "0 \<le> starts s" "0 \<le> stop s" "go_idle s = 0" "\<not> fork_in_road s"
    "num_active p = 0 \<Longrightarrow> starts s = 0 \<or> stop s \<noteq> 0 \<or> rec_signal p \<noteq> 0" using st by auto
  obtain s1 p1 w1 where 1: "look_for_stop conf os s p w = (s1, p1, w1)" by (metis prod_cases3)
  obtain s2 p2 w2 where 2: "handle_signals quiet conf os s1 p1 w1 = (s2, p2, w2)" by (metis prod_cases3)
  from r 1 2 obtain err p3 w3 where 3: "check_pids conf os p2 w2 = Inr (err, p3, w3)"
    by (auto simp: check_round_def)
  obtain s4 p4 where 4: "account_errors conf err s2 p3 = (s4, p4)" by (cases "account_errors conf err s2 p3")
  note f1 = look_for_stop_work [OF 1 s(2)]
  then have "0 \<le> stop s1" "\<not> fork_in_road s1" using s by auto
  note f2 = handle_signals_work [OF 2 this]
  have i2: "pan_inv conf base (children w2) p2"
    using look_for_stop_inv [OF lawful inv 1] handle_signals_inv [OF lawful _ 2] by blast
  note f3 = check_pids_work [OF lawful reaps i2 3]
  have "\<not> fork_in_road s2" using f2 by blast
  note f4 = account_errors_work [OF 4 this]
  have st': "st' = (if stop s4 \<noteq> 0 \<and> num_active p4 = 0 then (Draining, s4, p4, w3) else (Filling, s4, p4, w3))"
    using r 1 2 3 4 f1 f2 f4 s(3) by (auto simp: check_round_def split: if_splits)
  have eqs: "starts s4 = starts s" "go_idle s4 = 0" "\<not> fork_in_road s4" "num_active p2 = num_active p"
    using f1 f2 f4 s by auto
  have stop4: "0 \<le> stop s4" "num_active p = 0 \<Longrightarrow> stop s4 \<noteq> 0"
    using f1 f2 f4 s by auto
  show ?thesis
  proof (cases "num_active p = 0")
    case True
    with st' f3 f4 stop4 eqs show ?thesis by simp
  next
    case False
    with st' f3 f4 stop4(1) eqs s(1) pos show ?thesis by auto
  qed
qed

lemma reaches_draining:
  assumes ok: "run_ok conf os children coll argv z w" "setup_zoo conf argv (Some z) = Inr z'"
    and os: "wait_reaps os children" and conf: "sequential conf" "0 < keep_active conf" "test_out_dir conf = None"
      "list_all (\<lambda>e. \<not> pcnt_f e) coll"
    and "reachable conf os coll (run_start conf n restart z' w) st" "counting st" "fst st \<in> {Filling, Checking}"
  shows "\<exists>k s p w'. k \<le> Suc (work st) \<and> pan_run k conf os coll st = Inr (Draining, s, p, w')"
  using assms(8-10)
proof (induction "work st" arbitrary: st rule: less_induct)
  case less
  obtain ph s p u where st: "st = (ph, s, p, u)" by (metis prod_cases4)
  have lawful: "os_lawful os children" using ok(1) by (simp add: run_ok_def)
  have inv: "pan_inv conf (add_mset (pan_pid conf) (running (contents z))) (children u) p"
    using run_inv [OF ok less.prems(1)] less.prems(3) st by auto
  obtain st' where nxt: "pan_next conf os coll st = Inr st'"
    using next_defined [OF ok less.prems(1) conf(3,4)] by blast
  have "fst st' = Draining \<or> counting st' \<and> fst st' \<in> {Filling, Checking} \<and> work st' < work st"
  proof (cases "ph = Filling")
    case True
    have "start_one quiet conf os coll s p u \<noteq> Inr (False, s', p', w')" if "may_start conf s p" for s' p' w'
    proof -
      have "coll_ok coll" using ok(1) by (simp add: run_ok_def)
      moreover have "num_active p < int (keep_active conf)" using that by (simp add: may_start_def)
      moreover have "cur s < length coll" using run_inv [OF ok less.prems(1)] st by simp
      ultimately have "case start_one quiet conf os coll s p u of Inl x \<Rightarrow> True | Inr (going, _) \<Rightarrow> going"
        using start_one_inv [OF lawful _ inv, of coll s quiet] by (auto split: sum.splits)
      then show ?thesis by auto
    qed
    with filling_work [OF _ conf(1,2) _ _ nxt [unfolded st True]] less.prems(2) active_bounds [OF inv] st True
    show ?thesis by blast
  next
    case False
    with less.prems(3) st have "ph = Checking" by simp
    then have "counting (Checking, s, p, u)" "check_round quiet conf os s p u = Inr st'"
      using nxt less.prems(2) st by (simp_all only: pan_next_rounds prod.case phase.case)
    from checking_work [OF lawful os inv this] st \<open>ph = Checking\<close> show ?thesis by blast
  qed
  then show ?case
  proof
    assume "fst st' = Draining"
    then obtain s2 p2 w2 where "pan_run (Suc 0) conf os coll st = Inr (Draining, s2, p2, w2)"
      using nxt by (cases st') auto
    then show ?thesis by (intro exI [of _ "Suc 0"]) simp
  next
    assume st': "counting st' \<and> fst st' \<in> {Filling, Checking} \<and> work st' < work st"
    with less.hyps reachable_advance [OF less.prems(1) nxt]
    obtain k s2 p2 w2 where "k \<le> Suc (work st')" "pan_run k conf os coll st' = Inr (Draining, s2, p2, w2)" by blast
    then have "Suc k \<le> Suc (work st)" "pan_run (Suc k) conf os coll st = Inr (Draining, s2, p2, w2)"
      using st' nxt by simp_all
    then show ?thesis by blast
  qed
qed

text \<open>A sequential run of \<open>n\<close> tests to which no signal is sent, with output to the terminal and no restart on
  failure, leaves the scheduling loop after at most \<open>3 * n + 2\<close> rounds, whatever the tests do as long as each of
  them ends and is reaped.\<close>

theorem pan_terminates:
  assumes "run_ok conf os children coll argv z w" "setup_zoo conf argv (Some z) = Inr z'"
    "wait_reaps os children" "sequential conf" "0 < keep_active conf" "test_out_dir conf = None"
    "list_all (\<lambda>e. \<not> pcnt_f e) coll"
  shows "\<exists>k s p w'. k \<le> 3 * n + 2 \<and> pan_run k conf os coll (run_start conf (int n) False z' w) = Inr (Draining, s, p, w')
    \<and> children w' = {}"
proof -
  let ?st = "run_start conf (int n) False z' w"
  have st: "counting ?st" "fst ?st \<in> {Filling, Checking}" "work ?st = 3 * n + 1"
    by (simp_all add: run_start_def init_sched_def init_pan_def)
  from reaches_draining [OF assms reachable.start st(1,2)] st(3) obtain k s p w'
    where k: "k \<le> 3 * n + 2" "pan_run k conf os coll ?st = Inr (Draining, s, p, w')" by auto
  from run_inv [OF assms(1,2) pan_run_reachable [OF reachable.start k(2)]] have "children w' = {}"
    by (auto dest: busy_empty)
  with k show ?thesis by blast
qed

theorem pan_terminates_witness:
  "\<exists>z' k s p w'. k \<le> 17 \<and> pan_run k demo_conf demo_os demo_coll (run_start demo_conf 5 False z' []) = Inr (Draining, s, p, w')"
proof -
  obtain z' where z': "setup_zoo demo_conf [''pan'', ''-S''] (Some demo_file) = Inr z'" using demo_setup by blast
  have "wait_reaps demo_os set" by (auto simp: wait_reaps_def demo_os_def demo_wait_def split: list.split)
  moreover have "sequential demo_conf" "0 < keep_active demo_conf" "test_out_dir demo_conf = None"
    "list_all (\<lambda>e. \<not> pcnt_f e) demo_coll" by (simp_all add: demo_conf_def demo_coll_def)
  ultimately have "\<exists>k s p w'. k \<le> 3 * 5 + 2 \<and> pan_run k demo_conf demo_os demo_coll
      (run_start demo_conf (int 5) False z' []) = Inr (Draining, s, p, w') \<and> set w' = {}"
    by (rule pan_terminates [OF demo_run_ok z'])
  then obtain k s p w' where "k \<le> 17" "pan_run k demo_conf demo_os demo_coll
      (run_start demo_conf 5 False z' []) = Inr (Draining, s, p, w')" by auto
  then show ?thesis by blast
qed

end
