(* ===== verification/Pan_Main.thy ===== *)
theory Pan_Main
  imports Pan_Liveness
begin

text \<open>
  \<open>main\<close> of \<open>ltp-pan.c\<close> around the scheduling loop: the options, the defaults, the files it opens, the head and
  the foot of the log, the exit status; and the whole program put together. Messages on standard error and the
  debugging options are not modelled.
\<close>

section \<open>Options\<close>

record pan_opts =
  o_brakes :: bool
  o_track :: bool
  o_outdir :: "string option"
  o_sequential :: bool
  o_zoo :: "string option"
  o_failcmd :: "string option"
  o_file :: string
  o_log :: "string option"
  o_name :: "string option"
  o_output :: "string option"
  o_fmt :: bool
  o_quiet :: bool
  o_report :: "string option"
  o_starts :: int
  o_run_time :: int
  o_modifier :: char
  o_timed :: bool
  o_active :: int
  o_restart :: bool
  o_printed :: "string list"

definition first_opts :: pan_opts where
  "first_opts = \<lparr>o_brakes = False, o_track = False, o_outdir = None, o_sequential = False, o_zoo = None,
     o_failcmd = None, o_file = ''/dev/null'', o_log = None, o_name = None, o_output = None, o_fmt = False,
     o_quiet = False, o_report = None, o_starts = -1, o_run_time = -1, o_modifier = CHR ''m'', o_timed = False,
     o_active = 1, o_restart = False, o_printed = []\<rparr>"

text \<open>
  \<open>sscanf (optarg, "%d%c", &run_time, &modifier)\<close>: nothing to read, no number, a number, a number and
  the character behind it.
\<close>

datatype scan = Scan_End | Scan_None | Scan_Int int | Scan_Int_Char int char

definition scan_time :: "string \<Rightarrow> scan" where
  "scan_time s =
     (let t = dropWhile c_isspace s;
          u = (if hdc t = CHR ''-'' \<or> hdc t = CHR ''+'' then tl t else t)
      in if t = [] then Scan_End
         else if digit_of 10 (hdc u) = None then Scan_None
         else let n = sint (word_of_int (strtoll 10 t) :: u32)
              in case dropWhile (\<lambda>c. digit_of 10 c \<noteq> None) u of
                   [] \<Rightarrow> Scan_Int n
                 | c # _ \<Rightarrow> Scan_Int_Char n c)"

definition time_factor :: "char \<Rightarrow> int option" where
  "time_factor c =
     (if c = CHR ''s'' then Some 1 else if c = CHR ''m'' then Some 60 else if c = CHR ''h'' then Some 3600
      else if c = CHR ''d'' then Some 86400 else None)"

text \<open>The branch for \<open>ret\<close> other than 0 and 1, which is also the one for an empty argument.\<close>

definition scale_time :: "pan_opts \<Rightarrow> pan_opts res" where
  "scale_time o' =
     (case time_factor (o_modifier o') of
        None \<Rightarrow> Inl (Exit (-1))
      | Some f \<Rightarrow>
          let t = o_run_time o' * f
          in if t < - (2 ^ 31) \<or> 2 ^ 31 \<le> t then Inl (Undef ''run_time overflow'')
             else Inr (o'\<lparr>o_run_time := t, o_timed := True,
                    o_printed := o_printed o' @ (if o_quiet o' then []
                      else [''PAN will run for '' @ show_int t @ '' seconds'' @ [NL]])\<rparr>))"

definition time_option :: "string \<Rightarrow> pan_opts \<Rightarrow> pan_opts res" where
  "time_option optarg o' =
     (case scan_time optarg of
        Scan_None \<Rightarrow> Inr o'
      | Scan_Int n \<Rightarrow> Inr (o'\<lparr>o_run_time := n, o_timed := True\<rparr>)
      | Scan_Int_Char n c \<Rightarrow> scale_time (o'\<lparr>o_run_time := n, o_modifier := c\<rparr>)
      | Scan_End \<Rightarrow> scale_time o')"

text \<open>One option as \<open>getopt\<close> gives it; unknown ones are passed over.\<close>

definition pan_option :: "char \<Rightarrow> string \<Rightarrow> pan_opts \<Rightarrow> pan_opts res" where
  "pan_option c optarg o' =
     (if c = CHR ''A'' then Inr (o'\<lparr>o_brakes := True, o_track := True\<rparr>)
      else if c = CHR ''O'' then Inr (o'\<lparr>o_outdir := Some optarg\<rparr>)
      else if c = CHR ''S'' then Inr (o'\<lparr>o_sequential := True\<rparr>)
      else if c = CHR ''a'' then Inr (o'\<lparr>o_zoo := Some optarg\<rparr>)
      else if c = CHR ''C'' then Inr (o'\<lparr>o_failcmd := Some optarg\<rparr>)
      else if c = CHR ''e'' then Inr (o'\<lparr>o_track := True\<rparr>)
      else if c = CHR ''f'' then Inr (o'\<lparr>o_file := optarg\<rparr>)
      else if c = CHR ''h'' then Inl (Exit 0)
      else if c = CHR ''l'' then Inr (o'\<lparr>o_log := Some optarg\<rparr>)
      else if c = CHR ''n'' then Inr (o'\<lparr>o_name := Some optarg\<rparr>)
      else if c = CHR ''o'' then Inr (o'\<lparr>o_output := Some optarg\<rparr>)
      else if c = CHR ''p'' then Inr (o'\<lparr>o_fmt := True\<rparr>)
      else if c = CHR ''q'' then Inr (o'\<lparr>o_quiet := True\<rparr>)
      else if c = CHR ''r'' then Inr (o'\<lparr>o_report := Some optarg\<rparr>)
      else if c = CHR ''s'' then Inr (o'\<lparr>o_starts := atoi optarg\<rparr>)
      else if c = CHR ''t'' then time_option optarg o'
      else if c = CHR ''x'' then Inr (o'\<lparr>o_active := atoi optarg\<rparr>)
      else if c = CHR ''y'' then Inr (o'\<lparr>o_restart := True\<rparr>)
      else Inr o')"

definition pan_options :: "(char \<times> string) list \<Rightarrow> pan_opts res" where
  "pan_options args = foldE (\<lambda>(c, a). pan_option c a) args first_opts"

section \<open>Defaults\<close>

text \<open>\<open>strcasecmp (s, "none") == 0\<close>; everything but \<open>none\<close> is the report type \<open>rts\<close>.\<close>

definition lower :: "char \<Rightarrow> char" where
  "lower c = (let n = of_char c :: nat in if 65 \<le> n \<and> n \<le> 90 then char_of (n + 32) else c)"

definition rts_report :: "string option \<Rightarrow> bool" where
  "rts_report r = (case r of None \<Rightarrow> True | Some s \<Rightarrow> map lower s \<noteq> ''none'')"

definition default_starts :: "pan_opts \<Rightarrow> nat \<Rightarrow> int" where
  "default_starts o' cnt =
     (if o_timed o' \<and> o_starts o' = -1 then -1
      else if o_starts o' = -1 then (if o_sequential o' then int cnt else 1)
      else if o_starts o' = 0 then -1
      else max (o_starts o') (o_active o'))"

section \<open>The log\<close>

text \<open>\<open>%-30.20s %-10.10s %-10.10s\<close>\<close>

definition log_columns :: "string \<Rightarrow> string \<Rightarrow> string \<Rightarrow> string" where
  "log_columns a b c = fmt_left 30 (take 20 a) @ '' '' @ fmt_pad 10 b @ '' '' @ fmt_pad 10 c @ [NL]"

definition log_head :: "bool \<Rightarrow> string \<Rightarrow> string list" where
  "log_head fmt now =
     (if \<not> fmt then [''startup='' @ [CHR 0x27] @ now @ [CHR 0x27, NL]]
      else [''Test Start Time: '' @ now @ [NL], ''-----------------------------------------'' @ [NL],
            log_columns ''Testcase'' ''Result'' ''Exit Value'', log_columns ''--------'' ''------'' ''------------''])"

text \<open>\<open>uname\<close> gives release, machine and node name; when it fails they are printed without a value.\<close>

definition log_foot :: "nat \<Rightarrow> int \<Rightarrow> (string \<times> string \<times> string) option \<Rightarrow> string list res" where
  "log_foot cnt failures uname =
     (case uname of
        None \<Rightarrow> Inl (Undef ''unamebuf has no value'')
      | Some (release, machine, node) \<Rightarrow>
          Inr [[NL] @ ''-----------------------------------------------'' @ [NL], ''Total Tests: '' @ show_dec cnt @ [NL],
               ''Total Failures: '' @ show_int failures @ [NL], ''Kernel Version: '' @ release @ [NL],
               ''Machine Architecture: '' @ machine @ [NL], ''Hostname: '' @ node @ [NL, NL]])"

section \<open>From the command line to the scheduler\<close>

text \<open>
  What \<open>main\<close> finds: \<open>e_outdir\<close> is \<open>stat\<close>, \<open>S_ISDIR\<close> and \<open>access\<close> together, \<open>e_open\<close> the \<open>fopen\<close>s of the log, the
  output and the file of failed commands.
\<close>

record pan_env =
  e_zoo_var :: "string option"
  e_open :: "string \<Rightarrow> bool"
  e_outdir :: "string \<Rightarrow> bool"
  e_files :: "string \<Rightarrow> string option"
  e_zoo_file :: "string \<Rightarrow> bool + string"
  e_zoo_create :: "string \<Rightarrow> bool"
  e_zoo_env :: zoo_env
  e_pid :: int
  e_malloc :: bool
  e_now :: string
  e_uname :: "(string \<times> string \<times> string) option"

definition require :: "bool \<Rightarrow> int \<Rightarrow> unit res" where
  "require b e = (if b then Inr () else Inl (Exit e))"

text \<open>
  \<open>malloc ((keep_active + 1) * sizeof (struct tag_pgrp))\<close>: the product is a \<open>size_t\<close>, so a negative factor asks
  for more than there is; with 0 bytes the \<open>memset\<close> of -1 elements goes past them.
\<close>

definition alloc_running :: "bool \<Rightarrow> int \<Rightarrow> nat res" where
  "alloc_running malloc_ok active =
     (if active = 2 ^ 31 - 1 then Inl (Undef ''keep_active + 1'')
      else if active < -1 \<or> \<not> malloc_ok then Inl (Exit 2)
      else if active = -1 then Inl (Undef ''memset past running'')
      else Inr (nat active))"

record prepared =
  run_conf :: pan_conf
  run_coll :: "coll_entry list"
  run_starts :: int
  run_restart :: bool
  run_zoo :: "zoo option"
  run_alarm :: "u32 option"
  run_head :: "string list"
  run_printed :: "string list"

definition conf_of :: "pan_env \<Rightarrow> pan_opts \<Rightarrow> string \<Rightarrow> nat \<Rightarrow> pan_conf" where
  "conf_of env o' name active =
     \<lparr>panname = name, pan_pid = e_pid env, test_out_dir = (if active = 1 then None else o_outdir o'),
      rts = rts_report (o_report o'), keep_active = active, fmt_print = o_fmt o', quiet_mode = o_quiet o',
      has_log = (o_log o' \<noteq> None), has_failcmd = (o_failcmd o' \<noteq> None), sequential = o_sequential o',
      track_exit_stats = o_track o', has_brakes = o_brakes o', zoo_locks = e_zoo_env env\<rparr>"

text \<open>From the array of slots to the signal handlers.\<close>

definition prepare_run :: "pan_env \<Rightarrow> string list \<Rightarrow> pan_opts \<Rightarrow> string \<Rightarrow> string \<Rightarrow> coll_entry list \<Rightarrow> prepared res" where
  "prepare_run env argv o' name zooname coll =
     rbind (alloc_running (e_malloc env) (o_active o')) (\<lambda>active.
     let conf = conf_of env o' name active in
     rbind (require (case test_out_dir conf of Some d \<Rightarrow> e_outdir env d | None \<Rightarrow> True) 1) (\<lambda>_.
     rbind (require (case o_output o' of Some f \<Rightarrow> e_open env f | None \<Rightarrow> True) 1) (\<lambda>_.
     rbind (require (case o_failcmd o' of Some f \<Rightarrow> e_open env f | None \<Rightarrow> True) 1) (\<lambda>_.
     rbind (setup_zoo conf argv (zoo_open (e_zoo_file env zooname) (e_zoo_create env zooname))) (\<lambda>z.
     Inr \<lparr>run_conf = conf, run_coll = coll, run_starts = default_starts o' (length coll), run_restart = o_restart o',
       run_zoo = z, run_alarm = (if o_run_time o' = -1 then None else Some (word_of_int (o_run_time o'))),
       run_head = (if o_log o' = None then [] else log_head (o_fmt o') (e_now env)), run_printed = o_printed o'\<rparr>)))))"

definition pan_prepare :: "pan_env \<Rightarrow> string list \<Rightarrow> (char \<times> string) list \<Rightarrow> string list \<Rightarrow> prepared res" where
  "pan_prepare env argv args command =
     rbind (pan_options args) (\<lambda>o'.
       case o_name o' of None \<Rightarrow> Inl (Exit 1) | Some name \<Rightarrow>
       (case (if o_zoo o' = None then zoo_getname (e_zoo_var env) else o_zoo o') of None \<Rightarrow> Inl (Exit 1) | Some zooname \<Rightarrow>
       rbind (require (case o_log o' of Some f \<Rightarrow> f = ''-'' \<or> e_open env f | None \<Rightarrow> True) 1) (\<lambda>_.
       rbind (get_collection (e_files env) (o_file o') command) (\<lambda>coll.
       case coll of None \<Rightarrow> Inl (Exit 1) | Some coll \<Rightarrow>
         rbind (require (coll \<noteq> []) 1) (\<lambda>_. prepare_run env argv o' name zooname coll)))))"

definition prepared_start :: "prepared \<Rightarrow> 'w \<Rightarrow> phase \<times> sched \<times> pan \<times> 'w" where
  "prepared_start r w = run_start (run_conf r) (run_starts r) (run_restart r) (run_zoo r) w"

text \<open>The end of \<open>main\<close>: the lines of the log and the status a shell sees, the low 8 bits of \<open>exit_stat\<close>.\<close>

definition exit_status :: "int \<Rightarrow> int" where "exit_status n = n mod 256"

definition pan_finish :: "pan_env \<Rightarrow> prepared \<Rightarrow> sched \<Rightarrow> pan \<Rightarrow> (int \<times> string list) res" where
  "pan_finish env r s p =
     (if has_log (run_conf r) \<and> fmt_print (run_conf r)
      then rbind (log_foot (length (run_coll r)) (failcnt p) (e_uname env)) (\<lambda>foot.
             Inr (exit_status (exit_stat s), run_head r @ logged p @ foot))
      else Inr (exit_status (exit_stat s), run_head r @ logged p))"

text \<open>The program without signals, with fuel for the rounds of its two loops.\<close>

definition pan_main ::
    "nat \<Rightarrow> pan_env \<Rightarrow> 'w os \<Rightarrow> string list \<Rightarrow> (char \<times> string) list \<Rightarrow> string list \<Rightarrow> 'w \<Rightarrow> (int \<times> string list) option res" where
  "pan_main fuel env os argv args command w =
     rbind (pan_prepare env argv args command) (\<lambda>r.
     rbind (pan_run fuel (run_conf r) os (run_coll r) (prepared_start r w)) (\<lambda>(ph, s, p, w).
       if ph \<noteq> Finished then Inr None
       else rbind (pan_finish env r s p) (\<lambda>x. Inr (Some x))))"

section \<open>Dumps\<close>

text \<open>\<open>dump_coll\<close>, \<open>pids_running\<close> and \<open>orphans_running\<close> on standard error.\<close>

definition dump_coll :: "coll_entry list \<Rightarrow> string list" where
  "dump_coll coll = concat (map (\<lambda>(i, e). [''coll '' @ show_dec i @ [NL],
     ''  name='' @ entry_name e @ '' cmdline='' @ cmdline e @ [NL]]) (enumerate 0 coll))"

definition pids_running :: "tag_pgrp list \<Rightarrow> string" where
  "pids_running ts =
     ''pids still running: '' @ concat (map (\<lambda>t. if pgrp t \<noteq> 0 then show_int (pgrp t) @ '' '' else []) ts) @ [NL]"

definition orphans_running :: "int list \<Rightarrow> string" where
  "orphans_running gs =
     ''orphans still running: '' @ concat (map (\<lambda>g. if g \<noteq> 0 then show_int (- g) @ '' '' else []) gs) @ [NL]"

section \<open>Times\<close>

lemma strtoll_show_dec_end:
  "digit_of 10 (hdc rest) = None \<Longrightarrow> int n < 2 ^ 31 \<Longrightarrow> sint (word_of_int (strtoll 10 (show_dec n @ rest)) :: u32) = int n"
  using sint_word_of_int_u32 [of "int n"] by (subst strtoll_show_dec) simp_all

lemma show_dec_digits: "c \<in> set (show_dec n) \<Longrightarrow> digit_of 10 c \<noteq> None"
  using set_show_base [of 10 n] by (auto simp: digit_of_digit_char)

lemma scan_time_number:
  assumes "int n < 2 ^ 31" "digit_of 10 (hdc rest) = None"
  shows "scan_time (show_dec n @ rest) = (case rest of [] \<Rightarrow> Scan_Int (int n) | c # _ \<Rightarrow> Scan_Int_Char (int n) c)"
proof -
  obtain c cs where c: "show_dec n = c # cs" by (cases "show_dec n") auto
  then have in_set: "c \<in> set (show_dec n)" by simp
  then have "\<not> c_isspace c" "c \<noteq> CHR ''-''" "c \<noteq> CHR ''+''" using show_base_chars(1-3) [of 10 c n] by simp_all
  moreover have "dropWhile (\<lambda>c. digit_of 10 c \<noteq> None) (cs @ rest) = rest"
    using show_dec_digits [of _ n] assms(2) c by (cases rest) (auto simp: dropWhile_append2 dropWhile_eq_Nil_conv)
  moreover have "digit_of 10 c \<noteq> None" using show_dec_digits in_set by blast
  ultimately show ?thesis
    using c strtoll_show_dec_end [OF assms(2,1)] by (cases rest) (auto simp: scan_time_def Let_def simp del: dropWhile_eq_Nil_conv)
qed

section \<open>Properties\<close>

text \<open>The time to run: a number with one of \<open>s\<close>, \<open>m\<close>, \<open>h\<close>, \<open>d\<close> gives that many seconds, while a number alone, which
  the message says is taken as minutes, is taken as seconds.\<close>

theorem time_option_seconds:
  assumes "time_factor c = Some f" "int n * f < 2 ^ 31"
  shows "map_sum id o_run_time (time_option (show_dec n @ [c]) o') = Inr (int n * f)
    \<and> map_sum id o_run_time (time_option (show_dec n) o') = Inr (int n)"
proof (rule conjI)
  have f: "1 \<le> f" "digit_of 10 c = None" using assms(1) by (auto simp: time_factor_def digit_of_def split: if_splits)
  have "int n \<le> int n * f" using f(1) by (cases "n = 0") auto
  with assms(2) have n: "int n < 2 ^ 31" by simp
  have "0 \<le> int n * f" using f(1) by (intro mult_nonneg_nonneg) auto
  then have "- (2 ^ 31) \<le> int n * f" by (rule order_trans [rotated]) simp
  with scan_time_number [OF n, of "[c]"] assms f show "map_sum id o_run_time (time_option (show_dec n @ [c]) o') = Inr (int n * f)"
    by (simp add: time_option_def scale_time_def Let_def)
  from scan_time_number [OF n, of "[]"] show "map_sum id o_run_time (time_option (show_dec n) o') = Inr (int n)"
    by (simp add: time_option_def digit_of_NUL)
qed

theorem time_option_seconds_witness:
  "map_sum id o_run_time (time_option ''5m'' first_opts) = Inr 300"
  using time_option_seconds [of "CHR ''m''" 60 5 first_opts]
  by (simp add: time_factor_def show_base.simps digit_char_def)

section \<open>What main hands to the scheduler\<close>

lemma pan_option_active:
  "o_active o' < 2 ^ 31 \<Longrightarrow> pan_option c a o' = Inr o2 \<Longrightarrow> o_active o2 < 2 ^ 31"
  using sint_lt [of "word_of_int (strtoll 10 a) :: u32"]
  by (auto simp: pan_option_def time_option_def scale_time_def atoi_def Let_def split: if_splits scan.splits option.splits)

lemma pan_options_active: "pan_options args = Inr o' \<Longrightarrow> o_active o' < 2 ^ 31"
  unfolding pan_options_def
  by (erule foldE_invariant) (auto simp: first_opts_def dest: pan_option_active [simplified])

lemma require_Inr [simp]: "require b e = Inr u \<longleftrightarrow> b"
  by (simp add: require_def)

text \<open>The parts of a preparation the runs rest on.\<close>

lemma prepare_run_Inr:
  assumes "prepare_run env argv o' name zooname coll = Inr r" "o_active o' < 2 ^ 31"
  shows "zoo_locks (run_conf r) = e_zoo_env env \<and> pan_pid (run_conf r) = e_pid env
    \<and> int (keep_active (run_conf r)) < 2 ^ 31
    \<and> setup_zoo (run_conf r) argv (zoo_open (e_zoo_file env zooname) (e_zoo_create env zooname)) = Inr (run_zoo r)"
proof -
  from assms(1) obtain active z where parts: "alloc_running (e_malloc env) (o_active o') = Inr active"
      "setup_zoo (conf_of env o' name active) argv (zoo_open (e_zoo_file env zooname) (e_zoo_create env zooname)) = Inr z"
      "run_zoo r = z" "run_conf r = conf_of env o' name active"
    unfolding prepare_run_def Let_def rbind_eq_Inr by fastforce
  from parts(1) assms(2) have "int active < 2 ^ 31" by (auto simp: alloc_running_def split: if_splits)
  with parts show ?thesis by (simp add: conf_of_def)
qed

lemma pan_prepare_Inr:
  assumes "pan_prepare env argv args command = Inr r"
  shows "\<exists>o' name zooname coll. pan_options args = Inr o' \<and> prepare_run env argv o' name zooname coll = Inr r"
proof -
  from assms obtain o' where o': "pan_options args = Inr o'" by (auto simp: pan_prepare_def)
  note r = assms [unfolded pan_prepare_def o' rbind_simps]
  from r obtain name where name: "o_name o' = Some name" by (cases "o_name o'") auto
  note r = r [unfolded name option.case]
  from r obtain zooname where zoo: "(if o_zoo o' = None then zoo_getname (e_zoo_var env) else o_zoo o') = Some zooname"
    by (cases "if o_zoo o' = None then zoo_getname (e_zoo_var env) else o_zoo o'") (auto simp del: if_split)
  note r = r [unfolded zoo option.case]
  from r obtain coll where "(case coll of None \<Rightarrow> Inl (Exit 1) | Some coll \<Rightarrow>
      rbind (require (coll \<noteq> []) 1) (\<lambda>_. prepare_run env argv o' name zooname coll)) = Inr r"
    by auto
  with o' show ?thesis by (cases coll) auto
qed

definition env_run_ok :: "pan_env \<Rightarrow> 'w os \<Rightarrow> ('w \<Rightarrow> int set) \<Rightarrow> string list \<Rightarrow> prepared \<Rightarrow> 'w \<Rightarrow> bool" where
  "env_run_ok env os children argv r w \<longleftrightarrow>
     os_lawful os children \<and> children w = {} \<and> coll_ok (run_coll r) \<and> e_zoo_env env = env_ok \<and> pid_ok (e_pid env)
     \<and> argv \<noteq> [] \<and> words_ok (panname (run_conf r)) (join_with '' '' argv)
     \<and> (\<forall>f s. e_zoo_file env f = Inr s \<longrightarrow> zoo_ok \<lparr>contents = s, locked = False\<rparr>)"

lemma prepared_run_ok:
  assumes "pan_prepare env argv args command = Inr r" "env_run_ok env os children argv r w"
  obtains z where "run_ok (run_conf r) os children (run_coll r) argv z w"
    "setup_zoo (run_conf r) argv (Some z) = Inr (run_zoo r)"
proof -
  from pan_prepare_Inr [OF assms(1)] obtain o' name f coll where o': "pan_options args = Inr o'"
      "prepare_run env argv o' name f coll = Inr r" by blast
  note r = prepare_run_Inr [OF o'(2) pan_options_active [OF o'(1)]]
  then obtain z where z: "zoo_open (e_zoo_file env f) (e_zoo_create env f) = Some z"
    by (cases "zoo_open (e_zoo_file env f) (e_zoo_create env f)") (auto simp: setup_zoo_def)
  moreover have "zoo_ok z"
  proof (cases "e_zoo_file env f")
    case (Inl e)
    with z show ?thesis using zoo_ok_empty by (auto simp: zoo_open_def split: if_splits)
  next
    case (Inr text')
    with z assms(2) show ?thesis by (auto simp: zoo_open_def env_run_ok_def)
  qed
  ultimately show ?thesis using r assms(2) by (intro that [of z]) (simp_all add: run_ok_def env_run_ok_def)
qed

text \<open>A command line, and the system it runs on.\<close>

definition demo_env :: pan_env where
  "demo_env = \<lparr>e_zoo_var = None, e_open = (\<lambda>_. True), e_outdir = (\<lambda>_. True),
     e_files = (\<lambda>f. if f = ''cmds'' then Some (''a true'' @ [NL] @ ''b false'') else None), e_zoo_file = (\<lambda>_. Inl True),
     e_zoo_create = (\<lambda>_. True), e_zoo_env = env_ok, e_pid = 50, e_malloc = True, e_now = ''Mon'',
     e_uname = Some (''6.1'', ''x86_64'', ''host'')\<rparr>"

definition demo_args :: "(char \<times> string) list" where
  "demo_args = [(CHR ''n'', ''pan''), (CHR ''a'', ''zoo''), (CHR ''f'', ''cmds''), (CHR ''S'', []), (CHR ''l'', ''log''), (CHR ''p'', [])]"

lemma demo_prepared:
  obtains r where "pan_prepare demo_env [''pan'', ''-S''] demo_args [] = Inr r"
    "env_run_ok demo_env demo_os set [''pan'', ''-S''] r []" "keep_active (run_conf r) = 1" "run_starts r = 2"
    "sequential (run_conf r)" "test_out_dir (run_conf r) = None" "\<not> run_restart r" "length (run_coll r) = 2"
    "list_all (\<lambda>e. \<not> pcnt_f e) (run_coll r)" "has_log (run_conf r)" "fmt_print (run_conf r)"
proof -
  let ?conf = "\<lparr>panname = ''pan'', pan_pid = 50, test_out_dir = None, rts = True, keep_active = 1,
     fmt_print = True, quiet_mode = False, has_log = True, has_failcmd = False, sequential = True,
     track_exit_stats = False, has_brakes = False, zoo_locks = env_ok\<rparr>"
  obtain z where z: "setup_zoo ?conf [''pan'', ''-S''] (Some \<lparr>contents = [], locked = False\<rparr>) = Inr z"
    using setup_zoo_holds [of "\<lparr>contents = [], locked = False\<rparr>" ?conf "[''pan'', ''-S'']"]
    by (auto simp: zoo_ok_empty pid_ok_def words_ok_def NL_def)
  let ?coll = "[\<lparr>entry_name = ''a'', cmdline = ''true'', pcnt_f = False\<rparr>, \<lparr>entry_name = ''b'', cmdline = ''false'', pcnt_f = False\<rparr>]"
  have coll: "get_collection (e_files demo_env) ''cmds'' [] = Inr (Some ?coll)"
    by (simp add: get_collection_def demo_env_def slurp_def comment_line_def entry_of_line_def mark_pcnt_f_def NL_def NUL_def TAB_def)
  have "pan_options demo_args = Inr (first_opts\<lparr>o_name := Some ''pan'', o_zoo := Some ''zoo'', o_file := ''cmds'',
      o_sequential := True, o_log := Some ''log'', o_fmt := True\<rparr>)"
    by (simp add: pan_options_def demo_args_def pan_option_def)
  with z coll show ?thesis
    by (intro that [of "\<lparr>run_conf = ?conf, run_coll = ?coll, run_starts = 2, run_restart = False, run_zoo = z, run_alarm = None,
        run_head = log_head True ''Mon'', run_printed = []\<rparr>"])
       (simp_all add: pan_prepare_def prepare_run_def conf_of_def Let_def demo_env_def first_opts_def require_def alloc_running_def rts_report_def
         default_starts_def zoo_open_def env_run_ok_def demo_lawful coll_ok_def words_ok_def NL_def pid_ok_def)
qed

text \<open>
  The signals that \<open>run_child\<close> does not survive: when one comes while it reads from the pipe, the child that was started is
  taken for one that was not, with a message of indeterminate length. From there on nothing is defined.
\<close>

lemma interrupted_read:
  "arr Reading_Length \<noteq> [] \<Longrightarrow> run_parent arr conf os e i s p (Started cpid, w) = Inl (Undef ''errlen has no value'')"
  by (simp add: run_parent_def)

text \<open>
  C23. \<open>-x\<close>: whatever signals arrive, between two rounds of the loops or at any point inside a round, in every state that is
  reached with defined behaviour there are no more children than \<open>keep_active\<close>, and \<open>num_active\<close> is their number. What is
  excluded is a signal that interrupts \<open>run_child\<close> in one of its own blocking calls and leaves a variable without a value
  that it goes on to use (\<open>interrupted_read\<close>); one that interrupts \<open>wait\<close> in \<open>check_pids\<close> is covered.
\<close>

theorem pan_main_limits:
  assumes "pan_prepare env argv args command = Inr r" "env_run_ok env os children argv r w"
    and "reachable (run_conf r) os (run_coll r) (prepared_start r w) (ph, s, p, w')" "ph \<noteq> Finished"
  shows "num_active p = int (card (children w')) \<and> card (children w') \<le> keep_active (run_conf r)"
proof -
  from prepared_run_ok [OF assms(1,2)] obtain z where ok: "run_ok (run_conf r) os children (run_coll r) argv z w"
      "setup_zoo (run_conf r) argv (Some z) = Inr (run_zoo r)" .
  from run_inv [OF ok] assms(3,4) have inv: "pan_inv (run_conf r) (add_mset (pan_pid (run_conf r)) (running (contents z)))
      (children w') p"
    by (auto simp: prepared_start_def)
  then have once: "count (busy p) g = 1" if "g \<in># busy p" for g
    using that by (metis count_greater_eq_one_iff le_antisym pan_inv_def)
  have "size (busy p) = card (children w')"
    using inv by (simp add: size_multiset_overloaded_eq once pan_inv_def)
  moreover have "size (busy p) \<le> length (slots p)"
    by (simp add: busy_def filter_mset_image_mset flip: mset_filter)
  ultimately show ?thesis using inv by (simp add: pan_inv_def)
qed

theorem pan_main_limits_witness:
  "\<exists>r k s p w'. pan_prepare demo_env [''pan'', ''-S''] demo_args [] = Inr r
     \<and> pan_run k (run_conf r) demo_os (run_coll r) (prepared_start r []) = Inr (Draining, s, p, w')
     \<and> num_active p = int (card (set w')) \<and> card (set w') \<le> 1"
proof -
  obtain r where r: "pan_prepare demo_env [''pan'', ''-S''] demo_args [] = Inr r"
      "env_run_ok demo_env demo_os set [''pan'', ''-S''] r []" "keep_active (run_conf r) = 1" "run_starts r = 2"
      "sequential (run_conf r)" "test_out_dir (run_conf r) = None" "\<not> run_restart r"
      "list_all (\<lambda>e. \<not> pcnt_f e) (run_coll r)"
    by (rule demo_prepared)
  from prepared_run_ok [OF r(1,2)] obtain z where ok: "run_ok (run_conf r) demo_os set (run_coll r) [''pan'', ''-S''] z []"
      "setup_zoo (run_conf r) [''pan'', ''-S''] (Some z) = Inr (run_zoo r)" .
  let ?st = "run_start (run_conf r) 2 False (run_zoo r) []"
  have "wait_reaps demo_os set" by (auto simp: wait_reaps_def demo_os_def demo_wait_def split: list.split)
  moreover have "counting ?st" "fst ?st \<in> {Filling, Checking}" by (simp_all add: run_start_def init_sched_def init_pan_def)
  ultimately obtain k s p w' where k: "pan_run k (run_conf r) demo_os (run_coll r) ?st = Inr (Draining, s, p, w')"
    using reaches_draining [OF ok _ r(5) _ r(6,8) reachable.start] r(3) by fastforce
  have st: "prepared_start r ([] :: int list) = ?st" using r(4,7) by (simp add: prepared_start_def)
  from pan_main_limits [OF r(1,2), unfolded st, OF pan_run_reachable [OF reachable.start k]] r k st show ?thesis
    by (intro exI [of _ r] exI [of _ k] exI [of _ s] exI [of _ p] exI [of _ w']) simp
qed

section \<open>Runs that end, and one that does not\<close>

text \<open>The tests leave nobody behind: once a child was waited for, its process group has no member any more.\<close>

definition groups_end :: "'w os \<Rightarrow> bool" where
  "groups_end os \<longleftrightarrow> (\<forall>w cpid st v. os_wait os w = (Reaped cpid st, v) \<longrightarrow> fst (os_kill os (- cpid) 0 v) = ESRCH)"

definition no_orphans :: "pan \<Rightarrow> bool" where
  "no_orphans p \<longleftrightarrow> list_all (\<lambda>g. g = 0) (orphans p)"

lemma check_orphans_none: "list_all (\<lambda>g. g = 0) gs \<Longrightarrow> check_orphans os zenv sig gs z w = (gs, z, w)"
  by (induction gs) auto

lemma release_slot_no_orphans:
  assumes "groups_end os" "os_wait os w = (Reaped cpid st, v)" "release_slot conf os i cpid q v = Inr (q', v')" "no_orphans q"
  shows "no_orphans q'"
proof -
  obtain e u where k: "os_kill os (- cpid) 0 v = (e, u)" by fastforce
  with assms(1,2) have "e = ESRCH" unfolding groups_end_def by (metis fst_conv)
  with k assms(3,4) show ?thesis
    by (auto simp: release_slot_def Let_def no_orphans_def ESRCH_def EPERM_def split: prod.splits if_splits)
qed

lemma check_pids_no_orphans:
  assumes lawful: "os_lawful os children" and inv: "pan_inv conf base (children w) p"
    and none: "groups_end os" "no_orphans p" and r: "check_pids conf os p w = Inr (ret, p', w')"
  shows "no_orphans p'"
  using lawful inv
proof (cases rule: check_pids_cases)
  case (none gs z u e v)
  with assms(4) r show ?thesis
    using check_orphans_none [of "orphans p" os "zoo_locks conf" 0 "zoofile p" w] by (auto simp: no_orphans_def)
next
  case (child gs z u cpid st v tn status i)
  from child(1) assms(4) have gs: "gs = orphans p"
    using check_orphans_none [of "orphans p" os "zoo_locks conf" 0 "zoofile p" w] by (simp add: no_orphans_def)
  from r obtain q x where q: "report_child conf os (slots p ! i) st status (reported status tn (stopping (slots p ! i)))
        (p\<lparr>orphans := gs, zoofile := z, num_active := num_active p - 1\<rparr>) v = Inr q"
      "release_slot conf os i cpid q v = Inr (p', x)"
    by (auto simp: check_pids_reaped [OF child])
  from report_child_fields [OF q(1)] assms(4) gs have "no_orphans q" by (simp add: no_orphans_def)
  with release_slot_no_orphans [OF none(1) child(2) q(2)] show ?thesis .
qed

lemma propagate_no_orphans: "propagate_signal quiet conf os p w = (p', w') \<Longrightarrow> no_orphans p \<Longrightarrow> no_orphans p'"
  by (auto simp: propagate_signal_def Let_def no_orphans_def check_orphans_none
      dest!: signal_slots_fields split: prod.splits if_splits)

lemma wait_handler_no_orphans [simp]: "no_orphans (wait_handler sig p) = no_orphans p"
  by (simp add: no_orphans_def wait_handler_fields)

lemma start_one_no_orphans:
  assumes "start_one quiet conf os coll s p w = Inr (going, s', p', w')" "no_orphans p"
  shows "no_orphans p'"
proof -
  obtain c u where c: "(if sequential conf then (cur s, w)
      else (case os_rand os w of (r, w) \<Rightarrow> (r mod length coll, w))) = (c, u)" by fastforce
  note r = assms(1) [unfolded start_one_def c prod.case Let_def]
  show ?thesis
  proof (cases "find_slot 0 0 (slots p)")
    case None
    with r assms(2) show ?thesis by auto
  next
    case (Some i)
    with r obtain cpid q v where run: "run_child quiet conf os (coll ! c) i p u = Inr (cpid, q, v)" by auto
    from run_child_keeps [OF run] assms(2) have "no_orphans q" by (simp add: no_orphans_def)
    with r Some run show ?thesis by (auto simp: no_orphans_def split: if_splits)
  qed
qed

lemma check_round_no_orphans:
  assumes lawful: "os_lawful os children" and inv: "pan_inv conf base (children w) p"
    and none: "groups_end os" "no_orphans p" and r: "check_round quiet conf os s p w = Inr (ph, s', p', w')"
  shows "no_orphans p'"
proof -
  obtain s1 p1 w1 where 1: "look_for_stop conf os s p w = (s1, p1, w1)" by (metis prod_cases3)
  obtain s2 p2 w2 where 2: "handle_signals quiet conf os s1 p1 w1 = (s2, p2, w2)" by (metis prod_cases3)
  from r 1 2 obtain err p3 w3 where 3: "check_pids conf os p2 w2 = Inr (err, p3, w3)"
    by (auto simp: check_round_def)
  have "no_orphans p1" using 1 none(2) by (auto simp: look_for_stop_def no_orphans_def split: if_splits prod.splits)
  with 2 have "no_orphans p2"
    by (auto simp: handle_signals_def Let_def no_orphans_def [of "_\<lparr>rec_signal := _, send_signal := _\<rparr>"]
        split: if_splits prod.splits dest: propagate_no_orphans) (simp add: no_orphans_def)
  moreover have "pan_inv conf base (children w2) p2"
    using look_for_stop_inv [OF lawful inv 1] handle_signals_inv [OF lawful _ 2] by blast
  ultimately have "no_orphans p3" using check_pids_no_orphans [OF lawful _ none(1) _ 3] by blast
  moreover have "no_orphans (snd (account_errors conf err s2 p3)) = no_orphans p3"
    by (simp add: account_errors_def Let_def)
  ultimately show ?thesis
    using r 1 2 3 by (auto simp: check_round_def split: prod.splits if_splits)
qed

lemma pan_run_no_orphans:
  assumes ok: "run_ok conf os children coll argv z w" "setup_zoo conf argv (Some z) = Inr z'" and ends: "groups_end os"
  shows "pan_run k conf os coll st = Inr (ph', s', p', w'') \<Longrightarrow> reachable conf os coll (run_start conf n restart z' w) st \<Longrightarrow>
    no_orphans (fst (snd (snd st))) \<Longrightarrow> no_orphans p'"
proof (induction k arbitrary: st)
  case (Suc k)
  then obtain st1 where st1: "pan_next conf os coll st = Inr st1" "pan_run k conf os coll st1 = Inr (ph', s', p', w'')" by auto
  obtain ph s p u where st: "st = (ph, s, p, u)" by (metis prod_cases4)
  have lawful: "os_lawful os children" using ok(1) by (simp add: run_ok_def)
  have "no_orphans (fst (snd (snd st1)))"
  proof (cases ph)
    case Filling
    with st1(1) st Suc.prems(3) show ?thesis
      by (auto simp: pan_next_rounds split: if_splits prod.splits dest: start_one_no_orphans)
  next
    case Checking
    from run_inv [OF ok Suc.prems(2)] st Checking
    have "pan_inv conf (add_mset (pan_pid conf) (running (contents z))) (children u) p" by simp
    with check_round_no_orphans [OF lawful this ends] st1(1) st Checking Suc.prems(3) show ?thesis
      by (cases st1) (auto simp: pan_next_rounds)
  next
    case Draining
    with st1(1) st Suc.prems(3) show ?thesis
      by (auto simp: pan_next_rounds drain_round_def no_orphans_def list_all_iff list_ex_iff split: prod.splits if_splits)
  next
    case Finished
    with st1(1) st Suc.prems(3) show ?thesis by (simp add: pan_next_rounds)
  qed
  with Suc.IH [OF st1(2) reachable_advance [OF Suc.prems(2) st1(1)]] show ?case .
qed auto

lemma pan_run_add: "pan_run (i + j) conf os coll st = rbind (pan_run i conf os coll st) (pan_run j conf os coll)"
  by (induction i arbitrary: st) (auto simp: rbind_def split: sum.splits)

lemma pan_run_finished: "pan_run k conf os coll (Finished, s, p, w) = Inr (Finished, s, p, w)"
  by (induction k) (auto simp: pan_next_rounds)

text \<open>
  C6. The whole program: \<open>pan -S\<close> with \<open>-x\<close> at least 1 and a number of commands to start that is not negative, without \<open>%f\<close>,
  output buffering, restarts (\<open>-y\<close>) and signals comes to its end and gives an exit status and the lines of its log, after at most
  three rounds for each command that is started and three more, provided that the zoo file and the collection are well formed,
  that \<open>wait\<close> reaps a child as long as there is one, that no member of the process group of a child is left when the child
  was waited for, and that \<open>uname\<close> works. (With \<open>-x 0\<close> it runs forever: \<open>no_active_never_ends\<close>.)
\<close>

theorem pan_main_returns:
  assumes prep: "pan_prepare env argv args command = Inr r" "env_run_ok env os children argv r w"
    and conf: "sequential (run_conf r)" "0 < keep_active (run_conf r)" "test_out_dir (run_conf r) = None"
      "list_all (\<lambda>e. \<not> pcnt_f e) (run_coll r)" "run_starts r = int n" "\<not> run_restart r" "e_uname env \<noteq> None"
    and os: "wait_reaps os children" "groups_end os"
  shows "\<exists>res. \<forall>fuel \<ge> 3 * n + 3. pan_main fuel env os argv args command w = Inr (Some res)"
proof -
  from prepared_run_ok [OF prep] obtain z where ok: "run_ok (run_conf r) os children (run_coll r) argv z w"
      "setup_zoo (run_conf r) argv (Some z) = Inr (run_zoo r)" .
  let ?st = "run_start (run_conf r) (int n) False (run_zoo r) w"
  have st: "counting ?st" "fst ?st \<in> {Filling, Checking}" "work ?st = 3 * n + 1" "no_orphans (fst (snd (snd ?st)))"
    by (simp_all add: run_start_def init_sched_def init_pan_def no_orphans_def)
  from reaches_draining [OF ok os(1) conf(1-4) reachable.start st(1,2)] st(3) obtain k s p w' where
      k: "k \<le> 3 * n + 2" "pan_run k (run_conf r) os (run_coll r) ?st = Inr (Draining, s, p, w')" by auto
  from pan_run_no_orphans [OF ok os(2) k(2) reachable.start st(4)] have "no_orphans p" .
  then obtain s' p' where last_round: "pan_next (run_conf r) os (run_coll r) (Draining, s, p, w') = Inr (Finished, s', p', w')"
    by (cases "zoo_clear (zoo_locks (run_conf r)) (zoofile p) (pan_pid (run_conf r))")
       (auto simp: pan_next_rounds drain_round_def no_orphans_def list_all_iff list_ex_iff)
  have done_run: "pan_run fuel (run_conf r) os (run_coll r) (prepared_start r w) = Inr (Finished, s', p', w')"
    if "3 * n + 3 \<le> fuel" for fuel
  proof -
    define j where "j = fuel - Suc k"
    from k(1) that have "fuel = k + Suc j" by (simp add: j_def)
    moreover have "pan_run (Suc j) (run_conf r) os (run_coll r) (Draining, s, p, w') = Inr (Finished, s', p', w')"
      using last_round by (simp add: pan_run_finished)
    ultimately show ?thesis
      using k(2) conf(5,6) pan_run_add [of k "Suc j" "run_conf r" os "run_coll r" ?st]
      by (simp only: prepared_start_def rbind_simps)
  qed
  obtain rel mach node where "e_uname env = Some (rel, mach, node)" using conf(7) by auto
  then have "\<exists>res. pan_finish env r s' p' = Inr res"
    by (simp add: pan_finish_def log_foot_def)
  then obtain res where "pan_finish env r s' p' = Inr res" ..
  with prep(1) done_run show ?thesis by (intro exI [of _ res]) (simp add: pan_main_def)
qed

theorem pan_main_returns_witness:
  "\<exists>res. pan_main 9 demo_env demo_os [''pan'', ''-S''] demo_args [] [] = Inr (Some res)"
proof -
  obtain r where r: "pan_prepare demo_env [''pan'', ''-S''] demo_args [] = Inr r"
      "env_run_ok demo_env demo_os set [''pan'', ''-S''] r []" "keep_active (run_conf r) = 1" "run_starts r = 2"
      "sequential (run_conf r)" "test_out_dir (run_conf r) = None" "\<not> run_restart r"
      "list_all (\<lambda>e. \<not> pcnt_f e) (run_coll r)"
    by (rule demo_prepared)
  have "wait_reaps demo_os set" by (auto simp: wait_reaps_def demo_os_def demo_wait_def split: list.split)
  moreover have "groups_end demo_os" by (auto simp: groups_end_def demo_os_def demo_wait_def split: list.splits)
  ultimately have "\<exists>res. \<forall>fuel \<ge> 3 * 2 + 3. pan_main fuel demo_env demo_os [''pan'', ''-S''] demo_args [] [] = Inr (Some res)"
    using r by (intro pan_main_returns [OF r(1,2)]) (simp_all add: demo_env_def)
  then show ?thesis by auto
qed

text \<open>\<open>-x 0\<close> (or a value of \<open>-x\<close> that is not a number) leaves no slot to start anything in: with starts to go and no
  signal the scheduling loop runs forever.\<close>

theorem no_active_never_ends:
  assumes "keep_active conf = 0" "0 < n" and none: "\<And>u. \<exists>e v. os_wait os u = (Wait_Error e, v)"
  shows "\<exists>ph s p u. pan_run k conf os coll (run_start conf n restart z w) = Inr (ph, s, p, u) \<and> ph \<in> {Filling, Checking}"
proof -
  define idle where "idle = (\<lambda>(ph, s :: sched, p :: pan, u :: 'a). ph \<in> {Filling, Checking} \<and> 0 < starts s \<and> stop s = 0 \<and> go_idle s = 0
    \<and> num_active p = 0 \<and> rec_signal p = 0 \<and> no_orphans p)"
  have step: "\<exists>st'. pan_next conf os coll st = Inr st' \<and> idle st'" if "idle st" for st
  proof -
    obtain ph s p u where st: "st = (ph, s, p, u)" by (metis prod_cases4)
    from none obtain e v where e: "os_wait os u = (Wait_Error e, v)" by blast
    have gs: "check_orphans os (zoo_locks conf) 0 (orphans p) (zoofile p) u = (orphans p, zoofile p, u)"
      using that st by (intro check_orphans_none) (simp add: idle_def no_orphans_def)
    show ?thesis
    proof (cases "ph = Filling")
      case True
      with that st assms(1) show ?thesis by (simp add: pan_next_rounds may_start_def idle_def)
    next
      case False
      with that st e gs show ?thesis
        by (simp add: pan_next_rounds check_round_def look_for_stop_def handle_signals_def check_pids_def Let_def
            account_errors_def idle_def no_orphans_def)
    qed
  qed
  have "\<exists>st'. pan_run k conf os coll st = Inr st' \<and> idle st'" if "idle st" for st
    using that
  proof (induction k arbitrary: st)
    case (Suc k)
    from step [OF Suc.prems] obtain st1 where "pan_next conf os coll st = Inr st1" "idle st1" by blast
    with Suc.IH show ?case by simp
  qed simp
  moreover have "idle (run_start conf n restart z w)"
    using assms(2) by (simp add: idle_def run_start_def init_sched_def init_pan_def no_orphans_def)
  ultimately show ?thesis by (fastforce simp: idle_def)
qed

theorem no_active_never_ends_witness:
  "\<exists>ph s p u. pan_run 1000 (demo_conf\<lparr>keep_active := 0\<rparr>) (demo_os\<lparr>os_wait := \<lambda>w. (Wait_Error 10, w)\<rparr>) demo_coll
     (run_start (demo_conf\<lparr>keep_active := 0\<rparr>) 5 False None []) = Inr (ph, s, p, u) \<and> ph \<in> {Filling, Checking}"
  by (rule no_active_never_ends) simp_all

end
