(* ===== verification/Pan_Trace.thy ===== *)
theory Pan_Trace
  imports Pan_Runs
begin

text \<open>
  What \<open>ltp-pan\<close> does to the system: the signals it sends and the commands it executes, recorded by a
  system that logs the calls of another one. The escalation of signals and the order of the commands.
\<close>

section \<open>A recording system\<close>

datatype sys_event = Kill int int | Exec exec_plan

text \<open>The calls of \<open>os\<close>, with a trace of \<open>kill\<close> and of the plans given to \<open>fork\<close> beside the world.\<close>

definition traced :: "'w os \<Rightarrow> ('w \<times> sys_event list) os" where
  "traced os = \<lparr>
     os_kill = (\<lambda>g s (w, tr). case os_kill os g s w of (e, w) \<Rightarrow> (e, (w, tr @ [Kill g s]))),
     os_wait = (\<lambda>(w, tr). case os_wait os w of (r, w) \<Rightarrow> (r, (w, tr))),
     os_times = (\<lambda>(w, tr). os_times os w), os_time = (\<lambda>(w, tr). os_time os w),
     os_slurp = (\<lambda>f (w, tr). os_slurp os f w),
     os_open = (\<lambda>f n (w, tr). case os_open os f n w of (r, w) \<Rightarrow> (r, (w, tr))),
     os_pipe = (\<lambda>(w, tr). os_pipe os w),
     os_fork = (\<lambda>plan (w, tr). case os_fork os plan w of (r, w) \<Rightarrow> (r, (w, tr @ [Exec plan]))),
     os_rand = (\<lambda>(w, tr). case os_rand os w of (r, w) \<Rightarrow> (r, (w, tr))),
     os_stop_file = (\<lambda>(w, tr). case os_stop_file os w of (r, w) \<Rightarrow> (r, (w, tr)))\<rparr>"

lemma traced_simps [simp]:
  "os_kill (traced os) g s (w, tr) = (case os_kill os g s w of (e, w) \<Rightarrow> (e, (w, tr @ [Kill g s])))"
  "os_wait (traced os) (w, tr) = (case os_wait os w of (r, w) \<Rightarrow> (r, (w, tr)))"
  "os_fork (traced os) plan (w, tr) = (case os_fork os plan w of (r, w) \<Rightarrow> (r, (w, tr @ [Exec plan])))"
  "os_pipe (traced os) (w, tr) = os_pipe os w"
  "os_stop_file (traced os) (w, tr) = (case os_stop_file os w of (r, w) \<Rightarrow> (r, (w, tr)))"
  by (simp_all add: traced_def)

section \<open>Propagation\<close>

lemma signal_slots_quiet: "fst (snd (signal_slots quiet os i ss p w)) = p"
  by (induction ss arbitrary: i w) (simp_all add: case_prod_unfold)

lemma signal_slots_trace:
  "snd (snd (snd (signal_slots quiet (traced os) i ss p (w, tr))))
     = tr @ map (\<lambda>s. Kill (- pgrp s) (send_signal p)) (filter (\<lambda>s. pgrp s \<noteq> 0) ss)"
proof (induction ss arbitrary: i w tr)
  case (Cons s ss)
  obtain e u where k: "os_kill os (- pgrp s) (send_signal p) w = (e, u)" by (cases "os_kill os (- pgrp s) (send_signal p) w")
  show ?case
  proof (cases "pgrp s = 0")
    case True
    with Cons.IH [of "Suc i" w tr] show ?thesis by (simp add: case_prod_unfold)
  next
    case False
    with Cons.IH [of "Suc i" u "tr @ [Kill (- pgrp s) (send_signal p)]"] k show ?thesis by (simp add: case_prod_unfold)
  qed
qed simp

lemma check_orphans_trace:
  "snd (snd (snd (check_orphans (traced os) zenv sig gs z (w, tr))))
     = tr @ map (\<lambda>g. Kill (- g) sig) (filter (\<lambda>g. g \<noteq> 0) gs)"
proof (induction gs arbitrary: z w tr)
  case (Cons g gs)
  obtain e u where k: "os_kill os (- g) sig w = (e, u)" by (cases "os_kill os (- g) sig w")
  show ?case
  proof (cases "g = 0")
    case True
    with Cons.IH [of z w tr] show ?thesis by (simp add: case_prod_unfold)
  next
    case False
    with Cons.IH [of _ u "tr @ [Kill (- g) sig]"] k show ?thesis by (simp add: case_prod_unfold Let_def)
  qed
qed simp

lemma signal_slots_marks:
  "fst (signal_slots arr os i ss p w) = map (\<lambda>s. if pgrp s = 0 then s else s\<lparr>stopping := True\<rparr>) ss"
proof (induction ss arbitrary: i p w)
  case (Cons s ss)
  then show ?case by (simp add: case_prod_unfold Let_def)
qed simp

text \<open>When no other signal comes in between, propagating a signal sends \<open>send_signal\<close> once to the group of every busy slot and then once to every
  orphaned group, to nothing else, marks the busy slots as told to stop and resets both signals. An
  alarm is treated the same way: the groups get \<open>send_signal\<close> (\<open>SIGALRM\<close> at first) although
  \<open>rec_signal\<close> is changed to \<open>SIGTERM\<close>.\<close>

theorem propagate_signal_sends:
  "case propagate_signal quiet conf (traced os) p (w, tr) of (p', w', tr') \<Rightarrow>
     tr' = tr @ map (\<lambda>g. Kill (- g) (send_signal p)) (filter (\<lambda>g. g \<noteq> 0) (map pgrp (slots p) @ orphans p))
     \<and> slots p' = map (\<lambda>s. if pgrp s = 0 then s else s\<lparr>stopping := True\<rparr>) (slots p)
     \<and> rec_signal p' = 0 \<and> send_signal p' = 0 \<and> lastsent p' = lastsent p \<and> num_active p' = num_active p"
proof -
  let ?q = "if rec_signal p = SIGALRM then p\<lparr>out := out p @ [''PAN stop Alarm was received'' @ [NL]], rec_signal := SIGTERM\<rparr> else p"
  have same: "slots ?q = slots p" "orphans ?q = orphans p" "zoofile ?q = zoofile p" "send_signal ?q = send_signal p"
    "lastsent ?q = lastsent p" "num_active ?q = num_active p" by simp_all
  obtain ss q u tr1 where sig: "signal_slots quiet (traced os) 0 (slots p) ?q (w, tr) = (ss, q, u, tr1)"
    by (metis prod_cases4)
  moreover from this signal_slots_quiet [of "traced os" 0 "slots p" ?q "(w, tr)"] have "q = ?q" by simp
  ultimately have 1: "signal_slots quiet (traced os) 0 (slots p) ?q (w, tr) = (ss, ?q, u, tr1)" by simp
  have ss: "ss = map (\<lambda>s. if pgrp s = 0 then s else s\<lparr>stopping := True\<rparr>) (slots p)"
    using signal_slots_marks [of quiet "traced os" 0 "slots p" ?q "(w, tr)"] 1 by simp
  have tr1: "tr1 = tr @ map (\<lambda>g. Kill (- g) (send_signal p)) (filter (\<lambda>g. g \<noteq> 0) (map pgrp (slots p)))"
    using signal_slots_trace [of os 0 "slots p" ?q w tr] 1 same by (simp add: filter_map comp_def)
  obtain gs z v tr2 where 2: "check_orphans (traced os) (zoo_locks conf) (send_signal p) (orphans p) (zoofile p) (u, tr1)
      = (gs, z, v, tr2)" by (metis prod_cases4)
  have "tr2 = tr1 @ map (\<lambda>g. Kill (- g) (send_signal p)) (filter (\<lambda>g. g \<noteq> 0) (orphans p))"
    using check_orphans_trace [of os "zoo_locks conf" "send_signal p" "orphans p" "zoofile p" u tr1] 2 by simp
  with tr1 have "tr2 = tr @ map (\<lambda>g. Kill (- g) (send_signal p)) (filter (\<lambda>g. g \<noteq> 0) (map pgrp (slots p) @ orphans p))"
    by simp
  moreover have "\<exists>q. propagate_signal quiet conf (traced os) p (w, tr) = (q, v, tr2) \<and> slots q = ss
      \<and> rec_signal q = 0 \<and> send_signal q = 0 \<and> lastsent q = lastsent p \<and> num_active q = num_active p"
    using 1 2 same by (cases "rec_signal p = SIGALRM") (simp_all add: propagate_signal_def Let_def)
  ultimately show ?thesis using ss by auto
qed

section \<open>The ratchet\<close>

text \<open>The signals sent when a sequence of signals arrives, each propagated before the next one.\<close>

fun ratchet :: "int list \<Rightarrow> pan \<Rightarrow> int list" where
  "ratchet [] p = []"
| "ratchet (sig # sigs) p =
     (let p = wait_handler sig p in send_signal p # ratchet sigs (p\<lparr>rec_signal := 0, send_signal := 0\<rparr>))"

lemmas signal_numbers = SIGHUP_def SIGINT_def SIGKILL_def SIGUSR1_def SIGUSR2_def SIGALRM_def SIGTERM_def

text \<open>One step of the ratchet, as a function of the last signal sent.\<close>

definition next_signal :: "int \<Rightarrow> int \<Rightarrow> int" where
  "next_signal l sig =
     (if l = 0 then sig else if l = SIGUSR1 then SIGINT else if l = sig then SIGTERM
      else if l = SIGTERM then SIGHUP else if l = SIGHUP then SIGKILL else 0)"

fun ratchet_from :: "int \<Rightarrow> int list \<Rightarrow> int list" where
  "ratchet_from l [] = []"
| "ratchet_from l (sig # sigs) = (let s = next_signal l sig in s # ratchet_from s sigs)"

lemma wait_handler_next:
  "send_signal p = 0 \<Longrightarrow> sig \<noteq> 0 \<Longrightarrow> sig \<noteq> SIGUSR2 \<Longrightarrow>
     send_signal (wait_handler sig p) = next_signal (lastsent p) sig \<and>
     lastsent (wait_handler sig p) = next_signal (lastsent p) sig"
  by (simp add: wait_handler_def next_signal_def Let_def)

lemma ratchet_refines:
  "send_signal p = 0 \<Longrightarrow> 0 \<notin> set sigs \<Longrightarrow> SIGUSR2 \<notin> set sigs \<Longrightarrow> ratchet sigs p = ratchet_from (lastsent p) sigs"
  by (induction sigs arbitrary: p) (auto simp: wait_handler_next Let_def)

lemma next_signal_table:
  "next_signal 0 sig = sig" "next_signal SIGINT SIGINT = SIGTERM" "next_signal SIGTERM SIGINT = SIGHUP"
  "next_signal SIGHUP SIGINT = SIGKILL" "next_signal SIGKILL SIGINT = 0" "next_signal SIGTERM SIGTERM = SIGTERM"
  "next_signal SIGHUP SIGHUP = SIGTERM" "next_signal SIGTERM SIGHUP = SIGHUP"
  by (simp_all add: next_signal_def signal_numbers)

text \<open>Repeated interrupts escalate: \<open>SIGINT\<close>, \<open>SIGTERM\<close>, \<open>SIGHUP\<close>, \<open>SIGKILL\<close>; the fifth one sends
  signal 0, which only tests for existence, and the ratchet starts again. Repeated \<open>SIGTERM\<close> never
  escalates, and repeated \<open>SIGHUP\<close> alternates between \<open>SIGHUP\<close> and \<open>SIGTERM\<close>, so that neither reaches \<open>SIGKILL\<close>.\<close>

theorem ratchet_sequences:
  assumes "lastsent p = 0" "send_signal p = 0"
  shows "ratchet (replicate (5 * n) SIGINT) p = concat (replicate n [SIGINT, SIGTERM, SIGHUP, SIGKILL, 0])
    \<and> ratchet (replicate n SIGTERM) p = replicate n SIGTERM
    \<and> ratchet (replicate (2 * n) SIGHUP) p = concat (replicate n [SIGHUP, SIGTERM])"
proof (intro conjI)
  have plain: "ratchet (replicate k sig) p = ratchet_from 0 (replicate k sig)"
    if "sig \<in> {SIGINT, SIGTERM, SIGHUP}" for k sig
    using that assms by (subst ratchet_refines) (auto simp: signal_numbers split: if_splits)
  have "ratchet_from 0 (replicate (5 * n) SIGINT) = concat (replicate n [SIGINT, SIGTERM, SIGHUP, SIGKILL, 0])"
    by (induction n) (simp_all add: numeral_eq_Suc next_signal_table)
  then show "ratchet (replicate (5 * n) SIGINT) p = concat (replicate n [SIGINT, SIGTERM, SIGHUP, SIGKILL, 0])"
    by (simp add: plain)
  have "ratchet_from SIGTERM (replicate k SIGTERM) = replicate k SIGTERM" for k
    by (induction k) (simp_all add: next_signal_table)
  then have "ratchet_from 0 (replicate n SIGTERM) = replicate n SIGTERM"
    by (cases n) (simp_all add: next_signal_table)
  then show "ratchet (replicate n SIGTERM) p = replicate n SIGTERM" by (simp add: plain)
  have "ratchet_from SIGTERM (replicate (2 * k) SIGHUP) = concat (replicate k [SIGHUP, SIGTERM])" for k
    by (induction k) (simp_all add: next_signal_table)
  then have "ratchet_from 0 (replicate (2 * n) SIGHUP) = concat (replicate n [SIGHUP, SIGTERM])"
    by (cases n) (simp_all add: next_signal_table)
  then show "ratchet (replicate (2 * n) SIGHUP) p = concat (replicate n [SIGHUP, SIGTERM])" by (simp add: plain)
qed

theorem ratchet_sequences_witness:
  "\<exists>p. lastsent p = 0 \<and> ratchet [SIGINT, SIGINT, SIGINT, SIGINT, SIGINT] p = [SIGINT, SIGTERM, SIGHUP, SIGKILL, 0]"
proof -
  let ?p = "init_pan demo_conf None"
  have "lastsent ?p = 0" "send_signal ?p = 0" by (simp_all add: init_pan_def)
  from ratchet_sequences [OF this, of 1] \<open>lastsent ?p = 0\<close> show ?thesis
    by (intro exI [of _ ?p]) (simp add: eval_nat_numeral del: ratchet.simps)
qed

end
