(* ===== verification/Poison_Base.thy ===== *)
theory Poison_Base
  imports Prelude
begin

text \<open>
  What the memory-poisoning tests share: actions on the globals of the program and a world, the system
  calls and memory accesses they make, and the machine check that arrives as a \<open>SIGBUS\<close>. The kernel is a
  record of functions on a world \<open>'w\<close>.
\<close>

section \<open>Actions\<close>

text \<open>An action on the globals \<open>'g\<close> and the world; the state is also known when the program stops.\<close>

type_synonym ('g, 'w, 'a) act = "'g \<times> 'w \<Rightarrow> 'a res \<times> 'g \<times> 'w"

definition ret :: "'a \<Rightarrow> ('g, 'w, 'a) act" where
  "ret x s = (Inr x, s)"

definition halt :: "stop \<Rightarrow> ('g, 'w, 'a) act" where
  "halt e s = (Inl e, s)"

definition sbind :: "('g, 'w, 'a) act \<Rightarrow> ('a \<Rightarrow> ('g, 'w, 'b) act) \<Rightarrow> ('g, 'w, 'b) act" where
  "sbind m f s = (case m s of (Inl e, s) \<Rightarrow> (Inl e, s) | (Inr x, s) \<Rightarrow> f x s)"

definition sseq :: "('g, 'w, 'a) act \<Rightarrow> ('g, 'w, 'b) act \<Rightarrow> ('g, 'w, 'b) act" where
  "sseq m n = sbind m (\<lambda>_. n)"

definition glob :: "('g \<Rightarrow> 'a) \<Rightarrow> ('g, 'w, 'a) act" where
  "glob f = (\<lambda>(g, w). (Inr (f g), g, w))"

definition upd :: "('g \<Rightarrow> 'g) \<Rightarrow> ('g, 'w, unit) act" where
  "upd f = (\<lambda>(g, w). (Inr (), f g, w))"

definition call :: "('w \<Rightarrow> 'a \<times> 'w) \<Rightarrow> ('g, 'w, 'a) act" where
  "call f = (\<lambda>(g, w). case f w of (x, w) \<Rightarrow> (Inr x, g, w))"

definition nop :: "('g, 'w, unit) act" where "nop = ret ()"

text \<open>A body for each element of a list, in order.\<close>

fun each :: "('a \<Rightarrow> ('g, 'w, unit) act) \<Rightarrow> 'a list \<Rightarrow> ('g, 'w, unit) act" where
  "each f [] = nop"
| "each f (x # xs) = sseq (f x) (each f xs)"

lemma ret_simps [simp]:
  "ret x s = (Inr x, s)"
  "sbind (ret x) f = f x"
  "sseq (ret x) n = n"
  by (auto simp: ret_def sbind_def sseq_def fun_eq_iff)

lemma halt_simps [simp]:
  "halt e s = (Inl e, s)"
  "sbind (halt e) f = halt e"
  by (auto simp: halt_def sbind_def fun_eq_iff)

lemma glob_simp [simp]: "glob f (g, w) = (Inr (f g), g, w)"
  by (simp add: glob_def)

lemma upd_simp [simp]: "upd f (g, w) = (Inr (), f g, w)"
  by (simp add: upd_def)

lemma call_simp [simp]: "call f (g, w) = (case f w of (x, w) \<Rightarrow> (Inr x, g, w))"
  by (simp add: call_def)

lemma nop_simp [simp]: "nop s = (Inr (), s)"
  by (simp add: nop_def)

lemma sbind_apply: "sbind m f s = (case m s of (Inl e, s) \<Rightarrow> (Inl e, s) | (Inr x, s) \<Rightarrow> f x s)"
  by (simp add: sbind_def)

lemma sseq_apply: "sseq m n s = (case m s of (Inl e, s) \<Rightarrow> (Inl e, s) | (Inr x, s) \<Rightarrow> n s)"
  by (simp add: sseq_def sbind_def)

lemma sbind_assoc: "sbind (sbind m f) h = sbind m (\<lambda>x. sbind (f x) h)"
  by (auto simp: sbind_def fun_eq_iff split: prod.splits sum.splits)

lemmas act_run = sbind_apply sseq_apply

section \<open>The machine\<close>

text \<open>How the test accesses the page, and whether the access is expected to survive.\<close>

datatype rmode = MREAD | MWRITE | MREAD_OK | MWRITE_OK | MNOTHING

abbreviation survives :: "rmode \<Rightarrow> bool" where
  "survives mode \<equiv> mode = MREAD_OK \<or> mode = MWRITE_OK"

abbreviation must_die :: "rmode \<Rightarrow> bool" where
  "must_die mode \<equiv> mode = MWRITE \<or> mode = MREAD"

text \<open>The fields of \<open>siginfo_t\<close> the handlers read; code 4 is \<open>BUS_MCEERR_AR\<close>.\<close>

record bus =
  si_code :: int
  si_addr :: u64
  si_addr_lsb :: int

datatype prot = PROT_READ | PROT_WRITE
datatype mflag = MAP_SHARED | MAP_PRIVATE | MAP_ANONYMOUS | MAP_POPULATE | MAP_LOCKED | MAP_HUGETLB

text \<open>The system calls of the tests that give a number, with the arguments that matter.\<close>

datatype syscall =
    Open string string
  | Close int
  | Read int nat
  | Write int "u8 list"
  | Lseek int int
  | Fsync int
  | Msync u64 nat
  | Munmap u64 nat
  | Reserve u64 nat
  | Ftruncate int nat
  | Remap_File_Pages u64 nat nat
  | Unlink string
  | Mkdir string
  | System string
  | Shmget int nat string
  | Shmctl_Rmid int
  | Shmdt u64
  | Semget nat string
  | Semctl_Setval int nat int
  | Semctl_Rmid int
  | Kill int int
  | Madvise u64 nat int
  | Prctl int int int
  | Semop int int

text \<open>
  \<open>k_poison\<close> is \<open>madvise (page, PS, MADV_POISON)\<close>: the error number, 0 for success, or a signal that
  arrives during the call; \<open>k_load\<close> and \<open>k_store\<close> are a byte access or the signal it raises.
\<close>

record 'w kern =
  k_poison :: "u64 \<Rightarrow> 'w \<Rightarrow> (bus + int) \<times> 'w"
  k_load :: "u64 \<Rightarrow> 'w \<Rightarrow> (bus + u8) \<times> 'w"
  k_store :: "u64 \<Rightarrow> u8 \<Rightarrow> 'w \<Rightarrow> bus option \<times> 'w"
  k_mmap :: "nat \<Rightarrow> prot list \<Rightarrow> mflag list \<Rightarrow> int \<Rightarrow> 'w \<Rightarrow> u64 option \<times> 'w"
  k_shmat :: "int \<Rightarrow> 'w \<Rightarrow> u64 option \<times> 'w"
  k_sys :: "syscall \<Rightarrow> 'w \<Rightarrow> int \<times> 'w"
  k_pagemap :: "u64 \<Rightarrow> 'w \<Rightarrow> u64 option"
  k_mce_inject :: "string \<Rightarrow> 'w \<Rightarrow> (bus + bool) \<times> 'w"
  k_fork :: "'w \<Rightarrow> bool \<times> 'w"
  k_core :: "'w \<Rightarrow> bool"

text \<open>Where a signal can find the program: which \<open>sigsetjmp\<close> belongs to a function that still runs.\<close>

datatype ctx = In_poison | In_recover | Outside

datatype jump = To_recover | To_early

fun jump_ok :: "jump \<Rightarrow> ctx \<Rightarrow> bool" where
  "jump_ok To_recover ctx = (ctx = In_recover)"
| "jump_ok To_early ctx = (ctx = In_poison)"

text \<open>\<open>%#llx\<close> and \<open>%p\<close>\<close>

definition fmt_alt_hex :: "u64 \<Rightarrow> string" where
  "fmt_alt_hex x = (if x = 0 then ''0'' else ''0x'' @ show_hex (unat x))"

definition fmt_ptr :: "u64 \<Rightarrow> string" where
  "fmt_ptr x = (if x = 0 then ''(nil)'' else ''0x'' @ show_hex (unat x))"

text \<open>What \<open>waitid\<close> says about a child: its code, and the status or the signal.\<close>

definition CLD_EXITED :: int where "CLD_EXITED = 1"
definition CLD_KILLED :: int where "CLD_KILLED = 2"
definition CLD_DUMPED :: int where "CLD_DUMPED = 3"
definition SIGBUS :: int where "SIGBUS = 7"

text \<open>\<open>code & CLD_KILLDUMP\<close> with \<open>CLD_KILLDUMP = CLD_KILLED | CLD_DUMPED = 3\<close>\<close>

definition killdump :: "int \<Rightarrow> bool" where
  "killdump code \<longleftrightarrow> code AND (CLD_KILLED OR CLD_DUMPED) \<noteq> 0"

definition EBUSY :: int where "EBUSY = 16"
definition EEXIST :: int where "EEXIST = 17"
definition EINVAL :: int where "EINVAL = 22"

end
