(* ===== verification/Hugepage.thy ===== *)
theory Hugepage
  imports Poison_Base
begin

text \<open>
  \<open>cases/function/hwpoison/hugepage.h\<close>: the pattern written to and read from huge pages, their
  allocation by the three ways of the kernel, and the search for the file system and the page size.
\<close>

section \<open>The pattern\<close>

text \<open>The byte of page \<open>i\<close> at \<open>j\<close>: \<open>(char)('a' + ((i + j) % 26))\<close>.\<close>

definition pattern_byte :: "nat \<Rightarrow> nat \<Rightarrow> u8" where
  "pattern_byte i j = of_nat (97 + (i + j) mod 26)"

text \<open>
  What writing and reading do to memory and to the output, for sizes whose products \<open>i * HPS\<close> fit an \<open>int\<close>; theory
  \<open>Hugetlb_Test\<close> has the accesses one by one, with the overflow of these products.
\<close>

definition fill_hugepage :: "nat \<Rightarrow> u64 \<Rightarrow> nat \<Rightarrow> (u64 \<Rightarrow> u8) \<Rightarrow> u64 \<Rightarrow> u8" where
  "fill_hugepage hps addr i mem =
     fold (\<lambda>j mem. mem(addr + of_nat (i * hps + j) := pattern_byte i j)) [0..<hps] mem"

definition write_hugepage :: "nat \<Rightarrow> u64 \<Rightarrow> nat \<Rightarrow> u64 \<Rightarrow> (u64 \<Rightarrow> u8) \<Rightarrow> u64 \<Rightarrow> u8" where
  "write_hugepage hps addr nr avoid mem =
     fold (\<lambda>i mem. if addr + of_nat (i * hps) = avoid then mem else fill_hugepage hps addr i mem) [0..<nr] mem"

text \<open>The first byte of page \<open>i\<close> that differs; the inner loop ends there.\<close>

definition mismatch_at :: "nat \<Rightarrow> u64 \<Rightarrow> (u64 \<Rightarrow> u8) \<Rightarrow> nat \<Rightarrow> nat option" where
  "mismatch_at hps addr mem i = find (\<lambda>j. mem (addr + of_nat (i * hps + j)) \<noteq> pattern_byte i j) [0..<hps]"

text \<open>The result with the messages; each names \<open>i + j\<close>.\<close>

definition read_hugepage :: "nat \<Rightarrow> u64 \<Rightarrow> nat \<Rightarrow> u64 \<Rightarrow> (u64 \<Rightarrow> u8) \<Rightarrow> int \<times> string list" where
  "read_hugepage hps addr nr avoid mem =
     fold (\<lambda>i (r, out).
         if addr + of_nat (i * hps) = avoid then (r, out)
         else (case mismatch_at hps addr mem i of
                 None \<Rightarrow> (r, out)
               | Some j \<Rightarrow> (-1, out @ [''Mismatch at '' @ show_dec (i + j) @ [NL]])))
       [0..<nr] (0, [])"

section \<open>Allocation\<close>

text \<open>The key is an in-out parameter; NULL is \<open>None\<close>.\<close>

definition alloc_shm_hugepage :: "'w kern \<Rightarrow> int \<Rightarrow> nat \<Rightarrow> ('g, 'w, int \<times> u64 option) act" where
  "alloc_shm_hugepage k key len =
     sbind (call (k_sys k (Shmget key len ''SHM_HUGETLB|IPC_CREAT|SHM_R|SHM_W''))) (\<lambda>shmid.
       if shmid < 0 then ret (key, None)
       else sbind (call (k_shmat k shmid)) (\<lambda>addr. case addr of
           None \<Rightarrow> sseq (call (k_sys k (Shmctl_Rmid shmid))) (ret (key, None))
         | Some p \<Rightarrow> ret (shmid, Some p)))"

definition alloc_anonymous_hugepage :: "'w kern \<Rightarrow> nat \<Rightarrow> bool \<Rightarrow> ('g, 'w, u64 option) act" where
  "alloc_anonymous_hugepage k len private =
     call (k_mmap k len [PROT_READ, PROT_WRITE]
       [MAP_ANONYMOUS, MAP_HUGETLB, if private then MAP_PRIVATE else MAP_SHARED] (-1))"

definition alloc_filebacked_hugepage :: "'w kern \<Rightarrow> string \<Rightarrow> nat \<Rightarrow> bool \<Rightarrow> ('g, 'w, int \<times> u64 option) act" where
  "alloc_filebacked_hugepage k filepath len private =
     sbind (call (k_sys k (Open filepath ''O_CREAT|O_RDWR''))) (\<lambda>fd.
       if fd < 0 then ret (fd, None)
       else sbind (call (k_mmap k len [PROT_READ, PROT_WRITE] [if private then MAP_PRIVATE else MAP_SHARED] fd))
         (\<lambda>addr. case addr of
             None \<Rightarrow> sseq (call (k_sys k (Unlink filepath))) (ret (fd, None))
           | Some p \<Rightarrow> ret (fd, Some p)))"

definition free_shm_hugepage :: "'w kern \<Rightarrow> int \<Rightarrow> u64 \<Rightarrow> ('g, 'w, int) act" where
  "free_shm_hugepage k key addr =
     sbind (call (k_sys k (Shmdt addr))) (\<lambda>r.
       sseq (call (k_sys k (Shmctl_Rmid key))) (ret (if r \<noteq> 0 then -1 else 0)))"

definition free_anonymous_hugepage :: "'w kern \<Rightarrow> u64 \<Rightarrow> nat \<Rightarrow> ('g, 'w, int) act" where
  "free_anonymous_hugepage k addr len =
     sbind (call (k_sys k (Munmap addr len))) (\<lambda>r. ret (if r \<noteq> 0 then -1 else 0))"

definition free_filebacked_hugepage :: "'w kern \<Rightarrow> u64 \<Rightarrow> nat \<Rightarrow> int \<Rightarrow> string option \<Rightarrow> ('g, 'w, int) act" where
  "free_filebacked_hugepage k addr len fd filepath =
     sbind (call (k_sys k (Munmap addr len))) (\<lambda>r1.
     sbind (call (k_sys k (Close fd))) (\<lambda>r2.
     sbind (case filepath of None \<Rightarrow> ret (-1) | Some p \<Rightarrow> call (k_sys k (Unlink p))) (\<lambda>r3.
       ret (if r1 \<noteq> 0 \<or> r2 \<noteq> 0 \<or> r3 \<noteq> 0 then -1 else 0))))"

section \<open>Configuration of the system\<close>

text \<open>\<open>%s\<close> of \<open>sscanf\<close>: the word behind any white space, and the rest.\<close>

definition scan_word :: "string \<Rightarrow> (string \<times> string) option" where
  "scan_word s =
     (let t = dropWhile c_isspace s; w = takeWhile (\<lambda>c. \<not> c_isspace c) t
      in if w = [] then None else Some (w, drop (length w) t))"

text \<open>
  \<open>sscanf (line, "%s %s hugetlbfs %[^ ]", type, dir, dummy)\<close>: the new \<open>dir\<close> when the second word was
  read, and whether all three conversions were made. The buffers have 100, 256 and 100 bytes.
\<close>

definition scan_hugetlbfs :: "string \<Rightarrow> string \<Rightarrow> (string \<times> bool) res" where
  "scan_hugetlbfs dir line =
     (case scan_word line of
        None \<Rightarrow> Inr (dir, False)
      | Some (ty, s) \<Rightarrow>
          if 100 \<le> length ty then Inl (Undef ''type overflow'')
          else (case scan_word s of
              None \<Rightarrow> Inr (dir, False)
            | Some (d, s) \<Rightarrow>
                if 256 \<le> length d then Inl (Undef ''dir overflow'')
                else
                  let s = dropWhile c_isspace s
                  in if take 9 s \<noteq> ''hugetlbfs'' then Inr (d, False)
                     else
                       let x = takeWhile (\<lambda>c. c \<noteq> CHR '' '') (dropWhile c_isspace (drop 9 s))
                       in if x = [] then Inr (d, False)
                          else if 100 \<le> length x then Inl (Undef ''dummy overflow'')
                          else Inr (d, True)))"

fun hugetlbfs_lines :: "string \<Rightarrow> string list \<Rightarrow> (string \<times> bool) res" where
  "hugetlbfs_lines dir [] = Inr (dir, False)"
| "hugetlbfs_lines dir (l # ls) =
     rbind (scan_hugetlbfs dir l) (\<lambda>(dir, found). if found then Inr (dir, True) else hugetlbfs_lines dir ls)"

text \<open>The lines of \<open>/proc/mounts\<close>, \<open>None\<close> when it cannot be opened.\<close>

definition hugetlbfs_root :: "string list option \<Rightarrow> string \<Rightarrow> (string \<times> bool) res" where
  "hugetlbfs_root mounts dir = (case mounts of None \<Rightarrow> Inl (Exit 1) | Some ls \<Rightarrow> hugetlbfs_lines dir ls)"

text \<open>\<open>sscanf (line, "Hugepagesize: %d kB", &hpagesize) >= 1\<close>\<close>

definition scan_hugepagesize :: "string \<Rightarrow> int option" where
  "scan_hugepagesize l =
     (if take 13 l \<noteq> ''Hugepagesize:'' then None
      else
        let t = dropWhile c_isspace (drop 13 l);
            u = (if hdc t = CHR ''-'' \<or> hdc t = CHR ''+'' then tl t else t)
        in if digit_of 10 (hdc u) = None then None else Some (atoi t))"

fun hugepagesize_lines :: "string list \<Rightarrow> int" where
  "hugepagesize_lines [] = 0"
| "hugepagesize_lines (l # ls) = (case scan_hugepagesize l of Some n \<Rightarrow> n | None \<Rightarrow> hugepagesize_lines ls)"

definition gethugepagesize :: "string list option \<Rightarrow> int res" where
  "gethugepagesize meminfo =
     (case meminfo of
        None \<Rightarrow> Inl (Exit 1)
      | Some ls \<Rightarrow> Inr (sint (word_of_int (hugepagesize_lines ls * 1024) :: u32)))"

section \<open>Writing and reading the pattern\<close>

lemma page_offset: "i < nr \<Longrightarrow> j < hps \<Longrightarrow> i * hps + j < (nr :: nat) * hps"
proof -
  assume "i < nr" "j < hps"
  then have "i * hps + j < Suc i * hps" by simp
  also have "\<dots> \<le> nr * hps" using \<open>i < nr\<close> by (intro mult_le_mono1) simp
  finally show ?thesis .
qed

lemma page_offset_inj:
  assumes "i * hps + j = i' * hps + (j' :: nat)" "j < hps" "j' < hps" shows "i = i' \<and> j = j'"
proof -
  have "(i * hps + j) div hps = i" "(i' * hps + j') div hps = i'" using assms(2,3) by simp_all
  with assms(1) show ?thesis by simp
qed

lemma fill_hugepage_at:
  assumes "nr * hps \<le> 2 ^ 64" "i < nr" "j < hps"
  shows "fill_hugepage hps addr i mem (addr + of_nat (i * hps + j)) = pattern_byte i j"
proof -
  have "inj_on (\<lambda>j. addr + of_nat (i * hps + j)) (set [0..<hps])"
  proof (rule inj_onI)
    fix a b assume "a \<in> set [0..<hps]" "b \<in> set [0..<hps]"
      and eq: "addr + of_nat (i * hps + a) = addr + of_nat (i * hps + b)"
    then have "i * hps + a < 2 ^ 64" "i * hps + b < 2 ^ 64"
      using page_offset [OF assms(2)] assms(1) by (auto intro: less_le_trans)
    from offset_inj [OF this eq] show "a = b" by simp
  qed
  then show ?thesis
    unfolding fill_hugepage_def using assms(3) by (intro fold_upd_at) auto
qed

lemma fill_hugepage_other:
  "(\<And>j. j < hps \<Longrightarrow> addr + of_nat (i * hps + j) \<noteq> x) \<Longrightarrow> fill_hugepage hps addr i mem x = mem x"
  unfolding fill_hugepage_def by (intro fold_upd_other) auto

text \<open>The bytes of the pages that are not avoided, with what belongs into them.\<close>

definition pattern_cells :: "nat \<Rightarrow> u64 \<Rightarrow> nat \<Rightarrow> u64 \<Rightarrow> (u64 \<times> u8) set" where
  "pattern_cells hps addr nr avoid =
     {(addr + of_nat (i * hps + j), pattern_byte i j) | i j. i < nr \<and> j < hps \<and> addr + of_nat (i * hps) \<noteq> avoid}"

lemma write_hugepage_at:
  assumes "nr * hps \<le> 2 ^ 64" "i < nr" "j < hps" "addr + of_nat (i * hps) \<noteq> avoid"
  shows "write_hugepage hps addr nr avoid mem (addr + of_nat (i * hps + j)) = pattern_byte i j"
  using assms(1,2)
proof (induction nr)
  case (Suc n)
  let ?x = "addr + of_nat (i * hps + j)"
  show ?case
  proof (cases "i = n")
    case True
    with fill_hugepage_at [OF Suc.prems assms(3)] assms(4) show ?thesis by (simp add: write_hugepage_def)
  next
    case False
    with Suc.prems have i: "i < n" "n * hps \<le> 2 ^ 64" by auto
    have "addr + of_nat (n * hps + l) \<noteq> ?x" if "l < hps" for l
    proof
      assume eq: "addr + of_nat (n * hps + l) = ?x"
      have "n * hps + l < 2 ^ 64" "i * hps + j < 2 ^ 64"
        using page_offset [of n "Suc n" l hps] page_offset [of i "Suc n" j hps] that i assms(3) Suc.prems(1)
        by (auto intro: less_le_trans)
      from offset_inj [OF this eq] have "n = i" using page_offset_inj [of n hps l i j] that assms(3) by simp
      with i show False by simp
    qed
    with Suc.IH [OF i(2,1)] show ?thesis by (simp add: write_hugepage_def fill_hugepage_other)
  qed
qed simp

lemma write_hugepage_other:
  "x \<notin> fst ` pattern_cells hps addr nr avoid \<Longrightarrow> write_hugepage hps addr nr avoid mem x = mem x"
proof (induction nr)
  case (Suc n)
  have "pattern_cells hps addr n avoid \<subseteq> pattern_cells hps addr (Suc n) avoid"
    by (auto simp: pattern_cells_def intro: less_SucI)
  with Suc have "write_hugepage hps addr n avoid mem x = mem x" by blast
  moreover have "addr + of_nat (n * hps + j) \<noteq> x" if "j < hps" "addr + of_nat (n * hps) \<noteq> avoid" for j
    using Suc.prems that by (force simp: pattern_cells_def)
  ultimately show ?case by (auto simp: write_hugepage_def fill_hugepage_other)
qed (simp add: write_hugepage_def)

lemma mismatch_at_None: "mismatch_at hps addr mem i = None \<longleftrightarrow>
    (\<forall>j < hps. mem (addr + of_nat (i * hps + j)) = pattern_byte i j)"
  by (auto simp: mismatch_at_def find_None_iff)

lemma read_hugepage_ok:
  "read_hugepage hps addr nr avoid mem =
     (if \<forall>(x, b) \<in> pattern_cells hps addr nr avoid. mem x = b then (0, []) else (-1, snd (read_hugepage hps addr nr avoid mem)))"
proof (induction nr)
  case (Suc n)
  let ?ok = "\<lambda>n. \<forall>(x, b) \<in> pattern_cells hps addr n avoid. mem x = b"
  have split: "?ok (Suc n) \<longleftrightarrow> ?ok n \<and> (addr + of_nat (n * hps) \<noteq> avoid \<longrightarrow> mismatch_at hps addr mem n = None)"
    unfolding mismatch_at_None by (auto simp: pattern_cells_def less_Suc_eq)
  have step: "read_hugepage hps addr (Suc n) avoid mem =
      (case read_hugepage hps addr n avoid mem of (r, out) \<Rightarrow>
         if addr + of_nat (n * hps) = avoid then (r, out)
         else (case mismatch_at hps addr mem n of
                 None \<Rightarrow> (r, out)
               | Some j \<Rightarrow> (-1, out @ [''Mismatch at '' @ show_dec (n + j) @ [NL]])))"
    by (simp add: read_hugepage_def)
  show ?case
  proof (cases "?ok n")
    case True
    with Suc have "read_hugepage hps addr n avoid mem = (0, [])" by simp
    with True show ?thesis unfolding step split by (auto split: option.splits)
  next
    case False
    with Suc obtain out where "read_hugepage hps addr n avoid mem = (-1, out)" by (metis)
    with False show ?thesis unfolding step split by (auto split: option.splits)
  qed
qed (simp add: read_hugepage_def pattern_cells_def)

text \<open>Round trip of the pattern: what \<open>write_hugepage\<close> writes, \<open>read_hugepage\<close> accepts, with the same pages avoided;
  no byte outside the pattern is written, and changing any byte of it is noticed.\<close>

theorem hugepage_roundtrip:
  assumes "nr * hps \<le> 2 ^ 64"
  shows "let mem' = write_hugepage hps addr nr avoid mem in
      read_hugepage hps addr nr avoid mem' = (0, [])
      \<and> (\<forall>x. x \<notin> fst ` pattern_cells hps addr nr avoid \<longrightarrow> mem' x = mem x)
      \<and> (\<forall>x \<in> fst ` pattern_cells hps addr nr avoid. \<forall>b. b \<noteq> mem' x \<longrightarrow>
           fst (read_hugepage hps addr nr avoid (mem'(x := b))) = -1)"
proof -
  let ?m = "write_hugepage hps addr nr avoid mem"
  have all: "\<forall>(x, b) \<in> pattern_cells hps addr nr avoid. ?m x = b"
    using write_hugepage_at [OF assms] by (auto simp: pattern_cells_def)
  have bad: "fst (read_hugepage hps addr nr avoid (?m(x := b))) = -1"
    if x: "x \<in> fst ` pattern_cells hps addr nr avoid" and b: "b \<noteq> ?m x" for x b
  proof -
    obtain v where v: "(x, v) \<in> pattern_cells hps addr nr avoid" using x by auto
    with all have "?m x = v" by auto
    with v b have "\<not> (\<forall>(y, c) \<in> pattern_cells hps addr nr avoid. (?m(x := b)) y = c)" by fastforce
    then show ?thesis by (subst read_hugepage_ok) (simp only: if_False fst_conv)
  qed
  from all have "read_hugepage hps addr nr avoid ?m = (0, [])" by (subst read_hugepage_ok) simp
  with bad write_hugepage_other show ?thesis by (auto simp: Let_def)
qed

theorem hugepage_roundtrip_witness:
  "read_hugepage 4 0x1000 3 0x1004 (write_hugepage 4 0x1000 3 0x1004 (\<lambda>_. 0)) = (0, [])"
  using hugepage_roundtrip [of 3 4 "0x1000" "0x1004" "\<lambda>_. 0"] by (simp add: Let_def)

end
