(* ===== verification/Tinjpage.thy ===== *)
theory Tinjpage
  imports Hugepage
begin

text \<open>
  \<open>cases/function/hwpoison/tinjpage.c\<close>: inject poison into pages in various states and check how the
  kernel lets the program feel it: at the access (late kill), in a child without a handler, and at the
  injection (early kill). The sniper threads and \<open>do_shared\<close> are in theories of their own.
\<close>

section \<open>Globals\<close>

record inj =
  failure :: int
  unexpected :: int
  early_kill :: bool
  test_hugepage :: bool
  recovercount :: int
  expected_addr :: u64
  handled :: bool
  tmpcount :: int
  printed :: "string list"

text \<open>\<open>inject\<close> points to one of two functions; \<open>handled\<close> above is whether \<open>SIGBUS\<close> has the handler.\<close>

datatype injector = Inject_madvise | Inject_mce_inject

record tconf =
  PS :: nat
  HPS :: int
  inject_fn :: injector
  hugetlbfsdir :: string

definition say :: "string \<Rightarrow> inj \<Rightarrow> inj" where
  "say s g = g\<lparr>printed := printed g @ [s]\<rparr>"

definition fail_with :: "string \<Rightarrow> inj \<Rightarrow> inj" where
  "fail_with s g = say s (g\<lparr>failure := failure g + 1\<rparr>)"

section \<open>Helpers\<close>

definition checked_mmap :: "'w kern \<Rightarrow> nat \<Rightarrow> prot list \<Rightarrow> mflag list \<Rightarrow> int \<Rightarrow> ('g, 'w, u64) act" where
  "checked_mmap k len prots flags fd =
     sbind (call (k_mmap k len prots flags fd)) (\<lambda>map.
       case map of None \<Rightarrow> halt (Exit 1) | Some page \<Rightarrow> ret page)"

text \<open>The result of the second \<open>mmap\<close> is a pointer compared with \<open>< 0\<close>, which never holds.\<close>

definition munmap_reserve :: "'w kern \<Rightarrow> u64 \<Rightarrow> nat \<Rightarrow> ('g, 'w, unit) act" where
  "munmap_reserve k page len =
     sbind (call (k_sys k (Munmap page len))) (\<lambda>r.
       if r < 0 then halt (Exit 1)
       else sseq (call (k_sys k (Reserve page len))) nop)"

text \<open>
  \<open>ilog2\<close> shifts \<open>n - 1\<close> to the right until it is 0. A negative \<open>int\<close> never becomes 0: the loop does not end.
\<close>

fun ilog2_loop :: "nat \<Rightarrow> nat" where
  "ilog2_loop n = (if n = 0 then 0 else Suc (ilog2_loop (n div 2)))"

declare ilog2_loop.simps [simp del]

definition ilog2 :: "int \<Rightarrow> nat option" where
  "ilog2 n = (if n - 1 < 0 then None else Some (ilog2_loop (nat (n - 1))))"

definition PAGE_LSB :: "tconf \<Rightarrow> nat option" where
  "PAGE_LSB c = ilog2 (int (PS c))"

section \<open>Signals\<close>

text \<open>The handler: where it jumps to, unless it leaves the program.\<close>

definition sighandler :: "tconf \<Rightarrow> bus \<Rightarrow> (inj, 'w, jump) act" where
  "sighandler c b =
     sseq (upd (\<lambda>g. if si_addr b \<noteq> expected_addr g
              then fail_with (''XXX: Unexpected address in signal '' @ fmt_ptr (si_addr b) @ '' (expected ''
                     @ fmt_ptr (expected_addr g) @ '')'' @ [NL]) g
              else g))
    (sbind (glob test_hugepage) (\<lambda>huge.
       case (if huge then ilog2 (HPS c) else PAGE_LSB c) of
         None \<Rightarrow> halt (Undef ''ilog2 does not return'')
       | Some l \<Rightarrow>
           sseq (upd (\<lambda>g. if si_addr_lsb b \<noteq> int l
                    then say (''LATER: Unexpected addr lsb in siginfo '' @ show_int (si_addr_lsb b) @ [NL]) g else g))
          (sseq (upd (say ([TAB] @ ''signal 7 code '' @ show_int (si_code b) @ '' addr '' @ fmt_ptr (si_addr b) @ [NL])))
          (sseq (upd (\<lambda>g. g\<lparr>recovercount := recovercount g - 1\<rparr>))
          (sbind (glob recovercount) (\<lambda>n.
             if n = 0 then halt (Exit 1)
             else ret (if si_code b = 4 then To_recover else To_early)))))))"

text \<open>
  A signal that arrives while the function of \<open>ctx\<close> runs: without the handler it kills the process; a
  jump to the buffer of a function that has returned has no meaning.
\<close>

definition deliver :: "tconf \<Rightarrow> ctx \<Rightarrow> bus \<Rightarrow> (inj, 'w, unit) act" where
  "deliver c ctx b =
     sbind (glob handled) (\<lambda>h.
       if \<not> h then halt (Fatal ''SIGBUS'')
       else sbind (sighandler c b) (\<lambda>j.
              if jump_ok j ctx then nop else halt (Undef ''siglongjmp to a function that has returned'')))"

section \<open>Injection\<close>

text \<open>\<open>madvise\<close>; the signal that interrupts it is the result.\<close>

definition inject_madvise :: "'w kern \<Rightarrow> u64 \<Rightarrow> (inj, 'w, bus option) act" where
  "inject_madvise k page =
     sbind (call (k_poison k page)) (\<lambda>r. case r of
         Inl b \<Rightarrow> ret (Some b)
       | Inr e \<Rightarrow>
           if e = 0 then ret None
           else if e = EINVAL then halt (Exit 0)
           else sseq (upd (\<lambda>g. g\<lparr>failure := failure g + 1\<rparr>)) (ret None))"

definition page_to_pfn :: "tconf \<Rightarrow> 'w kern \<Rightarrow> u64 \<Rightarrow> (inj, 'w, u64) act" where
  "page_to_pfn c k page = (\<lambda>(g, w).
     (case k_pagemap k ((page div of_nat (PS c)) * 8) w of
        None \<Rightarrow> (Inl (Exit 1), g, w)
      | Some pfn \<Rightarrow> (Inr (pfn AND (2 ^ 56 - 1)), g, w)))"

definition mce_record :: "u64 \<Rightarrow> string" where
  "mce_record pfn =
     ''CPU 0 BANK 3 STATUS UNCORRECTED SRAO 0xc0'' @ [NL] @ ''MCGSTATUS RIPV MCIP'' @ [NL]
     @ ''ADDR '' @ fmt_alt_hex pfn @ [NL] @ ''MISC 0x8c'' @ [NL] @ ''RIP 0x73:0x1eadbabe'' @ [NL]"

definition inject_mce_inject :: "tconf \<Rightarrow> 'w kern \<Rightarrow> u64 \<Rightarrow> (inj, 'w, bus option) act" where
  "inject_mce_inject c k page =
     sbind (page_to_pfn c k page) (\<lambda>pfn.
     sbind (call (k_mce_inject k (mce_record pfn))) (\<lambda>r. case r of
         Inl b \<Rightarrow> ret (Some b)
       | Inr ok \<Rightarrow> if ok then ret None else halt (Exit 1)))"

definition inject :: "tconf \<Rightarrow> 'w kern \<Rightarrow> u64 \<Rightarrow> (inj, 'w, bus option) act" where
  "inject c k page =
     (case inject_fn c of Inject_madvise \<Rightarrow> inject_madvise k page | Inject_mce_inject \<Rightarrow> inject_mce_inject c k page)"

section \<open>Poisoning and recovering\<close>

definition poison :: "tconf \<Rightarrow> 'w kern \<Rightarrow> string \<Rightarrow> u64 \<Rightarrow> rmode \<Rightarrow> (inj, 'w, unit) act" where
  "poison c k msg page mode =
     sseq (upd (\<lambda>g. g\<lparr>expected_addr := page, recovercount := 5\<rparr>))
    (sbind (inject c k page) (\<lambda>sig. case sig of
         None \<Rightarrow> upd (\<lambda>g. if early_kill g \<and> must_die mode
                    then fail_with (''XXX: '' @ msg @ '': process is not early killed'' @ [NL]) g else g)
       | Some b \<Rightarrow>
           sseq (deliver c In_poison b)
             (upd (\<lambda>g. if early_kill g
                then (if survives mode then fail_with (''XXX: '' @ msg @ '': killed'' @ [NL]) g
                      else say ([TAB] @ ''recovered'' @ [NL]) g)
                else g))))"

text \<open>The access of \<open>recover\<close>: the signal it raises, if any.\<close>

definition touch :: "'w kern \<Rightarrow> u64 \<Rightarrow> rmode \<Rightarrow> (inj, 'w, bus option) act" where
  "touch k page mode =
     (case mode of
        MWRITE \<Rightarrow> sseq (upd (say ([TAB] @ ''writing 2'' @ [NL]))) (call (k_store k page 2))
      | MWRITE_OK \<Rightarrow> sseq (upd (say ([TAB] @ ''writing 4'' @ [NL]))) (call (k_store k page 4))
      | MNOTHING \<Rightarrow> ret None
      | _ \<Rightarrow> sbind (call (k_load k page)) (\<lambda>r. case r of
             Inl b \<Rightarrow> ret (Some b)
           | Inr x \<Rightarrow> sseq (upd (say ([TAB] @ ''reading '' @ show_hex (unat x) @ [NL]))) (ret None)))"

definition recover :: "tconf \<Rightarrow> 'w kern \<Rightarrow> string \<Rightarrow> u64 \<Rightarrow> rmode \<Rightarrow> (inj, 'w, unit) act" where
  "recover c k msg page mode =
     sseq (upd (\<lambda>g. g\<lparr>expected_addr := page, recovercount := 5\<rparr>))
    (sbind (touch k page mode) (\<lambda>sig. case sig of
         None \<Rightarrow>
           if must_die mode
           then upd (fail_with (''XXX: '' @ msg @ '': page not poisoned after injection'' @ [NL]))
           else nop
       | Some b \<Rightarrow>
           sseq (deliver c In_recover b)
             (upd (if survives mode then fail_with (''XXX: '' @ msg @ '': killed'' @ [NL])
                   else say ([TAB] @ ''recovered'' @ [NL])))))"

definition testmem :: "tconf \<Rightarrow> 'w kern \<Rightarrow> string \<Rightarrow> u64 \<Rightarrow> rmode \<Rightarrow> (inj, 'w, unit) act" where
  "testmem c k msg page mode =
     sseq (upd (say ([TAB] @ msg @ '' poisoning page '' @ fmt_ptr page @ [NL])))
    (sseq (poison c k msg page mode) (recover c k msg page mode))"

text \<open>\<open>errno\<close> in the messages is not modelled.\<close>

definition expecterr :: "string \<Rightarrow> bool \<Rightarrow> (inj, 'w, unit) act" where
  "expecterr msg err =
     upd (if err then say ([TAB] @ ''expected error on '' @ msg @ [NL])
          else fail_with (''XXX: unexpected no error on '' @ msg @ [NL]))"

definition optionalerr :: "string \<Rightarrow> bool \<Rightarrow> (inj, 'w, unit) act" where
  "optionalerr msg err =
     upd (if err then say ([TAB] @ ''expected optional error on '' @ msg @ [NL])
          else (\<lambda>g. say (''LATER: expected likely incorrect no error on '' @ msg @ [NL])
                       (g\<lparr>unexpected := unexpected g + 1\<rparr>)))"

section \<open>Test cases\<close>

definition tempfd :: "'w kern \<Rightarrow> (inj, 'w, int) act" where
  "tempfd k =
     sbind (glob tmpcount) (\<lambda>n.
     sseq (upd (\<lambda>g. g\<lparr>tmpcount := n + 1\<rparr>))
    (sbind (call (k_sys k (Open (take 99 (''./~poison'' @ show_int n)) ''O_CREAT|O_RDWR''))) (\<lambda>fd.
       if 0 \<le> fd then sseq (call (k_sys k (Unlink (take 99 (''./~poison'' @ show_int n))))) (ret fd)
       else halt (Exit 1))))"

text \<open>The name given, or a new one; \<open>tmp[i] = i\<close> keeps the low byte.\<close>

definition playfile :: "tconf \<Rightarrow> 'w kern \<Rightarrow> string \<Rightarrow> (inj, 'w, string \<times> int) act" where
  "playfile c k buf =
     sbind (if buf = [] then sbind (glob tmpcount) (\<lambda>n.
              sseq (upd (\<lambda>g. g\<lparr>tmpcount := n + 1\<rparr>)) (ret (take 99 (''./~poison'' @ show_int n))))
            else ret buf) (\<lambda>buf.
     sbind (call (k_sys k (Open buf ''O_CREAT|O_RDWR|O_TRUNC''))) (\<lambda>fd.
       if fd < 0 then halt (Exit 1)
       else sseq (call (k_sys k (Write fd (map of_nat [0..<PS c * 5]))))
           (sseq (call (k_sys k (Lseek fd 0))) (ret (buf, fd)))))"

definition dirty_anonymous :: "tconf \<Rightarrow> 'w kern \<Rightarrow> (inj, 'w, unit) act" where
  "dirty_anonymous c k =
     sbind (checked_mmap k (PS c) [PROT_READ, PROT_WRITE] [MAP_PRIVATE, MAP_ANONYMOUS, MAP_POPULATE] 0) (\<lambda>page.
       testmem c k ''dirty'' page MWRITE)"

definition dirty_anonymous_unmap :: "tconf \<Rightarrow> 'w kern \<Rightarrow> (inj, 'w, unit) act" where
  "dirty_anonymous_unmap c k =
     sbind (checked_mmap k (PS c) [PROT_READ, PROT_WRITE] [MAP_PRIVATE, MAP_ANONYMOUS, MAP_POPULATE] 0) (\<lambda>page.
       sseq (testmem c k ''dirty'' page MWRITE) (munmap_reserve k page (PS c)))"

definition mlocked_anonymous :: "tconf \<Rightarrow> 'w kern \<Rightarrow> (inj, 'w, unit) act" where
  "mlocked_anonymous c k =
     sbind (checked_mmap k (PS c) [PROT_READ, PROT_WRITE] [MAP_PRIVATE, MAP_ANONYMOUS, MAP_LOCKED] 0) (\<lambda>page.
       testmem c k ''mlocked'' page MWRITE)"

text \<open>The read between the two tests is outside of every \<open>sigsetjmp\<close>.\<close>

definition reread :: "tconf \<Rightarrow> 'w kern \<Rightarrow> string \<Rightarrow> u64 \<Rightarrow> (inj, 'w, unit) act" where
  "reread c k pre page =
     sbind (call (k_load k page)) (\<lambda>r. case r of
         Inl b \<Rightarrow> deliver c Outside b
       | Inr x \<Rightarrow> upd (say (pre @ ''reading '' @ show_hex (unat x) @ [NL])))"

definition do_file_clean :: "tconf \<Rightarrow> 'w kern \<Rightarrow> mflag list \<Rightarrow> string \<Rightarrow> (inj, 'w, unit) act" where
  "do_file_clean c k flags name =
     sbind (glob tmpcount) (\<lambda>n.
     sseq (upd (\<lambda>g. g\<lparr>tmpcount := n + 1\<rparr>))
    (let fn = take 29 (''./~test'' @ show_int n) in
     sbind (call (k_sys k (Open fn ''O_RDWR|O_TRUNC|O_CREAT''))) (\<lambda>fd.
       if fd < 0 then halt (Exit 1)
       else sseq (call (k_sys k (Write fd (map (of_nat \<circ> of_char) (take 4 fn)))))
       (sbind (checked_mmap k (PS c) [PROT_READ, PROT_WRITE] (MAP_SHARED # flags) fd) (\<lambda>page.
        sseq (call (k_sys k (Fsync fd)))
       (sseq (call (k_sys k (Close fd)))
       (sseq (testmem c k name page MREAD_OK)
       (sseq (reread c k (TAB # '' '') page)
             (testmem c k name page MWRITE_OK)))))))))"

definition file_clean :: "tconf \<Rightarrow> 'w kern \<Rightarrow> (inj, 'w, unit) act" where
  "file_clean c k = do_file_clean c k [] ''file clean''"

definition file_clean_mlocked :: "tconf \<Rightarrow> 'w kern \<Rightarrow> (inj, 'w, unit) act" where
  "file_clean_mlocked c k = do_file_clean c k [MAP_LOCKED] ''file clean mlocked''"

definition ndesc :: "string \<Rightarrow> string \<Rightarrow> string" where
  "ndesc name add = take 99 (name @ '' '' @ add)"

text \<open>Reopen the file, map it with \<open>flags\<close> and check that reading it works again.\<close>

definition remap_and_read ::
    "tconf \<Rightarrow> 'w kern \<Rightarrow> string \<Rightarrow> mflag list \<Rightarrow> string \<Rightarrow> (inj, 'w, unit) act" where
  "remap_and_read c k fn flags msg =
     sbind (call (k_sys k (Open fn ''O_RDONLY''))) (\<lambda>fd.
       if fd < 0 then halt (Exit 1)
       else sbind (checked_mmap k (PS c) [PROT_READ] flags fd) (\<lambda>page.
         sseq (recover c k msg page MREAD_OK)
        (sseq (call (k_sys k (Close fd))) (munmap_reserve k page (PS c)))))"

definition do_file_dirty :: "tconf \<Rightarrow> 'w kern \<Rightarrow> mflag list \<Rightarrow> string \<Rightarrow> (inj, 'w, unit) act" where
  "do_file_dirty c k flags name =
     sbind (playfile c k []) (\<lambda>(fn, fd).
     sbind (checked_mmap k (PS c) [PROT_READ] ([MAP_SHARED, MAP_POPULATE] @ flags) fd) (\<lambda>page.
     sseq (testmem c k (ndesc name ''initial'') page MREAD)
    (sbind (call (k_sys k (Msync page (PS c)))) (\<lambda>r.
     sseq (expecterr ''msync expect error'' (r < 0))
    (sseq (call (k_sys k (Close fd)))
    (sseq (munmap_reserve k page (PS c))
    (sseq (remap_and_read c k fn ([MAP_SHARED, MAP_POPULATE] @ flags) (ndesc name ''populated''))
    (sseq (remap_and_read c k fn (MAP_SHARED # flags) (ndesc name ''fault''))
    (sbind (call (k_sys k (Open fn ''O_RDWR''))) (\<lambda>fd.
     sbind (call (k_sys k (Read fd 128))) (\<lambda>r.
     sseq (optionalerr ''explicit read after poison'' (r < 0))
    (sbind (call (k_sys k (Write fd (map (of_nat \<circ> of_char) ''foobar'')))) (\<lambda>r.
     sseq (optionalerr ''explicit write after poison'' (r < 0))
    (sbind (call (k_sys k (Fsync fd))) (\<lambda>r.
     sseq (optionalerr ''fsync expect error'' (r < 0))
    (sseq (call (k_sys k (Close fd)))
    (sseq (call (k_sys k (Unlink fn))) nop)))))))))))))))))"

definition file_dirty :: "tconf \<Rightarrow> 'w kern \<Rightarrow> (inj, 'w, unit) act" where
  "file_dirty c k = do_file_dirty c k [] ''file dirty''"

definition file_dirty_mlocked :: "tconf \<Rightarrow> 'w kern \<Rightarrow> (inj, 'w, unit) act" where
  "file_dirty_mlocked c k = do_file_dirty c k [MAP_LOCKED] ''file dirty mlocked''"

text \<open>A store outside of every \<open>sigsetjmp\<close>.\<close>

definition store_page :: "tconf \<Rightarrow> 'w kern \<Rightarrow> u64 \<Rightarrow> u8 \<Rightarrow> (inj, 'w, unit) act" where
  "store_page c k page x =
     sbind (call (k_store k page x)) (\<lambda>r. case r of Some b \<Rightarrow> deliver c Outside b | None \<Rightarrow> nop)"

definition file_hole :: "tconf \<Rightarrow> 'w kern \<Rightarrow> (inj, 'w, unit) act" where
  "file_hole c k =
     sbind (tempfd k) (\<lambda>fd.
     sseq (call (k_sys k (Ftruncate fd (PS c))))
    (sbind (checked_mmap k (PS c) [PROT_READ, PROT_WRITE] [MAP_SHARED] fd) (\<lambda>page.
     sseq (store_page c k page 1)
    (sseq (testmem c k ''hole file dirty'' page MREAD)
    (sbind (call (k_sys k (Fsync fd))) (\<lambda>r.
     sseq (optionalerr ''hole fsync expect error'' (r < 0))
    (sbind (call (k_sys k (Msync page (PS c)))) (\<lambda>r.
     sseq (optionalerr ''hole msync expect error'' (r < 0))
    (sseq (call (k_sys k (Close fd))) nop)))))))))"

text \<open>Ten pages, mapped in the reverse order; errors of \<open>remap_file_pages\<close> are only printed.\<close>

definition nonlinear :: "tconf \<Rightarrow> 'w kern \<Rightarrow> (inj, 'w, unit) act" where
  "nonlinear c k =
     sbind (tempfd k) (\<lambda>fd.
     sseq (each (\<lambda>i. sseq (call (k_sys k (Write fd (replicate (PS c) (of_nat i))))) nop) [0..<10])
    (sbind (checked_mmap k (PS c * 10) [PROT_READ, PROT_WRITE] [MAP_SHARED] fd) (\<lambda>page.
     sseq (each (\<lambda>i. sseq (call (k_sys k (Remap_File_Pages (page + of_nat (i * PS c)) (PS c) (9 - i)))) nop) [0..<10])
    (sseq (store_page c k page 1)
    (sseq (testmem c k ''rfp file dirty'' page MREAD)
    (sbind (call (k_sys k (Fsync fd))) (\<lambda>r.
     sseq (expecterr ''rfp fsync expect error'' (r < 0))
    (sbind (call (k_sys k (Msync page (PS c)))) (\<lambda>r.
     sseq (optionalerr ''rfp msync expect error'' (r < 0))
    (sseq (call (k_sys k (Close fd))) nop))))))))))"

text \<open>The huge page cases; a failed allocation gives NULL, which is written to.\<close>

definition with_page :: "u64 option \<Rightarrow> (u64 \<Rightarrow> ('g, 'w, unit) act) \<Rightarrow> ('g, 'w, unit) act" where
  "with_page p f = (case p of None \<Rightarrow> halt (Undef ''store to NULL'') | Some page \<Rightarrow> f page)"

definition anonymous_hugepage :: "tconf \<Rightarrow> 'w kern \<Rightarrow> (inj, 'w, unit) act" where
  "anonymous_hugepage c k =
     (if HPS c = 0 then nop
      else
        sseq (upd (\<lambda>g. g\<lparr>test_hugepage := True\<rparr>))
       (sbind (alloc_anonymous_hugepage k (nat (HPS c)) True) (\<lambda>p. with_page p (\<lambda>page.
        sseq (store_page c k page 0x61)
       (sseq (testmem c k ''anonymous hugepage'' page MWRITE)
       (sseq (free_anonymous_hugepage k page (nat (HPS c)))
             (upd (\<lambda>g. g\<lparr>test_hugepage := False\<rparr>))))))))"

definition file_backed_hugepage :: "tconf \<Rightarrow> 'w kern \<Rightarrow> (inj, 'w, unit) act" where
  "file_backed_hugepage c k =
     (if HPS c = 0 then nop
      else
        sseq (upd (\<lambda>g. g\<lparr>test_hugepage := True\<rparr>))
       (sbind (glob tmpcount) (\<lambda>n.
        sseq (upd (\<lambda>g. g\<lparr>tmpcount := n + 1\<rparr>))
       (let buf = take 99 (hugetlbfsdir c @ ''/test'' @ show_int n) in
        sbind (alloc_filebacked_hugepage k buf (nat (HPS c)) False) (\<lambda>(fd, p). with_page p (\<lambda>page.
        sseq (store_page c k page 0x61)
       (sseq (testmem c k ''file backed hugepage'' page MWRITE)
       (sseq (free_filebacked_hugepage k page (nat (HPS c)) fd (Some buf))
             (upd (\<lambda>g. g\<lparr>test_hugepage := False\<rparr>))))))))))"

definition shm_hugepage :: "tconf \<Rightarrow> 'w kern \<Rightarrow> (inj, 'w, unit) act" where
  "shm_hugepage c k =
     (if HPS c = 0 then nop
      else
        sseq (upd (\<lambda>g. g\<lparr>test_hugepage := True\<rparr>))
       (sbind (glob tmpcount) (\<lambda>n.
        sbind (alloc_shm_hugepage k n (nat (HPS c))) (\<lambda>(key, p).
        sseq (upd (\<lambda>g. g\<lparr>tmpcount := key\<rparr>))
       (with_page p (\<lambda>page.
        sseq (store_page c k page 0x61)
       (sseq (testmem c k ''shared memory hugepage'' page MWRITE)
       (sbind (glob tmpcount) (\<lambda>key.
        sseq (free_shm_hugepage k key page)
             (upd (\<lambda>g. g\<lparr>tmpcount := tmpcount g + 1, test_hugepage := False\<rparr>)))))))))))"

section \<open>The program\<close>

record ('g, 'w) testcase =
  test_fn :: "('g, 'w, unit) act"
  test_name :: string
  survivable :: bool

text \<open>\<open>shared\<close> are the two cases of \<open>do_shared\<close>.\<close>

definition cases ::
    "tconf \<Rightarrow> 'w kern \<Rightarrow> (inj, 'w, unit) act \<Rightarrow> (inj, 'w, unit) act \<Rightarrow> (inj, 'w) testcase list" where
  "cases c k mmap_shared ipv_shared =
     [\<lparr>test_fn = dirty_anonymous c k, test_name = ''dirty anonymous'', survivable = False\<rparr>,
      \<lparr>test_fn = dirty_anonymous_unmap c k, test_name = ''dirty anonymous unmap'', survivable = False\<rparr>,
      \<lparr>test_fn = mlocked_anonymous c k, test_name = ''mlocked anonymous'', survivable = False\<rparr>,
      \<lparr>test_fn = file_clean c k, test_name = ''file clean'', survivable = True\<rparr>,
      \<lparr>test_fn = file_dirty c k, test_name = ''file dirty'', survivable = False\<rparr>,
      \<lparr>test_fn = file_hole c k, test_name = ''file hole'', survivable = False\<rparr>,
      \<lparr>test_fn = file_clean_mlocked c k, test_name = ''file clean mlocked'', survivable = True\<rparr>,
      \<lparr>test_fn = file_dirty_mlocked c k, test_name = ''file dirty mlocked'', survivable = False\<rparr>,
      \<lparr>test_fn = nonlinear c k, test_name = ''nonlinear'', survivable = False\<rparr>,
      \<lparr>test_fn = mmap_shared, test_name = ''mmap shared'', survivable = False\<rparr>,
      \<lparr>test_fn = ipv_shared, test_name = ''ipv shared'', survivable = False\<rparr>,
      \<lparr>test_fn = anonymous_hugepage c k, test_name = ''anonymous hugepage'', survivable = False\<rparr>,
      \<lparr>test_fn = file_backed_hugepage c k, test_name = ''file backed hugepage'', survivable = False\<rparr>,
      \<lparr>test_fn = shm_hugepage c k, test_name = ''shared memory hugepage'', survivable = False\<rparr>]"

text \<open>
  \<open>handle_opts\<close>: the array has room for the two sniper cases once and a terminator; a second
  \<open>--sniper\<close> writes behind it. \<open>usage\<close> exits with 1.
\<close>

fun handle_opts :: "string list \<Rightarrow> nat \<Rightarrow> injector \<Rightarrow> (nat \<times> injector) res" where
  "handle_opts [] snipers how = Inr (snipers, how)"
| "handle_opts (a # as) snipers how =
     (if a = ''--sniper'' then
        (if 0 < snipers then Inl (Undef ''write behind cases'') else handle_opts as (Suc snipers) how)
      else if a = ''--mce-inject'' then handle_opts as snipers Inject_mce_inject
      else Inl (Exit 1))"

text \<open>How a child ends that runs a case without the handler: code and status for \<open>waitid\<close>.\<close>

definition child_end :: "'w kern \<Rightarrow> bool \<Rightarrow> unit res \<Rightarrow> 'w \<Rightarrow> (int \<times> int) res" where
  "child_end k surv r w =
     (case r of
        Inr _ \<Rightarrow> Inr (CLD_EXITED, if surv then 2 else 1)
      | Inl (Exit n) \<Rightarrow> Inr (CLD_EXITED, n mod 256)
      | Inl (Fatal m) \<Rightarrow> Inr (if k_core k w then CLD_DUMPED else CLD_KILLED, SIGBUS)
      | Inl e \<Rightarrow> Inl e)"

definition child_verdict :: "bool \<Rightarrow> string \<Rightarrow> int \<times> int \<Rightarrow> inj \<Rightarrow> inj" where
  "child_verdict surv name sig g =
     (case sig of (code, status) \<Rightarrow>
        if surv then
          (if code \<noteq> CLD_EXITED then fail_with (''XXX: '' @ name @ '': child not survived'' @ [NL]) g else g)
        else if \<not> killdump code \<or> status \<noteq> SIGBUS
        then fail_with (''XXX: '' @ name @ '': child not killed by SIGBUS'' @ [NL]) g
        else g)"

text \<open>The child works on its own globals and on the world it shares with the parent.\<close>

definition run_in_child :: "'w kern \<Rightarrow> (inj, 'w) testcase \<Rightarrow> (inj, 'w, unit) act" where
  "run_in_child k t =
     sseq (upd (say (''---- testing '' @ test_name t @ '' in child'' @ [NL])))
    (sbind (call (k_fork k)) (\<lambda>forked.
       if \<not> forked then nop
       else (\<lambda>(g, w). case test_fn t (g\<lparr>handled := False\<rparr>, w) of (r, g', w) \<Rightarrow>
              (case child_end k (survivable t) r w of
                 Inl e \<Rightarrow> (Inl e, g, w)
               | Inr sig \<Rightarrow> (Inr (), child_verdict (survivable t) (test_name t) sig g, w)))))"

definition run_here :: "string \<Rightarrow> (inj, 'w) testcase \<Rightarrow> (inj, 'w, unit) act" where
  "run_here how t =
     sseq (upd (say (''---- testing '' @ test_name t @ how @ [NL]))) (test_fn t)"

definition tinjpage_main :: "'w kern \<Rightarrow> (inj, 'w) testcase list \<Rightarrow> (inj, 'w, int) act" where
  "tinjpage_main k ts =
     sseq (upd (\<lambda>g. g\<lparr>early_kill := False\<rparr>))
    (sseq (call (k_sys k (System ''sysctl -w vm.memory_failure_early_kill=0'')))
    (sseq (upd (\<lambda>g. g\<lparr>handled := True\<rparr>))
    (sseq (each (run_here []) ts)
    (sseq (each (run_in_child k) ts)
    (sseq (upd (\<lambda>g. g\<lparr>early_kill := True\<rparr>))
    (sseq (call (k_sys k (System ''sysctl -w vm.memory_failure_early_kill=1'')))
    (sseq (each (run_here '' (early kill)'') ts)
    (sbind (glob failure) (\<lambda>n.
       if 0 < n then sseq (upd (say (''FAILURE -- '' @ show_int n @ '' cases broken!'' @ [NL]))) (ret 1)
       else sseq (upd (say (''SUCCESS'' @ [NL]))) (ret 0))))))))))"

text \<open>Lines 723 to 737: whether \<open>do_shared\<close> takes the way its child ended for an error.\<close>

definition shared_child_error :: "bool \<Rightarrow> bool \<Rightarrow> int \<Rightarrow> bool" where
  "shared_child_error early handler code =
     (if \<not> early then (if \<not> handler then \<not> killdump code else code \<noteq> CLD_EXITED)
      else code \<noteq> CLD_EXITED)"

section \<open>The verdict of a test\<close>

lemma say_fields [simp]:
  "failure (say s g) = failure g" "unexpected (say s g) = unexpected g" "early_kill (say s g) = early_kill g"
  "test_hugepage (say s g) = test_hugepage g" "recovercount (say s g) = recovercount g"
  "expected_addr (say s g) = expected_addr g" "handled (say s g) = handled g" "tmpcount (say s g) = tmpcount g"
  by (simp_all add: say_def)

lemma fail_with_fields [simp]:
  "failure (fail_with s g) = failure g + 1" "early_kill (fail_with s g) = early_kill g"
  "test_hugepage (fail_with s g) = test_hugepage g" "recovercount (fail_with s g) = recovercount g"
  "expected_addr (fail_with s g) = expected_addr g" "handled (fail_with s g) = handled g" "tmpcount (fail_with s g) = tmpcount g"
  by (simp_all add: fail_with_def)

text \<open>A page size is at least 1, and so is a huge page size that is used: then the handler returns.\<close>

definition sizes_ok :: "tconf \<Rightarrow> inj \<Rightarrow> bool" where
  "sizes_ok c g \<longleftrightarrow> 1 \<le> PS c \<and> (test_hugepage g \<longrightarrow> 1 \<le> HPS c)"

lemma deliver_first:
  assumes "sizes_ok c g" "handled g" "recovercount g = 5" "jump_ok (if si_code b = 4 then To_recover else To_early) ctx"
  shows "\<exists>g'. deliver c ctx b (g, w) = (Inr (), g', w) \<and> failure g' = failure g + (if si_addr b = expected_addr g then 0 else 1)
    \<and> early_kill g' = early_kill g \<and> test_hugepage g' = test_hugepage g \<and> handled g' = True \<and> recovercount g' = 4
    \<and> unexpected g' = unexpected g"
proof -
  from assms(1) obtain l where "(if test_hugepage g then ilog2 (HPS c) else PAGE_LSB c) = Some l"
    by (cases "test_hugepage g") (simp_all add: sizes_ok_def PAGE_LSB_def ilog2_def)
  with assms(2-4) show ?thesis
    by (cases "test_hugepage g") (simp_all add: deliver_def sighandler_def act_run fail_with_def)
qed

text \<open>The deviations of a test: what the kernel did at the injection and at the access, against the mode.\<close>

definition wrong_address :: "u64 \<Rightarrow> bus option \<Rightarrow> nat" where
  "wrong_address page sig = (case sig of None \<Rightarrow> 0 | Some b \<Rightarrow> if si_addr b = page then 0 else 1)"

definition early_deviations :: "bool \<Rightarrow> rmode \<Rightarrow> u64 \<Rightarrow> bus option \<Rightarrow> nat" where
  "early_deviations early mode page sig =
     wrong_address page sig + (if early \<and> (sig = None \<and> must_die mode \<or> sig \<noteq> None \<and> survives mode) then 1 else 0)"

definition access_deviations :: "rmode \<Rightarrow> u64 \<Rightarrow> bus option \<Rightarrow> nat" where
  "access_deviations mode page sig =
     wrong_address page sig + (if sig = None \<and> must_die mode \<or> sig \<noteq> None \<and> survives mode then 1 else 0)"

lemma poison_verdict:
  assumes "sizes_ok c g" "handled g"
    and inj: "inject c k page (g\<lparr>expected_addr := page, recovercount := 5\<rparr>, w)
      = (Inr sig, g\<lparr>expected_addr := page, recovercount := 5\<rparr>, w')"
    and code: "\<And>b. sig = Some b \<Longrightarrow> si_code b \<noteq> 4"
  shows "\<exists>g'. poison c k msg page mode (g, w) = (Inr (), g', w')
    \<and> failure g' = failure g + int (early_deviations (early_kill g) mode page sig)
    \<and> early_kill g' = early_kill g \<and> test_hugepage g' = test_hugepage g \<and> handled g' \<and> 4 \<le> recovercount g'"
proof (cases sig)
  case None
  with inj show ?thesis by (auto simp: poison_def act_run early_deviations_def wrong_address_def assms(2))
next
  case (Some b)
  let ?g = "g\<lparr>expected_addr := page, recovercount := 5\<rparr>"
  have "sizes_ok c ?g" using assms(1) by (simp add: sizes_ok_def)
  from deliver_first [OF this, of b In_poison w'] code [OF Some] assms(2) obtain g1 where
    "deliver c In_poison b (?g, w') = (Inr (), g1, w')"
    "failure g1 = failure g + (if si_addr b = page then 0 else 1)" "early_kill g1 = early_kill g"
    "test_hugepage g1 = test_hugepage g" "handled g1" "recovercount g1 = 4" by auto
  with inj Some show ?thesis by (auto simp: poison_def act_run early_deviations_def wrong_address_def)
qed

lemma recover_verdict:
  assumes "sizes_ok c g" "handled g"
    and tch: "touch k page mode (g\<lparr>expected_addr := page, recovercount := 5\<rparr>, w) = (Inr sig, g1, w')"
    and g1: "g1 = g\<lparr>expected_addr := page, recovercount := 5, printed := printed g1\<rparr>"
    and code: "\<And>b. sig = Some b \<Longrightarrow> si_code b = 4"
  shows "\<exists>g'. recover c k msg page mode (g, w) = (Inr (), g', w')
    \<and> failure g' = failure g + int (access_deviations mode page sig)
    \<and> early_kill g' = early_kill g \<and> test_hugepage g' = test_hugepage g \<and> handled g' \<and> 4 \<le> recovercount g'"
proof -
  have f: "failure g1 = failure g" "early_kill g1 = early_kill g" "test_hugepage g1 = test_hugepage g"
    "handled g1" "recovercount g1 = 5" "expected_addr g1 = page"
    using assms(2) by (subst g1, simp)+
  show ?thesis
  proof (cases sig)
    case None
    with tch f show ?thesis by (auto simp: recover_def act_run access_deviations_def wrong_address_def)
  next
    case (Some b)
    have "sizes_ok c g1" using assms(1) f by (simp add: sizes_ok_def)
    from deliver_first [OF this, of b In_recover w'] code [OF Some] f obtain g2 where
      "deliver c In_recover b (g1, w') = (Inr (), g2, w')"
      "failure g2 = failure g + (if si_addr b = page then 0 else 1)" "early_kill g2 = early_kill g"
      "test_hugepage g2 = test_hugepage g" "handled g2" "recovercount g2 = 4" by auto
    with tch Some show ?thesis by (auto simp: recover_def act_run access_deviations_def wrong_address_def)
  qed
qed

text \<open>The access of a mode, as the kernel sees it.\<close>

definition kernel_access :: "'w kern \<Rightarrow> u64 \<Rightarrow> rmode \<Rightarrow> 'w \<Rightarrow> bus option \<times> 'w" where
  "kernel_access k page mode w =
     (case mode of
        MWRITE \<Rightarrow> k_store k page 2 w
      | MWRITE_OK \<Rightarrow> k_store k page 4 w
      | MNOTHING \<Rightarrow> (None, w)
      | _ \<Rightarrow> (case k_load k page w of (Inl b, w) \<Rightarrow> (Some b, w) | (Inr x, w) \<Rightarrow> (None, w)))"

lemma touch_access:
  assumes "kernel_access k page mode w = (sig, w')"
  shows "\<exists>g'. touch k page mode (g, w) = (Inr sig, g', w') \<and> g' = g\<lparr>printed := printed g'\<rparr>"
  using assms
  by (cases mode) (auto simp: kernel_access_def touch_def act_run say_def split: prod.splits sum.splits)

lemma testmem_exact:
  assumes "sizes_ok c g" "handled g" "inject_fn c = Inject_madvise"
    and "k_poison k page w = (r, w1)" "r = Inr 0 \<or> (\<exists>b. r = Inl b \<and> si_code b \<noteq> 4)"
    and "kernel_access k page mode w1 = (sig, w2)" "\<And>b. sig = Some b \<Longrightarrow> si_code b = 4"
  shows "\<exists>g'. testmem c k msg page mode (g, w) = (Inr (), g', w2)
    \<and> failure g' = failure g + int (early_deviations (early_kill g) mode page (case r of Inl b \<Rightarrow> Some b | _ \<Rightarrow> None))
                   + int (access_deviations mode page sig)"
proof -
  let ?e = "case r of Inl b \<Rightarrow> Some b | _ \<Rightarrow> None"
  let ?g = "say ([TAB] @ msg @ '' poisoning page '' @ fmt_ptr page @ [NL]) g"
  have ok: "sizes_ok c ?g" "handled ?g" using assms(1,2) by (simp_all add: sizes_ok_def)
  have inj: "inject c k page (h, w) = (Inr ?e, h, w1)" for h
    using assms(3-5) by (auto simp: inject_def inject_madvise_def act_run)
  obtain g1 where 1: "poison c k msg page mode (?g, w) = (Inr (), g1, w1)"
    "failure g1 = failure g + int (early_deviations (early_kill g) mode page ?e)"
    "early_kill g1 = early_kill g" "test_hugepage g1 = test_hugepage g" "handled g1"
    using poison_verdict [OF ok inj, where mode = mode and msg = msg] assms(5) by (auto split: sum.splits)
  have ok1: "sizes_ok c g1" using assms(1) 1 by (simp add: sizes_ok_def)
  obtain h where h: "touch k page mode (g1\<lparr>expected_addr := page, recovercount := 5\<rparr>, w1) = (Inr sig, h, w2)"
    "h = g1\<lparr>expected_addr := page, recovercount := 5, printed := printed h\<rparr>"
    using touch_access [OF assms(6), of "g1\<lparr>expected_addr := page, recovercount := 5\<rparr>"] by auto
  from recover_verdict [OF ok1 1(5) h assms(7), where msg = msg] 1(2) obtain g2 where
    "recover c k msg page mode (g1, w1) = (Inr (), g2, w2)" "failure g2 = failure g1 + int (access_deviations mode page sig)"
    by auto
  with 1 show ?thesis by (simp add: testmem_def act_run)
qed

text \<open>The verdict of \<open>testmem\<close> is exact: with the poison injected by \<open>madvise\<close>, the failure count goes up by the
  number of deviations of the kernel, that is a wrong address in a signal, no signal where one must
  come (at the injection when early killing is on, and at the access) and a signal where none may come.\<close>

theorem testmem_verdict:
  assumes "sizes_ok c g" "handled g" "inject_fn c = Inject_madvise"
    and "k_poison k page w = (r, w1)" "r = Inr 0 \<or> (\<exists>b. r = Inl b \<and> si_code b \<noteq> 4)"
    and "kernel_access k page mode w1 = (sig, w2)" "\<And>b. sig = Some b \<Longrightarrow> si_code b = 4"
  shows "\<exists>g'. testmem c k msg page mode (g, w) = (Inr (), g', w2)
    \<and> failure g' = failure g + int (early_deviations (early_kill g) mode page (case r of Inl b \<Rightarrow> Some b | _ \<Rightarrow> None))
                   + int (access_deviations mode page sig)"
  using testmem_exact [OF assms] .

text \<open>A kernel whose pages are poisoned by \<open>madvise\<close>; the world is the poisoned addresses.\<close>

definition demo_kern :: "u64 list kern" where
  "demo_kern = \<lparr>k_poison = (\<lambda>a w. (Inr 0, a # w)),
     k_load = (\<lambda>a w. (if a \<in> set w then Inl \<lparr>si_code = 4, si_addr = a, si_addr_lsb = 12\<rparr> else Inr 0, w)),
     k_store = (\<lambda>a x w. (if a \<in> set w then Some \<lparr>si_code = 4, si_addr = a, si_addr_lsb = 12\<rparr> else None, w)),
     k_mmap = (\<lambda>_ _ _ _ w. (Some 4096, w)), k_shmat = (\<lambda>_ w. (Some 4096, w)), k_sys = (\<lambda>_ w. (0, w)),
     k_pagemap = (\<lambda>_ _. None), k_mce_inject = (\<lambda>_ w. (Inr True, w)), k_fork = (\<lambda>w. (True, w)), k_core = (\<lambda>_. False)\<rparr>"

definition demo_tconf :: tconf where
  "demo_tconf = \<lparr>PS = 4096, HPS = 0, inject_fn = Inject_madvise, hugetlbfsdir = []\<rparr>"

definition demo_inj :: inj where
  "demo_inj = \<lparr>failure = 0, unexpected = 0, early_kill = False, test_hugepage = False, recovercount = 0,
     expected_addr = 0, handled = True, tmpcount = 0, printed = []\<rparr>"

theorem testmem_verdict_witness:
  "\<exists>g'. testmem demo_tconf demo_kern ''dirty'' 4096 MWRITE (demo_inj, []) = (Inr (), g', [4096]) \<and> failure g' = 0"
proof -
  have "sizes_ok demo_tconf demo_inj" "handled demo_inj" "inject_fn demo_tconf = Inject_madvise"
    "k_poison demo_kern 4096 [] = (Inr 0, [4096])"
    "kernel_access demo_kern 4096 MWRITE [4096] = (Some \<lparr>si_code = 4, si_addr = 4096, si_addr_lsb = 12\<rparr>, [4096])"
    by (simp_all add: sizes_ok_def demo_tconf_def demo_inj_def demo_kern_def kernel_access_def)
  from testmem_verdict [OF this(1-4) _ this(5), of "''dirty''"] show ?thesis
    by (auto simp: demo_inj_def early_deviations_def access_deviations_def wrong_address_def)
qed

section \<open>The signal loop\<close>

lemma deliver_no_loop:
  "deliver c ctx b (g, w) = (Inl (Exit 1), s) \<Longrightarrow> recovercount g \<le> 1"
  by (auto simp: deliver_def sighandler_def act_run split: option.splits prod.splits sum.splits if_splits)

lemma touch_recovercount:
  "touch k page mode (g, w) = (r, g', w') \<Longrightarrow> recovercount g' = recovercount g \<and> (\<exists>sig. r = Inr sig)"
  by (cases mode) (auto simp: touch_def act_run say_def split: prod.splits sum.splits)

text \<open>The bail-out of the signal handler (\<open>I seem to be in a signal loop\<close>) is never reached: every injection and
  every access allow five signals, and the first one already ends it. So whatever the kernel does, a
  test with \<open>madvise\<close> does not exit with 1.\<close>

theorem signal_loop_unreachable:
  assumes "inject_fn c = Inject_madvise"
  shows "fst (testmem c k msg page mode (g, w)) \<noteq> Inl (Exit 1)"
proof -
  have rec: "fst (recover c k msg page mode (h, u)) \<noteq> Inl (Exit 1)" for h u
  proof -
    let ?h = "h\<lparr>expected_addr := page, recovercount := 5\<rparr>"
    obtain r h' u' where t: "touch k page mode (?h, u) = (r, h', u')" by (metis prod_cases3)
    from touch_recovercount [OF t] obtain sig where "recovercount h' = 5" "r = Inr sig" by auto
    with t show ?thesis
      by (cases sig) (auto simp: recover_def act_run dest!: deliver_no_loop split: prod.splits sum.splits)
  qed
  have poi: "fst (poison c k msg page mode (h, u)) \<noteq> Inl (Exit 1)" for h u
  proof -
    let ?h = "h\<lparr>expected_addr := page, recovercount := 5\<rparr>"
    obtain r h' u' where i: "inject c k page (?h, u) = (r, h', u')" by (metis prod_cases3)
    with assms have "recovercount h' = 5" "r \<noteq> Inl (Exit 1)"
      by (auto simp: inject_def inject_madvise_def act_run split: prod.splits sum.splits if_splits)
    with i show ?thesis
      by (auto simp: poison_def act_run dest!: deliver_no_loop split: prod.splits sum.splits option.splits)
  qed
  show ?thesis
    using poi [of "say ([TAB] @ msg @ '' poisoning page '' @ fmt_ptr page @ [NL]) g" w] rec
    by (auto simp: testmem_def act_run split: prod.splits sum.splits)
qed

theorem signal_loop_unreachable_witness:
  "fst (testmem demo_tconf demo_kern ''dirty'' 4096 MREAD (demo_inj, [])) \<noteq> Inl (Exit 1)"
  by (rule signal_loop_unreachable) (simp add: demo_tconf_def)

section \<open>Children\<close>

text \<open>The verdict on a child that must be killed looks at the status alone: \<open>CLD_KILLDUMP\<close> is 3, which has a bit in
  common with \<open>CLD_EXITED\<close>, so an exit passes the test of the code. \<open>do_shared\<close> only has that test: it
  never notices a child that exits instead of being killed.\<close>

theorem child_exit_accepted:
  "failure (child_verdict False name (CLD_EXITED, status) g) = failure g + (if status = SIGBUS then 0 else 1)
   \<and> failure (child_verdict False name (CLD_KILLED, status) g) = failure g + (if status = SIGBUS then 0 else 1)
   \<and> failure (child_verdict False name (CLD_DUMPED, status) g) = failure g + (if status = SIGBUS then 0 else 1)
   \<and> failure (child_verdict True name (code, status) g) = failure g + (if code = CLD_EXITED then 0 else 1)
   \<and> \<not> shared_child_error False False CLD_EXITED"
proof -
  have "killdump CLD_EXITED" "killdump CLD_KILLED" "killdump CLD_DUMPED"
    by (simp_all add: killdump_def CLD_EXITED_def CLD_KILLED_def CLD_DUMPED_def)
  then show ?thesis by (simp add: child_verdict_def shared_child_error_def)
qed

end
