(* ===== verification/Page_Poisoning.thy ===== *)
theory Page_Poisoning
  imports Poison_Base
begin

text \<open>
  \<open>cases/stress/hwpoison/tools/page-poisoning/page-poisoning.c\<close>: many processes inject poison into their
  own pages and report through a shared table. The messages go through a buffer of 100 bytes. The
  interleaving of the processes in the shared memory test is in \<open>Shm_Barrier\<close>.
\<close>

section \<open>Globals\<close>

definition LOG_BUFLEN :: nat where "LOG_BUFLEN = 100"
definition INSTANCE_NUM :: int where "INSTANCE_NUM = 10000"
definition SHM_SIZE :: int where "SHM_SIZE = 1"
definition PATH_MAX :: nat where "PATH_MAX = 4096"

record pp_globals =
  failures :: int
  unexpecteds :: int
  early_kills :: bool
  recover_count :: int
  expected :: u64
  ipc_entry :: int
  semid_ready :: int
  shmptr :: u64
  log_open :: bool
  result_open :: bool
  log_lines :: "string list"
  result_lines :: "string list"

text \<open>
  The table in shared memory: \<open>(id, passed)\<close> for each instance, and the segment of the shared memory
  test. It is part of the world.
\<close>

record ipc =
  tests :: "nat \<Rightarrow> nat \<times> bool"
  shm_id :: int
  shm_ready :: bool
  shm_done :: bool

text \<open>What stays fixed in a process: \<open>errtext\<close> is what \<open>strerror (errno)\<close> gives for the pending error.\<close>

record pp_conf =
  PSZ :: nat
  mypid :: int
  tmp_dir :: string
  errtext :: string
  instance_no :: nat
  testid :: nat

datatype test_case =
    SHARED_MEM | ANON_CLEAN | ANON_DIRTY | ANON_DIRTY_UNMAP | ANON_DIRTY_MLOCKED
  | FILE_CLEAN | FILE_CLEAN_MLOCKED | FILE_DIRTY | FILE_DIRTY_MLOCKED

type_synonym ('w, 'a) pp_act = "(pp_globals, ipc \<times> 'w, 'a) act"

text \<open>A call of the kernel beside the table.\<close>

definition kcall :: "('w \<Rightarrow> 'a \<times> 'w) \<Rightarrow> ('w, 'a) pp_act" where
  "kcall f = call (\<lambda>(i, w). case f w of (x, w) \<Rightarrow> (x, (i, w)))"

section \<open>Messages\<close>

definition pid_tag :: "pp_conf \<Rightarrow> string \<Rightarrow> string" where
  "pid_tag c s = ''[pid '' @ show_int (mypid c) @ ''] '' @ s"

text \<open>\<open>vsprintf\<close> into \<open>buf[LOG_BUFLEN]\<close>.\<close>

definition into_buf :: "string \<Rightarrow> ('g, 'w, unit) act" where
  "into_buf s = (if LOG_BUFLEN \<le> length s then halt (Undef ''log buffer overflow'') else nop)"

text \<open>Without a log file \<open>mylog\<close> calls \<open>err\<close>, which goes through \<open>result\<close> when that file is open.\<close>

definition put_log :: "pp_conf \<Rightarrow> string \<Rightarrow> ('w, unit) pp_act" where
  "put_log c s =
     sseq (into_buf s) (upd (\<lambda>g. g\<lparr>log_lines := log_lines g @ [pid_tag c s]\<rparr>))"

definition put_result :: "pp_conf \<Rightarrow> string \<Rightarrow> ('w, unit) pp_act" where
  "put_result c s =
     sseq (into_buf s)
    (sseq (upd (\<lambda>g. g\<lparr>result_lines := result_lines g @ [pid_tag c s]\<rparr>))
    (sbind (glob log_open) (\<lambda>l. if l then put_log c s else nop)))"

definition pp_err :: "pp_conf \<Rightarrow> string \<Rightarrow> ('w, 'a) pp_act" where
  "pp_err c s =
     sseq (into_buf s)
    (sbind (glob result_open) (\<lambda>r.
       sseq (if r then put_result c (''error: '' @ s @ '' :'' @ errtext c @ [NL]) else nop) (halt (Exit 1))))"

definition mylog :: "pp_conf \<Rightarrow> string \<Rightarrow> ('w, unit) pp_act" where
  "mylog c s = sbind (glob log_open) (\<lambda>l. if l then put_log c s else pp_err c (''no log file there'' @ [NL]))"

definition result :: "pp_conf \<Rightarrow> string \<Rightarrow> ('w, unit) pp_act" where
  "result c s = sbind (glob result_open) (\<lambda>r. if r then put_result c s else pp_err c (''no result file there'' @ [NL]))"

definition fail_result :: "pp_conf \<Rightarrow> string \<Rightarrow> ('w, unit) pp_act" where
  "fail_result c s = sseq (result c s) (upd (\<lambda>g. g\<lparr>failures := failures g + 1\<rparr>))"

section \<open>Signals, poisoning, recovering\<close>

definition pp_mmap :: "pp_conf \<Rightarrow> 'w kern \<Rightarrow> prot list \<Rightarrow> mflag list \<Rightarrow> int \<Rightarrow> ('w, u64) pp_act" where
  "pp_mmap c k prots flags fd =
     sbind (kcall (k_mmap k (PSZ c) prots flags fd)) (\<lambda>m.
       case m of None \<Rightarrow> pp_err c ''mmap'' | Some page \<Rightarrow> ret page)"

text \<open>Here no result is looked at.\<close>

definition pp_munmap_reserve :: "'w kern \<Rightarrow> u64 \<Rightarrow> nat \<Rightarrow> ('w, unit) pp_act" where
  "pp_munmap_reserve k page len =
     sseq (kcall (k_sys k (Munmap page len))) (sseq (kcall (k_sys k (Reserve page len))) nop)"

definition pp_sighandler :: "pp_conf \<Rightarrow> bus \<Rightarrow> ('w, jump) pp_act" where
  "pp_sighandler c b =
     sseq (mylog c (''signal 7 code '' @ show_int (si_code b) @ '' addr '' @ fmt_ptr (si_addr b) @ [NL]))
    (sbind (glob expected) (\<lambda>e.
     sseq (if si_addr b \<noteq> e
           then fail_result c (''failed: Unexpected address in signal '' @ fmt_ptr (si_addr b) @ '' (expected ''
                  @ fmt_ptr e @ '')'' @ [NL])
           else nop)
    (sseq (upd (\<lambda>g. g\<lparr>recover_count := recover_count g - 1\<rparr>))
    (sbind (glob recover_count) (\<lambda>n.
       if n = 0 then sseq (result c (''failed: I seem to be in a signal loop. bailing out.'' @ [NL])) (halt (Exit 1))
       else ret (if si_code b = 4 then To_recover else To_early))))))"

definition pp_deliver :: "pp_conf \<Rightarrow> ctx \<Rightarrow> bus \<Rightarrow> ('w, unit) pp_act" where
  "pp_deliver c ctx b =
     sbind (pp_sighandler c b) (\<lambda>j.
       if jump_ok j ctx then nop else halt (Undef ''siglongjmp to a function that has returned''))"

definition expected_failure_text :: string where
  "expected_failure_text =
     ''Kernel can'' @ [CHR 0x27] @ ''t recover a reserved kernel zeroed page for ''
     @ ''the anonymous clean test case(expected failure)'' @ [NL]"

definition pp_poison :: "pp_conf \<Rightarrow> 'w kern \<Rightarrow> string \<Rightarrow> u64 \<Rightarrow> rmode \<Rightarrow> test_case \<Rightarrow> ('w, unit) pp_act" where
  "pp_poison c k msg page mode tc =
     sseq (upd (\<lambda>g. g\<lparr>expected := page, recover_count := 5\<rparr>))
    (sbind (kcall (k_poison k page)) (\<lambda>r.
     sbind (glob early_kills) (\<lambda>early. case r of
         Inr e \<Rightarrow>
           if e \<noteq> 0 then
             (if e = EINVAL then
                sseq (result c (''failed: Kernel doesn'' @ [CHR 0x27] @ ''t support poison injection'' @ [NL])) (halt (Exit 0))
              else if e = EBUSY \<and> tc = ANON_CLEAN then mylog c expected_failure_text
              else pp_err c (''error: madvise: '' @ errtext c))
           else if early \<and> must_die mode
           then fail_result c (''failed: '' @ msg @ '': process is not early killed'' @ [NL])
           else nop
       | Inl b \<Rightarrow>
           sseq (pp_deliver c In_poison b)
             (if early
              then (if survives mode then fail_result c (''failed: '' @ msg @ '': killed'' @ [NL])
                    else mylog c (''pass: recovered'' @ [NL]))
              else nop))))"

definition pp_touch :: "pp_conf \<Rightarrow> 'w kern \<Rightarrow> u64 \<Rightarrow> rmode \<Rightarrow> ('w, bus option) pp_act" where
  "pp_touch c k page mode =
     (case mode of
        MWRITE \<Rightarrow> sseq (mylog c (''writing 2'' @ [NL])) (kcall (k_store k page 2))
      | MWRITE_OK \<Rightarrow> sseq (mylog c (''writing 4'' @ [NL])) (kcall (k_store k page 4))
      | MNOTHING \<Rightarrow> ret None
      | _ \<Rightarrow> sbind (kcall (k_load k page)) (\<lambda>r. case r of
             Inl b \<Rightarrow> ret (Some b)
           | Inr x \<Rightarrow> sseq (mylog c (''reading '' @ show_hex (unat x) @ [NL])) (ret None)))"

definition pp_recover :: "pp_conf \<Rightarrow> 'w kern \<Rightarrow> string \<Rightarrow> u64 \<Rightarrow> rmode \<Rightarrow> ('w, unit) pp_act" where
  "pp_recover c k msg page mode =
     sseq (upd (\<lambda>g. g\<lparr>expected := page, recover_count := 5\<rparr>))
    (sbind (pp_touch c k page mode) (\<lambda>sig. case sig of
         None \<Rightarrow>
           if must_die mode
           then fail_result c (''failed: '' @ msg @ '': page is not poisoned after injection'' @ [NL])
           else nop
       | Some b \<Rightarrow>
           sseq (pp_deliver c In_recover b)
             (if survives mode then fail_result c (''failed: '' @ msg @ '': killed'' @ [NL])
              else mylog c (''pass: recovered'' @ [NL]))))"

definition pp_testmem :: "pp_conf \<Rightarrow> 'w kern \<Rightarrow> string \<Rightarrow> u64 \<Rightarrow> rmode \<Rightarrow> test_case \<Rightarrow> ('w, unit) pp_act" where
  "pp_testmem c k msg page mode tc =
     sseq (mylog c (msg @ '' poisoning page '' @ fmt_ptr page @ [NL]))
    (sseq (pp_poison c k msg page mode tc) (pp_recover c k msg page mode))"

text \<open>The error number in the messages is not modelled.\<close>

definition pp_expecterr :: "pp_conf \<Rightarrow> string \<Rightarrow> bool \<Rightarrow> ('w, unit) pp_act" where
  "pp_expecterr c msg e =
     (if e then mylog c (''pass: expected error on '' @ msg @ [NL])
      else fail_result c (''failed: unexpected no error on '' @ msg @ [NL]))"

definition pp_optionalerr :: "pp_conf \<Rightarrow> string \<Rightarrow> bool \<Rightarrow> ('w, unit) pp_act" where
  "pp_optionalerr c msg e =
     (if e then mylog c (''pass: expected error on '' @ msg @ [NL])
      else sseq (mylog c (''LATER: expected likely incorrect no error on '' @ msg @ [NL]))
             (upd (\<lambda>g. g\<lparr>unexpecteds := unexpecteds g + 1\<rparr>)))"

section \<open>Test cases\<close>

text \<open>What every case has in common: the table is attached, the id written, the result when nothing failed.\<close>

definition attached :: "pp_conf \<Rightarrow> 'w kern \<Rightarrow> ('w, unit) pp_act \<Rightarrow> ('w, unit) pp_act" where
  "attached c k body =
     sbind (glob ipc_entry) (\<lambda>entry.
     sbind (kcall (k_shmat k entry)) (\<lambda>p. case p of
         None \<Rightarrow> pp_err c (''shmat error'' @ [NL])
       | Some at \<Rightarrow>
           sseq (call (\<lambda>(i, w). ((), (i\<lparr>tests := (tests i)(instance_no c := (testid c, snd (tests i (instance_no c))))\<rparr>, w))))
          (sseq body
          (sbind (glob failures) (\<lambda>n.
           sseq (if n = 0
                 then call (\<lambda>(i, w). ((), (i\<lparr>tests := (tests i)(instance_no c := (fst (tests i (instance_no c)), True))\<rparr>, w)))
                 else nop)
          (sseq (kcall (k_sys k (Shmdt at))) nop))))))"

definition pp_playfile :: "pp_conf \<Rightarrow> 'w kern \<Rightarrow> string \<Rightarrow> ('w, string \<times> int) pp_act" where
  "pp_playfile c k buf =
     (let buf = (if buf = [] then take (PATH_MAX - 1) (tmp_dir c @ ''/dirty'' @ show_int (mypid c)) else buf) in
      sbind (kcall (k_sys k (Open buf ''O_CREAT|O_RDWR|O_TRUNC''))) (\<lambda>fd.
        if fd < 0 then pp_err c (''opening temporary file: '' @ buf)
        else sseq (kcall (k_sys k (Write fd (map of_nat [0..<PSZ c * 5]))))
            (sseq (kcall (k_sys k (Lseek fd 0))) (ret (buf, fd)))))"

definition pp_dirty_anonymous :: "pp_conf \<Rightarrow> 'w kern \<Rightarrow> ('w, unit) pp_act" where
  "pp_dirty_anonymous c k = attached c k
     (sbind (pp_mmap c k [PROT_READ, PROT_WRITE] [MAP_PRIVATE, MAP_ANONYMOUS, MAP_POPULATE] 0) (\<lambda>page.
        pp_testmem c k ''dirty'' page MWRITE ANON_DIRTY))"

definition pp_dirty_anonymous_unmap :: "pp_conf \<Rightarrow> 'w kern \<Rightarrow> ('w, unit) pp_act" where
  "pp_dirty_anonymous_unmap c k = attached c k
     (sbind (pp_mmap c k [PROT_READ, PROT_WRITE] [MAP_PRIVATE, MAP_ANONYMOUS, MAP_POPULATE] 0) (\<lambda>page.
        sseq (pp_testmem c k ''dirty'' page MWRITE ANON_DIRTY_UNMAP) (pp_munmap_reserve k page (PSZ c))))"

definition pp_mlocked_anonymous :: "pp_conf \<Rightarrow> 'w kern \<Rightarrow> ('w, unit) pp_act" where
  "pp_mlocked_anonymous c k = attached c k
     (sbind (pp_mmap c k [PROT_READ, PROT_WRITE] [MAP_PRIVATE, MAP_ANONYMOUS, MAP_LOCKED] 0) (\<lambda>page.
        pp_testmem c k ''mlocked'' page MWRITE ANON_DIRTY_MLOCKED))"

definition clean_anonymous :: "pp_conf \<Rightarrow> 'w kern \<Rightarrow> ('w, unit) pp_act" where
  "clean_anonymous c k =
     sbind (pp_mmap c k [PROT_READ, PROT_WRITE] [MAP_PRIVATE, MAP_ANONYMOUS] 0) (\<lambda>page.
       pp_testmem c k ''clean'' page MWRITE_OK ANON_CLEAN)"

definition anon_clean :: "pp_conf \<Rightarrow> 'w kern \<Rightarrow> ('w, unit) pp_act" where
  "anon_clean c k = attached c k (clean_anonymous c k)"

definition pp_reread :: "pp_conf \<Rightarrow> 'w kern \<Rightarrow> u64 \<Rightarrow> ('w, unit) pp_act" where
  "pp_reread c k page =
     sbind (kcall (k_load k page)) (\<lambda>r. case r of
         Inl b \<Rightarrow> pp_deliver c Outside b
       | Inr x \<Rightarrow> mylog c (''reading '' @ show_hex (unat x) @ [NL]))"

definition pp_do_file_clean :: "pp_conf \<Rightarrow> 'w kern \<Rightarrow> mflag list \<Rightarrow> string \<Rightarrow> ('w, unit) pp_act" where
  "pp_do_file_clean c k flags name =
     (let fn = take (PATH_MAX - 1) (tmp_dir c @ ''/clean'' @ show_int (mypid c)) in
      sbind (kcall (k_sys k (Open fn ''O_RDWR|O_TRUNC|O_CREAT''))) (\<lambda>fd.
        if fd < 0 then pp_err c (''opening temporary file: '' @ fn)
        else sseq (kcall (k_sys k (Write fd (map (of_nat \<circ> of_char) (take 4 fn)))))
        (sbind (pp_mmap c k [PROT_READ, PROT_WRITE] (MAP_SHARED # flags) fd) (\<lambda>page.
         sseq (kcall (k_sys k (Fsync fd)))
        (sseq (kcall (k_sys k (Close fd)))
        (sseq (pp_testmem c k name page MREAD_OK FILE_CLEAN)
        (sseq (pp_reread c k page)
              (pp_testmem c k name page MWRITE_OK FILE_CLEAN))))))))"

definition pp_file_clean :: "pp_conf \<Rightarrow> 'w kern \<Rightarrow> ('w, unit) pp_act" where
  "pp_file_clean c k = attached c k (pp_do_file_clean c k [] ''file clean'')"

definition pp_file_clean_mlocked :: "pp_conf \<Rightarrow> 'w kern \<Rightarrow> ('w, unit) pp_act" where
  "pp_file_clean_mlocked c k = attached c k (pp_do_file_clean c k [MAP_LOCKED] ''file clean mlocked'')"

definition pp_ndesc :: "string \<Rightarrow> string \<Rightarrow> string" where
  "pp_ndesc name add = take 99 (name @ '' '' @ add)"

definition pp_remap_and_read ::
    "pp_conf \<Rightarrow> 'w kern \<Rightarrow> string \<Rightarrow> mflag list \<Rightarrow> string \<Rightarrow> ('w, unit) pp_act" where
  "pp_remap_and_read c k fn flags msg =
     sbind (kcall (k_sys k (Open fn ''O_RDONLY''))) (\<lambda>fd.
       if fd < 0 then pp_err c ''reopening temp file''
       else sbind (pp_mmap c k [PROT_READ] flags fd) (\<lambda>page.
         sseq (pp_recover c k msg page MREAD_OK)
        (sseq (kcall (k_sys k (Close fd))) (pp_munmap_reserve k page (PSZ c)))))"

definition pp_do_file_dirty :: "pp_conf \<Rightarrow> 'w kern \<Rightarrow> mflag list \<Rightarrow> string \<Rightarrow> ('w, unit) pp_act" where
  "pp_do_file_dirty c k flags name =
     sbind (pp_playfile c k []) (\<lambda>(fn, fd).
     sbind (pp_mmap c k [PROT_READ] ([MAP_SHARED, MAP_POPULATE] @ flags) fd) (\<lambda>page.
     sseq (pp_testmem c k (pp_ndesc name ''initial'') page MREAD FILE_DIRTY)
    (sbind (kcall (k_sys k (Msync page (PSZ c)))) (\<lambda>r.
     sseq (pp_expecterr c ''msync expect error'' (r < 0))
    (sseq (kcall (k_sys k (Close fd)))
    (sseq (pp_munmap_reserve k page (PSZ c))
    (sseq (pp_remap_and_read c k fn ([MAP_SHARED, MAP_POPULATE] @ flags) (pp_ndesc name ''populated''))
    (sseq (pp_remap_and_read c k fn (MAP_SHARED # flags) (pp_ndesc name ''fault''))
    (sbind (kcall (k_sys k (Open fn ''O_RDWR''))) (\<lambda>fd.
     sbind (kcall (k_sys k (Read fd 128))) (\<lambda>r.
     sseq (pp_optionalerr c ''explicit read after poison'' (r < 0))
    (sbind (kcall (k_sys k (Write fd (map (of_nat \<circ> of_char) ''foobar'')))) (\<lambda>r.
     sseq (pp_optionalerr c ''explicit write after poison'' (r < 0))
    (sbind (kcall (k_sys k (Fsync fd))) (\<lambda>r.
     sseq (pp_optionalerr c ''fsync expect error'' (r < 0))
    (sseq (kcall (k_sys k (Close fd)))
    (sseq (kcall (k_sys k (Unlink fn))) nop)))))))))))))))))"

definition pp_file_dirty :: "pp_conf \<Rightarrow> 'w kern \<Rightarrow> ('w, unit) pp_act" where
  "pp_file_dirty c k = attached c k (pp_do_file_dirty c k [] ''file dirty'')"

definition pp_file_dirty_mlocked :: "pp_conf \<Rightarrow> 'w kern \<Rightarrow> ('w, unit) pp_act" where
  "pp_file_dirty_mlocked c k = attached c k (pp_do_file_dirty c k [MAP_LOCKED] ''file dirty mlocked'')"

text \<open>The table of cases; the shared memory case, which waits for other processes, is an argument.\<close>

definition pp_cases :: "('w, unit) pp_act \<Rightarrow> pp_conf \<Rightarrow> 'w kern \<Rightarrow> (('w, unit) pp_act \<times> string \<times> bool) list" where
  "pp_cases shm_test c k =
     [(shm_test, ''shared memory test'', False), (anon_clean c k, ''anonymous clean'', True),
      (pp_dirty_anonymous c k, ''anonymous dirty'', False), (pp_dirty_anonymous_unmap c k, ''anonymous dirty unmap'', False),
      (pp_mlocked_anonymous c k, ''anonymous dirty mlocked'', False), (pp_file_clean c k, ''file clean'', True),
      (pp_file_dirty c k, ''file dirty'', False), (pp_file_clean_mlocked c k, ''file clean mlocked'', True),
      (pp_file_dirty_mlocked c k, ''file dirty mlocked'', False)]"

section \<open>The parent\<close>

text \<open>C division truncates.\<close>

definition c_div :: "int \<Rightarrow> int \<Rightarrow> int" where "c_div a b = sgn a * sgn b * (\<bar>a\<bar> div \<bar>b\<bar>)"
definition c_mod :: "int \<Rightarrow> int \<Rightarrow> int" where "c_mod a b = a - b * c_div a b"

text \<open>\<open>setup_test\<close>: the index of the shared memory test, -1 for none, and the number of cases.\<close>

definition setup_test :: "bool list \<Rightarrow> int \<times> int" where
  "setup_test is_shm =
     (fold (\<lambda>(i, s) t. if s then int i else t) (enumerate 0 is_shm) (-1), int (length is_shm))"

definition shm_child_num :: "int \<Rightarrow> int \<Rightarrow> int \<Rightarrow> int" where
  "shm_child_num child_num t_shm test_types =
     (if t_shm \<noteq> -1 then
        (if t_shm \<le> c_mod (child_num - 1) test_types then c_div (child_num - 1) test_types + 1
         else c_div (child_num - 1) test_types)
      else 0)"

text \<open>
  \<open>run_test\<close> from the parent's side: \<open>forks i\<close> is whether the fork succeeds, \<open>pids i\<close> its pid, and
  \<open>seen i\<close> the id of child \<open>i\<close> that the parent reads \<^emph>\<open>before\<close> it waits for it, with the result after.
\<close>

definition report_child_result :: "pp_conf \<Rightarrow> string list \<Rightarrow> (nat \<Rightarrow> int) \<Rightarrow> (nat \<Rightarrow> nat \<times> bool) \<Rightarrow> nat \<Rightarrow> ('w, unit) pp_act" where
  "report_child_result c names pids seen i =
     (case seen i of (t, passed) \<Rightarrow>
        if length names \<le> t then halt (Undef ''cases out of range'')
        else
          let text = (\<lambda>v. ''Ins '' @ show_dec i @ '': Pid '' @ show_int (pids i) @ v @ names ! t @ [NL])
          in sseq (mylog c (''wait for Pid '' @ show_int (pids i) @ [NL]))
               (if passed then result c (text '': pass - '') else fail_result c (text '': failed - '')))"

fun spawn :: "pp_conf \<Rightarrow> (nat \<Rightarrow> bool) \<Rightarrow> nat list \<Rightarrow> ('w, unit) pp_act" where
  "spawn c forks [] = nop"
| "spawn c forks (i # is) =
     (if forks i then spawn c forks is else pp_err c (''fork '' @ show_dec i @ [NL]))"

definition collect :: "pp_conf \<Rightarrow> 'w kern \<Rightarrow> string list \<Rightarrow> (nat \<Rightarrow> int) \<Rightarrow> (nat \<Rightarrow> nat \<times> bool) \<Rightarrow> nat \<Rightarrow> ('w, unit) pp_act" where
  "collect c k names pids seen n =
     (if n = 0 then nop
      else sbind (glob ipc_entry) (\<lambda>entry.
           sbind (kcall (k_shmat k entry)) (\<lambda>p. case p of
                None \<Rightarrow> pp_err c (''shmat error'' @ [NL])
              | Some at \<Rightarrow> sseq (each (report_child_result c names pids seen) [0..<n])
                              (sseq (kcall (k_sys k (Shmdt at))) nop))))"

definition verdict :: "pp_conf \<Rightarrow> ('w, int) pp_act" where
  "verdict c =
     sbind (glob failures) (\<lambda>m.
       if m = 0
       then sseq (result c ([TAB] @ ''!!! Page Poisoning Test got PASS. !!!'' @ [NL, NL])) (ret 0)
       else sseq (result c ([TAB] @ ''!!! Page Poisoning Test is FAILED ('' @ show_int m
                    @ '' failures found). !!!'' @ [NL, NL])) (ret 1))"

definition run_test ::
    "pp_conf \<Rightarrow> 'w kern \<Rightarrow> string list \<Rightarrow> (nat \<Rightarrow> bool) \<Rightarrow> (nat \<Rightarrow> int) \<Rightarrow> (nat \<Rightarrow> nat \<times> bool) \<Rightarrow> int
       \<Rightarrow> ('w, int) pp_act" where
  "run_test c k names forks pids seen children =
     (let n = nat children in
      sseq (spawn c forks [0..<n])
     (sseq (mylog c (''have spawned '' @ show_dec n @ '' processes'' @ [NL]))
     (sseq (collect c k names pids seen n) (verdict c))))"

text \<open>The options: each is the character of \<open>getopt_long\<close> and its argument. \<open>None\<close>: help, and the end.\<close>

record pp_options =
  clean_env :: bool
  child_num :: int
  log_file :: string
  result_file :: string
  shm_size :: int
  tmpdir_opt :: string

definition default_options :: pp_options where
  "default_options = \<lparr>clean_env = False, child_num = INSTANCE_NUM, log_file = ''page-poisoning.log'',
     result_file = ''page-poisoning.result'', shm_size = SHM_SIZE, tmpdir_opt = ''./tmp''\<rparr>"

definition to_int :: "string \<Rightarrow> int" where
  "to_int s = sint (word_of_int (strtoll 0 s) :: u32)"

fun pp_options_of :: "(char \<times> string) list \<Rightarrow> pp_options \<Rightarrow> pp_options option" where
  "pp_options_of [] p = Some p"
| "pp_options_of ((ch, arg) # os) p =
     (if ch = CHR ''C'' then pp_options_of os (p\<lparr>clean_env := True\<rparr>)
      else if ch = CHR ''i'' then pp_options_of os (p\<lparr>child_num := min (to_int arg) INSTANCE_NUM\<rparr>)
      else if ch = CHR ''l'' then pp_options_of os (p\<lparr>log_file := take (PATH_MAX - 1) arg\<rparr>)
      else if ch = CHR ''r'' then pp_options_of os (p\<lparr>result_file := take (PATH_MAX - 1) arg\<rparr>)
      else if ch = CHR ''s'' then pp_options_of os (p\<lparr>shm_size := max (to_int arg) SHM_SIZE\<rparr>)
      else if ch = CHR ''t'' then pp_options_of os (p\<lparr>tmpdir_opt := take (PATH_MAX - 1) arg\<rparr>)
      else None)"

text \<open>\<open>setup_log\<close>: the two files, then the directory, which may exist already. \<open>e\<close> is the error number of \<open>mkdir\<close>.\<close>

definition setup_log :: "pp_conf \<Rightarrow> 'w kern \<Rightarrow> pp_options \<Rightarrow> bool \<Rightarrow> bool \<Rightarrow> int \<Rightarrow> ('w, unit) pp_act" where
  "setup_log c k p log_ok result_ok e =
     (if \<not> log_ok then pp_err c (''cannot open log file: '' @ log_file p @ [NL])
      else
        sseq (upd (\<lambda>g. g\<lparr>log_open := True\<rparr>))
       (if \<not> result_ok then pp_err c (''cannot open log file: '' @ result_file p @ [NL])
        else
          sseq (upd (\<lambda>g. g\<lparr>result_open := True\<rparr>))
         (if tmpdir_opt p = [] then nop
          else sbind (kcall (k_sys k (Mkdir (tmpdir_opt p)))) (\<lambda>rc.
                 if rc \<noteq> 0 \<and> e \<noteq> EEXIST
                 then pp_err c (''cannot create tmp dir: '' @ tmpdir_opt p @ '': '' @ errtext c @ [NL])
                 else nop))))"

definition empty_ipc :: ipc where
  "empty_ipc = \<lparr>tests = (\<lambda>_. (0, False)), shm_id = -1, shm_ready = False, shm_done = False\<rparr>"

text \<open>Both semaphores start as the code sets them.\<close>

definition setup_ipc :: "pp_conf \<Rightarrow> 'w kern \<Rightarrow> pp_options \<Rightarrow> int \<Rightarrow> int \<Rightarrow> ('w, unit) pp_act" where
  "setup_ipc c k p t_shm test_types =
     sbind (kcall (k_sys k (Shmget 0 80016 ''IPC_PRIVATE 0600''))) (\<lambda>entry.
     sseq (upd (\<lambda>g. g\<lparr>ipc_entry := entry\<rparr>))
      (if entry < 0 then pp_err c (''shmget error'' @ [NL])
       else sbind (kcall (k_shmat k entry)) (\<lambda>at. case at of
           None \<Rightarrow> pp_err c (''shmat error'' @ [NL])
         | Some a \<Rightarrow>
             sseq (call (\<lambda>(i, w). ((), (empty_ipc, w))))
            (sseq (kcall (k_sys k (Shmdt a)))
            (sbind (kcall (k_sys k (Semget 2 ''SHM_R|SHM_W''))) (\<lambda>sem.
             sseq (upd (\<lambda>g. g\<lparr>semid_ready := sem\<rparr>))
            (sseq (kcall (k_sys k (Semctl_Setval sem 0 1)))
            (let n = shm_child_num (child_num p) t_shm test_types in
             if n \<noteq> 0
             then sseq (kcall (k_sys k (Semctl_Setval sem 1 n)))
                    (mylog c (''there are '' @ show_int n @ '' shm_child'' @ [NL]))
             else nop))))))))"

definition free_ipc :: "pp_conf \<Rightarrow> 'w kern \<Rightarrow> ('w, unit) pp_act" where
  "free_ipc c k =
     sbind (glob semid_ready) (\<lambda>sem. sbind (glob ipc_entry) (\<lambda>entry.
     sseq (kcall (k_sys k (Semctl_Rmid sem)))
    (sbind (kcall (k_shmat k entry)) (\<lambda>at. case at of
         None \<Rightarrow> pp_err c (''shmat error'' @ [NL])
       | Some a \<Rightarrow>
           sbind (call (\<lambda>(i, w). (shm_id i, (i, w)))) (\<lambda>id.
           sseq (if id \<noteq> -1 then sseq (kcall (k_sys k (Shmctl_Rmid id))) nop else nop)
          (sseq (kcall (k_sys k (Shmdt a)))
          (sseq (kcall (k_sys k (Shmctl_Rmid entry))) nop)))))))"

text \<open>\<open>cleanup\<close> kills the children forked so far, with \<open>g_pid\<close> and \<open>instance\<close> of the process that runs it.\<close>

definition cleanup :: "pp_conf \<Rightarrow> 'w kern \<Rightarrow> (nat \<Rightarrow> int) \<Rightarrow> nat \<Rightarrow> ('w, unit) pp_act" where
  "cleanup c k pids instances =
     sseq (each (\<lambda>i. sseq (kcall (k_sys k (Kill (pids i) 9))) nop) [0..<instances])
          (free_ipc c k)"

definition main_sighandler :: "pp_conf \<Rightarrow> 'w kern \<Rightarrow> (nat \<Rightarrow> int) \<Rightarrow> nat \<Rightarrow> ('w, unit) pp_act" where
  "main_sighandler c k pids instances =
     sseq (mylog c (''receive signal to get terminated'' @ [NL]))
    (sseq (cleanup c k pids instances) (halt (Exit 1)))"

text \<open>
  \<open>setup_sig\<close>: the handlers of the parent, which \<open>fork\<close> hands on to the children. \<open>sigaction\<close> refuses \<open>SIGKILL\<close> and
  \<open>SIGSTOP\<close>; its result is not looked at.
\<close>

datatype pp_handler = Main_sighandler | Sighandler

definition sigaction :: "int \<Rightarrow> pp_handler \<Rightarrow> (int \<rightharpoonup> pp_handler) \<Rightarrow> int \<times> (int \<rightharpoonup> pp_handler)" where
  "sigaction sig h m = (if sig = 9 \<or> sig = 19 then (-1, m) else (0, m(sig \<mapsto> h)))"

definition setup_sig :: "(int \<rightharpoonup> pp_handler) \<Rightarrow> (int \<rightharpoonup> pp_handler)" where
  "setup_sig m =
     (let m = snd (sigaction 2 Main_sighandler m); m = snd (sigaction 9 Main_sighandler m);
          m = snd (sigaction 15 Main_sighandler m)
      in snd (sigaction 7 Sighandler m))"

definition free_log :: "('w, unit) pp_act" where
  "free_log = upd (\<lambda>g. g\<lparr>log_open := False, result_open := False\<rparr>)"

text \<open>\<open>main\<close> after the options, with the table of cases given by the names and by which is \<open>shm_test\<close>.\<close>

definition pp_main ::
    "pp_conf \<Rightarrow> 'w kern \<Rightarrow> (string \<times> bool) list \<Rightarrow> (char \<times> string) list \<Rightarrow> bool \<Rightarrow> bool \<Rightarrow> int
       \<Rightarrow> (nat \<Rightarrow> bool) \<Rightarrow> (nat \<Rightarrow> int) \<Rightarrow> (nat \<Rightarrow> nat \<times> bool) \<Rightarrow> ('w, int) pp_act" where
  "pp_main c k table os log_ok result_ok mkdir_errno forks pids seen =
     (case pp_options_of os default_options of
        None \<Rightarrow> ret 0
      | Some p \<Rightarrow>
          sbind (glob early_kills) (\<lambda>early.
          sseq (if early then nop
                else sseq (kcall (k_sys k (System ''sysctl -w vm.memory_failure_early_kill=0''))) nop)
         (sseq (setup_log c k p log_ok result_ok mkdir_errno)
         (case setup_test (map snd table) of (t_shm, test_types) \<Rightarrow>
          if child_num p = 0
          then sseq (mylog c (''end without test executed since child_num = 0'' @ [NL])) (ret 0)
          else
            sseq (mylog c (''start page-poisoning test'' @ [NL]))
           (sseq (setup_ipc c k p t_shm test_types)
           (sbind (run_test c k (map fst table) forks pids seen (child_num p)) (\<lambda>rc.
            sseq (free_ipc c k)
           (sseq (mylog c (''page-poisoning test done!'' @ [NL]))
           (sseq free_log (ret rc))))))))))"

section \<open>Properties\<close>

text \<open>The expected failure of the anonymous clean case cannot be logged: its message has more than the 99 characters
  the buffer of \<open>mylog\<close> has room for, so an \<open>EBUSY\<close> of the kernel there overflows the buffer.\<close>

theorem expected_failure_overflows:
  assumes "log_open g" "k_poison k page w = (Inr EBUSY, w')"
  shows "fst (pp_poison c k msg page mode ANON_CLEAN (g, i, w)) = Inl (Undef ''log buffer overflow'')"
proof -
  have "LOG_BUFLEN \<le> length expected_failure_text"
    by (simp add: LOG_BUFLEN_def expected_failure_text_def)
  with assms show ?thesis
    by (simp add: pp_poison_def act_run kcall_def mylog_def put_log_def into_buf_def EBUSY_def EINVAL_def)
qed

definition pp_demo_conf :: pp_conf where
  "pp_demo_conf = \<lparr>PSZ = 4096, mypid = 1, tmp_dir = ''./tmp'', errtext = [], instance_no = 0, testid = 1\<rparr>"

definition pp_demo_kern :: "unit kern" where
  "pp_demo_kern = \<lparr>k_poison = (\<lambda>_ w. (Inr EBUSY, w)), k_load = (\<lambda>_ w. (Inr 0, w)), k_store = (\<lambda>_ _ w. (None, w)),
     k_mmap = (\<lambda>_ _ _ _ w. (None, w)), k_shmat = (\<lambda>_ w. (None, w)), k_sys = (\<lambda>_ w. (0, w)),
     k_pagemap = (\<lambda>_ _. None), k_mce_inject = (\<lambda>_ w. (Inr True, w)), k_fork = (\<lambda>w. (True, w)), k_core = (\<lambda>_. False)\<rparr>"

definition demo_globals :: pp_globals where
  "demo_globals = \<lparr>failures = 0, unexpecteds = 0, early_kills = False, recover_count = 0, expected = 0, ipc_entry = 0,
     semid_ready = 0, shmptr = 0,     log_open = True, result_open = True, log_lines = [], result_lines = []\<rparr>"

theorem expected_failure_overflows_witness:
  "fst (pp_poison pp_demo_conf pp_demo_kern ''clean'' 4096 MREAD_OK ANON_CLEAN (demo_globals, empty_ipc, ()))
     = Inl (Undef ''log buffer overflow'')"
  by (rule expected_failure_overflows) (simp_all add: demo_globals_def pp_demo_kern_def)

lemma length_show_int: "0 \<le> n \<Longrightarrow> n < 10 ^ k \<Longrightarrow> 0 < k \<Longrightarrow> length (show_int n) \<le> k"
  using length_show_dec [of "nat n" k] by (simp add: show_int_def nat_less_iff)

text \<open>Messages that fit, with both files open.\<close>

definition logging :: "pp_globals \<Rightarrow> bool" where
  "logging g \<longleftrightarrow> log_open g \<and> result_open g"

lemma logging_simps [simp]:
  "logging (g\<lparr>log_lines := l\<rparr>) = logging g" "logging (g\<lparr>result_lines := l\<rparr>) = logging g"
  "logging (g\<lparr>failures := n\<rparr>) = logging g"
  by (simp_all add: logging_def)

lemma mylog_run:
  assumes "logging g" "length s < LOG_BUFLEN"
  shows "mylog c s (g, w) = (Inr (), g\<lparr>log_lines := log_lines g @ [pid_tag c s]\<rparr>, w)"
  using assms by (simp add: mylog_def put_log_def into_buf_def act_run logging_def)

lemma result_run:
  assumes "logging g" "length s < LOG_BUFLEN"
  shows "result c s (g, w) = (Inr (), g\<lparr>result_lines := result_lines g @ [pid_tag c s],
      log_lines := log_lines g @ [pid_tag c s]\<rparr>, w)"
  using assms by (simp add: result_def put_result_def put_log_def into_buf_def act_run logging_def)

text \<open>What the parent does with a child whose report fits.\<close>

lemma report_child_result_run:
  assumes "logging g" "i < 10000" "0 \<le> pids i" "pids i < 10 ^ 7" "fst (seen i) < length names"
    and "length (names ! fst (seen i)) < 40"
  obtains g' where "report_child_result c names pids seen i (g, w) = (Inr (), g', w)" "logging g'"
    "failures g' = failures g + (if snd (seen i) then 0 else 1)"
proof -
  obtain t passed where t: "seen i = (t, passed)" by fastforce
  have "length (show_dec i) \<le> 5" "length (show_int (pids i)) \<le> 7"
    using assms(2-4) by (auto intro: length_show_dec length_show_int)
  with assms t that show ?thesis
    by (cases passed)
       (simp_all add: report_child_result_def act_run mylog_run result_run fail_result_def LOG_BUFLEN_def)
qed

lemma each_report:
  assumes "\<And>i. i \<in> set is \<Longrightarrow> i < 10000 \<and> 0 \<le> pids i \<and> pids i < 10 ^ 7 \<and> fst (seen i) < length names
      \<and> length (names ! fst (seen i)) < 40" "logging g"
  shows "\<exists>g'. each (report_child_result c names pids seen) is (g, w) = (Inr (), g', w) \<and> logging g'
    \<and> failures g' = failures g + int (length (filter (\<lambda>i. \<not> snd (seen i)) is))"
  using assms
proof (induction "is" arbitrary: g)
  case (Cons i "is")
  from Cons.prems obtain g' where g': "report_child_result c names pids seen i (g, w) = (Inr (), g', w)" "logging g'"
      "failures g' = failures g + (if snd (seen i) then 0 else 1)"
    by (blast intro: report_child_result_run [of g i pids seen names c w] list.set_intros(1))
  from Cons.IH [OF _ g'(2)] Cons.prems(1) obtain h where
      "each (report_child_result c names pids seen) is (g', w) = (Inr (), h, w)" "logging h"
      "failures h = failures g' + int (length (filter (\<lambda>i. \<not> snd (seen i)) is))"
    by auto
  with g' show ?case by (auto simp: act_run)
qed simp

lemma spawn_all: "(\<And>i. i \<in> set is \<Longrightarrow> forks i) \<Longrightarrow> spawn c forks is = nop"
  by (induction "is") auto

lemma collect_run:
  assumes "logging g" "\<And>i. i \<in> set [0..<n] \<Longrightarrow> i < 10000 \<and> 0 \<le> pids i \<and> pids i < 10 ^ 7 \<and> fst (seen i) < length names
      \<and> length (names ! fst (seen i)) < 40"
    and attaches: "\<And>u. \<exists>a v. k_shmat k (ipc_entry g) u = (Some a, v)"
  shows "\<exists>h w'. collect c k names pids seen n (g, w) = (Inr (), h, w') \<and> logging h
    \<and> failures h = failures g + int (length (filter (\<lambda>i. \<not> snd (seen i)) [0..<n]))"
proof (cases "n = 0")
  case False
  obtain i u where w: "w = (i, u)" by (cases w)
  from attaches obtain a v where a: "k_shmat k (ipc_entry g) u = (Some a, v)" by blast
  from each_report [OF assms(2,1), where c = c and w = "(i, v)"] obtain h where
      "each (report_child_result c names pids seen) [0..<n] (g, i, v) = (Inr (), h, i, v)" "logging h"
      "failures h = failures g + int (length (filter (\<lambda>i. \<not> snd (seen i)) [0..<n]))"
    by blast
  with False a show ?thesis by (auto simp: collect_def act_run kcall_def w split: prod.splits)
qed (use assms(1) in \<open>simp add: collect_def\<close>)

lemma verdict_run:
  assumes "logging g" "failures g = int m" "m < 10 ^ 7"
  shows "\<exists>h. verdict c (g, w) = (Inr (if m = 0 then 0 else 1), h, w) \<and> failures h = int m"
proof -
  have "length (show_int (int m)) \<le> 7" using assms(3) by (auto intro: length_show_int)
  with assms(1,2) show ?thesis
    by (cases "m = 0") (simp_all add: verdict_def act_run result_run LOG_BUFLEN_def)
qed

text \<open>C31. The verdict of the parent: when every child was forked and could be waited for, the exit status is 0 exactly
  when no child failed, and the failures are the children that did not report a pass.\<close>

theorem run_test_verdict:
  assumes "0 \<le> n" "n \<le> INSTANCE_NUM" "logging g" "failures g = 0"
    and forks: "\<And>i. i < nat n \<Longrightarrow> forks i"
    and reports: "\<And>i. i < nat n \<Longrightarrow> 0 \<le> pids i \<and> pids i < 10 ^ 7 \<and> fst (seen i) < length names
        \<and> length (names ! fst (seen i)) < 40"
    and attaches: "\<And>u. \<exists>a v. k_shmat k (ipc_entry g) u = (Some a, v)"
  defines "failed \<equiv> length (filter (\<lambda>i. \<not> snd (seen i)) [0..<nat n])"
  shows "\<exists>g' w'. run_test c (k :: 'w kern) names forks pids seen n (g, w) = (Inr (if failed = 0 then 0 else 1), g', w')
    \<and> failures g' = int failed"
proof -
  have n: "nat n \<le> 10000" using assms(2) by (simp add: INSTANCE_NUM_def)
  then have "length (show_dec (nat n)) \<le> 5" by (auto intro!: length_show_dec)
  then obtain g1 where g1: "mylog c (''have spawned '' @ show_dec (nat n) @ '' processes'' @ [NL]) (g, w) = (Inr (), g1, w)"
      "logging g1" "failures g1 = 0" "ipc_entry g1 = ipc_entry g"
    using assms(3,4) by (simp add: mylog_run LOG_BUFLEN_def)
  have "\<exists>h w'. collect c k names pids seen (nat n) (g1, w) = (Inr (), h, w') \<and> logging h \<and> failures h = int failed"
    using collect_run [of g1 "nat n" pids seen names k c w] reports n attaches g1 by (auto simp: failed_def)
  then obtain g2 w2 where g2: "collect c k names pids seen (nat n) (g1, w) = (Inr (), g2, w2)" "logging g2"
      "failures g2 = int failed"
    by blast
  have "failed \<le> nat n" by (simp add: failed_def order_trans [OF length_filter_le])
  with n have "failed < 10 ^ 7" by simp
  with verdict_run [OF g2(2,3)] obtain h where h: "verdict c (g2, w2) = (Inr (if failed = 0 then 0 else 1), h, w2)"
      "failures h = int failed"
    by blast
  have "spawn c forks [0..<nat n] = (nop :: ('w, unit) pp_act)"
    using forks by (intro spawn_all) simp
  with g1(1) g2(1) h show ?thesis by (simp add: run_test_def Let_def act_run)
qed

theorem run_test_verdict_witness:
  "\<exists>g w. run_test pp_demo_conf (pp_demo_kern\<lparr>k_shmat := (\<lambda>_ u. (Some 8, u))\<rparr>) [''file clean'', ''file dirty'']
     (\<lambda>_. True) (\<lambda>i. 100 + int i) (\<lambda>i. (i mod 2, i \<noteq> 1)) 3 (demo_globals, empty_ipc, ()) = (Inr 1, g, w)
   \<and> failures g = 1"
proof -
  let ?k = "pp_demo_kern\<lparr>k_shmat := (\<lambda>_ u. (Some 8, u))\<rparr>"
  have "0 \<le> 100 + int i \<and> 100 + int i < 10 ^ 7 \<and> fst (i mod 2, i \<noteq> 1) < length [''file clean'', ''file dirty'']
      \<and> length ([''file clean'', ''file dirty''] ! fst (i mod 2, i \<noteq> 1)) < 40" if "i < nat 3" for i
    using that by (cases "i mod 2 = 0") auto
  from run_test_verdict [of 3 demo_globals "\<lambda>_. True" "\<lambda>i. 100 + int i" "\<lambda>i. (i mod 2, i \<noteq> 1)"
      "[''file clean'', ''file dirty'']" ?k pp_demo_conf "(empty_ipc, ())", OF _ _ _ _ _ this]
  show ?thesis by (simp add: INSTANCE_NUM_def logging_def demo_globals_def upt_rec numeral_3_eq_3)
qed

text \<open>The second semaphore starts with the number of children that run the shared memory test: of \<open>n\<close> children,
  child \<open>i\<close> runs case \<open>i mod test_types\<close>.\<close>

theorem shm_child_num_counts:
  assumes "0 < n" "t < types"
  shows "shm_child_num (int n) (int t) (int types) = int (card {i. i < n \<and> i mod types = t})"
proof -
  define m where "m = n - 1"
  have n: "n = Suc m" using assms(1) by (simp add: m_def)
  have card: "card {i. i < k \<and> i mod types = t} = (if t \<le> (k - 1) mod types then (k - 1) div types + 1 else (k - 1) div types)"
    if "0 < k" for k
    using that
  proof (induction k)
    case (Suc j)
    show ?case
    proof (cases "j = 0")
      case True
      have "{i. i < Suc 0 \<and> i mod types = t} = (if t = 0 then {0} else {})" by auto
      with True show ?thesis by simp
    next
      case False
      have split: "{i. i < Suc j \<and> i mod types = t} = {i. i < j \<and> i mod types = t} \<union> (if j mod types = t then {j} else {})"
        by (auto simp: less_Suc_eq)
      have "card {i. i < Suc j \<and> i mod types = t}
          = card {i. i < j \<and> i mod types = t} + (if j mod types = t then 1 else 0)"
        unfolding split by (subst card_Un_disjoint) auto
      also have "\<dots> = (if t \<le> j mod types then j div types + 1 else j div types)"
      proof -
        obtain l where l: "j = Suc l" using False by (cases j) auto
        show ?thesis
        proof (cases "Suc (l mod types) = types")
          case True
          then have "j mod types = 0" "j div types = Suc (l div types)" by (simp_all add: l mod_Suc div_Suc)
          with Suc.IH False l True assms(2) show ?thesis by simp
        next
          case no: False
          then have "j mod types = Suc (l mod types)" "j div types = l div types" by (simp_all add: l mod_Suc div_Suc)
          with Suc.IH False l show ?thesis by auto
        qed
      qed
      finally show ?thesis by simp
    qed
  qed simp
  have q: "c_div (int m) (int types) = int (m div types)"
    using assms(2) by (cases "m = 0") (simp_all add: c_div_def zdiv_int)
  then have r: "c_mod (int m) (int types) = int (m mod types)"
    by (simp add: c_mod_def of_nat_div of_nat_mod minus_mult_div_eq_mod)
  have "int n - 1 = int m" by (simp add: n)
  then show ?thesis using card [of n] q r assms(1) by (simp add: shm_child_num_def n)
qed

theorem shm_child_num_counts_witness:
  "shm_child_num 10000 0 9 = int (card {i. i < 10000 \<and> i mod 9 = (0 :: nat)})"
  using shm_child_num_counts [of 10000 0 9] by simp

section \<open>Signals\<close>

text \<open>A kernel that writes the calls down.\<close>

definition tracing_kern :: "syscall list kern" where
  "tracing_kern = \<lparr>k_poison = (\<lambda>_ w. (Inr 0, w)), k_load = (\<lambda>_ w. (Inr 0, w)), k_store = (\<lambda>_ _ w. (None, w)),
     k_mmap = (\<lambda>_ _ _ _ w. (None, w)), k_shmat = (\<lambda>_ w. (Some 0, w)), k_sys = (\<lambda>s w. (0, w @ [s])),
     k_pagemap = (\<lambda>_ _. None), k_mce_inject = (\<lambda>_ w. (Inr True, w)), k_fork = (\<lambda>w. (True, w)), k_core = (\<lambda>_. False)\<rparr>"

lemma handlers: "setup_sig m sig = (if sig = 2 \<or> sig = 15 then Some Main_sighandler else if sig = 7 then Some Sighandler else m sig)"
  by (simp add: setup_sig_def sigaction_def Let_def)

lemma kill_all:
  "each (\<lambda>i. sseq (kcall (k_sys tracing_kern (Kill (pids i) 9))) nop) ns (g, i, w)
    = (Inr (), g, i, w @ map (\<lambda>i. Kill (pids i) 9) ns)"
  by (induction ns arbitrary: w) (simp_all add: tracing_kern_def kcall_def act_run)

text \<open>
  The handler runs in the children too, where \<open>instance\<close> is the number of the child: a \<open>SIGTERM\<close> for child \<open>j\<close> kills
  all children before it and removes the semaphores and the memory the others use.
\<close>

theorem child_signal_kills_siblings:
  assumes "log_open g"
  shows "main_sighandler c tracing_kern pids j (g, ipc, w) =
    (Inl (Exit 1), g\<lparr>log_lines := log_lines g @ [pid_tag c (''receive signal to get terminated'' @ [NL])]\<rparr>, ipc,
     w @ map (\<lambda>i. Kill (pids i) 9) [0..<j] @ [Semctl_Rmid (semid_ready g)]
       @ (if shm_id ipc = -1 then [] else [Shmctl_Rmid (shm_id ipc)]) @ [Shmdt 0, Shmctl_Rmid (ipc_entry g)])"
  using assms
  by (simp add: main_sighandler_def cleanup_def free_ipc_def mylog_def put_log_def into_buf_def LOG_BUFLEN_def act_run kill_all)
     (simp add: tracing_kern_def kcall_def act_run)

theorem child_signal_kills_siblings_witness:
  "snd (snd (snd (main_sighandler pp_demo_conf tracing_kern (\<lambda>i. 100 + int i) 2 (demo_globals, empty_ipc, []))))
     = [Kill 100 9, Kill 101 9, Semctl_Rmid 0, Shmdt 0, Shmctl_Rmid 0]"
proof -
  have "log_open demo_globals" by (simp add: demo_globals_def)
  from child_signal_kills_siblings [OF this, of pp_demo_conf "\<lambda>i. 100 + int i" 2 empty_ipc "[]"]
  show ?thesis by (simp add: empty_ipc_def demo_globals_def numeral_2_eq_2)
qed

end
