(* ===== verification/Schedules.thy ===== *)
theory Schedules
  imports Prelude
begin

text \<open>
  Processes that move one at a time, each with a rank of its own that its steps lower: however they are
  scheduled, they make no more steps than the ranks add up to.
\<close>

locale ranked_processes =
  fixes move :: "nat \<Rightarrow> 's \<Rightarrow> 's option"
    and rank :: "'s \<Rightarrow> nat \<Rightarrow> nat"
  assumes lowers: "move i s = Some t \<Longrightarrow> rank t i < rank s i"
    and frame: "move i s = Some t \<Longrightarrow> j \<noteq> i \<Longrightarrow> rank t j = rank s j"
begin

fun moves_of :: "nat list \<Rightarrow> 's \<Rightarrow> 's option" where
  "moves_of [] s = Some s"
| "moves_of (i # is) s = (case move i s of None \<Rightarrow> None | Some t \<Rightarrow> moves_of is t)"

lemma moves_keep:
  assumes "\<And>i s t. I s \<Longrightarrow> move i s = Some t \<Longrightarrow> I t"
  shows "moves_of is s = Some t \<Longrightarrow> I s \<Longrightarrow> I t"
  using assms by (induction "is" arbitrary: s) (auto split: option.splits)

lemma total_lowers:
  assumes "move i s = Some t" "i < n"
  shows "(\<Sum>j<n. rank t j) < (\<Sum>j<n. rank s j)"
  using assms lowers [OF assms(1)] frame [OF assms(1)]
  by (intro sum_strict_mono_ex1) (auto, metis order_refl less_imp_le)

lemma schedule_bounded:
  "moves_of is s = Some t \<Longrightarrow> set is \<subseteq> {..<n} \<Longrightarrow> length is + (\<Sum>j<n. rank t j) \<le> (\<Sum>j<n. rank s j)"
proof (induction "is" arbitrary: s)
  case (Cons i "is")
  then obtain u where u: "move i s = Some u" "moves_of is u = Some t" by (auto split: option.splits)
  from total_lowers [OF u(1), of n] Cons.IH [OF u(2)] Cons.prems(2) show ?case by simp
qed simp

end

end
