(* ===== verification/Shm_Barrier.thy ===== *)
theory Shm_Barrier
  imports Page_Poisoning Schedules
begin

text \<open>
  \<open>shm_test\<close> of \<open>page-poisoning.c\<close>, run by \<open>n\<close> processes at once: semaphore 0 guards two critical sections,
  semaphore 1 holds everyone back between them until the last process has attached the segment. A step of a
  process is one \<open>semop\<close> or the code between two of them; the table \<open>ipc\<close> is shared, the globals are not.
\<close>

section \<open>The code between the semaphore operations\<close>

text \<open>Attaching the table and writing the id.\<close>

definition shm_enter :: "pp_conf \<Rightarrow> 'w kern \<Rightarrow> ('w, unit) pp_act" where
  "shm_enter c k =
     sbind (glob ipc_entry) (\<lambda>entry.
     sbind (kcall (k_shmat k entry)) (\<lambda>p. case p of
         None \<Rightarrow> pp_err c (''shmat error'' @ [NL])
       | Some at \<Rightarrow>
           call (\<lambda>(i, w). ((), (i\<lparr>tests := (tests i)(instance_no c := (testid c, snd (tests i (instance_no c))))\<rparr>, w)))))"

text \<open>The first section: the first process creates the segment, each one attaches it and writes its pid.\<close>

definition shm_create :: "pp_conf \<Rightarrow> 'w kern \<Rightarrow> nat \<Rightarrow> ('w, unit) pp_act" where
  "shm_create c k pages =
     sbind (call (\<lambda>(i, w). (shm_ready i, (i, w)))) (\<lambda>ready.
       if ready then nop
       else sbind (kcall (k_sys k (Shmget 0 (pages * PSZ c) ''IPC_PRIVATE 0600''))) (\<lambda>id.
            sseq (call (\<lambda>(i, w). ((), (i\<lparr>shm_id := id\<rparr>, w))))
             (if id < 0 then pp_err c (''shmget error'' @ [NL])
              else call (\<lambda>(i, w). ((), (i\<lparr>shm_ready := True\<rparr>, w))))))"

definition shm_map :: "pp_conf \<Rightarrow> 'w kern \<Rightarrow> ('w, unit) pp_act" where
  "shm_map c k =
     sbind (call (\<lambda>(i, w). (shm_id i, (i, w)))) (\<lambda>id.
     sbind (kcall (k_shmat k id)) (\<lambda>p. case p of
         None \<Rightarrow> pp_err c (''shmat error'' @ [NL])
       | Some a \<Rightarrow>
           sseq (upd (\<lambda>g. g\<lparr>shmptr := a\<rparr>))
          (sbind (kcall (k_store k a (word_of_int (mypid c)))) (\<lambda>b. case b of
               None \<Rightarrow> nop
             | Some sig \<Rightarrow> pp_deliver c Outside sig))))"

definition shm_section1 :: "pp_conf \<Rightarrow> 'w kern \<Rightarrow> nat \<Rightarrow> ('w, unit) pp_act" where
  "shm_section1 c k pages = sseq (shm_create c k pages) (shm_map c k)"

text \<open>The second section: the first process poisons the page, the others read it.\<close>

definition shm_section2 :: "pp_conf \<Rightarrow> 'w kern \<Rightarrow> ('w, unit) pp_act" where
  "shm_section2 c k =
     sbind (glob shmptr) (\<lambda>page.
     sbind (call (\<lambda>(i, w). (shm_done i, (i, w)))) (\<lambda>d.
       if d then pp_recover c k ''shm dirty'' page MREAD
       else sseq (call (\<lambda>(i, w). ((), (i\<lparr>shm_done := True\<rparr>, w))))
              (pp_testmem c k ''shm dirty'' page MWRITE SHARED_MEM)))"

definition shm_leave :: "pp_conf \<Rightarrow> 'w kern \<Rightarrow> ('w, unit) pp_act" where
  "shm_leave c k =
     sbind (glob failures) (\<lambda>n.
     sseq (if n = 0
           then call (\<lambda>(i, w). ((), (i\<lparr>tests := (tests i)(instance_no c := (fst (tests i (instance_no c)), True))\<rparr>, w)))
           else nop)
    (sbind (glob shmptr) (\<lambda>page.
     sseq (kcall (k_sys k (Shmdt page))) (sseq (kcall (k_sys k (Shmdt 0))) nop))))"

section \<open>Processes\<close>

text \<open>
  Where a process is: at \<open>P_enter\<close> it has not begun; \<open>P_lock1\<close>, \<open>P_lock2\<close> are in \<open>request_sem (semid_ready, 0)\<close>,
  \<open>P_unlock1\<close>, \<open>P_unlock2\<close> before \<open>release_sem\<close>, \<open>P_arrive\<close> and \<open>P_wait\<close> at the two \<open>semop\<close>s of \<open>waiton_sem\<close>.
  A process that calls \<open>err\<close> is dead from then on; it gives nothing back.
\<close>

datatype place =
    P_enter | P_lock1 | P_section1 | P_unlock1 | P_arrive | P_wait | P_lock2 | P_section2 | P_unlock2 | P_leave | P_end
  | Dead_enter | Dead_section1 | Dead_section2 | Dead_leave

record proc =
  place :: place
  own :: pp_globals

text \<open>The processes, the two semaphores, the shared table and the world.\<close>

record 'w shm_sys =
  procs :: "nat \<Rightarrow> proc"
  sem0 :: nat
  sem1 :: nat
  shared :: "ipc \<times> 'w"

text \<open>Code of a process: to \<open>ok\<close> when it gets to its end, to \<open>dead\<close> when the process stops in it.\<close>

definition run_code ::
    "('w, unit) pp_act \<Rightarrow> place \<Rightarrow> place \<Rightarrow> nat \<Rightarrow> 'w shm_sys \<Rightarrow> 'w shm_sys" where
  "run_code a ok dead i s =
     (case a (own (procs s i), shared s) of (r, g, w) \<Rightarrow>
        s\<lparr>procs := (procs s)(i := \<lparr>place = (if isl r then dead else ok), own = g\<rparr>), shared := w\<rparr>)"

definition goto :: "place \<Rightarrow> nat \<Rightarrow> 'w shm_sys \<Rightarrow> 'w shm_sys" where
  "goto q i s = s\<lparr>procs := (procs s)(i := (procs s i)\<lparr>place := q\<rparr>)\<rparr>"

text \<open>A \<open>semop\<close> of -1, and of 0: \<open>None\<close> when it blocks.\<close>

definition request_sem0 :: "place \<Rightarrow> nat \<Rightarrow> 'w shm_sys \<Rightarrow> 'w shm_sys option" where
  "request_sem0 q i s = (if sem0 s = 0 then None else Some (goto q i (s\<lparr>sem0 := sem0 s - 1\<rparr>)))"

definition release_sem0 :: "place \<Rightarrow> nat \<Rightarrow> 'w shm_sys \<Rightarrow> 'w shm_sys option" where
  "release_sem0 q i s = Some (goto q i (s\<lparr>sem0 := sem0 s + 1\<rparr>))"

definition waiton_sem1_dec :: "place \<Rightarrow> nat \<Rightarrow> 'w shm_sys \<Rightarrow> 'w shm_sys option" where
  "waiton_sem1_dec q i s = (if sem1 s = 0 then None else Some (goto q i (s\<lparr>sem1 := sem1 s - 1\<rparr>)))"

definition waiton_sem1_zero :: "place \<Rightarrow> nat \<Rightarrow> 'w shm_sys \<Rightarrow> 'w shm_sys option" where
  "waiton_sem1_zero q i s = (if sem1 s = 0 then Some (goto q i s) else None)"

text \<open>One step of process \<open>i\<close>; \<open>cs i\<close> is its pid and instance number.\<close>

definition shm_test_step :: "(nat \<Rightarrow> pp_conf) \<Rightarrow> 'w kern \<Rightarrow> nat \<Rightarrow> nat \<Rightarrow> 'w shm_sys \<Rightarrow> 'w shm_sys option" where
  "shm_test_step cs k pages i s =
     (case place (procs s i) of
        P_enter \<Rightarrow> Some (run_code (shm_enter (cs i) k) P_lock1 Dead_enter i s)
      | P_lock1 \<Rightarrow> request_sem0 P_section1 i s
      | P_section1 \<Rightarrow> Some (run_code (shm_section1 (cs i) k pages) P_unlock1 Dead_section1 i s)
      | P_unlock1 \<Rightarrow> release_sem0 P_arrive i s
      | P_arrive \<Rightarrow> waiton_sem1_dec P_wait i s
      | P_wait \<Rightarrow> waiton_sem1_zero P_lock2 i s
      | P_lock2 \<Rightarrow> request_sem0 P_section2 i s
      | P_section2 \<Rightarrow> Some (run_code (shm_section2 (cs i) k) P_unlock2 Dead_section2 i s)
      | P_unlock2 \<Rightarrow> release_sem0 P_leave i s
      | P_leave \<Rightarrow> Some (run_code (shm_leave (cs i) k) P_end Dead_leave i s)
      | _ \<Rightarrow> None)"

inductive shm_step :: "nat \<Rightarrow> (nat \<Rightarrow> pp_conf) \<Rightarrow> 'w kern \<Rightarrow> nat \<Rightarrow> 'w shm_sys \<Rightarrow> 'w shm_sys \<Rightarrow> bool"
  for n cs k pages where
  step: "i < n \<Longrightarrow> shm_test_step cs k pages i s = Some s' \<Longrightarrow> shm_step n cs k pages s s'"

inductive_cases shm_stepE: "shm_step n cs k pages s s'"

inductive shm_reachable :: "nat \<Rightarrow> (nat \<Rightarrow> pp_conf) \<Rightarrow> 'w kern \<Rightarrow> nat \<Rightarrow> 'w shm_sys \<Rightarrow> 'w shm_sys \<Rightarrow> bool"
  for n cs k pages where
  start: "shm_reachable n cs k pages s s"
| advance: "shm_reachable n cs k pages s t \<Longrightarrow> shm_step n cs k pages t u \<Longrightarrow> shm_reachable n cs k pages s u"

text \<open>A schedule names the process that moves; \<open>None\<close> when it is blocked.\<close>

fun shm_schedule :: "(nat \<Rightarrow> pp_conf) \<Rightarrow> 'w kern \<Rightarrow> nat \<Rightarrow> nat list \<Rightarrow> 'w shm_sys \<Rightarrow> 'w shm_sys option" where
  "shm_schedule cs k pages [] s = Some s"
| "shm_schedule cs k pages (i # is) s =
     (case shm_test_step cs k pages i s of None \<Rightarrow> None | Some t \<Rightarrow> shm_schedule cs k pages is t)"

text \<open>How \<open>setup_ipc\<close> and \<open>fork\<close> leave the system.\<close>

definition shm_init :: "nat \<Rightarrow> pp_globals \<Rightarrow> 'w \<Rightarrow> 'w shm_sys" where
  "shm_init n g w = \<lparr>procs = (\<lambda>_. \<lparr>place = P_enter, own = g\<rparr>), sem0 = 1, sem1 = n, shared = (empty_ipc, w)\<rparr>"

section \<open>Counting processes\<close>

text \<open>How many of the first \<open>n\<close> processes are at a place with the property.\<close>

definition number :: "nat \<Rightarrow> (place \<Rightarrow> bool) \<Rightarrow> 'w shm_sys \<Rightarrow> nat" where
  "number n P s = (\<Sum>j<n. of_bool (P (place (procs s j))))"

text \<open>A step of one process from a place to another.\<close>

definition moves :: "nat \<Rightarrow> place \<Rightarrow> place \<Rightarrow> 'w shm_sys \<Rightarrow> 'w shm_sys \<Rightarrow> bool" where
  "moves i a b s s' \<longleftrightarrow> place (procs s i) = a \<and> place (procs s' i) = b \<and> (\<forall>j. j \<noteq> i \<longrightarrow> procs s' j = procs s j)"

lemma number_moves:
  assumes "moves i a b s s'" "i < n"
  shows "number n P s' + of_bool (P a) = number n P s + of_bool (P b)"
proof -
  have "(\<Sum>j\<in>{..<n} - {i}. of_bool (P (place (procs s' j)))) = (\<Sum>j\<in>{..<n} - {i}. of_bool (P (place (procs s j))) :: nat)"
    using assms(1) by (intro sum.cong) (auto simp: moves_def)
  with assms show ?thesis
    by (simp add: number_def moves_def sum.remove [of "{..<n}" i] del: sum_of_bool_eq)
qed

lemma number_pos: "i < n \<Longrightarrow> P (place (procs s i)) \<Longrightarrow> 0 < number n P s"
  by (simp add: number_def sum.remove [of "{..<n}" i] del: sum_of_bool_eq)

lemma number_zero: "number n P s = 0 \<Longrightarrow> i < n \<Longrightarrow> \<not> P (place (procs s i))"
  using number_pos [of i n P s] by auto

lemma number_two:
  assumes "number n P s \<le> 1" "i < n" "j < n" "P (place (procs s i))" "P (place (procs s j))"
  shows "i = j"
proof (rule ccontr)
  assume "i \<noteq> j"
  with assms(2-5) have "2 \<le> number n P s"
    by (simp add: number_def sum.remove [of "{..<n}" i] sum.remove [of "{..<n} - {i}" j] del: sum_of_bool_eq)
  with assms(1) show False by simp
qed

lemma number_exists: "0 < number n P s \<Longrightarrow> \<exists>i<n. P (place (procs s i))"
  by (rule ccontr) (simp add: number_def del: sum_of_bool_eq)

lemma number_all: "(\<And>i. i < n \<Longrightarrow> P (place (procs s i))) \<Longrightarrow> number n P s = n"
  by (simp add: number_def)

text \<open>What each step does to the places and the semaphores.\<close>

lemma goto_moves [simp]: "moves i a b s (goto q i s) \<longleftrightarrow> place (procs s i) = a \<and> q = b"
  by (auto simp: moves_def goto_def)

lemma run_code_moves:
  "place (procs s i) = a \<Longrightarrow> moves i a (place (procs (run_code f ok dead i s) i)) s (run_code f ok dead i s)"
  by (simp add: run_code_def moves_def split: prod.splits)

lemma run_code_place: "place (procs (run_code f ok dead i s) i) \<in> {ok, dead}"
  by (simp add: run_code_def split: prod.splits)

lemma run_code_sems [simp]: "sem0 (run_code f ok dead i s) = sem0 s" "sem1 (run_code f ok dead i s) = sem1 s"
  by (simp_all add: run_code_def split: prod.splits)

lemma goto_fields [simp]:
  "sem0 (goto q i s) = sem0 s" "sem1 (goto q i s) = sem1 s" "shared (goto q i s) = shared s"
  by (simp_all add: goto_def)

lemma moves_sems [simp]:
  "moves i a b s (goto q i (s\<lparr>sem0 := x\<rparr>)) \<longleftrightarrow> place (procs s i) = a \<and> q = b"
  "moves i a b s (goto q i (s\<lparr>sem1 := x\<rparr>)) \<longleftrightarrow> place (procs s i) = a \<and> q = b"
  by (auto simp: moves_def goto_def)

text \<open>The graph of a process: \<open>holds\<close> semaphore 0, has \<open>arrived\<close> at the barrier, has \<open>passed\<close> it.\<close>

definition holds :: "place \<Rightarrow> bool" where
  "holds q \<longleftrightarrow> q \<in> {P_section1, P_unlock1, P_section2, P_unlock2, Dead_section1, Dead_section2}"

definition passed :: "place \<Rightarrow> bool" where
  "passed q \<longleftrightarrow> q \<in> {P_lock2, P_section2, P_unlock2, P_leave, P_end, Dead_section2, Dead_leave}"

definition arrived :: "place \<Rightarrow> bool" where
  "arrived q \<longleftrightarrow> q = P_wait \<or> passed q"

lemmas places = holds_def passed_def arrived_def

definition dead :: "place \<Rightarrow> bool" where
  "dead q \<longleftrightarrow> q \<in> {Dead_enter, Dead_section1, Dead_section2, Dead_leave}"

text \<open>What a step from \<open>a\<close> to \<open>b\<close> does to the semaphores and the barrier.\<close>

definition effect :: "place \<Rightarrow> place \<Rightarrow> 'w shm_sys \<Rightarrow> 'w shm_sys \<Rightarrow> bool" where
  "effect a b s s' \<longleftrightarrow>
     sem0 s' + of_bool (holds b) = sem0 s + of_bool (holds a) \<and> sem1 s' + of_bool (arrived b) = sem1 s + of_bool (arrived a)
     \<and> (passed b \<longrightarrow> passed a \<or> sem1 s = 0) \<and> (arrived a \<longrightarrow> arrived b)"

lemma sem_effects:
  "request_sem0 q i s = Some s' \<Longrightarrow> \<not> holds a \<Longrightarrow> holds q \<Longrightarrow> arrived q = arrived a \<Longrightarrow> passed q = passed a \<Longrightarrow>
     place (procs s i) = a \<Longrightarrow> moves i a q s s' \<and> effect a q s s'"
  "release_sem0 q i s = Some s' \<Longrightarrow> holds a \<Longrightarrow> \<not> holds q \<Longrightarrow> arrived q = arrived a \<Longrightarrow> passed q = passed a \<Longrightarrow>
     place (procs s i) = a \<Longrightarrow> moves i a q s s' \<and> effect a q s s'"
  "waiton_sem1_dec q i s = Some s' \<Longrightarrow> \<not> arrived a \<Longrightarrow> arrived q \<Longrightarrow> holds q = holds a \<Longrightarrow> passed q = passed a \<Longrightarrow>
     place (procs s i) = a \<Longrightarrow> moves i a q s s' \<and> effect a q s s'"
  "waiton_sem1_zero q i s = Some s' \<Longrightarrow> holds q = holds a \<Longrightarrow> arrived q = arrived a \<Longrightarrow>
     place (procs s i) = a \<Longrightarrow> moves i a q s s' \<and> effect a q s s'"
  by (auto simp: request_sem0_def release_sem0_def waiton_sem1_dec_def waiton_sem1_zero_def effect_def
      split: if_splits)

lemma code_effect:
  assumes "place (procs s i) = a" "holds ok = holds a" "arrived ok = arrived a" "passed ok = passed a"
    and "holds bad = holds a" "arrived bad = arrived a" "passed bad = passed a"
  shows "\<exists>b. moves i a b s (run_code f ok bad i s) \<and> effect a b s (run_code f ok bad i s)"
  using assms run_code_place [of f ok bad i s] run_code_moves [OF assms(1), of f ok bad]
  by (intro exI [of _ "place (procs (run_code f ok bad i s) i)"]) (auto simp: effect_def)

lemma step_moves:
  assumes "shm_test_step cs k pages i s = Some s'"
  shows "\<exists>b. moves i (place (procs s i)) b s s' \<and> effect (place (procs s i)) b s s'"
proof (cases "place (procs s i)")
  case P_lock1
  with assms sem_effects(1) [of P_section1 i s s' P_lock1] show ?thesis by (auto simp: shm_test_step_def places)
next
  case P_lock2
  with assms sem_effects(1) [of P_section2 i s s' P_lock2] show ?thesis by (auto simp: shm_test_step_def places)
next
  case P_unlock1
  with assms sem_effects(2) [of P_arrive i s s' P_unlock1] show ?thesis by (auto simp: shm_test_step_def places)
next
  case P_unlock2
  with assms sem_effects(2) [of P_leave i s s' P_unlock2] show ?thesis by (auto simp: shm_test_step_def places)
next
  case P_arrive
  with assms sem_effects(3) [of P_wait i s s' P_arrive] show ?thesis by (auto simp: shm_test_step_def places)
next
  case P_wait
  with assms sem_effects(4) [of P_lock2 i s s' P_wait] show ?thesis by (auto simp: shm_test_step_def places)
qed (use assms in \<open>auto simp: shm_test_step_def places intro!: code_effect\<close>)

section \<open>The invariant\<close>

definition shm_inv :: "nat \<Rightarrow> 'w shm_sys \<Rightarrow> bool" where
  "shm_inv n s \<longleftrightarrow>
     number n holds s + sem0 s = 1 \<and> number n (\<lambda>q. \<not> arrived q) s = sem1 s
     \<and> (0 < number n passed s \<longrightarrow> sem1 s = 0)"

lemma shm_inv_init: "shm_inv n (shm_init n g w)"
  by (simp add: shm_inv_def shm_init_def number_def places)

lemma shm_inv_step:
  assumes inv: "shm_inv n s" and "shm_step n cs k pages s s'"
  shows "shm_inv n s'"
proof -
  from assms(2) obtain i where i: "i < n" "shm_test_step cs k pages i s = Some s'" by (cases rule: shm_step.cases)
  from i(2) obtain b where mv: "moves i (place (procs s i)) b s s'"
      and ef: "effect (place (procs s i)) b s s'"
    using step_moves by blast
  then have s0: "sem0 s' + of_bool (holds b) = sem0 s + of_bool (holds (place (procs s i)))"
      and s1: "sem1 s' + of_bool (arrived b) = sem1 s + of_bool (arrived (place (procs s i)))"
      and ps: "passed b \<longrightarrow> passed (place (procs s i)) \<or> sem1 s = 0" "arrived (place (procs s i)) \<longrightarrow> arrived b"
    by (simp_all add: effect_def)
  note num = number_moves [OF mv i(1)]
  have "sem1 s' \<le> sem1 s" if "sem1 s = 0"
    using s1 ps(2) that by (auto simp: shm_inv_def of_bool_def split: if_splits)
  moreover have "sem1 s = 0" if "0 < number n passed s'"
    using num [of passed] ps(1) inv that number_pos [of i n passed s] i(1)
    by (auto simp: shm_inv_def of_bool_def split: if_splits)
  ultimately show ?thesis
    using inv s0 s1 num [of holds] num [of "\<lambda>q. \<not> arrived q"]
    by (auto simp: shm_inv_def of_bool_def split: if_splits)
qed

lemma shm_reachable_inv:
  "shm_reachable n cs k pages s t \<Longrightarrow> shm_inv n s \<Longrightarrow> shm_inv n t"
  by (induction rule: shm_reachable.induct) (auto intro: shm_inv_step)

lemmas shm_invariant = shm_reachable_inv [OF _ shm_inv_init]

section \<open>Steps that use something up\<close>

fun steps_left :: "place \<Rightarrow> nat" where
  "steps_left P_enter = 10" | "steps_left P_lock1 = 9" | "steps_left P_section1 = 8" | "steps_left P_unlock1 = 7"
| "steps_left P_arrive = 6" | "steps_left P_wait = 5" | "steps_left P_lock2 = 4" | "steps_left P_section2 = 3"
| "steps_left P_unlock2 = 2" | "steps_left P_leave = 1" | "steps_left _ = 0"

definition rank_of :: "'w shm_sys \<Rightarrow> nat \<Rightarrow> nat" where
  "rank_of s i = steps_left (place (procs s i))"

lemma rank_run_code:
  "steps_left ok < r \<Longrightarrow> steps_left bad < r \<Longrightarrow> rank_of (run_code f ok bad i s) i < r"
  using run_code_place [of f ok bad i s] by (auto simp: rank_of_def)

lemma rank_leave: "rank_of (run_code f P_end Dead_leave i s) i = 0"
  using run_code_place [of f P_end Dead_leave i s] by (auto simp: rank_of_def)

lemma rank_goto [simp]:
  "rank_of (goto q i s) i = steps_left q"
  by (simp add: rank_of_def goto_def)

lemma step_frame: "shm_test_step cs k pages i s = Some t \<Longrightarrow> j \<noteq> i \<Longrightarrow> procs t j = procs s j"
  using step_moves [of cs k pages i s t] by (auto simp: moves_def)

lemma step_lowers:
  assumes "shm_test_step cs k pages i s = Some t"
  shows "rank_of t i < rank_of s i"
proof -
  have "rank_of s i = steps_left (place (procs s i))" by (simp add: rank_of_def)
  with assms show ?thesis
    by (cases "place (procs s i)")
       (auto simp: shm_test_step_def request_sem0_def release_sem0_def waiton_sem1_dec_def waiton_sem1_zero_def
          rank_leave split: if_splits intro: rank_run_code [THEN less_le_trans])
qed

interpretation shm: ranked_processes "shm_test_step cs k pages" rank_of for cs k pages
  by unfold_locales (rule step_lowers, assumption, simp add: step_frame rank_of_def)

lemma schedule_moves_of: "shm.moves_of cs k pages is s = shm_schedule cs k pages is s"
  by (induction "is" arbitrary: s) (auto split: option.splits)

lemma shm_reachable_prepend:
  "shm_reachable n cs k pages t u \<Longrightarrow> shm_step n cs k pages s t \<Longrightarrow> shm_reachable n cs k pages s u"
  by (induction rule: shm_reachable.induct) (blast intro: shm_reachable.intros)+

lemma schedule_reachable:
  "shm_schedule cs k pages is s = Some t \<Longrightarrow> set is \<subseteq> {..<n} \<Longrightarrow> shm_reachable n cs k pages s t"
proof (induction "is" arbitrary: s)
  case (Cons i "is")
  then obtain u where u: "shm_test_step cs k pages i s = Some u" "shm_schedule cs k pages is u = Some t"
    by (auto split: option.splits)
  from Cons.prems(2) u(1) have "shm_step n cs k pages s u" by (auto intro: shm_step.intros)
  with Cons.IH [OF u(2)] Cons.prems(2) show ?case by (auto intro: shm_reachable_prepend)
qed (auto intro: start)

section \<open>The order of the places\<close>

text \<open>The places in the order of the code, a death where the process has come to: \<open>arrived\<close> and \<open>passed\<close> are the places from one on.\<close>

fun place_no :: "place \<Rightarrow> nat" where
  "place_no P_enter = 0" | "place_no P_lock1 = 1" | "place_no P_section1 = 2" | "place_no P_unlock1 = 3"
| "place_no P_arrive = 4" | "place_no Dead_enter = 5" | "place_no Dead_section1 = 6" | "place_no P_wait = 7"
| "place_no P_lock2 = 8" | "place_no P_section2 = 9" | "place_no P_unlock2 = 10" | "place_no P_leave = 11"
| "place_no P_end = 12" | "place_no Dead_section2 = 13" | "place_no Dead_leave = 14"

lemma place_no_inj: "place_no p = place_no q \<Longrightarrow> p = q"
  by (cases p; cases q) simp_all

instantiation place :: linorder
begin

definition less_eq_place :: "place \<Rightarrow> place \<Rightarrow> bool" where
  "less_eq_place p q \<longleftrightarrow> place_no p \<le> place_no q"

definition less_place :: "place \<Rightarrow> place \<Rightarrow> bool" where
  "less_place p q \<longleftrightarrow> place_no p < place_no q"

instance
  by standard (auto simp: less_eq_place_def less_place_def intro: place_no_inj)

end

lemma arrived_from: "arrived q \<longleftrightarrow> P_wait \<le> q" and passed_from: "passed q \<longleftrightarrow> P_lock2 \<le> q"
  by (cases q; simp add: places less_eq_place_def)+

lemma run_code_forward: "p < ok \<Longrightarrow> p < bad \<Longrightarrow> p < place (procs (run_code f ok bad i s) i)"
  using run_code_place [of f ok bad i s] by auto

lemma step_forward:
  assumes "shm_test_step cs k pages i s = Some t"
  shows "place (procs s i) < place (procs t i)"
proof -
  have run: "p < place (procs (run_code f ok bad i s) i)" if "place_no p < place_no ok" "place_no p < place_no bad" for p f ok bad
    using that by (intro run_code_forward) (simp_all add: less_place_def)
  have go: "p < place (procs (goto q i u) i)" if "place_no p < place_no q" for p q and u :: "'a shm_sys"
    using that by (simp add: goto_def less_place_def)
  from assms show ?thesis
    by (cases "place (procs s i)")
      (auto simp: shm_test_step_def request_sem0_def release_sem0_def waiton_sem1_dec_def waiton_sem1_zero_def
        split: if_splits intro!: run go)
qed

text \<open>No process ever goes back.\<close>

lemma shm_forward: "shm_reachable n cs k pages s t \<Longrightarrow> place (procs s j) \<le> place (procs t j)"
proof (induction rule: shm_reachable.induct)
  case (advance s t u)
  from advance.hyps(2) obtain i where i: "shm_test_step cs k pages i t = Some u" by (auto elim: shm_stepE)
  have "place (procs t j) \<le> place (procs u j)"
    using step_forward [OF i] step_frame [OF i, of j] by (cases "j = i") auto
  with advance.IH show ?case by (rule order_trans)
qed simp

section \<open>Who writes the table\<close>

text \<open>Code that leaves the flags of the table alone.\<close>

definition table_flags :: "ipc \<Rightarrow> bool \<times> bool" where
  "table_flags i = (shm_ready i, shm_done i)"

definition keeps_flags :: "('w, 'a) pp_act \<Rightarrow> bool" where
  "keeps_flags a \<longleftrightarrow> (\<forall>g i w. table_flags (fst (snd (snd (a (g, i, w))))) = table_flags i)"

named_theorems flags \<open>code that keeps the flags\<close>

lemma keeps_basic [flags]:
  "keeps_flags (ret x)" "keeps_flags (halt e)" "keeps_flags (glob f)" "keeps_flags (upd h)" "keeps_flags nop"
  "keeps_flags (kcall c)"
  by (simp_all add: keeps_flags_def kcall_def split: prod.splits)

lemma keeps_bind [flags]:
  assumes "keeps_flags m" "\<And>x. keeps_flags (f x)"
  shows "keeps_flags (sbind m f)"
  unfolding keeps_flags_def
proof (intro allI)
  fix g i w
  obtain r h j u where m: "m (g, i, w) = (r, h, j, u)" by (cases "m (g, i, w)") auto
  with assms(1) have "table_flags j = table_flags i" unfolding keeps_flags_def by (metis fst_conv snd_conv)
  with assms(2) show "table_flags (fst (snd (snd (sbind m f (g, i, w))))) = table_flags i"
    by (simp add: keeps_flags_def act_run m split: sum.splits)
qed

lemma keeps_seq [flags]: "keeps_flags m \<Longrightarrow> keeps_flags n \<Longrightarrow> keeps_flags (sseq m n)"
  by (simp add: sseq_def keeps_bind)

lemma keeps_cases [flags]:
  "(b \<Longrightarrow> keeps_flags m) \<Longrightarrow> (\<not> b \<Longrightarrow> keeps_flags n) \<Longrightarrow> keeps_flags (if b then m else n)"
  "keeps_flags m1 \<Longrightarrow> (\<And>x. keeps_flags (h x)) \<Longrightarrow> keeps_flags (case opt of None \<Rightarrow> m1 | Some x \<Rightarrow> h x)"
  "(\<And>x. keeps_flags (p x)) \<Longrightarrow> (\<And>y. keeps_flags (q y)) \<Longrightarrow> keeps_flags (case r of Inl x \<Rightarrow> p x | Inr y \<Rightarrow> q y)"
  "keeps_flags a1 \<Longrightarrow> keeps_flags a2 \<Longrightarrow> keeps_flags a3 \<Longrightarrow> keeps_flags a4 \<Longrightarrow> keeps_flags a5 \<Longrightarrow>
     keeps_flags (case mode of MREAD \<Rightarrow> a1 | MWRITE \<Rightarrow> a2 | MREAD_OK \<Rightarrow> a3 | MWRITE_OK \<Rightarrow> a4 | MNOTHING \<Rightarrow> a5)"
  by (auto split: option.splits sum.splits rmode.splits)

lemma keeps_log [flags]:
  "keeps_flags (into_buf t)" "keeps_flags (put_log c t)" "keeps_flags (put_result c t)" "keeps_flags (pp_err c t)"
  "keeps_flags (mylog c t)" "keeps_flags (result c t)" "keeps_flags (fail_result c t)"
  unfolding into_buf_def put_log_def put_result_def pp_err_def mylog_def result_def fail_result_def
  by (intro flags)+

lemma keeps_table [flags]:
  "keeps_flags (call (\<lambda>(i, w). (h i, (i, w))))"
  "keeps_flags (call (\<lambda>(i, w). ((), (i\<lparr>tests := f i\<rparr>, w))))"
  by (simp_all add: keeps_flags_def table_flags_def)

lemma keeps_signals [flags]:
  "keeps_flags (pp_sighandler c b)" "keeps_flags (pp_deliver c ctx b)"
  unfolding pp_sighandler_def pp_deliver_def by (intro flags)+

lemma keeps_poison [flags]:
  "keeps_flags (pp_poison c k msg page mode tc)" "keeps_flags (pp_touch c k page mode)"
  "keeps_flags (pp_recover c k msg page mode)" "keeps_flags (pp_testmem c k msg page mode tc)"
  unfolding pp_poison_def pp_touch_def pp_recover_def pp_testmem_def by (intro flags)+

lemma keeps_ends [flags]:
  "keeps_flags (shm_enter c k)" "keeps_flags (shm_map c k)" "keeps_flags (shm_leave c k)"
  unfolding shm_enter_def shm_map_def shm_leave_def by (intro flags)+

text \<open>The flags after an action, and whether it came to its end.\<close>

definition flags_after :: "('w, 'a) pp_act \<Rightarrow> pp_globals \<times> ipc \<times> 'w \<Rightarrow> bool \<times> bool" where
  "flags_after a st = table_flags (fst (snd (snd (a st))))"

lemma flags_after_keeps: "keeps_flags a \<Longrightarrow> flags_after a (g, i, w) = table_flags i"
  by (simp add: keeps_flags_def flags_after_def)

lemma flags_after_seq:
  "keeps_flags n \<Longrightarrow> flags_after (sseq m n) st = flags_after m st"
  by (cases "m st") (auto simp: flags_after_def act_run keeps_flags_def split: sum.splits)

lemma section2_flags: "flags_after (shm_section2 c k) (g, i, w) = (shm_ready i, True)"
  using flags_after_keeps [OF keeps_poison(3), of c k "''shm dirty''" "shmptr g" MREAD g i w]
    flags_after_keeps [OF keeps_poison(4), of c k "''shm dirty''" "shmptr g" MWRITE SHARED_MEM g "i\<lparr>shm_done := True\<rparr>" w]
  by (auto simp: shm_section2_def flags_after_def act_run table_flags_def)

lemma pp_err_end:
  assumes "(pp_err c m :: ('w, 'a) pp_act) (g, i, w) = (r, h, j, u)"
  shows "isl r \<and> shm_ready j = shm_ready i \<and> shm_done j = shm_done i"
proof -
  have "isl r" using assms by (auto simp: pp_err_def act_run split: sum.splits prod.splits)
  moreover from assms have "table_flags j = table_flags i"
    using flags_after_keeps [of "pp_err c m :: ('w, 'a) pp_act" g i w] by (simp add: flags_after_def flags)
  ultimately show ?thesis by (simp add: table_flags_def)
qed

lemma pp_err_isl [simp]: "isl (fst (pp_err c m st))"
  by (auto simp: pp_err_def act_run split: sum.splits prod.splits)

lemma seq_isl: "isl (fst (m st)) \<Longrightarrow> isl (fst (sseq m n st))"
  by (cases "m st") (auto simp: act_run split: sum.splits)

lemma create_flags:
  assumes "shm_create c k pages (g, i, w) = (r, h, j, u)"
  shows "shm_done j = shm_done i" "shm_ready j = (shm_ready i \<or> \<not> isl r)"
  using assms
  by (auto simp: shm_create_def act_run kcall_def table_flags_def dest!: pp_err_end split: if_splits prod.splits)

lemma section1_flags:
  assumes "shm_section1 c k pages (g, i, w) = (r, h, j, u)"
  shows "shm_done j = shm_done i" "shm_ready i \<longrightarrow> shm_ready j" "\<not> isl r \<longrightarrow> shm_ready j"
proof -
  obtain r1 h1 j1 u1 where c: "shm_create c k pages (g, i, w) = (r1, h1, j1, u1)" by (cases "shm_create c k pages (g, i, w)") auto
  have "flags_after (shm_section1 c k pages) (g, i, w) = flags_after (shm_create c k pages) (g, i, w)"
    unfolding shm_section1_def by (rule flags_after_seq) (rule keeps_ends)
  then have "table_flags j = table_flags j1" by (simp add: flags_after_def assms c)
  moreover have "isl r1 \<Longrightarrow> isl r" using assms c by (auto simp: shm_section1_def act_run split: sum.splits)
  ultimately show "shm_done j = shm_done i" "shm_ready i \<longrightarrow> shm_ready j" "\<not> isl r \<longrightarrow> shm_ready j"
    using create_flags [OF c] by (auto simp: table_flags_def)
qed

text \<open>Steps that create the segment or inject the poison.\<close>

definition creates :: "nat \<Rightarrow> 'w shm_sys \<Rightarrow> bool" where
  "creates i s \<longleftrightarrow> place (procs s i) = P_section1 \<and> \<not> shm_ready (fst (shared s))"

definition injects :: "nat \<Rightarrow> 'w shm_sys \<Rightarrow> bool" where
  "injects i s \<longleftrightarrow> place (procs s i) = P_section2 \<and> \<not> shm_done (fst (shared s))"

fun times :: "(nat \<Rightarrow> 'w shm_sys \<Rightarrow> bool) \<Rightarrow> (nat \<Rightarrow> pp_conf) \<Rightarrow> 'w kern \<Rightarrow> nat \<Rightarrow> nat list \<Rightarrow> 'w shm_sys \<Rightarrow> nat" where
  "times P cs k pages [] s = 0"
| "times P cs k pages (i # is) s =
     of_bool (P i s) + (case shm_test_step cs k pages i s of None \<Rightarrow> 0 | Some t \<Rightarrow> times P cs k pages is t)"

lemma run_code_shared:
  "shared (run_code f ok bad i s) = snd (snd (f (own (procs s i), shared s)))"
  "isl (fst (f (own (procs s i), shared s))) \<Longrightarrow> place (procs (run_code f ok bad i s) i) = bad"
  "\<not> isl (fst (f (own (procs s i), shared s))) \<Longrightarrow> place (procs (run_code f ok bad i s) i) = ok"
  by (simp_all add: run_code_def case_prod_beta)

lemma run_code_flags:
  "keeps_flags f \<Longrightarrow> table_flags (fst (shared (run_code f ok bad i s))) = table_flags (fst (shared s))"
  by (cases "shared s") (simp add: run_code_shared keeps_flags_def)

text \<open>Only the sections change the flags.\<close>

lemma step_flags:
  assumes "shm_test_step cs k pages i s = Some t" "place (procs s i) \<noteq> P_section1" "place (procs s i) \<noteq> P_section2"
  shows "table_flags (fst (shared t)) = table_flags (fst (shared s))"
  using assms
  by (auto simp: shm_test_step_def request_sem0_def release_sem0_def waiton_sem1_dec_def waiton_sem1_zero_def
      run_code_flags flags split: place.splits if_splits)

lemma step_section1:
  assumes "shm_test_step cs k pages i s = Some t" "place (procs s i) = P_section1"
  shows "shm_done (fst (shared t)) = shm_done (fst (shared s))"
    and "shm_ready (fst (shared s)) \<longrightarrow> shm_ready (fst (shared t))"
    and "shm_ready (fst (shared t)) \<or> place (procs t i) = Dead_section1"
proof -
  obtain g i' w where st: "own (procs s i) = g" "shared s = (i', w)" by (cases "shared s") auto
  obtain r h j u where r: "shm_section1 (cs i) k pages (g, i', w) = (r, h, j, u)"
    by (cases "shm_section1 (cs i) k pages (g, i', w)") auto
  from assms have "t = run_code (shm_section1 (cs i) k pages) P_unlock1 Dead_section1 i s"
    by (simp add: shm_test_step_def)
  with section1_flags [OF r] r st run_code_shared [where f = "shm_section1 (cs i) k pages" and i = i and s = s and ok = P_unlock1 and bad = Dead_section1]
  show "shm_done (fst (shared t)) = shm_done (fst (shared s))"
    "shm_ready (fst (shared s)) \<longrightarrow> shm_ready (fst (shared t))"
    "shm_ready (fst (shared t)) \<or> place (procs t i) = Dead_section1"
    by (auto simp del: disj_not1)
qed

lemma step_section2:
  assumes "shm_test_step cs k pages i s = Some t" "place (procs s i) = P_section2"
  shows "table_flags (fst (shared t)) = (shm_ready (fst (shared s)), True)"
proof -
  from assms have "t = run_code (shm_section2 (cs i) k) P_unlock2 Dead_section2 i s" by (simp add: shm_test_step_def)
  with section2_flags [of "cs i" k "own (procs s i)" "fst (shared s)" "snd (shared s)"] show ?thesis
    by (simp add: run_code_shared flags_after_def)
qed

text \<open>Injections: the flag goes up with the first one and stays.\<close>

lemma step_done:
  assumes "shm_test_step cs k pages i s = Some t"
  shows "shm_done (fst (shared t)) \<longleftrightarrow> shm_done (fst (shared s)) \<or> place (procs s i) = P_section2"
  using step_flags [OF assms] step_section1(1) [OF assms] step_section2 [OF assms]
  by (cases "place (procs s i)") (auto simp: table_flags_def)

lemma times_injects:
  "shm_schedule cs k pages is s = Some t \<Longrightarrow>
     times injects cs k pages is s = of_bool (\<not> shm_done (fst (shared s)) \<and> shm_done (fst (shared t)))
     \<and> (shm_done (fst (shared s)) \<longrightarrow> shm_done (fst (shared t)))"
proof (induction "is" arbitrary: s)
  case (Cons i "is")
  then obtain u where u: "shm_test_step cs k pages i s = Some u" "shm_schedule cs k pages is u = Some t"
    by (auto split: option.splits)
  from Cons.IH [OF u(2)] step_done [OF u(1)] show ?case by (auto simp: u(1) injects_def)
qed simp

text \<open>Creations: a failed one is the last, since the dead process keeps the semaphore.\<close>

lemma step_ready:
  assumes "shm_test_step cs k pages i s = Some t"
  shows "shm_ready (fst (shared s)) \<longrightarrow> shm_ready (fst (shared t))"
    and "place (procs s i) \<noteq> P_section1 \<Longrightarrow> shm_ready (fst (shared t)) = shm_ready (fst (shared s))"
  using step_flags [OF assms] step_section1(2) [OF assms] step_section2 [OF assms]
  by (cases "place (procs s i)"; simp add: table_flags_def)+

lemma dead_stays:
  "shm_test_step cs k pages i s = Some t \<Longrightarrow> dead (place (procs s j)) \<Longrightarrow> procs t j = procs s j"
  by (cases "i = j") (auto simp: step_frame shm_test_step_def dead_def)

lemma dead_holder_blocks:
  "shm_schedule cs k pages is s = Some t \<Longrightarrow> set is \<subseteq> {..<n} \<Longrightarrow> shm_inv n s \<Longrightarrow> j < n \<Longrightarrow>
     place (procs s j) = Dead_section1 \<Longrightarrow> times creates cs k pages is s = 0"
proof (induction "is" arbitrary: s)
  case (Cons i "is")
  then obtain u where u: "shm_test_step cs k pages i s = Some u" "shm_schedule cs k pages is u = Some t"
    by (auto split: option.splits)
  from Cons.prems(2) u(1) have "shm_step n cs k pages s u" by (auto intro: shm_step.intros)
  with Cons.prems(3) have "shm_inv n u" by (rule shm_inv_step)
  moreover have "place (procs u j) = Dead_section1"
    using dead_stays [OF u(1), of j] Cons.prems(5) by (simp add: dead_def)
  moreover have "\<not> creates i s"
    using Cons.prems number_two [of n holds s i j] by (auto simp: creates_def shm_inv_def places)
  ultimately show ?case using Cons.IH [OF u(2)] Cons.prems(2,4) by (simp add: u(1))
qed simp

lemma times_creates:
  "shm_schedule cs k pages is s = Some t \<Longrightarrow> set is \<subseteq> {..<n} \<Longrightarrow> shm_inv n s \<Longrightarrow>
     of_bool (\<not> shm_ready (fst (shared s)) \<and> shm_ready (fst (shared t))) \<le> times creates cs k pages is s
     \<and> times creates cs k pages is s \<le> of_bool (\<not> shm_ready (fst (shared s)))"
proof (induction "is" arbitrary: s)
  case (Cons i "is")
  then obtain u where u: "shm_test_step cs k pages i s = Some u" "shm_schedule cs k pages is u = Some t"
    by (auto split: option.splits)
  from Cons.prems(2) u(1) have "shm_step n cs k pages s u" by (auto intro: shm_step.intros)
  with Cons.prems(3) have inv: "shm_inv n u" by (rule shm_inv_step)
  note IH = Cons.IH [OF u(2) _ inv]
  show ?case
  proof (cases "creates i s")
    case True
    then have at: "place (procs s i) = P_section1" "\<not> shm_ready (fst (shared s))" by (auto simp: creates_def)
    from step_section1(3) [OF u(1) at(1)] show ?thesis
    proof
      assume "shm_ready (fst (shared u))"
      with IH Cons.prems(2) at(2) True show ?thesis by (simp add: u(1))
    next
      assume "place (procs u i) = Dead_section1"
      with dead_holder_blocks [OF u(2) _ inv, of i] Cons.prems(2) at(2) True show ?thesis by (simp add: u(1))
    qed
  next
    case False
    with step_ready [OF u(1)] IH Cons.prems(2) show ?thesis
      by (cases "place (procs s i) = P_section1") (auto simp: u(1) creates_def)
  qed
qed simp

text \<open>Who is beyond a section has seen its flag.\<close>

definition after1 :: "place \<Rightarrow> bool" where
  "after1 q \<longleftrightarrow> q \<notin> {P_enter, P_lock1, P_section1, Dead_enter, Dead_section1}"

definition after2 :: "place \<Rightarrow> bool" where
  "after2 q \<longleftrightarrow> q \<in> {P_unlock2, P_leave, P_end, Dead_section2, Dead_leave}"

lemma step_after:
  assumes "shm_test_step cs k pages i s = Some t"
  shows "after2 (place (procs t i)) \<Longrightarrow> after2 (place (procs s i)) \<or> place (procs s i) = P_section2"
    and "after1 (place (procs t i)) \<Longrightarrow> after1 (place (procs s i))
      \<or> place (procs s i) = P_section1 \<and> place (procs t i) \<noteq> Dead_section1"
  using assms run_code_place [of "shm_enter (cs i) k" P_lock1 Dead_enter i s]
    run_code_place [of "shm_section1 (cs i) k pages" P_unlock1 Dead_section1 i s]
  by (cases "place (procs s i)";
      auto simp: shm_test_step_def request_sem0_def release_sem0_def waiton_sem1_dec_def waiton_sem1_zero_def
        after1_def after2_def goto_def split: if_splits)+

definition seen_flags :: "nat \<Rightarrow> 'w shm_sys \<Rightarrow> bool" where
  "seen_flags n s \<longleftrightarrow>
     (\<forall>i<n. (after1 (place (procs s i)) \<longrightarrow> shm_ready (fst (shared s)))
       \<and> (after2 (place (procs s i)) \<longrightarrow> shm_done (fst (shared s))))"

lemma seen_flags_step:
  assumes "seen_flags n s" "shm_test_step cs k pages i s = Some t" "i < n"
  shows "seen_flags n t"
  unfolding seen_flags_def
proof (intro allI impI)
  fix j assume j: "j < n"
  show "(after1 (place (procs t j)) \<longrightarrow> shm_ready (fst (shared t))) \<and> (after2 (place (procs t j)) \<longrightarrow> shm_done (fst (shared t)))"
  proof (cases "j = i")
    case True
    with assms j step_after [OF assms(2)] step_done [OF assms(2)] step_ready(1) [OF assms(2)]
      step_section1(3) [OF assms(2)]
    show ?thesis by (auto simp: seen_flags_def)
  next
    case False
    with assms j step_frame [OF assms(2) False] step_done [OF assms(2)] step_ready(1) [OF assms(2)]
    show ?thesis by (auto simp: seen_flags_def)
  qed
qed

lemma seen_flags_schedule:
  "shm_schedule cs k pages is s = Some t \<Longrightarrow> set is \<subseteq> {..<n} \<Longrightarrow> seen_flags n s \<Longrightarrow> seen_flags n t"
  by (induction "is" arbitrary: s) (auto split: option.splits intro: seen_flags_step)

lemma seen_flags_init: "seen_flags n (shm_init n g w)"
  by (simp add: seen_flags_def shm_init_def after1_def after2_def)

section \<open>A machine to run on\<close>

text \<open>A page that kills whoever touches it once it is poisoned.\<close>

definition page_kern :: "bool kern" where
  "page_kern = \<lparr>k_poison = (\<lambda>_ _. (Inr 0, True)),
     k_load = (\<lambda>a p. (if p then Inl \<lparr>si_code = 4, si_addr = a, si_addr_lsb = 12\<rparr> else Inr 0, p)),
     k_store = (\<lambda>a _ p. (if p then Some \<lparr>si_code = 4, si_addr = a, si_addr_lsb = 12\<rparr> else None, p)),
     k_mmap = (\<lambda>_ _ _ _ p. (Some 4096, p)), k_shmat = (\<lambda>_ p. (Some 4096, p)), k_sys = (\<lambda>_ p. (0, p)),
     k_pagemap = (\<lambda>_ _. None), k_mce_inject = (\<lambda>_ p. (Inr True, p)), k_fork = (\<lambda>p. (True, p)), k_core = (\<lambda>_. False)\<rparr>"

definition proc_conf :: "nat \<Rightarrow> pp_conf" where
  "proc_conf i = pp_demo_conf\<lparr>mypid := 100 + int i, instance_no := i, testid := 0\<rparr>"

text \<open>What the code does there.\<close>

lemma machine_enter [simp]:
  "shm_enter c page_kern (g, i, p)
     = (Inr (), g, i\<lparr>tests := (tests i)(instance_no c := (testid c, snd (tests i (instance_no c))))\<rparr>, p)"
  by (simp add: shm_enter_def act_run kcall_def page_kern_def)

lemma machine_section1 [simp]:
  "shm_section1 c page_kern pages (g, i, False)
     = (Inr (), g\<lparr>shmptr := 4096\<rparr>, (if shm_ready i then i else i\<lparr>shm_id := 0, shm_ready := True\<rparr>), False)"
  by (simp add: shm_section1_def shm_create_def shm_map_def act_run kcall_def page_kern_def)

lemma machine_leave [simp]:
  "shm_leave c page_kern (g, i, p)
     = (Inr (), g, (if failures g = 0 then i\<lparr>tests := (tests i)(instance_no c := (fst (tests i (instance_no c)), True))\<rparr> else i), p)"
  by (simp add: shm_leave_def act_run kcall_def page_kern_def)

lemma fmt_4096 [simp]: "fmt_ptr 4096 = ''0x1000''"
  by (simp add: fmt_ptr_def show_base.simps digit_char_def)

lemma show_int_small [simp]: "show_int 4 = ''4''"
  by (simp add: show_int_def show_base.simps digit_char_def)

lemma machine_section2 [simp]:
  assumes "logging g" "shmptr g = 4096" "\<not> early_kills g" "shm_done i = p"
  shows "shm_section2 c page_kern (g, i, p)
     = (Inr (), g\<lparr>expected := 4096, recover_count := 4, log_lines := log_lines g @ map (pid_tag c)
          ((if p then [] else [''shm dirty poisoning page 0x1000'' @ [NL], ''writing 2'' @ [NL]])
           @ [''signal 7 code 4 addr 0x1000'' @ [NL], ''pass: recovered'' @ [NL]])\<rparr>, i\<lparr>shm_done := True\<rparr>, True)"
  using assms
  by (simp add: shm_section2_def pp_testmem_def pp_poison_def pp_recover_def pp_touch_def pp_deliver_def pp_sighandler_def
      act_run kcall_def page_kern_def mylog_run LOG_BUFLEN_def logging_def)

text \<open>Two processes: one runs to the barrier, then the other, then both to their ends.\<close>

definition demo_schedule :: "nat list" where
  "demo_schedule = [0, 0, 0, 0, 0, 1, 1, 1, 1, 1, 0, 0, 0, 1, 0, 1, 1, 1, 0, 1]"

lemma globals_log [simp]: "logging demo_globals" "shmptr demo_globals = 0" "\<not> early_kills demo_globals" "failures demo_globals = 0"
  by (simp_all add: logging_def demo_globals_def)

lemma logging_more [simp]:
  "logging (g\<lparr>shmptr := a\<rparr>) = logging g" "logging (g\<lparr>expected := e\<rparr>) = logging g"
  "logging (g\<lparr>recover_count := m\<rparr>) = logging g"
  by (simp_all add: logging_def)

lemmas machine = shm_init_def shm_test_step_def run_code_def goto_def request_sem0_def release_sem0_def
  waiton_sem1_dec_def waiton_sem1_zero_def empty_ipc_def

lemma demo_run:
  "\<exists>s. shm_schedule proc_conf page_kern 1 demo_schedule (shm_init 2 demo_globals False) = Some s
     \<and> place (procs s 0) = P_end \<and> place (procs s 1) = P_end"
  by (simp add: demo_schedule_def machine)

lemma demo_prefix:
  assumes "shm_schedule proc_conf page_kern 1 is (shm_init 2 demo_globals False) = Some s" "set is \<subseteq> {0, 1}"
  shows "shm_reachable 2 proc_conf page_kern 1 (shm_init 2 demo_globals False) s"
  by (rule schedule_reachable [OF assms(1)]) (use assms(2) in auto)

section \<open>Properties\<close>

text \<open>Mutual exclusion: two processes are never both between \<open>request_sem\<close> and \<open>release_sem\<close>, in the same section
  or in different ones; a process that died inside counts as inside.\<close>

theorem shm_mutual_exclusion:
  assumes "shm_reachable n cs k pages (shm_init n g w) s" "i < n" "j < n"
    and "holds (place (procs s i))" "holds (place (procs s j))"
  shows "i = j"
proof -
  from shm_invariant [OF assms(1)] have "number n holds s \<le> 1" by (simp add: shm_inv_def)
  from number_two [OF this assms(2-)] show ?thesis .
qed

theorem shm_mutual_exclusion_witness:
  "\<exists>s. shm_schedule proc_conf page_kern 1 [0, 0, 1] (shm_init 2 demo_globals False) = Some s
     \<and> place (procs s 0) = P_section1 \<and> \<not> holds (place (procs s 1))"
proof -
  obtain s where s: "shm_schedule proc_conf page_kern 1 [0, 0, 1] (shm_init 2 demo_globals False) = Some s"
      "place (procs s 0) = P_section1"
    by (simp add: machine)
  from shm_mutual_exclusion [OF demo_prefix [OF s(1)], of 0 1] s show ?thesis by (auto simp: places)
qed

text \<open>C7. The barrier: once a process has passed it, all \<open>n\<close> of them have attached the segment and arrived, then and in
  every later state, so nobody poisons the page while another one is still to write its pid there.\<close>

theorem shm_barrier:
  assumes "shm_reachable n cs k pages (shm_init n g w) s" "shm_reachable n cs k pages s t"
    and "i < n" "j < n" "passed (place (procs s i))"
  shows "arrived (place (procs t j))"
proof -
  from shm_invariant [OF assms(1)] have "0 < number n passed s \<longrightarrow> number n (\<lambda>q. \<not> arrived q) s = 0"
    by (simp add: shm_inv_def)
  with number_pos [of i n passed s] assms(3,5) have "number n (\<lambda>q. \<not> arrived q) s = 0" by simp
  from number_zero [OF this assms(4)] have "P_wait \<le> place (procs s j)" by (simp add: arrived_from)
  also have "\<dots> \<le> place (procs t j)" by (rule shm_forward [OF assms(2)])
  finally show ?thesis by (simp add: arrived_from)
qed

theorem shm_barrier_witness:
  "\<exists>s. shm_schedule proc_conf page_kern 1 (take 11 demo_schedule) (shm_init 2 demo_globals False) = Some s
     \<and> passed (place (procs s 0)) \<and> arrived (place (procs s 1))"
proof -
  obtain s where s: "shm_schedule proc_conf page_kern 1 (take 11 demo_schedule) (shm_init 2 demo_globals False) = Some s"
      "place (procs s 0) = P_lock2"
    by (simp add: machine demo_schedule_def)
  have "set (take 11 demo_schedule) \<subseteq> {0, 1}" by (simp add: demo_schedule_def)
  from shm_barrier [OF demo_prefix [OF s(1) this] start, of 0 1] s show ?thesis by (auto simp: places)
qed

text \<open>A process that stops with an error before the barrier, for instance when \<open>shmget\<close> fails, holds all the others
  back for good: nobody passes, nothing is injected, and the parent waits for them forever.\<close>

theorem shm_death_blocks:
  assumes "shm_reachable n cs k pages (shm_init n g w) s" "i < n" "j < n"
    and "place (procs s i) = Dead_enter \<or> place (procs s i) = Dead_section1"
  shows "\<not> passed (place (procs s j)) \<and> place (procs s j) \<noteq> P_end"
proof -
  from shm_invariant [OF assms(1)] have "0 < number n passed s \<longrightarrow> number n (\<lambda>q. \<not> arrived q) s = 0"
    by (simp add: shm_inv_def)
  moreover have "0 < number n (\<lambda>q. \<not> arrived q) s"
    using number_pos [of i n "\<lambda>q. \<not> arrived q" s] assms(2,4) by (auto simp: places)
  ultimately have "\<not> passed (place (procs s j))" using number_pos [of j n passed s] assms(3) by auto
  then show ?thesis by (auto simp: places)
qed

theorem shm_death_blocks_witness:
  "\<exists>s. shm_schedule proc_conf (page_kern\<lparr>k_sys := \<lambda>_ p. (-1, p)\<rparr>) 1 [0, 0, 0] (shm_init 2 demo_globals False) = Some s
     \<and> \<not> passed (place (procs s 1))"
proof -
  let ?k = "page_kern\<lparr>k_sys := \<lambda>_ p. (-1, p)\<rparr>"
  have e: "shm_enter c ?k (g, i, p)
      = (Inr (), g, i\<lparr>tests := (tests i)(instance_no c := (testid c, snd (tests i (instance_no c))))\<rparr>, p)" for c g i p
    by (simp add: shm_enter_def act_run kcall_def page_kern_def)
  have d: "isl (fst (shm_section1 c ?k 1 (g, i, False)))" if "\<not> shm_ready i" for c g i
    unfolding shm_section1_def using that
    by (intro seq_isl) (simp add: shm_create_def act_run kcall_def page_kern_def)
  obtain s where s: "shm_schedule proc_conf ?k 1 [0, 0, 0] (shm_init 2 demo_globals False) = Some s"
      "place (procs s 0) = Dead_section1"
  proof -
    obtain s2 where s2: "shm_schedule proc_conf ?k 1 [0, 0] (shm_init 2 demo_globals False) = Some s2"
        "place (procs s2 0) = P_section1" "\<not> shm_ready (fst (shared s2))" "\<not> snd (shared s2)"
      by (simp add: machine e)
    then obtain i where i: "shared s2 = (i, False)" "\<not> shm_ready i" by (cases "shared s2") auto
    let ?s = "run_code (shm_section1 (proc_conf 0) ?k 1) P_unlock1 Dead_section1 0 s2"
    have "shm_test_step proc_conf ?k 1 0 s2 = Some ?s" using s2(2) by (simp add: shm_test_step_def)
    moreover have "place (procs ?s 0) = Dead_section1" using d i by (simp add: run_code_shared(2))
    ultimately show ?thesis using s2(1) that by (simp split: option.splits)
  qed
  have "shm_reachable 2 proc_conf ?k 1 (shm_init 2 demo_globals False) s"
    by (rule schedule_reachable [OF s(1)]) simp
  from shm_death_blocks [OF this, of 0 1] s show ?thesis by auto
qed

text \<open>C9. No deadlock: while no process has died, some process can move until all are at their end.\<close>

theorem shm_no_deadlock:
  assumes "shm_reachable n cs k pages (shm_init n g w) s" "\<And>i. i < n \<Longrightarrow> \<not> dead (place (procs s i))"
    and "\<exists>i<n. place (procs s i) \<noteq> P_end"
  shows "\<exists>t. shm_step n cs k pages s t"
proof (rule ccontr)
  assume no: "\<nexists>t. shm_step n cs k pages s t"
  from shm_invariant [OF assms(1)] have inv: "shm_inv n s" .
  have stuck: "shm_test_step cs k pages i s = None" if "i < n" for i
    using no that shm_step.intros [of i n cs k pages s] by (cases "shm_test_step cs k pages i s") blast+
  have "\<not> holds (place (procs s i))" if "i < n" for i
    using stuck [OF that] assms(2) [OF that]
    by (auto simp: shm_test_step_def places dead_def release_sem0_def)
  then have "number n holds s = 0" using number_exists by blast
  with inv have sem: "sem0 s \<noteq> 0" by (simp add: shm_inv_def)
  have at: "place (procs s i) \<in> {P_arrive, P_wait, P_end}" if "i < n" for i
    using stuck [OF that] assms(2) [OF that] sem
    by (auto simp: shm_test_step_def dead_def release_sem0_def request_sem0_def split: place.splits)
  have "place (procs s i) \<noteq> P_arrive" if "i < n" for i
  proof
    assume a: "place (procs s i) = P_arrive"
    then have "sem1 s \<noteq> 0" using inv number_pos [OF that, of "\<lambda>q. \<not> arrived q" s] by (auto simp: shm_inv_def places)
    with stuck [OF that] a show False by (simp add: shm_test_step_def waiton_sem1_dec_def)
  qed
  with at have at: "place (procs s i) \<in> {P_wait, P_end}" if "i < n" for i using that by blast
  then have "number n (\<lambda>q. \<not> arrived q) s = 0" using number_exists [of n "\<lambda>q. \<not> arrived q" s] by (fastforce simp: places)
  with inv have "sem1 s = 0" by (simp add: shm_inv_def)
  with stuck have "place (procs s i) \<noteq> P_wait" if "i < n" for i
    using that by (force simp: shm_test_step_def waiton_sem1_zero_def)
  with at assms(3) show False by blast
qed

theorem shm_no_deadlock_witness:
  "\<exists>s t. shm_schedule proc_conf page_kern 1 [0, 0, 1] (shm_init 2 demo_globals False) = Some s
     \<and> shm_step 2 proc_conf page_kern 1 s t"
proof -
  obtain s where s: "shm_schedule proc_conf page_kern 1 [0, 0, 1] (shm_init 2 demo_globals False) = Some s"
      "place (procs s 0) = P_section1" "place (procs s 1) = P_lock1"
    by (simp add: machine)
  then have "\<not> dead (place (procs s i))" if "i < 2" for i
    using that by (auto simp: less_2_cases_iff dead_def)
  with shm_no_deadlock [OF demo_prefix [OF s(1)]] s show ?thesis by fastforce
qed

text \<open>How many steps a process has made when it has come to a place; a standstill is where nobody can make one.\<close>

fun steps_done :: "place \<Rightarrow> nat" where
  "steps_done P_enter = 0" | "steps_done P_lock1 = 1" | "steps_done P_section1 = 2" | "steps_done P_unlock1 = 3"
| "steps_done P_arrive = 4" | "steps_done P_wait = 5" | "steps_done P_lock2 = 6" | "steps_done P_section2 = 7"
| "steps_done P_unlock2 = 8" | "steps_done P_leave = 9" | "steps_done P_end = 10"
| "steps_done Dead_enter = 1" | "steps_done Dead_section1 = 3" | "steps_done Dead_section2 = 8" | "steps_done Dead_leave = 10"

definition standstill :: "nat \<Rightarrow> (nat \<Rightarrow> pp_conf) \<Rightarrow> 'w kern \<Rightarrow> nat \<Rightarrow> 'w shm_sys \<Rightarrow> bool" where
  "standstill n cs k pages s \<longleftrightarrow> (\<forall>i<n. shm_test_step cs k pages i s = None)"

lemma run_code_done:
  "steps_done ok = m \<Longrightarrow> steps_done bad = m \<Longrightarrow> steps_done (place (procs (run_code f ok bad i s) i)) = m"
  using run_code_place [of f ok bad i s] by auto

lemma step_done_Suc:
  assumes "shm_test_step cs k pages i s = Some t"
  shows "steps_done (place (procs t i)) = Suc (steps_done (place (procs s i)))"
  using assms
  by (cases "place (procs s i)")
     (auto simp: shm_test_step_def request_sem0_def release_sem0_def waiton_sem1_dec_def waiton_sem1_zero_def goto_def
        run_code_done split: if_splits)

lemma schedule_counts:
  "shm_schedule cs k pages is s = Some t \<Longrightarrow>
     steps_done (place (procs t i)) = steps_done (place (procs s i)) + count_list is i"
proof (induction "is" arbitrary: s)
  case (Cons j "is")
  then obtain u where u: "shm_test_step cs k pages j s = Some u" "shm_schedule cs k pages is u = Some t"
    by (auto split: option.splits)
  show ?case using Cons.IH [OF u(2)] step_done_Suc [OF u(1)] step_frame [OF u(1), of i] by (cases "i = j") auto
qed simp

lemma steps_done_le: "steps_done q \<le> 10"
  by (cases q) auto

text \<open>Who cannot move, and why.\<close>

lemma stuck_place:
  assumes "shm_inv n s" "i < n" "shm_test_step cs k pages i s = None"
  shows "dead (place (procs s i)) \<or> place (procs s i) = P_end
    \<or> place (procs s i) \<in> {P_lock1, P_lock2} \<and> sem0 s = 0 \<or> place (procs s i) = P_wait \<and> sem1 s \<noteq> 0"
proof -
  have "sem1 s \<noteq> 0" if "place (procs s i) = P_arrive"
    using that assms(1,2) number_pos [of i n "\<lambda>q. \<not> arrived q" s] by (auto simp: shm_inv_def places)
  with assms(3) show ?thesis
    by (cases "place (procs s i)")
       (auto simp: shm_test_step_def request_sem0_def release_sem0_def waiton_sem1_dec_def waiton_sem1_zero_def dead_def
          split: if_splits)
qed

lemma standstill_lock:
  assumes inv: "shm_inv n s" and still: "standstill n cs k pages s" and sem: "sem0 s = 0"
  shows "\<exists>j<n. place (procs s j) \<in> {Dead_section1, Dead_section2}"
proof -
  from inv sem have "0 < number n holds s" by (simp add: shm_inv_def)
  from number_exists [OF this] obtain j where "j < n" "holds (place (procs s j))" by blast
  with stuck_place [OF inv, of j cs k pages] still show ?thesis
    by (intro exI [of _ j]) (auto simp: standstill_def places dead_def)
qed

lemma standstill_barrier:
  assumes inv: "shm_inv n s" and still: "standstill n cs k pages s" and i: "i < n" "\<not> arrived (place (procs s i))"
  shows "\<exists>j<n. place (procs s j) \<in> {Dead_enter, Dead_section1}"
proof (cases "dead (place (procs s i))")
  case True
  with i show ?thesis by (intro exI [of _ i]) (auto simp: places dead_def)
next
  case False
  with stuck_place [OF inv i(1), of cs k pages] still i have "sem0 s = 0" by (auto simp: standstill_def places)
  from standstill_lock [OF inv still this] obtain j where j: "j < n" "place (procs s j) \<in> {Dead_section1, Dead_section2}" by blast
  have "place (procs s j) \<noteq> Dead_section2"
    using inv i j number_pos [of j n passed s] number_pos [of i n "\<lambda>q. \<not> arrived q" s] by (auto simp: shm_inv_def places)
  with j show ?thesis by blast
qed

lemma barrier_apart:
  assumes "shm_inv n s" "i < n" "j < n" "\<not> arrived (place (procs s i))"
  shows "\<not> passed (place (procs s j))"
  using assms number_pos [of j n passed s] number_pos [of i n "\<lambda>q. \<not> arrived q" s] by (auto simp: shm_inv_def)

lemma standstill_places:
  assumes inv: "shm_inv n s" and still: "standstill n cs k pages s" and i: "i < n"
  shows "dead (place (procs s i)) \<or> place (procs s i) = P_end
    \<or> place (procs s i) = P_lock1 \<and> (\<exists>j<n. place (procs s j) = Dead_section1)
    \<or> place (procs s i) = P_wait \<and> (\<exists>j<n. place (procs s j) \<in> {Dead_enter, Dead_section1})
    \<or> place (procs s i) = P_lock2 \<and> (\<exists>j<n. place (procs s j) = Dead_section2)"
proof -
  have no: "shm_test_step cs k pages i s = None" using still i by (simp add: standstill_def)
  from stuck_place [OF inv i no] consider "dead (place (procs s i))" | "place (procs s i) = P_end"
    | "place (procs s i) = P_lock1" "sem0 s = 0" | "place (procs s i) = P_lock2" "sem0 s = 0"
    | "place (procs s i) = P_wait" "sem1 s \<noteq> 0"
    by (elim disjE conjE insertE emptyE)
  then show ?thesis
  proof cases
    case 3
    from standstill_lock [OF inv still 3(2)] obtain j where j: "j < n" "place (procs s j) \<in> {Dead_section1, Dead_section2}" by blast
    with barrier_apart [OF inv i j(1)] 3(1) show ?thesis by (auto simp: places)
  next
    case 4
    from standstill_lock [OF inv still 4(2)] obtain j where j: "j < n" "place (procs s j) \<in> {Dead_section1, Dead_section2}" by blast
    with barrier_apart [OF inv j(1) i] 4(1) show ?thesis by (auto simp: places)
  next
    case 5
    with inv have "0 < number n (\<lambda>q. \<not> arrived q) s" by (simp add: shm_inv_def)
    from number_exists [OF this] standstill_barrier [OF inv still] 5(1) show ?thesis by blast
  qed simp_all
qed

text \<open>
  C37. Termination and how it ends: however the processes are scheduled, each has made exactly the steps that lead to its place,
  at most ten, so they come to a standstill. If no process has died there, all of them are at their end after ten
  steps, the lock is free, the barrier is open, the segment was made and the page was injected. Otherwise a process that is
  neither dead nor at its end waits for the lock of one that died in the section it wants to enter, or at the barrier for
  one that died before it.
\<close>

theorem shm_terminates:
  assumes "shm_schedule cs k pages is (shm_init n g w) = Some s" "set is \<subseteq> {..<n}"
  shows "(\<forall>i. count_list is i = steps_done (place (procs s i)) \<and> count_list is i \<le> 10)
    \<and> (standstill n cs k pages s \<longrightarrow>
        (if \<forall>i<n. \<not> dead (place (procs s i))
         then (\<forall>i<n. place (procs s i) = P_end \<and> count_list is i = 10) \<and> sem0 s = 1 \<and> sem1 s = 0
           \<and> (0 < n \<longrightarrow> shm_ready (fst (shared s)) \<and> shm_done (fst (shared s)))
         else \<forall>i<n. dead (place (procs s i)) \<or> place (procs s i) = P_end
           \<or> place (procs s i) = P_lock1 \<and> (\<exists>j<n. place (procs s j) = Dead_section1)
           \<or> place (procs s i) = P_wait \<and> (\<exists>j<n. place (procs s j) \<in> {Dead_enter, Dead_section1})
           \<or> place (procs s i) = P_lock2 \<and> (\<exists>j<n. place (procs s j) = Dead_section2)))"
    (is "?counts \<and> (_ \<longrightarrow> (if ?alive then ?ends else ?blocked))")
proof (intro conjI impI)
  have inv: "shm_inv n s" using shm_invariant [OF schedule_reachable [OF assms]] .
  have "count_list is i = steps_done (place (procs s i))" for i
    using schedule_counts [OF assms(1), of i] by (simp add: shm_init_def)
  then show counts: ?counts using steps_done_le by simp
  assume still: "standstill n cs k pages s"
  note who = standstill_places [OF inv still]
  have ?ends if none: ?alive
  proof -
    have ends: "place (procs s i) = P_end" if i: "i < n" for i using who [OF i] none i by (auto simp: dead_def)
    then have "number n holds s = 0" "number n (\<lambda>q. \<not> arrived q) s = 0" by (simp_all add: number_def places)
    moreover have "0 < n \<longrightarrow> shm_ready (fst (shared s)) \<and> shm_done (fst (shared s))"
      using seen_flags_schedule [OF assms seen_flags_init] ends by (auto simp: seen_flags_def after1_def after2_def)
    ultimately show ?thesis using inv ends counts by (simp add: shm_inv_def)
  qed
  moreover have ?blocked using who by blast
  ultimately show "if ?alive then ?ends else ?blocked" unfolding if_bool_eq_conj by iprover
qed

theorem shm_terminates_witness:
  "\<exists>s. shm_schedule proc_conf page_kern 1 demo_schedule (shm_init 2 demo_globals False) = Some s
     \<and> count_list demo_schedule 1 = 10 \<and> sem0 s = 1 \<and> sem1 s = 0"
proof -
  obtain s where s: "shm_schedule proc_conf page_kern 1 demo_schedule (shm_init 2 demo_globals False) = Some s"
      "place (procs s 0) = P_end" "place (procs s 1) = P_end"
    using demo_run by blast
  have "set demo_schedule \<subseteq> {..<2}" by (simp add: demo_schedule_def)
  moreover have "standstill 2 proc_conf page_kern 1 s" "\<forall>i<2. \<not> dead (place (procs s i))"
    using s(2,3) by (auto simp: standstill_def less_2_cases_iff shm_test_step_def dead_def)
  ultimately show ?thesis using shm_terminates [OF s(1)] s(1) by auto
qed

text \<open>C3. Once only: in any schedule at most one process calls \<open>shmget\<close> and at most one injects; when all get to their
  end, exactly one did each.\<close>

theorem shm_once:
  assumes "shm_schedule cs k pages is (shm_init n g w) = Some s" "set is \<subseteq> {..<n}"
  defines "created \<equiv> times creates cs k pages is (shm_init n g w)"
    and "injected \<equiv> times injects cs k pages is (shm_init n g w)"
  shows "created \<le> 1 \<and> injected \<le> 1
    \<and> (0 < n \<and> (\<forall>i<n. place (procs s i) = P_end) \<longrightarrow> created = 1 \<and> injected = 1)"
proof -
  have clear: "\<not> shm_ready (fst (shared (shm_init n g w)))" "\<not> shm_done (fst (shared (shm_init n g w)))"
    by (simp_all add: shm_init_def empty_ipc_def)
  note c = times_creates [OF assms(1,2) shm_inv_init] and i = times_injects [OF assms(1)]
  have "created = 1 \<and> injected = 1" if n: "0 < n" and ends: "\<forall>i<n. place (procs s i) = P_end"
  proof -
    from seen_flags_schedule [OF assms(1,2) seen_flags_init] n ends
    have "shm_ready (fst (shared s))" "shm_done (fst (shared s))" by (auto simp: seen_flags_def after1_def after2_def)
    with c i clear show ?thesis by (simp add: created_def injected_def)
  qed
  with c i clear show ?thesis by (auto simp: created_def injected_def)
qed

theorem shm_once_witness:
  "times creates proc_conf page_kern 1 demo_schedule (shm_init 2 demo_globals False) = 1
   \<and> times injects proc_conf page_kern 1 demo_schedule (shm_init 2 demo_globals False) = 1"
proof -
  obtain s where s: "shm_schedule proc_conf page_kern 1 demo_schedule (shm_init 2 demo_globals False) = Some s"
      "place (procs s 0) = P_end" "place (procs s 1) = P_end"
    using demo_run by blast
  have "set demo_schedule \<subseteq> {..<2}" by (simp add: demo_schedule_def)
  from shm_once [OF s(1) this] s(2,3) show ?thesis by (auto simp: less_2_cases_iff)
qed

end
