(* ===== verification/Victim.thy ===== *)
theory Victim
  imports Page_Walk
begin

text \<open>
  \<open>tools/victim/victim.c\<close>: translate an address of a process into a physical one, and own a page whose
  physical address is printed, to be hit by an injected error once a trigger is there.
\<close>

section \<open>Address translation\<close>

text \<open>The calls of the program: \<open>v_pagemap\<close> opens \<open>/proc/PID/pagemap\<close> and reads 8 bytes at an offset.\<close>

record 'w vos =
  v_pagemap :: "int \<Rightarrow> nat \<Rightarrow> 'w \<Rightarrow> u8 list option \<times> 'w"
  v_mmap :: "'w \<Rightarrow> u64 option \<times> 'w"
  v_unlink :: "'w \<Rightarrow> int \<times> 'w"
  v_poll :: "'w \<Rightarrow> string option \<times> 'w"
  v_pid :: int

text \<open>The bit fields of \<open>struct pagemaps\<close>, from the lowest bit on; only the first one is used.\<close>

definition pfn_field :: "u64 \<Rightarrow> u64" where
  "pfn_field entry = entry AND mask 55"

record pagemaps =
  pm_pfn :: u64
  pm_pgshift :: u64
  pm_rsvd :: bool
  pm_swapped :: bool
  pm_present :: bool

definition pagemaps_of :: "u64 \<Rightarrow> pagemaps" where
  "pagemaps_of entry = \<lparr>pm_pfn = pfn_field entry, pm_pgshift = drop_bit 55 entry AND mask 6, pm_rsvd = bit entry 61,
     pm_swapped = bit entry 62, pm_present = bit entry 63\<rparr>"

text \<open>
  The product of the 55-bit field and \<open>pagesize\<close> is taken modulo \<open>2^64\<close>; it stays below \<open>2^55\<close> for every
  frame of a machine with 52 physical address bits.
\<close>

definition vtop :: "nat \<Rightarrow> 'w vos \<Rightarrow> u64 \<Rightarrow> int \<Rightarrow> 'w \<Rightarrow> u64 \<times> 'w" where
  "vtop pagesize os addr pid w =
     (let offset = addr div of_nat pagesize * 8 in
      case v_pagemap os pid (unat offset) w of
        (None, w) \<Rightarrow> (0, w)
      | (Some bs, w) \<Rightarrow>
          if length bs \<noteq> 8 then (0, w)
          else ((pm_pfn (pagemaps_of (le_word bs)) * of_nat pagesize) OR (addr AND (of_nat pagesize - 1)), w))"

section \<open>Suboptions\<close>

text \<open>
  \<open>getsubopt\<close>: the index of the token, the value behind \<open>=\<close>, and what is left of the string. Without a token
  that matches, the index is -1.
\<close>

definition getsubopt :: "string list \<Rightarrow> string \<Rightarrow> int \<times> string option \<times> string" where
  "getsubopt tokens s =
     (let opt = takeWhile (\<lambda>c. c \<noteq> CHR '','') s;
          rest = drop 1 (dropWhile (\<lambda>c. c \<noteq> CHR '','') s);
          name = takeWhile (\<lambda>c. c \<noteq> CHR ''='') opt;
          value = (if CHR ''='' \<in> set opt then Some (drop 1 (dropWhile (\<lambda>c. c \<noteq> CHR ''='') opt)) else None)
      in case find (\<lambda>i. tokens ! i = name) [0..<length tokens] of
           Some i \<Rightarrow> (int i, value, rest)
         | None \<Rightarrow> (-1, Some opt, rest))"

definition subopt_names :: "string list" where "subopt_names = [''vaddr'', ''pid'']"

lemma getsubopt_rest: "s \<noteq> [] \<Longrightarrow> length (snd (snd (getsubopt subopt_names s))) < length s"
proof -
  assume "s \<noteq> []"
  then have "length (drop 1 (dropWhile (\<lambda>c. c \<noteq> CHR '','') s)) < length s"
    using length_dropWhile_le [of "\<lambda>c. c \<noteq> CHR '',''" s] by (cases s) (auto simp: le_imp_less_Suc less_imp_diff_less)
  then show ?thesis by (simp add: getsubopt_def Let_def split: option.splits)
qed

text \<open>The loop: the last \<open>vaddr\<close> and \<open>pid\<close>, which have no value before they are set; \<open>None\<close> on an error.\<close>

function subopts_loop :: "string \<Rightarrow> string option \<Rightarrow> string option \<Rightarrow> (string option \<times> string option) option" where
  "subopts_loop p svaddr spid =
     (if p = [] then Some (svaddr, spid)
      else case getsubopt subopt_names p of (index, subval, rest) \<Rightarrow>
             if index = 0 then (case subval of Some v \<Rightarrow> subopts_loop rest (Some v) spid | None \<Rightarrow> None)
             else if index = 1 then (case subval of Some v \<Rightarrow> subopts_loop rest svaddr (Some v) | None \<Rightarrow> None)
             else None)"
  by pat_completeness auto
termination subopts_loop
  by (relation "measure (\<lambda>(p, _). length p)") (auto dest!: getsubopt_rest simp: eq_commute [of "(_, _, _)"])

declare subopts_loop.simps [simp del]

text \<open>\<open>strtoull\<close> and \<open>strtoul\<close> with base 0: the value, and whether \<open>errno\<close> is set.\<close>

definition strtoull0 :: "string \<Rightarrow> u64 \<times> bool" where
  "strtoull0 = strtoull 0"

text \<open>\<open>None\<close> is the return of 1.\<close>

definition parse_addr_subopts :: "string \<Rightarrow> (u64 \<times> int) option res" where
  "parse_addr_subopts subopts =
     (case subopts_loop subopts None None of
        None \<Rightarrow> Inr None
      | Some (None, _) \<Rightarrow> Inl (Undef ''svaddr has no value'')
      | Some (Some svaddr, spid) \<Rightarrow>
          (case strtoull0 svaddr of (virt, err) \<Rightarrow>
           if virt = 0 \<and> hdc svaddr \<noteq> CHR ''0'' \<or> err then Inr None
           else case spid of
                  None \<Rightarrow> Inl (Undef ''spid has no value'')
                | Some spid \<Rightarrow>
                    (case strtoull0 spid of (n, err) \<Rightarrow>
                     let pid = sint (ucast n :: u32) in
                     if pid = 0 \<and> hdc spid \<noteq> CHR ''0'' \<or> err then Inr None
                     else Inr (Some (virt, pid)))))"

section \<open>Waiting for the trigger\<close>

text \<open>
  One \<open>read\<close> goes over the beginning of \<open>trigger_buf\<close>; \<open>strstr\<close> then needs a NUL in the 16 bytes, or the flag
  before their end.
\<close>

definition overlay :: "string \<Rightarrow> string \<Rightarrow> string" where
  "overlay s buf = s @ drop (length s) buf"

definition trigger_in :: "string \<Rightarrow> bool res" where
  "trigger_in buf =
     (if strstr (takeWhile (\<lambda>c. c \<noteq> NUL) buf) ''trigger'' \<noteq> None then Inr True
      else if NUL \<in> set buf then Inr False
      else Inl (Undef ''strstr past trigger_buf''))"

text \<open>\<open>while (count--)\<close>: the value of \<open>count\<close> behind the loop. \<open>v_poll\<close> is one \<open>open\<close> and \<open>read\<close> of at most 16 bytes.\<close>

fun kick_loop :: "'w vos \<Rightarrow> nat \<Rightarrow> string \<Rightarrow> 'w \<Rightarrow> int res \<times> 'w" where
  "kick_loop os 0 buf w = (Inr (-1), w)"
| "kick_loop os (Suc n) buf w =
     (case v_poll os w of
        (None, w) \<Rightarrow> kick_loop os n buf w
      | (Some s, w) \<Rightarrow>
          if s = [] then kick_loop os n buf w
          else let buf = overlay (take 16 s) buf in
               case trigger_in buf of
                 Inl e \<Rightarrow> (Inl e, w)
               | Inr True \<Rightarrow> (Inr (int n), w)
               | Inr False \<Rightarrow> kick_loop os n buf w)"

definition trigger_polls :: nat where "trigger_polls = 100"

definition ENOENT :: int where "ENOENT = 2"

text \<open>What \<open>-k 0\<close> does before the error is triggered: \<open>False\<close> is the return of 1.\<close>

definition auto_kick :: "'w vos \<Rightarrow> 'w \<Rightarrow> bool res \<times> 'w" where
  "auto_kick os w =
     (case v_unlink os w of (e, w) \<Rightarrow>
        if e \<noteq> 0 \<and> e \<noteq> ENOENT then (Inr False, w)
        else case kick_loop os trigger_polls (replicate 16 NUL) w of
               (Inl e, w) \<Rightarrow> (Inl e, w)
             | (Inr c, w) \<Rightarrow> (Inr (c \<noteq> 0), w))"

section \<open>Watching the page\<close>

text \<open>
  One round of \<open>pfa_helper\<close> with the two translations it makes: the physical address it goes on with, and
  what it prints. What it does to the page is in \<open>pfa_sums\<close> and \<open>pfa_numbers\<close>.
\<close>

definition pfa_line :: "u64 \<Rightarrow> string" where
  "pfa_line phys = ''Page was replaced. New physical address = 0x'' @ show_hex (unat phys) @ [NL]"

definition pfa_round :: "nat \<Rightarrow> 'w vos \<Rightarrow> u64 \<Rightarrow> int \<Rightarrow> u64 \<Rightarrow> 'w \<Rightarrow> u64 \<times> string list \<times> 'w" where
  "pfa_round pagesize os p pid old_phys w =
     (case vtop pagesize os p pid w of (new_phys, w) \<Rightarrow>
        if old_phys = new_phys
        then case vtop pagesize os p pid w of (new_phys, w) \<Rightarrow>
               if old_phys \<noteq> new_phys then (new_phys, [pfa_line new_phys], w) else (old_phys, [], w)
        else (new_phys, [pfa_line new_phys], w))"

text \<open>The loop does not end; these are its first \<open>n\<close> rounds.\<close>

fun pfa_rounds :: "nat \<Rightarrow> nat \<Rightarrow> 'w vos \<Rightarrow> u64 \<Rightarrow> int \<Rightarrow> u64 \<Rightarrow> 'w \<Rightarrow> u64 \<times> string list \<times> 'w" where
  "pfa_rounds 0 pagesize os p pid old w = (old, [], w)"
| "pfa_rounds (Suc n) pagesize os p pid old w =
     (case pfa_round pagesize os p pid old w of (old, out, w) \<Rightarrow>
      case pfa_rounds n pagesize os p pid old w of (old, out', w) \<Rightarrow> (old, out @ out', w))"

text \<open>
  The two passes over the page as \<open>int\<close>s: each word is added to \<open>total\<close> and replaced by the sum, or by the offset of the
  word. The sum of \<open>int\<close>s has no meaning out of range; \<open>total\<close> itself starts without a value, here any one.
\<close>

definition int_plus :: "int \<Rightarrow> int \<Rightarrow> int res" where
  "int_plus a b = (if a + b < - (2 ^ 31) \<or> 2 ^ 31 \<le> a + b then Inl (Undef ''int overflow'') else Inr (a + b))"

fun pfa_sums :: "int \<Rightarrow> int list \<Rightarrow> (int \<times> int list) res" where
  "pfa_sums tot [] = Inr (tot, [])"
| "pfa_sums tot (x # xs) =
     rbind (int_plus tot x) (\<lambda>tot. rbind (pfa_sums tot xs) (\<lambda>(t, ys). Inr (t, tot # ys)))"

definition pfa_numbers :: "int \<Rightarrow> int list \<Rightarrow> (int \<times> int list) res" where
  "pfa_numbers tot page =
     rbind (foldE (\<lambda>x t. int_plus t x) page tot) (\<lambda>t. Inr (t, map (\<lambda>i. int (4 * i)) [0..<length page]))"

text \<open>\<open>memset (buf, '*', pagesize)\<close>\<close>

definition star_page :: "nat \<Rightarrow> int list" where
  "star_page pagesize = replicate (pagesize div 4) 0x2A2A2A2A"

section \<open>main\<close>

text \<open>How \<open>main\<close> goes on: it returns, or enters one of its endless loops.\<close>

datatype victim_end = Return int | Watch u64 u64 | Call_page | Sum_page

record victim_opts =
  iflag :: bool
  dflag :: bool
  kick :: int
  pfa :: bool

text \<open>An option as \<open>getopt_long\<close> gives it. Numbers out of the range of \<open>long\<close> become -1 or 0 in \<open>kick\<close> and are refused
  with or without the test of \<open>errno\<close>. The result is the options, or that \<open>main\<close> returned with its lines.\<close>

definition translated :: "int \<Rightarrow> u64 \<Rightarrow> u64 \<Rightarrow> string" where
  "translated pid virt phys = ''physical address of ('' @ show_int pid @ '',0x'' @ show_hex (unat virt) @ '') = 0x''
     @ show_hex (unat phys) @ [NL]"

fun victim_options ::
    "nat \<Rightarrow> 'w vos \<Rightarrow> (char \<times> string) list \<Rightarrow> victim_opts \<Rightarrow> 'w \<Rightarrow> (victim_opts + int \<times> string list) res \<times> 'w" where
  "victim_options pagesize os [] o' w = (Inr (Inl o'), w)"
| "victim_options pagesize os ((c, optarg) # args) o' w =
     (if c = CHR ''a'' then
        (case parse_addr_subopts optarg of
           Inl e \<Rightarrow> (Inl e, w)
         | Inr None \<Rightarrow> (Inr (Inr (1, [])), w)
         | Inr (Some (virt, pid)) \<Rightarrow>
             (case vtop pagesize os virt pid w of (phys, w) \<Rightarrow> (Inr (Inr (0, [translated pid virt phys])), w)))
      else if c = CHR ''d'' then victim_options pagesize os args (o'\<lparr>dflag := True\<rparr>) w
      else if c = CHR ''i'' then victim_options pagesize os args (o'\<lparr>iflag := True\<rparr>) w
      else if c = CHR ''k'' then
        (let v = sint (word_of_int (strtoll 0 optarg) :: u32)
         in if v = 0 \<and> hdc optarg \<noteq> CHR ''0'' \<or> v \<noteq> 0 \<and> v \<noteq> 1 then (Inr (Inr (1, [])), w)
            else victim_options pagesize os args (o'\<lparr>kick := v\<rparr>) w)
      else if c = CHR ''p'' then victim_options pagesize os args (o'\<lparr>pfa := True\<rparr>) w
      else (Inr (Inr (0, [])), w))"

text \<open>\<open>main\<close> on a command line that is not empty.\<close>

definition victim_main :: "nat \<Rightarrow> 'w vos \<Rightarrow> (char \<times> string) list \<Rightarrow> 'w \<Rightarrow> (victim_end \<times> string list) res \<times> 'w" where
  "victim_main pagesize os args w =
     (case victim_options pagesize os args \<lparr>iflag = False, dflag = False, kick = 1, pfa = False\<rparr> w of
        (Inl e, w) \<Rightarrow> (Inl e, w)
      | (Inr (Inr (rc, out)), w) \<Rightarrow> (Inr (Return rc, out), w)
      | (Inr (Inl o'), w) \<Rightarrow>
          (case v_mmap os w of
             (None, w) \<Rightarrow> (Inr (Return 1, []), w)
           | (Some buf, w) \<Rightarrow>
               (case vtop pagesize os buf (v_pid os) w of (phys, w) \<Rightarrow>
                  if phys = 0 then (Inr (Return 1, []), w)
                  else
                    let line = ''physical address of (0x'' @ show_hex (unat buf) @ '') = 0x'' @ show_hex (unat phys) @ [NL];
                        go = (if iflag o' then Call_page else if dflag o' then Sum_page else Return 0)
                    in if pfa o' then (Inr (Watch buf phys, [line]), w)
                       else if kick o' \<noteq> 0 then (Inr (go, [line, ''Hit any key to trigger error: '']), w)
                       else case auto_kick os w of
                              (Inl e, w) \<Rightarrow> (Inl e, w)
                            | (Inr True, w) \<Rightarrow> (Inr (go, [line]), w)
                            | (Inr False, w) \<Rightarrow> (Inr (Return 1, [line]), w))))"

section \<open>Properties\<close>

lemma push_or_take:
  fixes f a :: u64
  shows "push_bit k f OR take_bit k a = push_bit k f + take_bit k a"
  by (rule disjunctive_add_eq_or [symmetric]) (rule bit_eqI, auto simp: bit_simps)

text \<open>Translation: with pages of \<open>2^k\<close> bytes the entry of the page is the one read, and the result is the frame's
  address plus the offset in the page, whether or not the entry says that the page is present.\<close>

lemma vtop_address:
  assumes "12 \<le> k" "k < 55" "v_pagemap os pid (unat addr div 2 ^ k * 8) w = (Some (le_bytes entry), w')"
  shows "vtop (2 ^ k) os addr pid w = (of_nat (unat (pfn_field entry) * 2 ^ k + unat addr mod 2 ^ k), w')"
proof -
  have "(2 :: int) ^ k < 2 ^ 64" using assms(2) by (intro power_strict_increasing) auto
  then have p: "unat ((2 :: u64) ^ k) = 2 ^ k"
    using unat_of_nat_u64 [of "2 ^ k"] by simp
  have "unat addr div 2 ^ k * 8 < 2 ^ 64"
  proof -
    have "unat addr div 2 ^ k \<le> unat addr div 2 ^ 12"
      using assms(1) power_increasing [of 12 k "2 :: nat"] by (intro div_le_mono2) simp_all
    also have "\<dots> < 2 ^ 52"
    proof -
      have "unat addr < 2 ^ 64" using unsigned_less [of addr, where 'a = nat] by simp
      then show ?thesis by (simp add: less_mult_imp_div_less)
    qed
    finally show ?thesis by simp
  qed
  then have "unat (addr div 2 ^ k * 8) = unat addr div 2 ^ k * 8"
    by (simp add: unat_mult_lem [THEN iffD1] unat_div p unat_word_ariths(2))
  then have read: "v_pagemap os pid (unat (addr div of_nat (2 ^ k) * 8)) w = (Some (le_bytes entry), w')"
    using assms(3) by simp
  have "of_nat (unat addr mod 2 ^ k) = take_bit k addr"
    by (simp add: take_bit_eq_mod [symmetric] unsigned_take_bit_eq [symmetric])
  then show ?thesis
    using read push_or_take [of k "pfn_field entry" addr]
    by (simp add: vtop_def pagemaps_of_def Let_def length_le_bytes le_word_bytes push_bit_eq_mult mask_eq_exp_minus_1 [symmetric]
        take_bit_eq_mask [symmetric])
qed

lemma strtoull0_hex: "n < 2 ^ 64 \<Longrightarrow> strtoull0 (''0x'' @ show_hex n) = (of_nat n, False)"
  using strto_magnitude_hex [of n] by (simp add: strtoull0_def strtoull_def c_isspace_def)

lemma strtoull0_dec: "n < 2 ^ 64 \<Longrightarrow> strtoull0 (show_dec n) = (of_nat n, False)"
proof -
  assume n: "n < 2 ^ 64"
  obtain c cs where c: "show_dec n = c # cs" by (cases "show_dec n") auto
  then have "c \<noteq> CHR ''-''" "c \<noteq> CHR ''+''" using show_base_chars(2,3) [of 10 c n] by simp_all
  then show ?thesis
    using n c dropWhile_isspace_show [of 10 n "[]"] strto_magnitude_dec [of "[]" n]
    by (simp add: strtoull0_def strtoull_def number_end_def)
qed

lemma getsubopt_at:
  assumes "CHR '','' \<notin> set v"
  shows "getsubopt subopt_names (''vaddr='' @ v) = (0, Some v, [])" "getsubopt subopt_names (''pid='' @ v) = (1, Some v, [])"
    and "getsubopt subopt_names (''vaddr='' @ v @ CHR '','' # r) = (0, Some v, r)"
    "getsubopt subopt_names (''pid='' @ v @ CHR '','' # r) = (1, Some v, r)"
proof -
  have v: "\<And>c. c \<in> set v \<Longrightarrow> c \<noteq> CHR '',''" using assms by auto
  have "dropWhile (\<lambda>c. c \<noteq> CHR '','') v = []" using v by (simp add: dropWhile_eq_Nil_conv)
  moreover have "takeWhile (\<lambda>c. c \<noteq> CHR '','') v = v" using v by (simp add: takeWhile_eq_all_conv)
  moreover have "dropWhile (\<lambda>c. c \<noteq> CHR '','') (v @ CHR '','' # r) = CHR '','' # r"
    "takeWhile (\<lambda>c. c \<noteq> CHR '','') (v @ CHR '','' # r) = v"
    using v by (simp_all add: dropWhile_append2 takeWhile_append2)
  ultimately show "getsubopt subopt_names (''vaddr='' @ v) = (0, Some v, [])" "getsubopt subopt_names (''pid='' @ v) = (1, Some v, [])"
    "getsubopt subopt_names (''vaddr='' @ v @ CHR '','' # r) = (0, Some v, r)"
    "getsubopt subopt_names (''pid='' @ v @ CHR '','' # r) = (1, Some v, r)"
    by (simp_all add: getsubopt_def subopt_names_def Let_def del: dropWhile_eq_Nil_conv)
qed

text \<open>What \<open>victim\<close> prints can be given back to it: the address in hexadecimal and the decimal pid are read as they
  are, in either order.\<close>

lemma parse_addr_roundtrip:
  assumes "v < 2 ^ 64" "p < 2 ^ 31"
  shows "parse_addr_subopts (''vaddr=0x'' @ show_hex v @ '',pid='' @ show_dec p) = Inr (Some (of_nat v, int p))
    \<and> parse_addr_subopts (''pid='' @ show_dec p @ '',vaddr=0x'' @ show_hex v) = Inr (Some (of_nat v, int p))"
proof -
  have h: "CHR '','' \<notin> set (''0x'' @ show_hex v)" using show_base_chars(6) [of 16 _ v] by auto
  have d: "CHR '','' \<notin> set (show_dec p)" using show_base_chars(6) [of 10 _ p] by auto
  have loop: "subopts_loop (''vaddr=0x'' @ show_hex v @ '',pid='' @ show_dec p) None None
      = Some (Some (''0x'' @ show_hex v), Some (show_dec p))"
    "subopts_loop (''pid='' @ show_dec p @ '',vaddr=0x'' @ show_hex v) None None
      = Some (Some (''0x'' @ show_hex v), Some (show_dec p))"
    using getsubopt_at(2) [OF d] getsubopt_at(3) [OF h, of "''pid='' @ show_dec p"]
      getsubopt_at(1) [OF h] getsubopt_at(4) [OF d, of "''vaddr=0x'' @ show_hex v"]
    by (simp_all add: subopts_loop.simps)
  have "(ucast (of_nat p :: u64) :: u32) = word_of_int (int p)"
    using assms(2) unat_of_nat_u64 [of p] by (simp add: unsigned_of_nat take_bit_nat_eq_self)
  then have "sint (ucast (of_nat p :: u64) :: u32) = int p"
    using assms(2) sint_word_of_int_u32 [of "int p"] by simp
  moreover have "int p \<noteq> 0 \<or> hdc (show_dec p) = CHR ''0''" using hd_show_dec_zero [of p "[]"] by auto
  ultimately show ?thesis
    using loop strtoull0_hex [OF assms(1)] strtoull0_dec [of p] assms(2)
    by (auto simp: parse_addr_subopts_def Let_def)
qed

text \<open>The buffer after a poll that found a short file: the file, then what was there before.\<close>

lemma trigger_found:
  assumes "strstr s ''trigger'' \<noteq> None" "NUL \<notin> set s" "length s < 16"
  shows "trigger_in (overlay (take 16 s) (replicate 16 NUL)) = Inr True" "s \<noteq> []"
proof -
  have "overlay (take 16 s) (replicate 16 NUL) = s @ replicate (16 - length s) NUL"
    using assms(3) by (simp add: overlay_def)
  moreover have "takeWhile (\<lambda>c. c \<noteq> NUL) (s @ replicate (16 - length s) NUL) = s"
    using assms(2,3) by (subst takeWhile_append2) (auto simp: takeWhile_replicate)
  ultimately show "trigger_in (overlay (take 16 s) (replicate 16 NUL)) = Inr True"
    using assms(1) by (auto simp: trigger_in_def)
  show "s \<noteq> []" using assms(1) by auto
qed

lemma find_upt_Suc:
  "find P [0..<Suc n] = (if P 0 then Some 0 else map_option Suc (find (\<lambda>i. P (Suc i)) [0..<n]))"
proof -
  have "find P (map Suc is) = map_option Suc (find (\<lambda>i. P (Suc i)) is)" for "is"
    by (induction "is") auto
  then show ?thesis by (simp add: map_Suc_upt [symmetric] upt_conv_Cons del: upt_Suc)
qed

lemma kick_loop_first:
  assumes "\<And>u. fst (v_poll os u) = (if there (clock u) then Some s else None)"
    and "\<And>u. clock (snd (v_poll os u)) = Suc (clock u)"
    and "strstr s ''trigger'' \<noteq> None" "NUL \<notin> set s" "length s < 16"
  shows "fst (kick_loop os n (replicate 16 NUL) w) =
    Inr (case find (\<lambda>i. there (clock w + i)) [0..<n] of None \<Rightarrow> -1 | Some i \<Rightarrow> int n - 1 - int i)"
proof (induction n arbitrary: w)
  case (Suc n)
  obtain r u where p: "v_poll os w = (r, u)" by fastforce
  with assms(1,2) [of w] have r: "r = (if there (clock w) then Some s else None)" "clock u = Suc (clock w)" by auto
  show ?case
  proof (cases "there (clock w)")
    case True
    with p r trigger_found [OF assms(3-)] show ?thesis by (simp add: Let_def find_upt_Suc del: upt_Suc)
  next
    case False
    with p r Suc.IH [of u] show ?thesis by (auto simp: find_upt_Suc split: option.splits simp del: upt_Suc)
  qed
qed simp

text \<open>The automatic trigger: the file is looked for 100 times. When it never shows up the wait is not reported as a
  timeout, and when it is first there at the last look it is: \<open>count\<close> is 0 only then.\<close>

theorem auto_kick_timeout:
  assumes unlink: "v_unlink os w0 = (e, w)" "e = 0 \<or> e = ENOENT"
    and poll: "\<And>u. fst (v_poll os u) = (if there (clock u) then Some s else None)"
    and tick: "\<And>u. clock (snd (v_poll os u)) = Suc (clock u)" "clock w = 0"
    and content: "strstr s ''trigger'' \<noteq> None" "NUL \<notin> set s" "length s < 16"
  shows "fst (auto_kick os w0) = Inr (\<not> (there 99 \<and> (\<forall>i<99. \<not> there i)))"
proof -
  obtain c u where k: "kick_loop os 100 (replicate 16 NUL) w = (c, u)" by fastforce
  with kick_loop_first [OF poll tick(1) content, of 100 w]
  have c: "c = Inr (case find there [0..<100] of None \<Rightarrow> -1 | Some i \<Rightarrow> int 100 - 1 - int i)"
    by (simp add: tick(2) del: of_nat_numeral)
  have "find there [0..<100] = Some 99 \<longleftrightarrow> there 99 \<and> (\<forall>i<99. \<not> there i)"
    by (auto simp: find_Some_iff intro!: exI [of _ 99])
  moreover have "i \<le> 99" if "find there [0..<100] = Some i" for i
    using that by (auto simp: find_Some_iff)
  ultimately show ?thesis
    using unlink k c by (auto simp: auto_kick_def trigger_polls_def split: option.splits)
qed

theorem auto_kick_timeout_witness:
  "fst (auto_kick \<lparr>v_pagemap = (\<lambda>_ _ w. (None, w)), v_mmap = (\<lambda>w. (None, w)), v_unlink = (\<lambda>w. (ENOENT, w)),
     v_poll = (\<lambda>w. (if False then Some ''trigger'' else None, Suc w)), v_pid = 1\<rparr> 0) = Inr True"
  using auto_kick_timeout [of "\<lparr>v_pagemap = (\<lambda>_ _ w. (None, w)), v_mmap = (\<lambda>w. (None, w)), v_unlink = (\<lambda>w. (ENOENT, w)),
      v_poll = (\<lambda>w. (if False then Some ''trigger'' else None, Suc w)), v_pid = 1\<rparr>" 0 ENOENT 0 "\<lambda>_. False" id
      "''trigger''"]
  by (simp add: NUL_def)

lemma pfa_round_cases:
  assumes "pfa_round pagesize os p pid old w = (new, out, w')"
  shows "new = old \<and> out = [] \<or> new \<noteq> old \<and> out = [pfa_line new]"
  using assms by (auto simp: pfa_round_def split: prod.splits if_splits)

text \<open>Watching: the lines are the new addresses in order, each different from the one before, the last one is what the
  loop goes on with.\<close>

theorem pfa_reports_changes:
  "\<exists>phys. fst (pfa_rounds n pagesize os p pid old w) = last (old # phys)
     \<and> fst (snd (pfa_rounds n pagesize os p pid old w)) = map pfa_line phys \<and> successively (\<noteq>) (old # phys)"
proof (induction n arbitrary: old w)
  case 0
  show ?case by (rule exI [of _ "[]"]) simp
next
  case (Suc n)
  obtain new out u where r: "pfa_round pagesize os p pid old w = (new, out, u)" by (cases "pfa_round pagesize os p pid old w") auto
  obtain old' out' u' where rs: "pfa_rounds n pagesize os p pid new u = (old', out', u')"
    by (cases "pfa_rounds n pagesize os p pid new u") auto
  with Suc.IH [of new u] obtain phys where phys: "old' = last (new # phys)" "out' = map pfa_line phys"
      "successively (\<noteq>) (new # phys)" by auto
  from pfa_round_cases [OF r] show ?case
  proof
    assume "new = old \<and> out = []"
    with r rs phys show ?thesis by (intro exI [of _ phys]) simp
  next
    assume "new \<noteq> old \<and> out = [pfa_line new]"
    with r rs phys show ?thesis by (intro exI [of _ "new # phys"]) auto
  qed
qed

text \<open>
  The first pass over the page that \<open>main\<close> has filled overflows \<open>total\<close>, with every value it may start from: seven words are
  enough.
\<close>

theorem pfa_overflows:
  assumes "- (2 ^ 31) \<le> tot" "28 \<le> pagesize"
  shows "pfa_sums tot (star_page pagesize) = Inl (Undef ''int overflow'')"
proof -
  have sums: "pfa_sums t (replicate n 0x2A2A2A2A) = Inl (Undef ''int overflow'')"
    if "2 ^ 31 \<le> t + int n * 0x2A2A2A2A" "- (2 ^ 31) \<le> t" "t < 2 ^ 31" for t n
    using that
  proof (induction n arbitrary: t)
    case (Suc n)
    show ?case
    proof (cases "2 ^ 31 \<le> t + 0x2A2A2A2A")
      case True
      with Suc.prems show ?thesis by (simp add: int_plus_def)
    next
      case False
      with Suc.prems Suc.IH [of "t + 0x2A2A2A2A"] show ?thesis by (simp add: int_plus_def algebra_simps)
    qed
  qed simp
  show ?thesis
  proof (cases "tot < 2 ^ 31")
    case True
    have "7 \<le> pagesize div 4" using assms(2) by linarith
    then have "7 * 0x2A2A2A2A \<le> int (pagesize div 4) * 0x2A2A2A2A" by (intro mult_right_mono) simp_all
    with True assms(1) sums [of tot "pagesize div 4"] show ?thesis by (simp add: star_page_def)
  next
    case False
    obtain n where "pagesize div 4 = Suc n" using assms(2) by (cases "pagesize div 4") auto
    with False show ?thesis by (simp add: star_page_def int_plus_def)
  qed
qed

theorem pfa_overflows_witness: "pfa_sums 0 (star_page 4096) = Inl (Undef ''int overflow'')"
  using pfa_overflows [of 0 4096] by simp

end
