(* ===== verification/Poison_Memory.thy ===== *)
theory Poison_Memory
  imports Poison_Base
begin

text \<open>
  Memory whose pages can be poisoned: the accesses of a process without a handler for \<open>SIGBUS\<close>, and what the tests
  rely on when the kernel does its work. \<open>cell\<close>, \<open>bad\<close> and \<open>early\<close> read the bytes, the poisoned pages and the kill
  policy of the process off the world; \<open>own\<close> are the addresses it has mapped, \<open>pn\<close> is the page of an address (4k or 2M).
\<close>

section \<open>Accesses that kill\<close>

definition killed :: stop where "killed = Fatal ''SIGBUS''"

definition load_dfl :: "'w kern \<Rightarrow> u64 \<Rightarrow> ('g, 'w, u8) act" where
  "load_dfl k a = sbind (call (k_load k a)) (\<lambda>r. case r of Inl b \<Rightarrow> halt killed | Inr v \<Rightarrow> ret v)"

definition store_dfl :: "'w kern \<Rightarrow> u64 \<Rightarrow> u8 \<Rightarrow> ('g, 'w, unit) act" where
  "store_dfl k a v = sbind (call (k_store k a v)) (\<lambda>r. case r of Some b \<Rightarrow> halt killed | None \<Rightarrow> nop)"

definition poison_dfl :: "'w kern \<Rightarrow> u64 \<Rightarrow> ('g, 'w, int) act" where
  "poison_dfl k a = sbind (call (k_poison k a)) (\<lambda>r. case r of Inl b \<Rightarrow> halt killed | Inr e \<Rightarrow> ret e)"

section \<open>A kernel that does what it promises\<close>

definition page_no :: "u64 \<Rightarrow> u64" where "page_no a = drop_bit 12 a"
definition hpage_no :: "u64 \<Rightarrow> u64" where "hpage_no a = drop_bit 21 a"

text \<open>Nothing but the policy changes; nothing but the bytes changes.\<close>

definition same_memory :: "('w \<Rightarrow> u64 \<Rightarrow> u8) \<Rightarrow> ('w \<Rightarrow> u64 set) \<Rightarrow> 'w \<Rightarrow> 'w \<Rightarrow> bool" where
  "same_memory cell bad w w' \<longleftrightarrow> cell w' = cell w \<and> bad w' = bad w"

definition load_law :: "(u64 \<Rightarrow> u64) \<Rightarrow> 'w kern \<Rightarrow> u64 set \<Rightarrow> ('w \<Rightarrow> u64 \<Rightarrow> u8) \<Rightarrow> ('w \<Rightarrow> u64 set) \<Rightarrow> bool" where
  "load_law pn k own cell bad \<longleftrightarrow>
     (\<forall>a\<in>own. \<forall>w. if pn a \<in> bad w then isl (fst (k_load k a w)) else k_load k a w = (Inr (cell w a), w))"

definition store_law :: "(u64 \<Rightarrow> u64) \<Rightarrow> 'w kern \<Rightarrow> u64 set \<Rightarrow> ('w \<Rightarrow> u64 \<Rightarrow> u8) \<Rightarrow> ('w \<Rightarrow> u64 set) \<Rightarrow> ('w \<Rightarrow> bool) \<Rightarrow> bool" where
  "store_law pn k own cell bad early \<longleftrightarrow>
     (\<forall>a\<in>own. \<forall>v w.
        if pn a \<in> bad w then fst (k_store k a v w) \<noteq> None
        else fst (k_store k a v w) = None
          \<and> (let w' = snd (k_store k a v w) in cell w' = (cell w)(a := v) \<and> bad w' = bad w \<and> early w' = early w))"

definition poison_law :: "(u64 \<Rightarrow> u64) \<Rightarrow> 'w kern \<Rightarrow> u64 set \<Rightarrow> ('w \<Rightarrow> u64 \<Rightarrow> u8) \<Rightarrow> ('w \<Rightarrow> u64 set) \<Rightarrow> ('w \<Rightarrow> bool) \<Rightarrow> bool" where
  "poison_law pn k own cell bad early \<longleftrightarrow>
     (\<forall>a\<in>own. \<forall>w. (if early w then isl (fst (k_poison k a w)) else fst (k_poison k a w) = Inr 0)
        \<and> (let w' = snd (k_poison k a w) in
             cell w' = cell w \<and> bad w' = insert (pn a) (bad w) \<and> early w' = early w))"

text \<open>\<open>prctl (PR_MCE_KILL, PR_MCE_KILL_SET, early)\<close>, and the two kinds of advice that leave the bytes alone:
  \<open>MADV_HUGEPAGE\<close> and \<open>MADV_SOFT_OFFLINE\<close>.\<close>

definition advice_law :: "'w kern \<Rightarrow> u64 set \<Rightarrow> ('w \<Rightarrow> u64 \<Rightarrow> u8) \<Rightarrow> ('w \<Rightarrow> u64 set) \<Rightarrow> ('w \<Rightarrow> bool) \<Rightarrow> bool" where
  "advice_law k own cell bad early \<longleftrightarrow>
     (\<forall>a\<in>own. \<forall>adv\<in>{14, 101}. \<forall>len w. fst (k_sys k (Madvise a len adv) w) = 0
        \<and> (let w' = snd (k_sys k (Madvise a len adv) w) in same_memory cell bad w w' \<and> early w' = early w))
     \<and> (\<forall>e w. fst (k_sys k (Prctl 33 1 e) w) = 0
        \<and> (let w' = snd (k_sys k (Prctl 33 1 e) w) in same_memory cell bad w w' \<and> early w' = (e = 1)))"

definition memory_law :: "(u64 \<Rightarrow> u64) \<Rightarrow> 'w kern \<Rightarrow> u64 set \<Rightarrow> ('w \<Rightarrow> u64 \<Rightarrow> u8) \<Rightarrow> ('w \<Rightarrow> u64 set) \<Rightarrow> ('w \<Rightarrow> bool) \<Rightarrow> bool" where
  "memory_law pn k own cell bad early \<longleftrightarrow>
     load_law pn k own cell bad \<and> store_law pn k own cell bad early \<and> poison_law pn k own cell bad early
     \<and> advice_law k own cell bad early"

lemma load_good:
  "memory_law pn k own cell bad early \<Longrightarrow> a \<in> own \<Longrightarrow> pn a \<notin> bad w \<Longrightarrow> load_dfl k a (g, w) = (Inr (cell w a), g, w)"
  by (auto simp: memory_law_def load_law_def load_dfl_def sbind_apply)

lemma load_bad:
  assumes "memory_law pn k own cell bad early" "a \<in> own" "pn a \<in> bad w"
  shows "fst (load_dfl k a (g, w)) = Inl killed"
proof -
  from assms have "isl (fst (k_load k a w))" unfolding memory_law_def load_law_def by (metis (full_types))
  then show ?thesis by (cases "k_load k a w"; cases "fst (k_load k a w)") (auto simp: load_dfl_def sbind_apply)
qed

lemma store_good:
  assumes "memory_law pn k own cell bad early" "a \<in> own" "pn a \<notin> bad w"
  shows "\<exists>w'. store_dfl k a v (g, w) = (Inr (), g, w') \<and> cell w' = (cell w)(a := v) \<and> bad w' = bad w \<and> early w' = early w"
proof -
  from assms have "fst (k_store k a v w) = None \<and> (let w' = snd (k_store k a v w) in
      cell w' = (cell w)(a := v) \<and> bad w' = bad w \<and> early w' = early w)"
    unfolding memory_law_def store_law_def by (metis (full_types))
  then show ?thesis by (cases "k_store k a v w") (auto simp: store_dfl_def sbind_apply Let_def)
qed

lemma store_bad:
  assumes "memory_law pn k own cell bad early" "a \<in> own" "pn a \<in> bad w"
  shows "fst (store_dfl k a v (g, w)) = Inl killed"
proof -
  from assms have "fst (k_store k a v w) \<noteq> None" unfolding memory_law_def store_law_def by (metis (full_types))
  then show ?thesis by (cases "k_store k a v w") (auto simp: store_dfl_def sbind_apply)
qed

lemma poison_page:
  assumes "memory_law pn k own cell bad early" "a \<in> own"
  shows "\<exists>w'. poison_dfl k a (g, w) = (if early w then Inl killed else Inr 0, g, w')
    \<and> cell w' = cell w \<and> bad w' = insert (pn a) (bad w) \<and> early w' = early w"
proof -
  from assms have "(if early w then isl (fst (k_poison k a w)) else fst (k_poison k a w) = Inr 0)
      \<and> (let w' = snd (k_poison k a w) in cell w' = cell w \<and> bad w' = insert (pn a) (bad w) \<and> early w' = early w)"
    unfolding memory_law_def poison_law_def by blast
  then show ?thesis
    by (cases "k_poison k a w"; cases "fst (k_poison k a w)") (auto simp: poison_dfl_def sbind_apply Let_def split: if_splits)
qed

lemma policy_ok:
  assumes "memory_law pn k own cell bad early"
  shows "\<exists>w'. call (k_sys k (Prctl 33 1 (if e then 1 else 0))) (g, w) = (Inr 0, g, w')
    \<and> same_memory cell bad w w' \<and> early w' = e"
proof -
  let ?c = "k_sys k (Prctl 33 1 (if e then 1 else 0)) w"
  from assms have "fst ?c = 0 \<and> same_memory cell bad w (snd ?c) \<and> early (snd ?c) = ((if e then 1 else 0) = (1 :: int))"
    unfolding memory_law_def advice_law_def Let_def by blast
  then show ?thesis by (cases ?c) (simp split: if_splits)
qed

lemma soft_offline_ok:
  assumes "memory_law pn k own cell bad early" "a \<in> own"
  shows "\<exists>w'. call (k_sys k (Madvise a len 101)) (g, w) = (Inr 0, g, w') \<and> same_memory cell bad w w' \<and> early w' = early w"
proof -
  let ?c = "k_sys k (Madvise a len 101) w"
  from assms have "fst ?c = 0 \<and> same_memory cell bad w (snd ?c) \<and> early (snd ?c) = early w"
    unfolding memory_law_def advice_law_def Let_def by blast
  then show ?thesis by (cases ?c) simp
qed

text \<open>Stores to a list of addresses: all of them are done, or one of them kills.\<close>

lemma stores_good:
  assumes "memory_law pn k own cell bad early" "\<forall>x\<in>set xs. f x \<in> own \<and> pn (f x) \<notin> bad w"
  shows "\<exists>w'. each (\<lambda>x. store_dfl k (f x) (v x)) xs (g, w) = (Inr (), g, w')
    \<and> cell w' = fold (\<lambda>x m. m(f x := v x)) xs (cell w) \<and> bad w' = bad w \<and> early w' = early w"
  using assms(2)
proof (induction xs arbitrary: w)
  case (Cons x xs)
  from store_good [OF assms(1)] Cons.prems obtain w1 where w1:
      "store_dfl k (f x) (v x) (g, w) = (Inr (), g, w1)"
      "cell w1 = (cell w)(f x := v x)" "bad w1 = bad w" "early w1 = early w" by fastforce
  from Cons.prems w1(3) have "\<forall>x\<in>set xs. f x \<in> own \<and> pn (f x) \<notin> bad w1" by simp
  from Cons.IH [OF this] obtain w2 where
      "each (\<lambda>x. store_dfl k (f x) (v x)) xs (g, w1) = (Inr (), g, w2)"
      "cell w2 = fold (\<lambda>x m. m(f x := v x)) xs (cell w1)" "bad w2 = bad w1" "early w2 = early w1"
    by blast
  with w1 show ?case by (simp add: sseq_apply del: fun_upd_apply)
qed simp

lemma stores_bad:
  assumes "memory_law pn k own cell bad early" "\<forall>x\<in>set xs. f x \<in> own" "\<exists>x\<in>set xs. pn (f x) \<in> bad w"
  shows "fst (each (\<lambda>x. store_dfl k (f x) (v x)) xs (g, w)) = Inl killed"
  using assms(2,3)
proof (induction xs arbitrary: w)
  case (Cons x xs)
  show ?case
  proof (cases "pn (f x) \<in> bad w")
    case True
    with store_bad [OF assms(1), of "f x" w "v x" g] Cons.prems(1) show ?thesis
      by (cases "store_dfl k (f x) (v x) (g, w)") (auto simp: sseq_apply)
  next
    case False
    with store_good [OF assms(1)] Cons.prems(1) obtain w1 where
        "store_dfl k (f x) (v x) (g, w) = (Inr (), g, w1)" "bad w1 = bad w" by fastforce
    with Cons False show ?thesis by (auto simp: sseq_apply)
  qed
qed simp

section \<open>A machine\<close>

text \<open>A kernel that keeps the law, for the witnesses: the memory, the poisoned pages, the policy.\<close>

record memw =
  m_cell :: "u64 \<Rightarrow> u8"
  m_bad :: "u64 set"
  m_early :: bool

definition sigbus :: "u64 \<Rightarrow> bus" where
  "sigbus a = \<lparr>si_code = 4, si_addr = a, si_addr_lsb = 12\<rparr>"

definition memory_kern :: "(u64 \<Rightarrow> u64) \<Rightarrow> u64 \<Rightarrow> memw kern" where
  "memory_kern pn base = \<lparr>
     k_poison = (\<lambda>a w. (if m_early w then Inl (sigbus a) else Inr 0, w\<lparr>m_bad := insert (pn a) (m_bad w)\<rparr>)),
     k_load = (\<lambda>a w. if pn a \<in> m_bad w then (Inl (sigbus a), w) else (Inr (m_cell w a), w)),
     k_store = (\<lambda>a v w. if pn a \<in> m_bad w then (Some (sigbus a), w) else (None, w\<lparr>m_cell := (m_cell w)(a := v)\<rparr>)),
     k_mmap = (\<lambda>_ _ _ _ w. (Some base, w)),
     k_shmat = (\<lambda>_ w. (Some base, w)),
     k_sys = (\<lambda>c w. case c of
         Prctl op act e \<Rightarrow> (0, if op = 33 \<and> act = 1 then w\<lparr>m_early := (e = 1)\<rparr> else w)
       | _ \<Rightarrow> (0, w)),
     k_pagemap = (\<lambda>a w. Some (pn a)),
     k_mce_inject = (\<lambda>_ w. (Inr True, w)),
     k_fork = (\<lambda>w. (True, w)),
     k_core = (\<lambda>_. False)\<rparr>"

definition fresh_memory :: memw where
  "fresh_memory = \<lparr>m_cell = (\<lambda>_. 0), m_bad = {}, m_early = False\<rparr>"

lemma memory_kern_calls:
  "k_mmap (memory_kern pn base) len prots flags fd w = (Some base, w)"
  "k_shmat (memory_kern pn base) key w = (Some base, w)"
  "k_sys (memory_kern pn base) c w = (0, case c of Prctl op act e \<Rightarrow> if op = 33 \<and> act = 1 then w\<lparr>m_early := (e = 1)\<rparr> else w | _ \<Rightarrow> w)"
  by (simp_all add: memory_kern_def split: syscall.split)

lemma memory_kern_law: "memory_law pn (memory_kern pn base) own m_cell m_bad m_early"
  by (simp add: memory_law_def load_law_def store_law_def poison_law_def advice_law_def memory_kern_def same_memory_def)

end
