(* ===== verification/Thp_Test.thy ===== *)
theory Thp_Test
  imports Poison_Memory
begin

text \<open>
  \<open>cases/function/hwpoison/ttranshuge.c\<close>: a child poisons one small page of a transparent huge page, and the parent
  looks how it ended. The parts of the child are in the order of the file; addresses are 64-bit words.
\<close>

section \<open>Globals and messages\<close>

definition DEFAULT_PS :: u64 where "DEFAULT_PS = 4096"
definition DEFAULT_THP_SIZE :: u64 where "DEFAULT_THP_SIZE = 0x200000"
definition REQ_MEM_SIZE :: nat where "REQ_MEM_SIZE = 8 * 1024 * 1024"
definition THP_SUCCESS :: int where "THP_SUCCESS = 0"
definition THP_FAILURE :: int where "THP_FAILURE = -1"

record thp =
  corrupt_page_addr :: u64
  mem_addr :: u64
  thp_early :: bool
  thp_avoid :: bool
  corrupt_page :: int
  thp_addr :: u64
  thp_out :: "string list"

type_synonym ('w, 'a) thp_act = "(thp, 'w, 'a) act"

definition thp_init :: thp where
  "thp_init = \<lparr>corrupt_page_addr = 0, mem_addr = 0, thp_early = False, thp_avoid = False, corrupt_page = -1,
     thp_addr = 0, thp_out = []\<rparr>"

definition thp_say :: "string \<Rightarrow> ('w, unit) thp_act" where
  "thp_say s = upd (\<lambda>g. g\<lparr>thp_out := thp_out g @ [s]\<rparr>)"

definition print_err :: "string \<Rightarrow> ('w, unit) thp_act" where
  "print_err s = thp_say (''[ERROR] '' @ s @ [NL])"

definition print_prep_info :: "int \<Rightarrow> ('w, unit) thp_act" where
  "print_prep_info pid =
     sbind (glob id) (\<lambda>g. thp_say
       ([NL] @ (if thp_early g then ''Early Kill'' else ''Late Kill'') @ '' Poison Test of THP.'' @ [NL, NL]
        @ ''Information:'' @ [NL]
        @ ''    PID '' @ show_int pid @ [NL]
        @ ''    PS(page size) 0x'' @ show_hex (unat DEFAULT_PS) @ [NL]
        @ ''    mmap()'' @ [CHR 0x27] @ ''ed Memory Address '' @ fmt_ptr (mem_addr g) @ ''; size 0x'' @ show_hex REQ_MEM_SIZE @ [NL]
        @ ''    THP(Transparent Huge Page) Address 0x'' @ show_hex (unat (thp_addr g)) @ ''; size 0x''
        @ show_hex (unat DEFAULT_THP_SIZE) @ [NL]
        @ ''    '' @ (if corrupt_page g = 0 then ''Head'' else ''Tail'') @ '' Page Poison Test At ''
        @ fmt_ptr (corrupt_page_addr g) @ [NL, NL]))"

section \<open>The pattern\<close>

definition letter :: "nat \<Rightarrow> u8" where
  "letter i = of_nat (97 + i mod 26)"

text \<open>The loop of \<open>read_mem\<close> over what is left of the indices; \<open>break\<close> at the first mismatch.\<close>

fun read_mem_loop :: "'w kern \<Rightarrow> u64 \<Rightarrow> bool \<Rightarrow> nat list \<Rightarrow> ('w, int) thp_act" where
  "read_mem_loop k addr avoid [] = ret 0"
| "read_mem_loop k addr avoid (i # is) =
     sbind (glob corrupt_page_addr) (\<lambda>c.
       if avoid \<and> c \<le> addr + of_nat i \<and> addr + of_nat i < c + DEFAULT_PS then read_mem_loop k addr avoid is
       else sbind (load_dfl k (addr + of_nat i)) (\<lambda>v.
              if v \<noteq> letter i
              then sseq (print_err (''Mismatch at 0x'' @ show_hex (unat (addr + of_nat i)) @ ''.'')) (ret (-1))
              else read_mem_loop k addr avoid is))"

definition read_mem :: "'w kern \<Rightarrow> u64 \<Rightarrow> nat \<Rightarrow> bool \<Rightarrow> ('w, int) thp_act" where
  "read_mem k addr len avoid = read_mem_loop k addr avoid [0..<len]"

definition write_mem :: "'w kern \<Rightarrow> u64 \<Rightarrow> nat \<Rightarrow> ('w, unit) thp_act" where
  "write_mem k addr len = each (\<lambda>i. store_dfl k (addr + of_nat i) (letter i)) [0..<len]"

section \<open>Preparation, injection, and what follows\<close>

definition request_thp_with_madvise :: "'w kern \<Rightarrow> u64 \<Rightarrow> ('w, int) thp_act" where
  "request_thp_with_madvise k start =
     call (k_sys k (Madvise (start AND NOT (DEFAULT_PS - 1)) (REQ_MEM_SIZE - unat (start mod DEFAULT_PS)) 14))"

definition find_thp_addr :: "u64 \<Rightarrow> u64 \<Rightarrow> u64" where
  "find_thp_addr start sz =
     (let a = (start + (DEFAULT_THP_SIZE - 1)) AND NOT (DEFAULT_THP_SIZE - 1)
      in if start \<le> a \<and> a + DEFAULT_THP_SIZE < start + sz then a else 0)"

text \<open>A failing \<open>mmap\<close> gives \<open>(void *)-1\<close>, which is not the NULL the code looks for.\<close>

definition prep_memory_map :: "'w kern \<Rightarrow> ('w, int) thp_act" where
  "prep_memory_map k =
     sbind (call (k_mmap k REQ_MEM_SIZE [PROT_WRITE, PROT_READ] [MAP_PRIVATE, MAP_ANONYMOUS] (-1))) (\<lambda>r.
     sseq (upd (\<lambda>g. g\<lparr>mem_addr := (case r of Some a \<Rightarrow> a | None \<Rightarrow> -1)\<rparr>))
    (sbind (glob mem_addr) (\<lambda>a.
       if a = 0
       then sseq (print_err (''Failed to mmap requested memory: size 0x'' @ show_hex REQ_MEM_SIZE @ ''.'')) (ret THP_FAILURE)
       else ret THP_SUCCESS)))"

definition prep_injection :: "'w kern \<Rightarrow> ('w, int) thp_act" where
  "prep_injection k =
     sbind (glob mem_addr) (\<lambda>mem.
     sbind (request_thp_with_madvise k mem) (\<lambda>r.
     if r < 0 then sseq (print_err ''Failed to request THP for [madvise] in enabled.'') (ret THP_FAILURE)
     else
       sseq (write_mem k mem REQ_MEM_SIZE)
      (sbind (read_mem k mem REQ_MEM_SIZE False) (\<lambda>r.
       if r < 0 then sseq (print_err ''Data is Mismatched(prep_injection).'') (ret THP_FAILURE)
       else
         sseq (upd (\<lambda>g. g\<lparr>thp_addr := find_thp_addr mem (of_nat REQ_MEM_SIZE)\<rparr>))
        (sbind (glob thp_addr) (\<lambda>t.
         if t = 0 then sseq (print_err ''No THP mapped.'') (ret THP_FAILURE)
         else
           sseq (upd (\<lambda>g. g\<lparr>corrupt_page := max 0 (corrupt_page g)\<rparr>))
          (sseq (upd (\<lambda>g. g\<lparr>corrupt_page_addr := t + word_of_int (corrupt_page g) * DEFAULT_PS\<rparr>))
          (sbind (glob thp_early) (\<lambda>e.
           sseq (call (k_sys k (Prctl 33 1 (if e then 1 else 0)))) (ret THP_SUCCESS))))))))))"

definition do_injection :: "'w kern \<Rightarrow> ('w, int) thp_act" where
  "do_injection k =
     sbind (glob corrupt_page_addr) (\<lambda>c.
     sbind (poison_dfl k c) (\<lambda>e.
       if e \<noteq> 0
       then sseq (print_err (''Failed to poison at 0x'' @ fmt_ptr c @ ''.''))
           (sseq (thp_say (''[INFO] Please check the authority of current user.'' @ [NL])) (ret THP_FAILURE))
       else ret THP_SUCCESS))"

definition post_injection :: "'w kern \<Rightarrow> ('w, int) thp_act" where
  "post_injection k =
     sbind (glob id) (\<lambda>g.
       if thp_early g then sseq (print_err ''Failed to be killed by SIGBUS(Action Optional).'') (ret THP_FAILURE)
       else
         sbind (read_mem k (mem_addr g) REQ_MEM_SIZE (thp_avoid g)) (\<lambda>r.
         if r < 0 then sseq (print_err ''Data is Mismatched(do_injection).'') (ret THP_FAILURE)
         else if \<not> thp_avoid g
         then sseq (print_err ''Failed to be killed by SIGBUS(Action Required).'') (ret THP_FAILURE)
         else ret THP_SUCCESS))"

definition post_memory_map :: "'w kern \<Rightarrow> ('w, unit) thp_act" where
  "post_memory_map k = sbind (glob mem_addr) (\<lambda>a. sseq (call (k_sys k (Munmap a REQ_MEM_SIZE))) nop)"

section \<open>Options and main\<close>

text \<open>The options with their arguments, as \<open>getopt_long\<close> gives them; the help and a wrong option end the program.\<close>

fun thp_options :: "(char \<times> string) list \<Rightarrow> thp \<Rightarrow> thp res" where
  "thp_options [] g = Inr g"
| "thp_options ((c, arg) # os) g =
     (if c = CHR ''o'' then thp_options os (g\<lparr>corrupt_page := atoi arg\<rparr>)
      else if c = CHR ''a'' then thp_options os (g\<lparr>thp_avoid := True\<rparr>)
      else if c = CHR ''e'' then thp_options os (g\<lparr>thp_early := True\<rparr>)
      else if c = CHR ''h'' then Inl (Exit 0)
      else Inl (Exit 1))"

definition get_options_or_die :: "(char \<times> string) list \<Rightarrow> thp res" where
  "get_options_or_die os =
     rbind (thp_options os thp_init) (\<lambda>g.
       if thp_avoid g \<and> corrupt_page g = -1 then Inl (Exit 1) else Inr g)"

text \<open>The child: the status it exits with, or the signal that kills it. The early \<open>_exit\<close> leaves the mapping alone.\<close>

definition thp_steps :: "'w kern \<Rightarrow> int \<Rightarrow> ('w, int) thp_act" where
  "thp_steps k pid =
     sbind (prep_injection k) (\<lambda>r.
       if r = THP_FAILURE then ret THP_FAILURE
       else
         sseq (print_prep_info pid)
        (sbind (do_injection k) (\<lambda>r.
         if r = THP_FAILURE then ret THP_FAILURE
         else sbind (post_injection k) (\<lambda>r. ret (if r = THP_FAILURE then THP_FAILURE else THP_SUCCESS)))))"

definition thp_child :: "'w kern \<Rightarrow> int \<Rightarrow> ('w, int) thp_act" where
  "thp_child k pid =
     sbind (prep_memory_map k) (\<lambda>r.
       if r = THP_FAILURE then ret 1
       else sbind (thp_steps k pid) (\<lambda>r.
              sseq (post_memory_map k) (ret (if r = THP_SUCCESS then 0 else 1))))"

text \<open>What \<open>waitid\<close> reports of it.\<close>

definition thp_end :: "'w kern \<Rightarrow> int res \<Rightarrow> 'w \<Rightarrow> int \<times> int" where
  "thp_end k r w = (case r of Inr n \<Rightarrow> (CLD_EXITED, n) | Inl _ \<Rightarrow> (if k_core k w then CLD_DUMPED else CLD_KILLED, SIGBUS))"

definition thp_verdict :: "bool \<Rightarrow> int \<times> int \<Rightarrow> int \<times> string" where
  "thp_verdict avoid sig =
     (case sig of (code, status) \<Rightarrow>
        if avoid then
          (if code = CLD_EXITED \<and> status = 0 then (THP_SUCCESS, ''[SUCCESS] Child process survived.'')
           else (THP_FAILURE, ''[FAILURE] Child process could not survive.''))
        else if killdump code \<and> status = SIGBUS then (THP_SUCCESS, ''[SUCCESS] Child process was killed by SIGBUS.'')
        else (THP_FAILURE, ''[FAILURE] Child process could not be killed by SIGBUS.''))"

text \<open>The value \<open>main\<close> returns; \<open>waited\<close> is whether \<open>waitid\<close> succeeds.\<close>

definition thp_main :: "'w kern \<Rightarrow> (char \<times> string) list \<Rightarrow> int \<Rightarrow> bool \<Rightarrow> 'w \<Rightarrow> (int \<times> string) res" where
  "thp_main k os pid waited w =
     rbind (get_options_or_die os) (\<lambda>g.
       case k_fork k w of (forked, w) \<Rightarrow>
         if \<not> forked then Inr (THP_FAILURE, ''[ERROR] Failed to fork child process.'')
         else (case thp_child k pid (g, w) of (r, _, w) \<Rightarrow>
                if \<not> waited then Inr (THP_FAILURE, ''[ERROR] Failed to wait child process.'')
                else Inr (thp_verdict (thp_avoid g) (thp_end k r w))))"

section \<open>Where the huge page is\<close>

lemma unat_page_floor:
  fixes x :: u64
  assumes "n < 64"
  shows "unat (x AND NOT (2 ^ n - 1)) = unat x div 2 ^ n * 2 ^ n"
proof -
  have x: "unat x < 2 ^ 64" using unsigned_less [of x] by simp
  have "(2 ^ n - 1 :: u64) = mask n" by (simp add: mask_eq_exp_minus_1)
  then have "x AND NOT (2 ^ n - 1) = push_bit n (drop_bit n x)"
    by (auto simp: bit_eq_iff bit_simps)
  moreover have "unat x div 2 ^ n * 2 ^ n < 2 ^ 64"
    using x by (intro le_less_trans [OF div_times_less_eq_dividend])
  moreover have "unat (push_bit n (drop_bit n x)) = take_bit 64 (unat x div 2 ^ n * 2 ^ n)"
    unfolding unsigned_push_bit_eq unsigned_drop_bit_eq using x
    by (simp add: push_bit_eq_mult drop_bit_eq_div take_bit_nat_eq_self)
  ultimately show ?thesis by (simp only: take_bit_nat_eq_self)
qed

text \<open>\<open>find_thp_addr\<close> gives the first huge page that lies in the mapping with at least one byte behind it, and 0 when
  there is none.\<close>

lemma find_thp_addr_first:
  assumes "start \<noteq> 0" "0x400000 \<le> unat sz" "unat start + unat sz < 2 ^ 64"
  shows "let a = unat (find_thp_addr start sz); fits = (\<lambda>a. 0x200000 dvd a \<and> unat start \<le> a \<and> a + 0x200000 < unat start + unat sz)
    in if \<exists>b. fits b then fits a \<and> (\<forall>b. fits b \<longrightarrow> a \<le> b) else a = 0"
proof -
  define a where "a = (start + (0x200000 - 1)) AND NOT (0x200000 - 1)"
  have s: "unat (start + (0x200000 - 1)) = unat start + 0x1fffff"
    using assms(2,3) by (simp add: unat_word_ariths(1))
  have ua: "unat a = (unat start + 0x1fffff) div 0x200000 * 0x200000"
    unfolding a_def using unat_page_floor [of 21 "start + (0x200000 - 1)"] s by simp
  have "unat start + 0x1fffff = unat a + (unat start + 0x1fffff) mod 0x200000" unfolding ua by simp
  moreover have "(unat start + 0x1fffff) mod 0x200000 < 0x200000" by simp
  ultimately have bounds: "unat start \<le> unat a" "unat a \<le> unat start + 0x1fffff" by linarith+
  have least: "unat a \<le> b" if "0x200000 dvd b" "unat start \<le> b" for b
  proof -
    from that(1) obtain q where q: "b = 0x200000 * q" by (rule dvdE)
    have "(unat start + 0x1fffff) div 0x200000 \<le> (0x200000 * q + 0x1fffff) div 0x200000"
      using that(2) q by (intro div_le_mono) simp
    also have "\<dots> = q" by simp
    finally show ?thesis unfolding ua q by simp
  qed
  have sums: "unat (a + 0x200000) = unat a + 0x200000" "unat (start + sz) = unat start + unat sz"
    using bounds assms(2,3) by (simp_all add: unat_word_ariths(1))
  have f: "find_thp_addr start sz = (if unat a + 0x200000 < unat start + unat sz then a else 0)"
    unfolding find_thp_addr_def DEFAULT_THP_SIZE_def a_def [symmetric] Let_def
    using bounds sums by (simp add: word_le_nat_alt word_less_nat_alt)
  have d: "0x200000 dvd unat a" unfolding ua by simp
  show ?thesis
  proof (cases "unat a + 0x200000 < unat start + unat sz")
    case True
    with d bounds least show ?thesis unfolding f Let_def by auto
  next
    case False
    have "\<not> (0x200000 dvd b \<and> unat start \<le> b \<and> b + 0x200000 < unat start + unat sz)" for b
      using least [of b] False by auto
    with False show ?thesis unfolding f Let_def by auto
  qed
qed

section \<open>Reading and writing all of it\<close>

lemma write_mem_fills:
  assumes "memory_law page_no k own cell bad early" "\<forall>i<n. addr + of_nat i \<in> own \<and> page_no (addr + of_nat i) \<notin> bad w"
    and "n < 2 ^ 64"
  shows "\<exists>w'. write_mem k addr n (g, w) = (Inr (), g, w') \<and> (\<forall>i<n. cell w' (addr + of_nat i) = letter i)
    \<and> bad w' = bad w \<and> early w' = early w"
proof -
  from stores_good [OF assms(1), of "[0..<n]" "\<lambda>i. addr + of_nat i" w letter g] assms obtain w' where w':
      "write_mem k addr n (g, w) = (Inr (), g, w')"
      "cell w' = fold (\<lambda>i m. m(addr + of_nat i := letter i)) [0..<n] (cell w)" "bad w' = bad w" "early w' = early w"
    by (auto simp: write_mem_def)
  have "inj_on (\<lambda>i. addr + of_nat i) (set [0..<n])"
    using offset_inj [of _ _ addr] assms(3) by (auto intro!: inj_onI)
  then have "cell w' (addr + of_nat i) = letter i" if "i < n" for i
    unfolding w'(2) using that by (intro fold_upd_at) auto
  with w' show ?thesis by blast
qed

text \<open>Where \<open>read_mem\<close> does not look.\<close>

definition avoids :: "bool \<Rightarrow> u64 \<Rightarrow> u64 \<Rightarrow> bool" where
  "avoids avoid c a \<longleftrightarrow> avoid \<and> c \<le> a \<and> a < c + DEFAULT_PS"

lemma read_loop_ok:
  assumes "memory_law page_no k own cell bad early"
    and "\<forall>i\<in>set is. \<not> avoids avoid (corrupt_page_addr g) (addr + of_nat i) \<longrightarrow>
      addr + of_nat i \<in> own \<and> page_no (addr + of_nat i) \<notin> bad w \<and> cell w (addr + of_nat i) = letter i"
  shows "read_mem_loop k addr avoid is (g, w) = (Inr 0, g, w)"
  using assms(2)
  by (induction "is") (auto simp: sbind_apply avoids_def load_good [OF assms(1)])

lemma read_loop_hits:
  assumes "memory_law page_no k own cell bad early"
    and "\<forall>i\<in>set is. addr + of_nat i \<in> own \<and> cell w (addr + of_nat i) = letter i"
    and "\<exists>i\<in>set is. page_no (addr + of_nat i) \<in> bad w"
  shows "fst (read_mem_loop k addr False is (g, w)) = Inl killed"
  using assms(2,3)
proof (induction "is")
  case (Cons i "is")
  show ?case
  proof (cases "page_no (addr + of_nat i) \<in> bad w")
    case True
    with load_bad [OF assms(1), of "addr + of_nat i" w g] Cons.prems(1) show ?thesis
      by (cases "load_dfl k (addr + of_nat i) (g, w)") (auto simp: sbind_apply)
  next
    case False
    with Cons show ?thesis by (auto simp: sbind_apply load_good [OF assms(1)])
  qed
qed simp

section \<open>The child on a kernel that keeps its promises\<close>

text \<open>The mapping: page aligned, owned by the process, without poison.\<close>

definition thp_mapped :: "u64 set \<Rightarrow> ('w \<Rightarrow> u64 set) \<Rightarrow> u64 \<Rightarrow> 'w \<Rightarrow> bool" where
  "thp_mapped own bad base w \<longleftrightarrow> base \<noteq> 0 \<and> 4096 dvd unat base \<and> unat base + REQ_MEM_SIZE < 2 ^ 64
     \<and> (\<forall>i<REQ_MEM_SIZE. base + of_nat i \<in> own \<and> page_no (base + of_nat i) \<notin> bad w)"

text \<open>The page to be poisoned lies in the mapping and is aligned.\<close>

definition thp_target :: "u64 \<Rightarrow> u64 \<Rightarrow> bool" where
  "thp_target base c \<longleftrightarrow> (\<exists>n. c = base + of_nat n \<and> n + 4096 \<le> REQ_MEM_SIZE) \<and> 4096 dvd unat c"

lemma find_thp_target:
  assumes "base \<noteq> 0" "unat base + REQ_MEM_SIZE < 2 ^ 64" "0 \<le> p" "p < 512"
  shows "find_thp_addr base (of_nat REQ_MEM_SIZE) \<noteq> 0
    \<and> thp_target base (find_thp_addr base (of_nat REQ_MEM_SIZE) + word_of_int p * DEFAULT_PS)"
proof -
  let ?t = "find_thp_addr base (of_nat REQ_MEM_SIZE)"
  let ?fits = "\<lambda>a. 0x200000 dvd a \<and> unat base \<le> a \<and> a + 0x200000 < unat base + 0x800000"
  have sz: "unat (of_nat REQ_MEM_SIZE :: u64) = 0x800000" by (simp add: REQ_MEM_SIZE_def)
  define b where "b = (unat base + 0x1fffff) div 0x200000 * 0x200000"
  have "unat base + 0x1fffff = b + (unat base + 0x1fffff) mod 0x200000" unfolding b_def by simp
  moreover have "(unat base + 0x1fffff) mod 0x200000 < 0x200000" by simp
  ultimately have b: "unat base \<le> b" "b < unat base + 0x200000" by linarith+
  then have "?fits b" by (simp add: b_def)
  then have "\<exists>b. ?fits b" by blast
  with find_thp_addr_first [OF assms(1), of "of_nat REQ_MEM_SIZE"] assms(2)
  have "?fits (unat ?t) \<and> (\<forall>b. ?fits b \<longrightarrow> unat ?t \<le> b)"
    unfolding sz Let_def by (simp add: REQ_MEM_SIZE_def)
  then have f: "?fits (unat ?t)" and "unat ?t \<le> b" using \<open>?fits b\<close> by blast+
  with b(2) have t: "0x200000 dvd unat ?t" "unat base \<le> unat ?t" "unat ?t < unat base + 0x200000"
    by (blast, blast, linarith)
  define q where "q = nat p"
  have q: "p = int q" "q < 512" using assms(3,4) by (auto simp: q_def)
  have c: "?t + word_of_int p * DEFAULT_PS = base + of_nat (unat ?t - unat base + q * 4096)"
    using t(2) by (simp add: q DEFAULT_PS_def of_nat_diff)
  have n: "unat ?t - unat base + q * 4096 + 4096 \<le> REQ_MEM_SIZE" using t(3) q(2) by (simp add: REQ_MEM_SIZE_def)
  have uc: "unat (base + of_nat m) = unat base + m" if "m + 4096 \<le> REQ_MEM_SIZE" for m
    using assms(2) that by (intro unat_add_of_nat) linarith
  have "(4096 :: nat) dvd unat ?t" using t(1) by (rule dvd_trans [rotated]) simp
  moreover have "unat base + (unat ?t - unat base + q * 4096) = unat ?t + q * 4096" using t(2) by simp
  ultimately have "4096 dvd unat (base + of_nat (unat ?t - unat base + q * 4096))" unfolding uc [OF n] by simp
  moreover have "?t \<noteq> 0" using assms(1) t(2) by (metis unat_eq_zero le_zero_eq unat_0)
  ultimately show ?thesis unfolding thp_target_def c using n by blast
qed

lemma page_floor_aligned:
  assumes "4096 dvd unat (a :: u64)" shows "a AND NOT (DEFAULT_PS - 1) = a"
proof -
  have "unat (a AND NOT (DEFAULT_PS - 1)) = unat a"
    using unat_page_floor [of 12 a] assms by (simp add: DEFAULT_PS_def)
  then show ?thesis by (simp only: word_unat_eq_iff)
qed

lemma page_no_eq_iff:
  assumes "4096 dvd unat c" "unat c + 4096 < 2 ^ 64"
  shows "page_no a = page_no c \<longleftrightarrow> c \<le> a \<and> a < c + DEFAULT_PS"
proof -
  obtain q where q: "unat c = 4096 * q" using assms(1) by (rule dvdE)
  have "unat (c + 4096) = unat c + 4096" using assms(2) by (simp add: unat_word_ariths(1))
  then have r: "c \<le> a \<and> a < c + DEFAULT_PS \<longleftrightarrow> 4096 * q \<le> unat a \<and> unat a < 4096 * q + 4096"
    by (simp add: DEFAULT_PS_def word_le_nat_alt word_less_nat_alt q)
  have "page_no a = page_no c \<longleftrightarrow> unat a div 4096 = unat c div 4096"
    by (simp add: page_no_def word_unat_eq_iff drop_bit_eq_div unat_div_distrib)
  also have "\<dots> \<longleftrightarrow> unat a div 4096 = q" by (simp add: q)
  also have "\<dots> \<longleftrightarrow> 4096 * q \<le> unat a \<and> unat a < 4096 * q + 4096" by auto
  finally show ?thesis unfolding r .
qed

lemma target_owned:
  assumes "thp_mapped own bad base w" "thp_target base c"
  shows "c \<in> own" "page_no a = page_no c \<longleftrightarrow> c \<le> a \<and> a < c + DEFAULT_PS" "\<exists>i<REQ_MEM_SIZE. base + of_nat i = c"
proof -
  from assms(2) obtain n where n: "c = base + of_nat n" "n + 4096 \<le> REQ_MEM_SIZE" "4096 dvd unat c"
    by (auto simp: thp_target_def)
  from assms(1) have s: "unat base + REQ_MEM_SIZE < 2 ^ 64"
      "\<And>i. i < REQ_MEM_SIZE \<Longrightarrow> base + of_nat i \<in> own" by (auto simp: thp_mapped_def)
  from n(2) have "n < REQ_MEM_SIZE" by simp
  with n(1) s(2) show "c \<in> own" "\<exists>i<REQ_MEM_SIZE. base + of_nat i = c" by auto
  have "unat c = unat base + n"
    unfolding n(1) using s(1) n(2) by (intro unat_add_of_nat) linarith
  with s(1) n(2) have "unat c + 4096 < 2 ^ 64" by linarith
  with n(3) show "page_no a = page_no c \<longleftrightarrow> c \<le> a \<and> a < c + DEFAULT_PS" by (rule page_no_eq_iff)
qed

lemma request_thp_ok:
  assumes "memory_law page_no k own cell bad early" "thp_mapped own bad base w"
  shows "\<exists>w'. request_thp_with_madvise k base (g, w) = (Inr 0, g, w') \<and> bad w' = bad w"
proof -
  have "0 < REQ_MEM_SIZE" by (simp add: REQ_MEM_SIZE_def)
  with assms(2) have "base + of_nat 0 \<in> own" unfolding thp_mapped_def by blast
  then have "base \<in> own" by simp
  let ?c = "k_sys k (Madvise base (REQ_MEM_SIZE - unat (base mod DEFAULT_PS)) 14) w"
  from assms(1) \<open>base \<in> own\<close> have "fst ?c = 0 \<and> bad (snd ?c) = bad w"
    unfolding memory_law_def advice_law_def same_memory_def Let_def by blast
  moreover have "base AND NOT (DEFAULT_PS - 1) = base"
    using assms(2) by (intro page_floor_aligned) (simp add: thp_mapped_def)
  ultimately show ?thesis by (cases ?c) (simp add: request_thp_with_madvise_def)
qed

lemma prep_injection_ok:
  assumes law: "memory_law page_no k own cell bad early" and m: "thp_mapped own bad base w"
    and g: "mem_addr g = base" "corrupt_page g < 512"
  shows "\<exists>c w' t. prep_injection k (g, w)
      = (Inr THP_SUCCESS, g\<lparr>thp_addr := t, corrupt_page := max 0 (corrupt_page g), corrupt_page_addr := c\<rparr>, w')
    \<and> thp_target base c \<and> (\<forall>i<REQ_MEM_SIZE. cell w' (base + of_nat i) = letter i) \<and> bad w' = bad w
    \<and> early w' = thp_early g"
proof -
  let ?t = "find_thp_addr base (of_nat REQ_MEM_SIZE)"
  let ?p = "max 0 (corrupt_page g)"
  have range: "\<forall>i<REQ_MEM_SIZE. base + of_nat i \<in> own \<and> page_no (base + of_nat i) \<notin> bad w"
    using m by (simp add: thp_mapped_def)
  obtain w1 where w1: "request_thp_with_madvise k base (g, w) = (Inr 0, g, w1)" "bad w1 = bad w"
    using request_thp_ok [OF law m] by blast
  from write_mem_fills [OF law, of REQ_MEM_SIZE base w1 g] range w1(2) obtain w2 where w2:
      "write_mem k base REQ_MEM_SIZE (g, w1) = (Inr (), g, w2)" "\<forall>i<REQ_MEM_SIZE. cell w2 (base + of_nat i) = letter i"
      "bad w2 = bad w" by (auto simp: REQ_MEM_SIZE_def)
  have rd: "read_mem k base REQ_MEM_SIZE False (g, w2) = (Inr 0, g, w2)"
    unfolding read_mem_def using range w2 by (intro read_loop_ok [OF law]) simp
  from m g(2) find_thp_target [of base ?p] have t: "?t \<noteq> 0" "thp_target base (?t + word_of_int ?p * DEFAULT_PS)"
    by (auto simp: thp_mapped_def)
  let ?g = "g\<lparr>thp_addr := ?t, corrupt_page := ?p, corrupt_page_addr := ?t + word_of_int ?p * DEFAULT_PS\<rparr>"
  from policy_ok [OF law, of "thp_early g" ?g w2] obtain w3 where w3:
      "call (k_sys k (Prctl 33 1 (if thp_early g then 1 else 0))) (?g, w2) = (Inr 0, ?g, w3)"
      "same_memory cell bad w2 w3" "early w3 = thp_early g" by blast
  have "prep_injection k (g, w) = (Inr THP_SUCCESS, ?g, w3)"
    unfolding prep_injection_def using g(1) w1(1) w2(1) rd t(1) w3(1)
    by (simp add: act_run del: call_simp)
  with t(2) w2 w3(2,3) show ?thesis unfolding same_memory_def by metis
qed

lemma post_injection_ok:
  assumes law: "memory_law page_no k own cell bad early" and m: "thp_mapped own bad base w0" and c: "thp_target base c"
    and g: "mem_addr g = base" "corrupt_page_addr g = c" "\<not> thp_early g"
    and w: "bad w = insert (page_no c) (bad w0)" "\<forall>i<REQ_MEM_SIZE. cell w (base + of_nat i) = letter i"
  shows "fst (post_injection k (g, w)) = (if thp_avoid g then Inr THP_SUCCESS else Inl killed)"
proof (cases "thp_avoid g")
  case True
  have "read_mem k base REQ_MEM_SIZE True (g, w) = (Inr 0, g, w)"
    unfolding read_mem_def
    using m w g(2) target_owned(2) [OF m c] by (intro read_loop_ok [OF law]) (auto simp: avoids_def thp_mapped_def)
  with True g show ?thesis by (simp add: post_injection_def act_run)
next
  case False
  have "fst (read_mem k base REQ_MEM_SIZE False (g, w)) = Inl killed"
    unfolding read_mem_def
  proof (rule read_loop_hits [OF law])
    show "\<forall>i\<in>set [0..<REQ_MEM_SIZE]. base + of_nat i \<in> own \<and> cell w (base + of_nat i) = letter i"
      using m w(2) by (simp add: thp_mapped_def)
    show "\<exists>i\<in>set [0..<REQ_MEM_SIZE]. page_no (base + of_nat i) \<in> bad w"
      using target_owned(3) [OF m c] w(1) by force
  qed
  with False g show ?thesis
    by (cases "read_mem k base REQ_MEM_SIZE False (g, w)") (simp add: post_injection_def act_run)
qed

lemma thp_child_ok:
  assumes law: "memory_law page_no k own cell bad early" and m: "thp_mapped own bad base w1" and p: "corrupt_page g < 512"
    and map: "k_mmap k REQ_MEM_SIZE [PROT_WRITE, PROT_READ] [MAP_PRIVATE, MAP_ANONYMOUS] (-1) w = (Some base, w1)"
  shows "fst (thp_child k pid (g, w)) = (if thp_early g \<or> \<not> thp_avoid g then Inl killed else Inr 0)"
proof -
  let ?g = "g\<lparr>mem_addr := base\<rparr>"
  from m have "base \<noteq> 0" by (simp add: thp_mapped_def)
  with map have start: "prep_memory_map k (g, w) = (Inr THP_SUCCESS, ?g, w1)"
    by (simp add: prep_memory_map_def act_run)
  from prep_injection_ok [OF law m, of ?g] p obtain c w2 t where w2:
      "prep_injection k (?g, w1) = (Inr THP_SUCCESS, ?g\<lparr>thp_addr := t, corrupt_page := max 0 (corrupt_page g), corrupt_page_addr := c\<rparr>, w2)"
      "thp_target base c" "\<forall>i<REQ_MEM_SIZE. cell w2 (base + of_nat i) = letter i" "bad w2 = bad w1" "early w2 = thp_early g"
    by auto
  define h where "h = ?g\<lparr>thp_addr := t, corrupt_page := max 0 (corrupt_page g), corrupt_page_addr := c\<rparr>"
  obtain s where say: "print_prep_info pid (h, w2) = (Inr (), h\<lparr>thp_out := thp_out h @ [s]\<rparr>, w2)"
    unfolding print_prep_info_def thp_say_def sbind_apply by auto
  let ?h = "h\<lparr>thp_out := thp_out h @ [s]\<rparr>"
  from poison_page [OF law target_owned(1) [OF m w2(2)], of ?h w2] obtain w3 where w3:
      "poison_dfl k c (?h, w2) = (if thp_early g then Inl killed else Inr 0, ?h, w3)"
      "cell w3 = cell w2" "bad w3 = insert (page_no c) (bad w1)"
    unfolding w2(4,5) by blast
  have h: "corrupt_page_addr ?h = c" "mem_addr ?h = base" "thp_early ?h = thp_early g" "thp_avoid ?h = thp_avoid g"
    by (simp_all add: h_def)
  have "fst (thp_steps k pid (?g, w1)) = (if thp_early g \<or> \<not> thp_avoid g then Inl killed else Inr THP_SUCCESS)"
  proof (cases "thp_early g")
    case True
    with w2(1) say w3(1) h show ?thesis
      by (simp add: thp_steps_def act_run do_injection_def h_def [symmetric] THP_FAILURE_def THP_SUCCESS_def)
  next
    case False
    with w3(1) h(1) have "do_injection k (?h, w2) = (Inr THP_SUCCESS, ?h, w3)"
      by (simp add: do_injection_def act_run)
    moreover from post_injection_ok [OF law m w2(2) h(2,1) _ w3(3)] False h w2(3) w3(2)
    have "fst (post_injection k (?h, w3)) = (if thp_avoid g then Inr THP_SUCCESS else Inl killed)" by simp
    ultimately show ?thesis
      using False w2(1) say by (cases "post_injection k (?h, w3)")
        (simp add: thp_steps_def act_run h_def [symmetric] THP_FAILURE_def THP_SUCCESS_def)
  qed
  then show ?thesis
    using start by (cases "thp_steps k pid (?g, w1)")
      (simp add: thp_child_def post_memory_map_def act_run THP_FAILURE_def THP_SUCCESS_def split: prod.splits)
qed

text \<open>
  C16. On a kernel that keeps the law of \<open>memory_law\<close> the test passes in all its modes but one: with \<open>-e\<close> and \<open>-a\<close> together
  the child is killed at the injection, as it asked for, and the parent wants it to have survived. The page to be
  poisoned may be any of the 512 of a huge page.
\<close>

theorem thp_outcome:
  assumes "memory_law page_no k own cell bad early" "get_options_or_die os = Inr g" "corrupt_page g < 512"
    and "k_fork k w = (True, w1)" "thp_mapped own bad base w2"
    and "k_mmap k REQ_MEM_SIZE [PROT_WRITE, PROT_READ] [MAP_PRIVATE, MAP_ANONYMOUS] (-1) w1 = (Some base, w2)"
  shows "map_sum id fst (thp_main k os pid True w)
    = Inr (if thp_early g \<and> thp_avoid g then THP_FAILURE else THP_SUCCESS)"
proof -
  obtain r h w3 where r: "thp_child k pid (g, w1) = (r, h, w3)" by (cases "thp_child k pid (g, w1)")
  with thp_child_ok [OF assms(1,5,3,6), of pid]
  have "r = (if thp_early g \<or> \<not> thp_avoid g then Inl killed else Inr 0)" by simp
  moreover have "killdump CLD_KILLED" "killdump CLD_DUMPED" by (simp_all add: killdump_def CLD_KILLED_def CLD_DUMPED_def)
  ultimately show ?thesis
    using assms(2,4) r
    by (auto simp: thp_main_def rbind_def thp_end_def thp_verdict_def CLD_EXITED_def CLD_KILLED_def CLD_DUMPED_def)
qed

theorem thp_outcome_witness:
  "map_sum id fst (thp_main (memory_kern page_no 0x7f0000001000) [(CHR ''o'', ''3''), (CHR ''e'', []), (CHR ''a'', [])] 42 True fresh_memory)
     = Inr THP_FAILURE"
proof -
  let ?g = "thp_init\<lparr>corrupt_page := 3, thp_early := True, thp_avoid := True\<rparr>"
  have opts: "get_options_or_die [(CHR ''o'', ''3''), (CHR ''e'', []), (CHR ''a'', [])] = Inr ?g"
    using atoi_show_int [of 3 "[]"]
    by (simp add: get_options_or_die_def thp_init_def show_int_def show_base.simps digit_char_def)
  have "thp_mapped UNIV m_bad 0x7f0000001000 fresh_memory"
    by (simp add: thp_mapped_def fresh_memory_def REQ_MEM_SIZE_def)
  then show ?thesis
    using thp_outcome [OF memory_kern_law [of page_no "0x7f0000001000" UNIV] opts, where w = fresh_memory and pid = 42
        and ?w1.0 = fresh_memory and ?w2.0 = fresh_memory and base = "0x7f0000001000"]
    by (simp add: memory_kern_def thp_init_def)
qed

text \<open>The verdict rests on the end of the child alone. The code is taken through a mask that a plain exit passes as well,
  so it is the status that tells: an exit with 7, the number of \<open>SIGBUS\<close>, would count as a kill; the child exits with 0
  and 1 only.\<close>

lemma thp_verdict_cases:
  "fst (thp_verdict False (CLD_EXITED, s)) = (if s = SIGBUS then THP_SUCCESS else THP_FAILURE)"
  "fst (thp_verdict True (c, s)) = THP_SUCCESS \<longleftrightarrow> c = CLD_EXITED \<and> s = 0"
  by (auto simp: thp_verdict_def killdump_def CLD_EXITED_def CLD_KILLED_def CLD_DUMPED_def THP_SUCCESS_def THP_FAILURE_def)

end
