(* ===== verification/Hugetlb_Test.thy ===== *)
theory Hugetlb_Test
  imports Hugepage Poison_Memory
begin

text \<open>
  \<open>cases/function/hwpoison/thugetlb.c\<close> and \<open>thugetlb_overcommit.c\<close>: huge pages are written, one of their small pages
  is poisoned or taken offline, and they are written and read again. Here are the options, the pieces of \<open>main\<close> and
  the program without \<open>-F\<close>; with \<open>-F\<close> it is two processes, in theory \<open>Hugetlb_Fork\<close>.
\<close>

section \<open>Options\<close>

definition HPAGE_SIZE :: nat where "HPAGE_SIZE = 2 * 1024 * 1024"
definition BUF_SIZE :: nat where "BUF_SIZE = 256"

record hconf =
  h_size :: int
  h_offset :: int
  h_inject :: bool
  h_soft :: bool
  h_early :: bool
  h_shm :: bool
  h_anon :: bool
  h_avoid :: bool
  h_fork :: bool
  h_private :: bool
  h_cow :: bool
  h_name :: string
  h_key :: int

definition hconf_init :: hconf where
  "hconf_init = \<lparr>h_size = 1, h_offset = -1, h_inject = False, h_soft = False, h_early = False, h_shm = False,
     h_anon = False, h_avoid = False, h_fork = False, h_private = False, h_cow = False, h_name = ''/test'', h_key = 0\<rparr>"

text \<open>The options as \<open>getopt_long\<close> gives them; \<open>-f\<close> appends to the name in its buffer of 256 bytes.\<close>

fun hugetlb_options :: "(char \<times> string) list \<Rightarrow> hconf \<Rightarrow> hconf res" where
  "hugetlb_options [] c = Inr c"
| "hugetlb_options ((ch, arg) # os) c =
     (if ch = CHR ''m'' then hugetlb_options os (c\<lparr>h_size := atoi arg\<rparr>)
      else if ch = CHR ''o'' then hugetlb_options os (c\<lparr>h_offset := atoi arg\<rparr>)
      else if ch = CHR ''x'' then hugetlb_options os (c\<lparr>h_inject := True\<rparr>)
      else if ch = CHR ''O'' then hugetlb_options os (c\<lparr>h_soft := True\<rparr>)
      else if ch = CHR ''e'' then hugetlb_options os (c\<lparr>h_early := True\<rparr>)
      else if ch = CHR ''S'' then hugetlb_options os (c\<lparr>h_shm := True\<rparr>)
      else if ch = CHR ''A'' then hugetlb_options os (c\<lparr>h_anon := True\<rparr>)
      else if ch = CHR ''a'' then hugetlb_options os (c\<lparr>h_avoid := True\<rparr>)
      else if ch = CHR ''F'' then hugetlb_options os (c\<lparr>h_fork := True\<rparr>)
      else if ch = CHR ''p'' then hugetlb_options os (c\<lparr>h_private := True\<rparr>)
      else if ch = CHR ''c'' then hugetlb_options os (c\<lparr>h_cow := True\<rparr>)
      else if ch = CHR ''f'' then
        (if BUF_SIZE \<le> length (h_name c @ arg) then Inl (Undef ''filename overflow'')
         else hugetlb_options os (c\<lparr>h_name := h_name c @ arg, h_key := atoi arg\<rparr>))
      else if ch = CHR ''h'' then Inl (Exit 0)
      else Inl (Exit 1))"

text \<open>
  The test of the position: \<open>corrupt_page * PS\<close> is an \<open>int\<close> that is compared with an \<open>unsigned long\<close>, so a
  negative product is a huge number.
\<close>

definition out_of_range :: "nat \<Rightarrow> hconf \<Rightarrow> bool res" where
  "out_of_range ps c =
     (let p = h_offset c * int ps
      in if p < - (2 ^ 31) \<or> 2 ^ 31 \<le> p then Inl (Undef ''int overflow'')
         else Inr ((word_of_int (h_size c) * of_nat HPAGE_SIZE :: u64) < word_of_int p))"

text \<open>The name of the directory is the last argument; \<open>exists\<close> is what \<open>access\<close> says of it.\<close>

definition hugetlb_path :: "string \<Rightarrow> bool \<Rightarrow> hconf \<Rightarrow> string res" where
  "hugetlb_path dir exists c =
     (if \<not> exists then Inl (Exit 1)
      else if BUF_SIZE \<le> length (dir @ h_name c) then Inl (Undef ''filepath overflow'')
      else Inr (dir @ h_name c))"

definition hugetlb_setup :: "nat \<Rightarrow> (char \<times> string) list \<Rightarrow> string \<Rightarrow> bool \<Rightarrow> (hconf \<times> string) res" where
  "hugetlb_setup ps os dir exists =
     rbind (hugetlb_options os hconf_init) (\<lambda>c.
     rbind (if h_inject c then out_of_range ps c else Inr False) (\<lambda>far.
       if far then Inl (Exit 1)
       else if h_avoid c \<and> h_offset c = -1 then Inl (Exit 1)
       else rbind (hugetlb_path dir exists c) (\<lambda>path. Inr (c, path))))"

section \<open>Memory\<close>

text \<open>The messages are the only globals from here on.\<close>

type_synonym ('w, 'a) hp_act = "(string list, 'w, 'a) act"

text \<open>The length goes through an \<open>int\<close> parameter on its way to a \<open>size_t\<close>.\<close>

definition hugetlb_bytes :: "int \<Rightarrow> nat" where
  "hugetlb_bytes n = unat (scast (ucast (word_of_int n * of_nat HPAGE_SIZE :: u64) :: u32) :: u64)"

definition hugetlb_len :: "hconf \<Rightarrow> nat" where
  "hugetlb_len c = hugetlb_bytes (h_size c)"

text \<open>The three ways to get the pages: the file descriptor, the key and the address.\<close>

definition hugetlb_alloc :: "'w kern \<Rightarrow> hconf \<Rightarrow> string \<Rightarrow> ('w, int \<times> int \<times> u64) hp_act" where
  "hugetlb_alloc k c path =
     (if h_shm c then
        sbind (alloc_shm_hugepage k (h_key c) (hugetlb_len c)) (\<lambda>(key, a). case a of
            None \<Rightarrow> halt (Exit 1) | Some p \<Rightarrow> ret (0, key, p))
      else if h_anon c then
        sbind (alloc_anonymous_hugepage k (hugetlb_len c) (h_private c)) (\<lambda>a. case a of
            None \<Rightarrow> halt (Exit 1) | Some p \<Rightarrow> ret (0, h_key c, p))
      else
        sbind (alloc_filebacked_hugepage k path (hugetlb_len c) (h_private c)) (\<lambda>(fd, a). case a of
            None \<Rightarrow> halt (Exit 1) | Some p \<Rightarrow> ret (fd, h_key c, p)))"

text \<open>\<open>write_hugepage\<close> and \<open>read_hugepage\<close> access by access; \<open>i * HPS\<close> is a product of two \<open>int\<close>.\<close>

definition page_index :: "nat \<Rightarrow> nat \<Rightarrow> ('w, unit) hp_act" where
  "page_index hps i = (if 2 ^ 31 \<le> i * hps then halt (Undef ''i * HPS overflows'') else nop)"

definition write_page :: "'w kern \<Rightarrow> nat \<Rightarrow> u64 \<Rightarrow> u64 \<Rightarrow> nat \<Rightarrow> ('w, unit) hp_act" where
  "write_page k hps addr avoid i =
     sseq (page_index hps i)
       (if addr + of_nat (i * hps) = avoid then nop
        else each (\<lambda>j. store_dfl k (addr + of_nat (i * hps + j)) (pattern_byte i j)) [0..<hps])"

definition write_pages :: "'w kern \<Rightarrow> nat \<Rightarrow> u64 \<Rightarrow> nat \<Rightarrow> u64 \<Rightarrow> ('w, unit) hp_act" where
  "write_pages k hps addr nr avoid = each (write_page k hps addr avoid) [0..<nr]"

fun read_page :: "'w kern \<Rightarrow> nat \<Rightarrow> u64 \<Rightarrow> nat \<Rightarrow> nat list \<Rightarrow> ('w, bool) hp_act" where
  "read_page k hps addr i [] = ret True"
| "read_page k hps addr i (j # js) =
     sbind (load_dfl k (addr + of_nat (i * hps + j))) (\<lambda>v.
       if v \<noteq> pattern_byte i j
       then sseq (upd (\<lambda>out. out @ [''Mismatch at '' @ show_dec (i + j) @ [NL]])) (ret False)
       else read_page k hps addr i js)"

fun read_pages_loop :: "'w kern \<Rightarrow> nat \<Rightarrow> u64 \<Rightarrow> u64 \<Rightarrow> nat list \<Rightarrow> int \<Rightarrow> ('w, int) hp_act" where
  "read_pages_loop k hps addr avoid [] r = ret r"
| "read_pages_loop k hps addr avoid (i # is) r =
     sseq (page_index hps i)
       (if addr + of_nat (i * hps) = avoid then read_pages_loop k hps addr avoid is r
        else sbind (read_page k hps addr i [0..<hps]) (\<lambda>ok. read_pages_loop k hps addr avoid is (if ok then r else -1)))"

definition read_pages :: "'w kern \<Rightarrow> nat \<Rightarrow> u64 \<Rightarrow> nat \<Rightarrow> u64 \<Rightarrow> ('w, int) hp_act" where
  "read_pages k hps addr nr avoid = read_pages_loop k hps addr avoid [0..<nr] 0"

section \<open>The pieces of main\<close>

text \<open>The huge page that is left alone: of the page to be corrupted, when it is to be avoided; NULL otherwise.\<close>

definition hugetlb_expected :: "hconf \<Rightarrow> u64 \<Rightarrow> u64" where
  "hugetlb_expected c addr =
     (if h_offset c \<noteq> -1 \<and> h_avoid c
      then addr + word_of_int (sgn (h_offset c) * (\<bar>h_offset c\<bar> div 512)) * of_nat HPAGE_SIZE else 0)"

text \<open>Writing and reading all pages but one. The value of \<open>read_hugepage\<close> is not used.\<close>

definition hugetlb_touch :: "'w kern \<Rightarrow> hconf \<Rightarrow> u64 \<Rightarrow> u64 \<Rightarrow> ('w, unit) hp_act" where
  "hugetlb_touch k c addr avoid =
     sseq (write_pages k HPAGE_SIZE addr (nat (h_size c)) avoid)
    (sseq (read_pages k HPAGE_SIZE addr (nat (h_size c)) avoid) nop)"

definition hugetlb_policy :: "'w kern \<Rightarrow> hconf \<Rightarrow> ('w, unit) hp_act" where
  "hugetlb_policy k c = (if h_early c then sseq (call (k_sys k (Prctl 33 1 1))) nop else nop)"

text \<open>The injection; \<open>False\<close> is the way to \<open>cleanout\<close>.\<close>

definition hugetlb_inject :: "'w kern \<Rightarrow> nat \<Rightarrow> hconf \<Rightarrow> u64 \<Rightarrow> ('w, bool) hp_act" where
  "hugetlb_inject k ps c addr =
     (if h_inject c \<and> h_offset c \<noteq> -1 then
        (let a = addr + word_of_int (h_offset c * int ps)
         in sbind (if h_soft c then call (k_sys k (Madvise a ps 101)) else poison_dfl k a) (\<lambda>r.
              if r \<noteq> 0 then sseq (upd (\<lambda>out. out @ [''madivise return '' @ show_int r @ '' :''])) (ret False)
              else ret True))
      else ret True)"

definition hugetlb_clean :: "'w kern \<Rightarrow> hconf \<Rightarrow> string \<Rightarrow> int \<times> int \<times> u64 \<Rightarrow> ('w, int) hp_act" where
  "hugetlb_clean k c path h =
     (case h of (fd, key, addr) \<Rightarrow>
        sbind (if h_shm c then free_shm_hugepage k key addr
               else if h_anon c then free_anonymous_hugepage k addr (hugetlb_len c)
               else free_filebacked_hugepage k addr (hugetlb_len c) fd (Some path))
          (\<lambda>r. if r = -1 then halt (Exit 2) else ret 0))"

text \<open>
  \<open>main\<close> without \<open>-F\<close>. The empty statement after \<open>if (madvise_code != MADV_SOFT_OFFLINE)\<close> makes the second
  writing unconditional.
\<close>

definition hugetlb_main :: "'w kern \<Rightarrow> nat \<Rightarrow> hconf \<Rightarrow> string \<Rightarrow> ('w, int) hp_act" where
  "hugetlb_main k ps c path =
     sbind (hugetlb_alloc k c path) (\<lambda>(fd, key, addr).
     sseq (hugetlb_touch k c addr 0)
    (sseq (hugetlb_policy k c)
    (sbind (hugetlb_inject k ps c addr) (\<lambda>ok.
     sseq (if ok then hugetlb_touch k c addr (hugetlb_expected c addr) else nop)
       (hugetlb_clean k c path (fd, key, addr))))))"

text \<open>\<open>thugetlb_overcommit.c\<close>: the global \<open>HPS\<close>, the size of a huge page for \<open>write_hugepage\<close>, is never set and 0.\<close>

definition overcommit_main :: "'w kern \<Rightarrow> nat \<Rightarrow> string \<Rightarrow> ('w, int) hp_act" where
  "overcommit_main k ps arg =
     (let nr = atoi arg; len = hugetlb_bytes nr
      in sbind (alloc_anonymous_hugepage k len False) (\<lambda>a.
           let addr = (case a of Some p \<Rightarrow> p | None \<Rightarrow> 0)
           in sseq (write_pages k 0 addr (nat nr) 0)
             (sbind (call (k_sys k (Madvise addr ps 101))) (\<lambda>r.
              sseq (free_anonymous_hugepage k addr len) (ret r)))))"

section \<open>The accesses refine the helpers of hugepage.h\<close>

lemma page_index_ok [simp]: "i * hps < 2 ^ 31 \<Longrightarrow> sseq (page_index hps i) m = m"
  by (rule ext) (simp add: page_index_def sseq_apply)

lemma write_page_fits:
  assumes "i * hps < 2 ^ 31"
  shows "write_page k hps addr avoid i =
    (if addr + of_nat (i * hps) = avoid then nop
     else each (\<lambda>j. store_dfl k (addr + of_nat (i * hps + j)) (pattern_byte i j)) [0..<hps])"
  unfolding write_page_def page_index_ok [OF assms] ..

text \<open>The cells of the pages that are not avoided belong to the process and are not poisoned.\<close>

definition pages_good :: "u64 set \<Rightarrow> ('w \<Rightarrow> u64 set) \<Rightarrow> nat \<Rightarrow> u64 \<Rightarrow> nat list \<Rightarrow> u64 \<Rightarrow> 'w \<Rightarrow> bool" where
  "pages_good own bad hps addr is avoid w \<longleftrightarrow>
     (\<forall>i\<in>set is. i * hps < 2 ^ 31 \<and> (addr + of_nat (i * hps) \<noteq> avoid \<longrightarrow> (\<forall>j<hps.
        addr + of_nat (i * hps + j) \<in> own \<and> hpage_no (addr + of_nat (i * hps + j)) \<notin> bad w)))"

lemma write_pages_good:
  assumes law: "memory_law hpage_no k own cell bad early" and good: "pages_good own bad hps addr is avoid w"
  shows "\<exists>w'. each (write_page k hps addr avoid) is (g, w) = (Inr (), g, w')
    \<and> cell w' = fold (\<lambda>i mem. if addr + of_nat (i * hps) = avoid then mem else fill_hugepage hps addr i mem) is (cell w)
    \<and> bad w' = bad w \<and> early w' = early w"
  using good
proof (induction "is" arbitrary: w)
  case (Cons i "is")
  show ?case
  proof (cases "addr + of_nat (i * hps) = avoid")
    case True
    with Cons show ?thesis by (simp add: sseq_apply pages_good_def write_page_fits)
  next
    case False
    with Cons.prems have "\<forall>j\<in>set [0..<hps]. addr + of_nat (i * hps + j) \<in> own \<and> hpage_no (addr + of_nat (i * hps + j)) \<notin> bad w"
      by (simp add: pages_good_def)
    from stores_good [OF law this, of "pattern_byte i" g] obtain w1 where w1:
        "each (\<lambda>j. store_dfl k (addr + of_nat (i * hps + j)) (pattern_byte i j)) [0..<hps] (g, w) = (Inr (), g, w1)"
        "cell w1 = fill_hugepage hps addr i (cell w)" "bad w1 = bad w" "early w1 = early w"
      unfolding fill_hugepage_def by blast
    from Cons.prems w1(3) have "pages_good own bad hps addr is avoid w1" by (simp add: pages_good_def)
    from Cons.IH [OF this] w1(2-) obtain w2 where w2:
        "each (write_page k hps addr avoid) is (g, w1) = (Inr (), g, w2)"
        "cell w2 = fold (\<lambda>i mem. if addr + of_nat (i * hps) = avoid then mem else fill_hugepage hps addr i mem) is
           (fill_hugepage hps addr i (cell w))" "bad w2 = bad w" "early w2 = early w"
      by (auto simp del: of_nat_mult)
    from Cons.prems have "i * hps < 2 ^ 31" by (simp add: pages_good_def)
    from w2 w1(1) False show ?thesis unfolding each.simps sseq_apply write_page_fits [OF \<open>i * hps < 2 ^ 31\<close>] by (simp del: of_nat_mult)
  qed
qed simp

lemma read_page_good:
  assumes "memory_law hpage_no k own cell bad early"
    and "\<forall>j\<in>set js. addr + of_nat (i * hps + j) \<in> own \<and> hpage_no (addr + of_nat (i * hps + j)) \<notin> bad w"
  shows "read_page k hps addr i js (out, w) =
    (case find (\<lambda>j. cell w (addr + of_nat (i * hps + j)) \<noteq> pattern_byte i j) js of
       None \<Rightarrow> (Inr True, out, w)
     | Some j \<Rightarrow> (Inr False, out @ [''Mismatch at '' @ show_dec (i + j) @ [NL]], w))"
  using assms(2) by (induction js) (auto simp: act_run load_good [OF assms(1)])

lemma read_pages_good:
  assumes law: "memory_law hpage_no k own cell bad early" and good: "pages_good own bad hps addr is avoid w"
  shows "read_pages_loop k hps addr avoid is r (out @ ms, w) =
    (case fold (\<lambda>i (r, out).
         if addr + of_nat (i * hps) = avoid then (r, out)
         else (case mismatch_at hps addr (cell w) i of
                 None \<Rightarrow> (r, out)
               | Some j \<Rightarrow> (-1, out @ [''Mismatch at '' @ show_dec (i + j) @ [NL]]))) is (r, ms)
     of (r, ms) \<Rightarrow> (Inr r, out @ ms, w))"
  using good
proof (induction "is" arbitrary: r ms)
  case (Cons i "is")
  from Cons.prems have tail: "pages_good own bad hps addr is avoid w" by (simp add: pages_good_def)
  show ?case
  proof (cases "addr + of_nat (i * hps) = avoid")
    case True
    with Cons.IH [OF tail] Cons.prems show ?thesis by (simp add: pages_good_def)
  next
    case False
    with Cons.prems have cells: "\<forall>j\<in>set [0..<hps]. addr + of_nat (i * hps + j) \<in> own \<and> hpage_no (addr + of_nat (i * hps + j)) \<notin> bad w"
      by (simp add: pages_good_def)
    have "i * hps < 2 ^ 31" using Cons.prems by (simp add: pages_good_def)
    with read_page_good [OF law cells, of "out @ ms"] Cons.IH [OF tail] Cons.IH [OF tail, of _ "ms @ [_]"] False
    show ?thesis by (auto simp: sbind_apply mismatch_at_def split: option.splits)
  qed
qed simp

text \<open>A page that cannot be written ends the process.\<close>

lemma write_pages_hits:
  assumes law: "memory_law hpage_no k own cell bad early"
    and own: "\<forall>i\<in>set is. i * hps < 2 ^ 31 \<and> (\<forall>j<hps. addr + of_nat (i * hps + j) \<in> own)"
    and hit: "\<exists>i\<in>set is. addr + of_nat (i * hps) \<noteq> avoid \<and> (\<exists>j<hps. hpage_no (addr + of_nat (i * hps + j)) \<in> bad w)"
  shows "fst (each (write_page k hps addr avoid) is (g, w)) = Inl killed"
  using own hit
proof (induction "is" arbitrary: w)
  case (Cons i "is")
  let ?page = "each (\<lambda>j. store_dfl k (addr + of_nat (i * hps + j)) (pattern_byte i j)) [0..<hps]"
  show ?case
  proof (cases "addr + of_nat (i * hps) \<noteq> avoid \<and> (\<exists>j<hps. hpage_no (addr + of_nat (i * hps + j)) \<in> bad w)")
    case True
    then have "\<exists>j\<in>set [0..<hps]. hpage_no (addr + of_nat (i * hps + j)) \<in> bad w" by force
    with Cons.prems(1) have "fst (?page (g, w)) = Inl killed" by (intro stores_bad [OF law]) simp_all
    with True Cons.prems(1) show ?thesis by (cases "?page (g, w)") (simp add: sseq_apply write_page_fits)
  next
    case False
    then have "pages_good own bad hps addr [i] avoid w" using Cons.prems(1) by (auto simp: pages_good_def)
    from write_pages_good [OF law this, of g] obtain w1 where w1:
        "write_page k hps addr avoid i (g, w) = (Inr (), g, w1)" "bad w1 = bad w"
      by (auto simp: sseq_apply split: prod.splits sum.splits)
    from Cons.prems(2) False w1(2)
    have "\<exists>i\<in>set is. addr + of_nat (i * hps) \<noteq> avoid \<and> (\<exists>j<hps. hpage_no (addr + of_nat (i * hps + j)) \<in> bad w1)" by auto
    from Cons.IH [OF _ this] Cons.prems(1) have "fst (each (write_page k hps addr avoid) is (g, w1)) = Inl killed" by simp
    with w1(1) show ?thesis by (simp only: each.simps sseq_apply prod.case sum.case)
  qed
qed simp

section \<open>Which huge page is hit\<close>

text \<open>
  The mapping: aligned to huge pages, owned by the process, without poison, and no longer than the \<open>int\<close> that all the
  functions that make it have for their size.
\<close>

definition huge_mapped :: "u64 set \<Rightarrow> ('w \<Rightarrow> u64 set) \<Rightarrow> u64 \<Rightarrow> nat \<Rightarrow> 'w \<Rightarrow> bool" where
  "huge_mapped own bad addr nr w \<longleftrightarrow> addr \<noteq> 0 \<and> HPAGE_SIZE dvd unat addr \<and> unat addr + nr * HPAGE_SIZE < 2 ^ 64
     \<and> nr * HPAGE_SIZE \<le> 2 ^ 31
     \<and> (\<forall>n<nr * HPAGE_SIZE. addr + of_nat n \<in> own \<and> hpage_no (addr + of_nat n) \<notin> bad w)"

lemma huge_mapped_cell:
  assumes "huge_mapped own bad addr nr w" "i < nr" "j < HPAGE_SIZE"
  shows "addr + of_nat (i * HPAGE_SIZE + j) \<in> own" "hpage_no (addr + of_nat (i * HPAGE_SIZE + j)) \<notin> bad w"
    "unat (addr + of_nat (i * HPAGE_SIZE + j)) = unat addr + (i * HPAGE_SIZE + j)"
proof -
  have n: "i * HPAGE_SIZE + j < nr * HPAGE_SIZE" using assms(2,3) by (rule page_offset)
  with assms(1) show "addr + of_nat (i * HPAGE_SIZE + j) \<in> own" "hpage_no (addr + of_nat (i * HPAGE_SIZE + j)) \<notin> bad w"
    unfolding huge_mapped_def by blast+
  from assms(1) n have "unat addr + (i * HPAGE_SIZE + j) < 2 ^ 64" by (simp add: huge_mapped_def)
  then show "unat (addr + of_nat (i * HPAGE_SIZE + j)) = unat addr + (i * HPAGE_SIZE + j)"
    by (rule unat_add_of_nat)
qed

lemma hpage_no_cell:
  assumes "huge_mapped own bad addr nr w" "i < nr" "j < HPAGE_SIZE"
  shows "unat (hpage_no (addr + of_nat (i * HPAGE_SIZE + j))) = unat addr div HPAGE_SIZE + i"
proof -
  from assms(1) obtain q where q: "unat addr = HPAGE_SIZE * q" unfolding huge_mapped_def by (auto elim: dvdE)
  have "unat (hpage_no (addr + of_nat (i * HPAGE_SIZE + j))) = unat (addr + of_nat (i * HPAGE_SIZE + j)) div 2 ^ 21"
    by (simp add: hpage_no_def drop_bit_eq_div unat_div_distrib)
  also have "\<dots> = (HPAGE_SIZE * (q + i) + j) div HPAGE_SIZE"
    unfolding huge_mapped_cell(3) [OF assms] q by (simp add: HPAGE_SIZE_def algebra_simps)
  also have "\<dots> = q + i" using assms(3) by simp
  finally show ?thesis using q assms(3) by simp
qed

lemma hpage_no_same:
  assumes "huge_mapped own bad addr nr w" "i < nr" "j < HPAGE_SIZE" "i' < nr" "j' < HPAGE_SIZE"
  shows "hpage_no (addr + of_nat (i * HPAGE_SIZE + j)) = hpage_no (addr + of_nat (i' * HPAGE_SIZE + j')) \<longleftrightarrow> i = i'"
  using hpage_no_cell [OF assms(1-3)] hpage_no_cell [OF assms(1,4,5)] by (auto simp: word_unat_eq_iff)

lemma page_start_inj:
  assumes "huge_mapped own bad addr nr w" "i < nr" "i' < nr"
  shows "addr + of_nat (i * HPAGE_SIZE) = addr + of_nat (i' * HPAGE_SIZE) \<longleftrightarrow> i = i'"
  using hpage_no_same [OF assms(1,2) _ assms(3), of 0 0] by (auto simp: HPAGE_SIZE_def)

text \<open>Touching all pages but one when the poison, if any, is in huge page \<open>i0\<close>.\<close>

lemma touch_outcome:
  assumes law: "memory_law hpage_no k own cell bad early" and m: "huge_mapped own bad addr (nat (h_size c)) w0"
    and i0: "i0 < nat (h_size c)" and a: "a = addr + of_nat (i0 * HPAGE_SIZE + j0)" "j0 < HPAGE_SIZE"
    and w: "bad w = (if hit then insert (hpage_no a) (bad w0) else bad w0)"
    and avoid: "avoid = (if skip then addr + of_nat (i0 * HPAGE_SIZE) else 0)"
  shows "if hit \<and> \<not> skip then fst (hugetlb_touch k c addr avoid (out, w)) = Inl killed
    else \<exists>out' w'. hugetlb_touch k c addr avoid (out, w) = (Inr (), out', w') \<and> bad w' = bad w \<and> early w' = early w"
proof -
  let ?nr = "nat (h_size c)"
  have off: "addr + of_nat (i * HPAGE_SIZE) = avoid \<longleftrightarrow> skip \<and> i = i0" if "i < ?nr" for i
  proof (cases skip)
    case True
    with avoid page_start_inj [OF m that i0] show ?thesis by simp
  next
    case False
    have "unat (addr + of_nat (i * HPAGE_SIZE + 0)) = unat addr + (i * HPAGE_SIZE + 0)"
      using huge_mapped_cell(3) [OF m that, of 0] by (simp add: HPAGE_SIZE_def)
    moreover have "unat addr \<noteq> 0" using m by (simp add: huge_mapped_def unat_eq_zero)
    ultimately have "addr + of_nat (i * HPAGE_SIZE) \<noteq> 0" by (auto simp: word_unat_eq_iff)
    with False avoid show ?thesis by simp
  qed
  have cells: "addr + of_nat (i * HPAGE_SIZE + j) \<in> own" if "i < ?nr" "j < HPAGE_SIZE" for i j
    using huge_mapped_cell(1) [OF m that] .
  have small: "i * HPAGE_SIZE < 2 ^ 31" if "i < ?nr" for i
    using that m by (auto simp: huge_mapped_def HPAGE_SIZE_def)
  show ?thesis
  proof (cases "hit \<and> \<not> skip")
    case True
    have "fst (write_pages k HPAGE_SIZE addr ?nr avoid (out, w)) = Inl killed"
      unfolding write_pages_def
    proof (rule write_pages_hits [OF law])
      show "\<forall>i\<in>set [0..<?nr]. i * HPAGE_SIZE < 2 ^ 31 \<and> (\<forall>j<HPAGE_SIZE. addr + of_nat (i * HPAGE_SIZE + j) \<in> own)"
        using cells small by simp
      have "addr + of_nat (i0 * HPAGE_SIZE) \<noteq> avoid" using off [OF i0] True by simp
      with i0 a True w show "\<exists>i\<in>set [0..<?nr]. addr + of_nat (i * HPAGE_SIZE) \<noteq> avoid
          \<and> (\<exists>j<HPAGE_SIZE. hpage_no (addr + of_nat (i * HPAGE_SIZE + j)) \<in> bad w)" by auto
    qed
    with True show ?thesis
      by (cases "write_pages k HPAGE_SIZE addr ?nr avoid (out, w)") (simp add: hugetlb_touch_def sseq_apply)
  next
    case False
    have "hpage_no (addr + of_nat (i * HPAGE_SIZE + j)) \<notin> bad w"
      if "i < ?nr" "addr + of_nat (i * HPAGE_SIZE) \<noteq> avoid" "j < HPAGE_SIZE" for i j
      using False off [OF that(1)] that hpage_no_same [OF m that(1,3) i0 a(2)] huge_mapped_cell(2) [OF m that(1,3)]
      unfolding w a(1) by auto
    with cells small have good: "pages_good own bad HPAGE_SIZE addr [0..<?nr] avoid w" by (simp add: pages_good_def)
    from write_pages_good [OF law good, of out] obtain w1 where w1:
        "write_pages k HPAGE_SIZE addr ?nr avoid (out, w) = (Inr (), out, w1)" "bad w1 = bad w" "early w1 = early w"
      unfolding write_pages_def by blast
    from good w1(2) have "pages_good own bad HPAGE_SIZE addr [0..<?nr] avoid w1" by (simp add: pages_good_def)
    from read_pages_good [OF law this, of 0 out "[]"] obtain r ms where
        "read_pages k HPAGE_SIZE addr ?nr avoid (out, w1) = (Inr r, out @ ms, w1)"
      by (auto simp: read_pages_def split: prod.splits)
    with w1 have "hugetlb_touch k c addr avoid (out, w) = (Inr (), out @ ms, w1)"
      by (simp add: hugetlb_touch_def sseq_apply)
    with False w1(2,3) show ?thesis by auto
  qed
qed

section \<open>Outcome of a run\<close>

text \<open>The calls that give memory and files back succeed.\<close>

definition frees_ok :: "'w kern \<Rightarrow> bool" where
  "frees_ok k \<longleftrightarrow> (\<forall>a n w. fst (k_sys k (Munmap a n) w) = 0) \<and> (\<forall>fd w. fst (k_sys k (Close fd) w) = 0)
     \<and> (\<forall>p w. fst (k_sys k (Unlink p) w) = 0) \<and> (\<forall>a w. fst (k_sys k (Shmdt a) w) = 0)"

lemma clean_ok: "frees_ok k \<Longrightarrow> fst (hugetlb_clean k c path h s) = Inr 0"
  by (cases h; cases s)
    (simp add: hugetlb_clean_def free_shm_hugepage_def free_anonymous_hugepage_def free_filebacked_hugepage_def
      frees_ok_def sbind_apply sseq_apply case_prod_unfold)

lemma hugetlb_target:
  assumes "0 \<le> h_offset c" "h_offset c < 512 * h_size c"
  obtains i0 j0 where "i0 < nat (h_size c)" "j0 < HPAGE_SIZE"
    "addr + word_of_int (h_offset c * int 4096) = addr + of_nat (i0 * HPAGE_SIZE + j0)"
    "hugetlb_expected c addr = (if h_avoid c then addr + of_nat (i0 * HPAGE_SIZE) else 0)"
proof
  define n where "n = nat (h_offset c)"
  have n: "h_offset c = int n" using assms(1) by (simp add: n_def)
  show "n div 512 < nat (h_size c)" using assms(2) n by (simp add: less_mult_imp_div_less nat_less_iff zless_nat_eq_int_zless)
  show "n mod 512 * 4096 < HPAGE_SIZE" by (simp add: HPAGE_SIZE_def)
  have "n = 512 * (n div 512) + n mod 512" by simp
  then have "n * 4096 = n div 512 * HPAGE_SIZE + n mod 512 * 4096" unfolding HPAGE_SIZE_def by linarith
  then show "addr + word_of_int (h_offset c * int 4096) = addr + of_nat (n div 512 * HPAGE_SIZE + n mod 512 * 4096)"
    unfolding n by (metis of_int_of_nat_eq of_nat_mult)
  have "sgn (int n) * (\<bar>int n\<bar> div 512) = int (n div 512)" by (cases "n = 0") (simp_all add: zdiv_int)
  then show "hugetlb_expected c addr = (if h_avoid c then addr + of_nat (n div 512 * HPAGE_SIZE) else 0)"
    unfolding hugetlb_expected_def n by simp
qed

text \<open>A run without \<open>-F\<close> on a kernel that keeps its promises.\<close>

lemma hugetlb_outcome:
  assumes law: "memory_law hpage_no k own cell bad early" "frees_ok k"
    and c: "h_inject c" "0 \<le> h_offset c" "h_offset c < 512 * h_size c"
    and alloc: "hugetlb_alloc k c path ([], w) = (Inr (fd, key, addr), out, w1)"
    and m: "huge_mapped own bad addr (nat (h_size c)) w1"
  shows "fst (hugetlb_main k 4096 c path ([], w)) =
    (if h_soft c then Inr 0
     else if h_early c \<or> early w1 then Inl killed
     else if h_avoid c then Inr 0 else Inl killed)"
proof -
  from hugetlb_target [OF c(2,3), of addr] obtain i0 j0 where i: "i0 < nat (h_size c)" "j0 < HPAGE_SIZE"
      "addr + word_of_int (h_offset c * int 4096) = addr + of_nat (i0 * HPAGE_SIZE + j0)"
      "hugetlb_expected c addr = (if h_avoid c then addr + of_nat (i0 * HPAGE_SIZE) else 0)" by blast
  define a where "a = addr + of_nat (i0 * HPAGE_SIZE + j0)"
  have target: "addr + word_of_int (h_offset c) * 4096 = a" using i(3) by (simp add: a_def)
  have own: "a \<in> own" unfolding a_def using huge_mapped_cell(1) [OF m i(1,2)] .
  note touch = touch_outcome [OF law(1) m i(1) a_def i(2)]
  obtain out2 w2 where w2: "hugetlb_touch k c addr 0 (out, w1) = (Inr (), out2, w2)" "bad w2 = bad w1" "early w2 = early w1"
    using touch [of w1 False 0 False out] by auto
  obtain w3 where w3: "hugetlb_policy k c (out2, w2) = (Inr (), out2, w3)" "bad w3 = bad w1" "early w3 = (h_early c \<or> early w1)"
  proof (cases "h_early c")
    case True
    from policy_ok [OF law(1), of True out2 w2] obtain w3 where
        "call (k_sys k (Prctl 33 1 1)) (out2, w2) = (Inr 0, out2, w3)" "bad w3 = bad w2" "early w3"
      unfolding same_memory_def by auto
    with True w2 that show ?thesis by (simp add: hugetlb_policy_def sseq_apply del: call_simp)
  qed (use w2 that in \<open>simp add: hugetlb_policy_def\<close>)
  have run: "hugetlb_main k 4096 c path ([], w) =
      sbind (hugetlb_inject k 4096 c addr) (\<lambda>ok.
        sseq (if ok then hugetlb_touch k c addr (hugetlb_expected c addr) else nop) (hugetlb_clean k c path (fd, key, addr)))
      (out2, w3)"
    unfolding hugetlb_main_def using alloc w2(1) w3(1) by (simp add: sbind_apply sseq_apply)
  have after: "fst (sseq (hugetlb_touch k c addr (hugetlb_expected c addr)) (hugetlb_clean k c path (fd, key, addr)) (out2, w4))
      = (if hit \<and> \<not> h_avoid c then Inl killed else Inr 0)"
    if "bad w4 = (if hit then insert (hpage_no a) (bad w1) else bad w1)" for w4 hit
    using touch [of w4 hit "hugetlb_expected c addr" "h_avoid c" out2] that i(4) clean_ok [OF law(2)]
    by (cases "hugetlb_touch k c addr (hugetlb_expected c addr) (out2, w4)") (auto simp: sseq_apply split: if_splits)
  show ?thesis
  proof (cases "h_soft c")
    case True
    from soft_offline_ok [OF law(1) own, of 4096 out2 w3] obtain w4 where
        "call (k_sys k (Madvise a 4096 101)) (out2, w3) = (Inr 0, out2, w4)" "bad w4 = bad w1"
      using w3(2) unfolding same_memory_def by auto
    then have "hugetlb_inject k 4096 c addr (out2, w3) = (Inr True, out2, w4)"
      using True c by (simp add: hugetlb_inject_def Let_def target sbind_apply del: call_simp)
    with True after [of w4 False] \<open>bad w4 = bad w1\<close> show ?thesis unfolding run by (simp add: sbind_apply)
  next
    case False
    from poison_page [OF law(1) own, of out2 w3] obtain w4 where w4:
        "poison_dfl k a (out2, w3) = (if early w3 then Inl killed else Inr 0, out2, w4)" "bad w4 = insert (hpage_no a) (bad w1)"
      using w3(2) by auto
    have "hugetlb_inject k 4096 c addr (out2, w3) = (if early w3 then Inl killed else Inr True, out2, w4)"
      using False c w4(1) by (simp add: hugetlb_inject_def Let_def target sbind_apply)
    with False after [of w4 True] w4(2) w3(3) show ?thesis unfolding run by (simp add: sbind_apply)
  qed
qed

text \<open>
  The test of the position accepts the page right behind the last one, and rejects the default of -1, whose product is
  a huge unsigned number: \<open>-x\<close> is not possible without \<open>-o\<close>.
\<close>

lemma hugetlb_range:
  assumes "0 \<le> h_size c" "h_size c < 2 ^ 31" "-1 \<le> h_offset c" "h_offset c < 2 ^ 19"
  shows "out_of_range 4096 c = Inr (h_offset c = -1 \<or> 512 * h_size c < h_offset c)"
proof -
  define s where "s = nat (h_size c)"
  have s: "h_size c = int s" "s < 2 ^ 31" using assms(1,2) by (auto simp: s_def)
  have us: "unat (word_of_int (h_size c) * of_nat HPAGE_SIZE :: u64) = s * 0x200000"
  proof -
    have "(word_of_int (h_size c) * of_nat HPAGE_SIZE :: u64) = of_nat (s * 0x200000)" by (simp add: s HPAGE_SIZE_def)
    moreover have "int (s * 0x200000) < 2 ^ 64" using s(2) by simp
    ultimately show ?thesis by (simp only: unat_of_nat_u64)
  qed
  show ?thesis
  proof (cases "h_offset c = -1")
    case True
    have "unat (word_of_int (-1 * int 4096) :: u64) = 2 ^ 64 - 4096" by simp
    with us s(2) True show ?thesis by (simp add: out_of_range_def word_less_nat_alt)
  next
    case False
    define n where "n = nat (h_offset c)"
    have n: "h_offset c = int n" "n < 2 ^ 19" using assms(3,4) False by (auto simp: n_def)
    have "unat (word_of_int (h_offset c * int 4096) :: u64) = n * 4096"
    proof -
      have "(word_of_int (h_offset c * int 4096) :: u64) = of_nat (n * 4096)" by (simp add: n)
      moreover have "int (n * 4096) < 2 ^ 64" using n(2) by simp
      ultimately show ?thesis by (simp only: unat_of_nat_u64)
    qed
    with us n False show ?thesis
      unfolding out_of_range_def Let_def by (auto simp: word_less_nat_alt s)
  qed
qed

text \<open>\<open>thugetlb_overcommit\<close> writes nothing: its loop over the bytes of a page runs to a size that is 0.\<close>

lemma overcommit_writes_nothing: "write_pages (k :: 'w kern) 0 addr nr avoid = nop"
proof -
  have "write_page k 0 addr avoid = (\<lambda>i. nop)"
    by (intro ext) (simp add: write_page_def)
  moreover have "each (\<lambda>i. nop) is s = nop s" for "is" :: "nat list" and s :: "string list \<times> 'w"
    by (induction "is") (simp_all add: sseq_apply)
  ultimately show ?thesis unfolding write_pages_def by (intro ext) simp
qed

end
