(* ===== verification/Hugetlb_Fork.thy ===== *)
theory Hugetlb_Fork
  imports Hugetlb_Test Schedules
begin

text \<open>
  \<open>thugetlb -F\<close>: after the fork the parent and the child use one semaphore so that the child writes its pages before the
  parent poisons one of them, and ends after that. A step of a process is one \<open>semop\<close> or the code between two of them.
  All operations have \<open>SEM_UNDO\<close>: when a process ends, what it took from and gave to the semaphore is taken back.
  The two share one memory here; with \<open>-p\<close> they have copies, in which they write the same bytes.
\<close>

section \<open>The two processes\<close>

text \<open>The child: \<open>C_none\<close> when \<open>fork\<close> failed, \<open>C_gone\<close> when it has ended.\<close>

datatype cplace = C_none | C_cow | C_put1 | C_get | C_put2 | C_exit | C_gone

text \<open>The parent from its \<open>get_semaphore\<close> on; \<open>Q_end\<close> when it has ended, in whatever way.\<close>

datatype pplace = Q_get | Q_inject | Q_put | Q_touch | Q_wait | Q_clean | Q_end

record 'w hsys =
  c_place :: cplace
  p_place :: pplace
  hsem :: nat
  c_adj :: int
  p_adj :: int
  c_out :: "string list"
  p_out :: "string list"
  hmem :: 'w

text \<open>The semaphore after the adjustments of a process that ends; it does not become negative.\<close>

definition undo :: "int \<Rightarrow> nat \<Rightarrow> nat" where
  "undo adj sem = nat (int sem + adj)"

definition child_ends :: "'w hsys \<Rightarrow> 'w hsys" where
  "child_ends s = s\<lparr>c_place := C_gone, hsem := undo (c_adj s) (hsem s)\<rparr>"

definition parent_ends :: "'w hsys \<Rightarrow> 'w hsys" where
  "parent_ends s = s\<lparr>p_place := Q_end, hsem := undo (p_adj s) (hsem s)\<rparr>"

text \<open>\<open>get_semaphore\<close> and \<open>put_semaphore\<close>; \<open>None\<close> is a process that waits.\<close>

definition child_get :: "cplace \<Rightarrow> 'w hsys \<Rightarrow> 'w hsys option" where
  "child_get q s = (if hsem s = 0 then None else Some (s\<lparr>c_place := q, hsem := hsem s - 1, c_adj := c_adj s + 1\<rparr>))"

definition child_put :: "cplace \<Rightarrow> 'w hsys \<Rightarrow> 'w hsys option" where
  "child_put q s = Some (s\<lparr>c_place := q, hsem := hsem s + 1, c_adj := c_adj s - 1\<rparr>)"

definition parent_get :: "pplace \<Rightarrow> 'w hsys \<Rightarrow> 'w hsys option" where
  "parent_get q s = (if hsem s = 0 then None else Some (s\<lparr>p_place := q, hsem := hsem s - 1, p_adj := p_adj s + 1\<rparr>))"

definition parent_put :: "pplace \<Rightarrow> 'w hsys \<Rightarrow> 'w hsys option" where
  "parent_put q s = Some (s\<lparr>p_place := q, hsem := hsem s + 1, p_adj := p_adj s - 1\<rparr>)"

definition child_cow :: "'w kern \<Rightarrow> hconf \<Rightarrow> u64 \<Rightarrow> 'w hsys \<Rightarrow> 'w hsys" where
  "child_cow k c addr s =
     (case (if h_cow c then hugetlb_touch k c addr 0 else nop) (c_out s, hmem s) of (r, out, w) \<Rightarrow>
        let s = s\<lparr>c_out := out, hmem := w\<rparr>
        in if isl r then child_ends s else s\<lparr>c_place := C_put1\<rparr>)"

definition child_step :: "'w kern \<Rightarrow> hconf \<Rightarrow> u64 \<Rightarrow> 'w hsys \<Rightarrow> 'w hsys option" where
  "child_step k c addr s =
     (case c_place s of
        C_cow \<Rightarrow> Some (child_cow k c addr s)
      | C_put1 \<Rightarrow> child_put C_get s
      | C_get \<Rightarrow> child_get C_put2 s
      | C_put2 \<Rightarrow> child_put C_exit s
      | C_exit \<Rightarrow> Some (child_ends s)
      | _ \<Rightarrow> None)"

definition parent_inject :: "'w kern \<Rightarrow> nat \<Rightarrow> hconf \<Rightarrow> u64 \<Rightarrow> 'w hsys \<Rightarrow> 'w hsys" where
  "parent_inject k ps c addr s =
     (case hugetlb_inject k ps c addr (p_out s, hmem s) of (r, out, w) \<Rightarrow>
        let s = s\<lparr>p_out := out, hmem := w\<rparr>
        in case r of Inl _ \<Rightarrow> parent_ends s | Inr ok \<Rightarrow> s\<lparr>p_place := (if ok then Q_put else Q_clean)\<rparr>)"

definition parent_touch :: "'w kern \<Rightarrow> hconf \<Rightarrow> u64 \<Rightarrow> 'w hsys \<Rightarrow> 'w hsys" where
  "parent_touch k c addr s =
     (case hugetlb_touch k c addr (hugetlb_expected c addr) (p_out s, hmem s) of (r, out, w) \<Rightarrow>
        let s = s\<lparr>p_out := out, hmem := w\<rparr>
        in if isl r then parent_ends s else s\<lparr>p_place := Q_wait\<rparr>)"

text \<open>\<open>wait\<close> without a child fails and ends the parent; the cleaning ends it in any case.\<close>

definition parent_wait :: "'w hsys \<Rightarrow> 'w hsys option" where
  "parent_wait s =
     (case c_place s of
        C_none \<Rightarrow> Some (parent_ends s)
      | C_gone \<Rightarrow> Some (s\<lparr>p_place := Q_clean\<rparr>)
      | _ \<Rightarrow> None)"

definition parent_clean :: "'w kern \<Rightarrow> hconf \<Rightarrow> string \<Rightarrow> int \<times> int \<times> u64 \<Rightarrow> 'w hsys \<Rightarrow> 'w hsys" where
  "parent_clean k c path h s =
     (case hugetlb_clean k c path h (p_out s, hmem s) of (r, out, w) \<Rightarrow> parent_ends (s\<lparr>p_out := out, hmem := w\<rparr>))"

definition parent_step ::
    "'w kern \<Rightarrow> nat \<Rightarrow> hconf \<Rightarrow> string \<Rightarrow> int \<times> int \<times> u64 \<Rightarrow> 'w hsys \<Rightarrow> 'w hsys option" where
  "parent_step k ps c path h s =
     (let addr = snd (snd h)
      in case p_place s of
        Q_get \<Rightarrow> parent_get Q_inject s
      | Q_inject \<Rightarrow> Some (parent_inject k ps c addr s)
      | Q_put \<Rightarrow> parent_put Q_touch s
      | Q_touch \<Rightarrow> Some (parent_touch k c addr s)
      | Q_wait \<Rightarrow> parent_wait s
      | Q_clean \<Rightarrow> Some (parent_clean k c path h s)
      | Q_end \<Rightarrow> None)"

text \<open>Process 0 is the parent, process 1 the child.\<close>

definition fork_step ::
    "'w kern \<Rightarrow> nat \<Rightarrow> hconf \<Rightarrow> string \<Rightarrow> int \<times> int \<times> u64 \<Rightarrow> nat \<Rightarrow> 'w hsys \<Rightarrow> 'w hsys option" where
  "fork_step k ps c path h i s =
     (if i = 0 then parent_step k ps c path h s
      else if i = 1 then child_step k c (snd (snd h)) s
      else None)"

fun fork_schedule ::
    "'w kern \<Rightarrow> nat \<Rightarrow> hconf \<Rightarrow> string \<Rightarrow> int \<times> int \<times> u64 \<Rightarrow> nat list \<Rightarrow> 'w hsys \<Rightarrow> 'w hsys option" where
  "fork_schedule k ps c path h [] s = Some s"
| "fork_schedule k ps c path h (i # is) s =
     (case fork_step k ps c path h i s of None \<Rightarrow> None | Some t \<Rightarrow> fork_schedule k ps c path h is t)"

text \<open>After \<open>SETVAL\<close> to 1, the first \<open>get_semaphore\<close> and \<open>fork\<close>; the adjustments are not inherited.\<close>

definition fork_init :: "bool \<Rightarrow> string list \<Rightarrow> 'w \<Rightarrow> 'w hsys" where
  "fork_init forked out w =
     \<lparr>c_place = (if forked then C_cow else C_none), p_place = Q_get, hsem = 1 - 1, c_adj = 0, p_adj = 1,
      c_out = out, p_out = out, hmem = w\<rparr>"

text \<open>What comes before: allocation, the semaphore, the first touch, the policy. \<open>None\<close> is the way to \<open>cleanout\<close>.\<close>

definition fork_prepare :: "'w kern \<Rightarrow> hconf \<Rightarrow> string \<Rightarrow> ('w, (int \<times> int \<times> u64) \<times> bool) hp_act" where
  "fork_prepare k c path =
     sbind (hugetlb_alloc k c path) (\<lambda>h.
     sbind (call (k_sys k (Semget 1 ''IPC_PRIVATE 0666|IPC_CREAT''))) (\<lambda>semid.
       if semid = -1 then ret (h, False)
       else sbind (call (k_sys k (Semctl_Setval semid 0 1))) (\<lambda>r.
       if r = -1 then ret (h, False)
       else sbind (call (k_sys k (Semop semid (-1)))) (\<lambda>r.
       if r \<noteq> 0 then ret (h, False)
       else
         sseq (hugetlb_touch k c (snd (snd h)) 0)
        (sseq (hugetlb_policy k c) (ret (h, True)))))))"

text \<open>\<open>main\<close> with \<open>-F\<close>: the status when it ends before the fork, or the state after a schedule.\<close>

definition fork_main ::
    "'w kern \<Rightarrow> nat \<Rightarrow> hconf \<Rightarrow> string \<Rightarrow> bool \<Rightarrow> nat list \<Rightarrow> string list \<times> 'w \<Rightarrow> (int + 'w hsys option) res" where
  "fork_main k ps c path forked is s =
     (case fork_prepare k c path s of (r, out, w) \<Rightarrow>
        rbind r (\<lambda>(h, ok).
          if ok then Inr (Inr (fork_schedule k ps c path h is (fork_init forked out w)))
          else rbind (fst (hugetlb_clean k c path h (out, w))) (\<lambda>n. Inr (Inl n))))"

section \<open>What holds in every state\<close>

definition fork_inv :: "'w hsys \<Rightarrow> bool" where
  "fork_inv s \<longleftrightarrow>
     (c_place s \<in> {C_none, C_cow, C_put1, C_put2} \<longrightarrow> c_adj s = 0)
   \<and> (c_place s \<in> {C_get, C_exit} \<longrightarrow> c_adj s = -1)
   \<and> (p_place s = Q_get \<longrightarrow> p_adj s = 1 \<and> hsem s = (if c_place s \<in> {C_get, C_exit} then 1 else 0))
   \<and> (p_place s \<in> {Q_inject, Q_put} \<longrightarrow> p_adj s = 2 \<and> c_place s \<in> {C_get, C_exit, C_gone} \<and> hsem s = 0)
   \<and> (p_place s \<in> {Q_touch, Q_wait} \<longrightarrow>
        p_adj s = 1 \<and> c_place s \<in> {C_get, C_put2, C_exit, C_gone} \<and> (c_place s = C_get \<longrightarrow> hsem s = 1))
   \<and> (p_place s = Q_clean \<longrightarrow>
        p_adj s = 2 \<and> c_place s \<in> {C_get, C_exit, C_gone} \<and> hsem s = 0 \<or> c_place s = C_gone)
   \<and> (p_place s = Q_end \<longrightarrow> c_place s \<in> {C_get, C_put2, C_exit, C_gone} \<and> (c_place s = C_get \<longrightarrow> 0 < hsem s))"

lemmas fork_steps = child_put_def child_get_def parent_get_def parent_put_def child_ends_def parent_ends_def undo_def

text \<open>Where the code between the operations leads.\<close>

lemma child_cow_cases:
  obtains out w where "child_cow k c addr s = child_ends (s\<lparr>c_out := out, hmem := w\<rparr>)"
  | out w where "child_cow k c addr s = s\<lparr>c_out := out, hmem := w, c_place := C_put1\<rparr>"
proof -
  obtain r out w where run: "(if h_cow c then hugetlb_touch k c addr 0 else nop) (c_out s, hmem s) = (r, out, w)"
    using prod_cases3 by blast
  show thesis
    by (cases "isl r"; rule that(1) [of w out] that(2) [of w out]) (simp_all add: child_cow_def run Let_def)
qed

lemma parent_inject_cases:
  obtains out w where "parent_inject k ps c addr s = parent_ends (s\<lparr>p_out := out, hmem := w\<rparr>)"
  | out w q where "parent_inject k ps c addr s = s\<lparr>p_out := out, hmem := w, p_place := q\<rparr>" "q = Q_put \<or> q = Q_clean"
proof -
  obtain r out w where run: "hugetlb_inject k ps c addr (p_out s, hmem s) = (r, out, w)" using prod_cases3 by blast
  show thesis
  proof (cases r)
    case (Inl e)
    then show ?thesis by (intro that(1) [of w out]) (simp add: parent_inject_def run Let_def)
  next
    case (Inr ok)
    then show ?thesis
      by (intro that(2) [of "if ok then Q_put else Q_clean" w out]) (simp_all add: parent_inject_def run Let_def)
  qed
qed

lemma parent_touch_cases:
  obtains out w where "parent_touch k c addr s = parent_ends (s\<lparr>p_out := out, hmem := w\<rparr>)"
  | out w where "parent_touch k c addr s = s\<lparr>p_out := out, hmem := w, p_place := Q_wait\<rparr>"
proof -
  obtain r out w where run: "hugetlb_touch k c addr (hugetlb_expected c addr) (p_out s, hmem s) = (r, out, w)"
    using prod_cases3 by blast
  show thesis
    by (cases "isl r"; rule that(1) [of w out] that(2) [of w out]) (simp_all add: parent_touch_def run Let_def)
qed

lemma parent_clean_cases:
  obtains out w where "parent_clean k c path h s = parent_ends (s\<lparr>p_out := out, hmem := w\<rparr>)"
  by (cases "hugetlb_clean k c path h (p_out s, hmem s)") (auto simp: parent_clean_def)

lemma child_inv:
  assumes "fork_inv s" "child_step k c addr s = Some t"
  shows "fork_inv t"
proof (cases "c_place s")
  case C_cow
  with assms(2) have t: "t = child_cow k c addr s" by (simp add: child_step_def)
  show ?thesis
    by (rule child_cow_cases [of k c addr s])
      (use assms(1) C_cow t in \<open>cases "p_place s"; simp add: fork_inv_def fork_steps\<close>)+
qed (use assms in \<open>cases "p_place s"; auto simp: child_step_def fork_inv_def fork_steps split: if_splits\<close>)+

lemma parent_inv:
  assumes "fork_inv s" "parent_step k ps c path h s = Some t"
  shows "fork_inv t"
proof (cases "p_place s")
  case Q_inject
  with assms(2) have t: "t = parent_inject k ps c (snd (snd h)) s" by (simp add: parent_step_def)
  show ?thesis
    by (rule parent_inject_cases [of k ps c "snd (snd h)" s])
      (use assms(1) Q_inject t in \<open>cases "c_place s"; auto simp: fork_inv_def fork_steps\<close>)+
next
  case Q_touch
  with assms(2) have t: "t = parent_touch k c (snd (snd h)) s" by (simp add: parent_step_def)
  show ?thesis
    by (rule parent_touch_cases [of k c "snd (snd h)" s])
      (use assms(1) Q_touch t in \<open>cases "c_place s"; auto simp: fork_inv_def fork_steps\<close>)+
next
  case Q_clean
  with assms(2) have t: "t = parent_clean k c path h s" by (simp add: parent_step_def)
  show ?thesis
    by (rule parent_clean_cases [of k c path h s])
      (use assms(1) Q_clean t in \<open>cases "c_place s"; auto simp: fork_inv_def fork_steps\<close>)
qed (use assms in \<open>cases "c_place s"; auto simp: parent_step_def parent_wait_def fork_inv_def fork_steps split: if_splits\<close>)+

lemma fork_step_inv: "fork_inv s \<Longrightarrow> fork_step k ps c path h i s = Some t \<Longrightarrow> fork_inv t"
  by (auto simp: fork_step_def intro: child_inv parent_inv split: if_splits)

lemma fork_init_inv: "fork_inv (fork_init forked out w)"
  by (simp add: fork_inv_def fork_init_def)

section \<open>How many steps are left\<close>

fun child_left :: "cplace \<Rightarrow> nat" where
  "child_left C_cow = 5" | "child_left C_put1 = 4" | "child_left C_get = 3" | "child_left C_put2 = 2"
| "child_left C_exit = 1" | "child_left _ = 0"

fun parent_left :: "pplace \<Rightarrow> nat" where
  "parent_left Q_get = 6" | "parent_left Q_inject = 5" | "parent_left Q_put = 4" | "parent_left Q_touch = 3"
| "parent_left Q_wait = 2" | "parent_left Q_clean = 1" | "parent_left Q_end = 0"

definition fork_rank :: "'w hsys \<Rightarrow> nat \<Rightarrow> nat" where
  "fork_rank s i = (if i = 0 then parent_left (p_place s) else if i = 1 then child_left (c_place s) else 0)"

lemma child_moves:
  assumes "child_step k c addr s = Some t"
  shows "p_place t = p_place s \<and> child_left (c_place t) < child_left (c_place s)"
proof (cases "c_place s")
  case C_cow
  with assms show ?thesis
    by (cases rule: child_cow_cases [of k c addr s]) (auto simp: child_step_def fork_steps)
qed (use assms in \<open>auto simp: child_step_def fork_steps split: if_splits\<close>)

lemma parent_moves:
  assumes "parent_step k ps c path h s = Some t"
  shows "c_place t = c_place s \<and> parent_left (p_place t) < parent_left (p_place s)"
proof (cases "p_place s")
  case Q_inject
  with assms show ?thesis
    by (cases rule: parent_inject_cases [of k ps c "snd (snd h)" s]) (auto simp: parent_step_def fork_steps)
next
  case Q_touch
  with assms show ?thesis
    by (cases rule: parent_touch_cases [of k c "snd (snd h)" s]) (auto simp: parent_step_def fork_steps)
next
  case Q_clean
  with assms show ?thesis
    by (cases rule: parent_clean_cases [of k c path h s]) (auto simp: parent_step_def fork_steps)
next
  case Q_wait
  with assms show ?thesis by (cases "c_place s") (auto simp: parent_step_def parent_wait_def fork_steps)
qed (use assms in \<open>auto simp: parent_step_def fork_steps split: if_splits\<close>)

interpretation fork_run: ranked_processes "fork_step k ps c path h" fork_rank for k ps c path h
  by unfold_locales (auto simp: fork_step_def fork_rank_def dest: child_moves parent_moves split: if_splits)

lemma fork_moves_of: "fork_run.moves_of k ps c path h is s = fork_schedule k ps c path h is s"
  by (induction "is" arbitrary: s) (auto split: option.splits)

lemma fork_reached: "fork_schedule k ps c path h is s = Some t \<Longrightarrow> fork_inv s \<Longrightarrow> fork_inv t"
  by (erule fork_run.moves_keep [where I = fork_inv, unfolded fork_moves_of, rotated]) (auto intro: fork_step_inv)

section \<open>How it ends\<close>

text \<open>Whether the parent has got the semaphore is whether it has moved.\<close>

lemma parent_moved:
  assumes "fork_schedule k ps c path h is s = Some t" "p_place s = Q_get"
  shows "p_place t = Q_get \<longleftrightarrow> 0 \<notin> set is"
proof -
  have stays: "parent_left (p_place t) \<le> parent_left (p_place s)" if "fork_schedule k ps c path h is s = Some t" for "is" s t
    using that
  proof (induction "is" arbitrary: s)
    case (Cons i "is")
    then obtain u where u: "fork_step k ps c path h i s = Some u" "fork_schedule k ps c path h is u = Some t"
      by (auto split: option.splits)
    from u(1) have "parent_left (p_place u) \<le> parent_left (p_place s)"
      by (auto simp: fork_step_def dest: child_moves parent_moves split: if_splits)
    with Cons.IH [OF u(2)] show ?case by simp
  qed simp
  show ?thesis
    using assms
  proof (induction "is" arbitrary: s)
    case (Cons i "is")
    then obtain u where u: "fork_step k ps c path h i s = Some u" "fork_schedule k ps c path h is u = Some t"
      by (auto split: option.splits)
    show ?case
    proof (cases "i = 0")
      case True
      with u(1) Cons.prems(2) have "parent_left (p_place u) < 6" by (auto simp: fork_step_def dest!: parent_moves)
      with stays [OF u(2)] True show ?thesis by (cases "p_place t") auto
    next
      case False
      with u(1) Cons.prems(2) have "p_place u = Q_get" by (auto simp: fork_step_def dest: child_moves split: if_splits)
      from Cons.IH [OF u(2) this] False show ?thesis by simp
    qed
  qed simp
qed

text \<open>Two runs without \<open>-c\<close>, for the witnesses.\<close>

lemma demo_parent_in_time:
  "fork_schedule k ps hconf_init path h [1, 1, 0] (fork_init True [] w)
    = Some (fork_init True [] w\<lparr>c_place := C_get, p_place := Q_inject, hsem := 0, c_adj := -1, p_adj := 2\<rparr>)"
  by (simp add: fork_step_def child_step_def child_cow_def parent_step_def fork_init_def fork_steps hconf_init_def)

lemma demo_parent_too_late:
  "fork_schedule k ps hconf_init path h [1, 1, 1, 1, 1] (fork_init True [] w)
    = Some (fork_init True [] w\<lparr>c_place := C_gone, hsem := 0, c_adj := -1\<rparr>)"
  "fork_step k ps c path h i (fork_init True [] w\<lparr>c_place := C_gone, hsem := 0, c_adj := -1\<rparr>) = None"
  by (simp_all add: fork_step_def child_step_def child_cow_def parent_step_def fork_init_def fork_steps hconf_init_def)

text \<open>C11. The parent poisons a page only after the child has written its pages and given the semaphore back.\<close>

theorem fork_order:
  assumes "fork_schedule k ps c path h is (fork_init forked out w) = Some s" "p_place s \<noteq> Q_get"
  shows "c_place s \<in> {C_get, C_put2, C_exit, C_gone}"
  using fork_reached [OF assms(1) fork_init_inv] assms(2) by (cases "p_place s") (auto simp: fork_inv_def)

theorem fork_order_witness:
  "\<exists>s. fork_schedule (memory_kern hpage_no 0x7f0000200000) 4096 hconf_init ''/mnt/test'' (0, 0, 0x7f0000200000) [1, 1, 0]
      (fork_init True [] fresh_memory) = Some s \<and> p_place s = Q_inject \<and> c_place s \<in> {C_get, C_put2, C_exit, C_gone}"
proof (intro exI conjI)
  let ?s = "fork_init True [] fresh_memory\<lparr>c_place := C_get, p_place := Q_inject, hsem := 0, c_adj := -1, p_adj := 2\<rparr>"
  show run: "fork_schedule (memory_kern hpage_no 0x7f0000200000) 4096 hconf_init ''/mnt/test'' (0, 0, 0x7f0000200000) [1, 1, 0]
      (fork_init True [] fresh_memory) = Some ?s" by (rule demo_parent_in_time)
  show "p_place ?s = Q_inject" by simp
  then show "c_place ?s \<in> {C_get, C_put2, C_exit, C_gone}" by (intro fork_order [OF run]) simp
qed



text \<open>
  It does happen: a child that is through before the parent looks at the semaphore takes with it, by the undo, what it
  gave. Nor does the parent ever get the semaphore when \<open>fork\<close> failed, which the code does not look at.
\<close>

theorem fork_hangs:
  assumes "c_place (child_cow k c (snd (snd h)) (fork_init True out w)) = C_put1"
  shows "(\<exists>s. fork_schedule k ps c path h [1, 1, 1, 1, 1] (fork_init True out w) = Some s
      \<and> p_place s = Q_get \<and> c_place s = C_gone \<and> (\<forall>i. fork_step k ps c path h i s = None))
    \<and> (\<forall>i. fork_step k ps c path h i (fork_init False out w) = None)"
proof -
  obtain o2 w2 where "child_cow k c (snd (snd h)) (fork_init True out w) = (fork_init True out w)\<lparr>c_out := o2, hmem := w2, c_place := C_put1\<rparr>"
    using assms by (cases rule: child_cow_cases [of k c "snd (snd h)" "fork_init True out w"]) (auto simp: child_ends_def)
  then show ?thesis
    by (simp add: fork_step_def child_step_def parent_step_def fork_init_def fork_steps)
qed

theorem fork_hangs_witness:
  "\<exists>s. fork_schedule (memory_kern hpage_no 0x7f0000200000) 4096 hconf_init ''/mnt/test'' (0, 0, 0x7f0000200000) [1, 1, 1, 1, 1]
      (fork_init True [] fresh_memory) = Some s \<and> p_place s = Q_get \<and> c_place s = C_gone"
proof -
  let ?k = "memory_kern hpage_no 0x7f0000200000"
  let ?h = "(0, 0, 0x7f0000200000) :: int \<times> int \<times> u64"
  have "c_place (child_cow ?k hconf_init (snd (snd ?h)) (fork_init True [] fresh_memory)) = C_put1"
    by (simp add: child_cow_def hconf_init_def)
  from fork_hangs [OF this, of 4096 "''/mnt/test''"] show ?thesis by blast
qed

end
