(* ===== verification/Soft_Offline.thy ===== *)
theory Soft_Offline
  imports Hugepage Poison_Memory
begin

text \<open>
  \<open>cases/function/hwpoison/tsoftinj.c\<close> and \<open>tsoft.c\<close>: pages of several kinds are taken offline softly, and after each
  one the program looks whether the kernel counts another corrupted page in \<open>/proc/meminfo\<close>.
\<close>

section \<open>Globals and messages\<close>

record soft =
  exitcode :: int
  corrupted :: int
  so_count :: u32
  so_out :: "string list"

type_synonym ('w, 'a) so_act = "(soft, 'w, 'a) act"

text \<open>The sizes, the process, the mount point, and the lines of \<open>/proc/meminfo\<close> when it can be opened.\<close>

record 'w soft_env =
  so_PS :: nat
  so_HPS :: int
  so_pid :: nat
  so_hugetlbfs :: string
  so_meminfo :: "'w \<Rightarrow> string list option"

definition so_say :: "string \<Rightarrow> ('w, unit) so_act" where
  "so_say s = upd (\<lambda>g. g\<lparr>so_out := so_out g @ [s]\<rparr>)"

section \<open>The counter of the kernel\<close>

text \<open>\<open>sscanf (line, "HardwareCorrupted: %u", &val) == 1\<close>\<close>

definition scan_corrupted :: "string \<Rightarrow> u32 option" where
  "scan_corrupted l =
     (if take 18 l \<noteq> ''HardwareCorrupted:'' then None
      else
        let t = dropWhile c_isspace (drop 18 l);
            u = (if hdc t = CHR ''-'' \<or> hdc t = CHR ''+'' then tl t else t)
        in if digit_of 10 (hdc u) = None then None else Some (word_of_int (strtoll 10 t)))"

text \<open>The first line that gives a value; without one the program fails, and goes on with 0.\<close>

fun meminfo_lines :: "string list \<Rightarrow> u32 option" where
  "meminfo_lines [] = None"
| "meminfo_lines (l # ls) = (case scan_corrupted l of Some n \<Rightarrow> Some n | None \<Rightarrow> meminfo_lines ls)"

definition meminfo :: "'w soft_env \<Rightarrow> ('w, u32) so_act" where
  "meminfo e =
     sbind (call (\<lambda>w. (so_meminfo e w, w))) (\<lambda>f. case f of
         None \<Rightarrow> halt (Exit 1)
       | Some ls \<Rightarrow>
           (case meminfo_lines ls of
              Some v \<Rightarrow> ret v
            | None \<Rightarrow>
                sseq (so_say (''cannot read HardwareCorruptedPages in meminfo'' @ [NL]))
               (sseq (upd (\<lambda>g. g\<lparr>exitcode := 1\<rparr>)) (ret 0))))"

definition hardware_corrupted :: "'w soft_env \<Rightarrow> ('w, u32) so_act" where
  "hardware_corrupted e = sbind (meminfo e) (\<lambda>v. ret (v * 1024 div of_nat (so_PS e)))"

text \<open>The difference is an \<open>unsigned\<close>; only one that is too small is a failure.\<close>

definition check :: "'w soft_env \<Rightarrow> string \<Rightarrow> u32 \<Rightarrow> ('w, unit) so_act" where
  "check e name expected =
     sbind (hardware_corrupted e) (\<lambda>count2.
     sbind (glob so_count) (\<lambda>n.
       let diff = count2 - n
       in sseq (if diff \<noteq> expected
            then sseq (so_say (name @ '': expected '' @ show_int (sint expected) @ '' corrupted pages, got '' @ show_dec (unat diff) @ [NL]))
                (if diff < expected then upd (\<lambda>g. g\<lparr>exitcode := 1\<rparr>) else nop)
            else nop)
          (upd (\<lambda>g. g\<lparr>so_count := count2, corrupted := 0\<rparr>))))"

section \<open>The pages\<close>

definition so_mmap :: "'w kern \<Rightarrow> nat \<Rightarrow> mflag list \<Rightarrow> int \<Rightarrow> ('w, u64) so_act" where
  "so_mmap k len flags fd =
     sbind (call (k_mmap k len [PROT_READ, PROT_WRITE] flags fd)) (\<lambda>p. case p of None \<Rightarrow> halt (Exit 1) | Some a \<Rightarrow> ret a)"

text \<open>\<open>*(volatile int *)p = 1\<close>\<close>

definition store_one :: "'w kern \<Rightarrow> u64 \<Rightarrow> ('g, 'w, unit) act" where
  "store_one k p = each (\<lambda>i. store_dfl k (p + of_nat i) (if i = 0 then 1 else 0)) [0..<4]"

definition offline :: "'w soft_env \<Rightarrow> 'w kern \<Rightarrow> u64 \<Rightarrow> ('w, unit) so_act" where
  "offline e k p =
     sbind (call (k_sys k (Madvise p (so_PS e) 101))) (\<lambda>r.
       if r < 0 then halt (Exit 1) else upd (\<lambda>g. g\<lparr>corrupted := corrupted g + 1\<rparr>))"

text \<open>The file is neither closed nor removed.\<close>

definition disk_backed :: "'w soft_env \<Rightarrow> 'w kern \<Rightarrow> mflag list \<Rightarrow> ('w, unit) so_act" where
  "disk_backed e k flags =
     sseq (so_say (''private, diskbacked'' @ [NL]))
    (sbind (call (k_sys k (Open (take 99 (''./~test'' @ show_dec (so_pid e))) ''O_RDWR|O_CREAT|O_TRUNC''))) (\<lambda>fd.
       if fd < 0 then halt (Exit 1)
       else
         sseq (call (k_sys k (Write fd (replicate 4096 0))))
        (sbind (so_mmap k (so_PS e) (MAP_PRIVATE # flags) fd) (\<lambda>p.
         sseq (store_one k p)
        (sseq (offline e k p)
        (sseq (call (k_sys k (Munmap p (so_PS e)))) nop))))))"

definition so_anonymous :: "'w soft_env \<Rightarrow> 'w kern \<Rightarrow> mflag list \<Rightarrow> ('w, unit) so_act" where
  "so_anonymous e k flags =
     sbind (so_mmap k (so_PS e) ([MAP_PRIVATE, MAP_ANONYMOUS] @ flags) 0) (\<lambda>p.
     sseq (so_say (''anonymous'' @ [NL]))
    (sseq (store_one k p)
    (sseq (offline e k p)
    (sseq (store_one k p)
    (sseq (call (k_sys k (Munmap p (so_PS e)))) nop)))))"

definition so_shm_hugepage :: "'w soft_env \<Rightarrow> 'w kern \<Rightarrow> ('w, unit) so_act" where
  "so_shm_hugepage e k =
     sbind (alloc_shm_hugepage k 0 (nat (so_HPS e))) (\<lambda>(shmid, a). case a of
         None \<Rightarrow> halt (Exit 1)
       | Some p \<Rightarrow>
           sseq (so_say (''shm hugepage'' @ [NL]))
          (sseq (store_one k p)
          (sseq (offline e k p)
          (sseq (store_one k p)
          (sseq (free_shm_hugepage k shmid p) nop)))))"

text \<open>A failed allocation of these two is not noticed: NULL is written to.\<close>

definition so_anonymous_hugepage :: "'w soft_env \<Rightarrow> 'w kern \<Rightarrow> ('w, unit) so_act" where
  "so_anonymous_hugepage e k =
     sbind (alloc_anonymous_hugepage k (nat (so_HPS e)) True) (\<lambda>a.
     sseq (so_say (''anonymous hugepage'' @ [NL]))
    (case a of
       None \<Rightarrow> halt (Undef ''store to NULL'')
     | Some p \<Rightarrow>
         sseq (store_one k p)
        (sseq (offline e k p)
        (sseq (store_one k p)
        (sseq (free_anonymous_hugepage k p (nat (so_HPS e))) nop)))))"

definition so_filebacked_hugepage :: "'w soft_env \<Rightarrow> 'w kern \<Rightarrow> ('w, unit) so_act" where
  "so_filebacked_hugepage e k =
     (let path = take 99 (so_hugetlbfs e @ ''/~test-hugepage'' @ show_dec (so_pid e))
      in sbind (alloc_filebacked_hugepage k path (nat (so_HPS e)) False) (\<lambda>(fd, a).
         sseq (so_say (''file backed hugepage'' @ [NL]))
        (case a of
           None \<Rightarrow> halt (Undef ''store to NULL'')
         | Some p \<Rightarrow>
             sseq (store_one k p)
            (sseq (offline e k p)
            (sseq (store_one k p)
            (sseq (free_filebacked_hugepage k p (nat (so_HPS e)) fd (Some path)) nop))))))"

text \<open>The cases in the order of \<open>main\<close>, with the names their checks use.\<close>

definition soft_cases :: "'w soft_env \<Rightarrow> 'w kern \<Rightarrow> (string \<times> ('w, unit) so_act) list" where
  "soft_cases e k =
     [(''anonymous'', so_anonymous e k []),
      (''anonymous mlock'', so_anonymous e k [MAP_LOCKED]),
      (''disk backed'', disk_backed e k []),
      (''disk backed mlock'', disk_backed e k [MAP_LOCKED]),
      (''shm hugepage'', so_shm_hugepage e k),
      (''anonymous hugepage'', so_anonymous_hugepage e k),
      (''file backed hugepage'', so_filebacked_hugepage e k)]"

definition soft_checked :: "'w soft_env \<Rightarrow> string \<times> ('w, unit) so_act \<Rightarrow> ('w, unit) so_act" where
  "soft_checked e = (\<lambda>(name, body). sseq body (check e name 1))"

text \<open>\<open>main\<close> from the first count on; \<open>root\<close> is whether \<open>hugetlbfs_root\<close> found a mount point.\<close>

definition soft_main :: "'w soft_env \<Rightarrow> 'w kern \<Rightarrow> bool \<Rightarrow> ('w, int) so_act" where
  "soft_main e k root =
     sbind (hardware_corrupted e) (\<lambda>n.
     sseq (upd (\<lambda>g. g\<lparr>so_count := n\<rparr>))
    (if \<not> root then halt (Exit 1)
     else sseq (each (soft_checked e) (soft_cases e k)) (glob exitcode)))"

text \<open>\<open>tsoft.c\<close>\<close>

definition tsoft_main :: "'w kern \<Rightarrow> nat \<Rightarrow> ('g, 'w, int) act" where
  "tsoft_main k ps =
     sbind (call (k_mmap k ps [PROT_READ, PROT_WRITE] [MAP_PRIVATE, MAP_ANONYMOUS] 0)) (\<lambda>p. case p of
         None \<Rightarrow> halt (Exit 1)
       | Some page \<Rightarrow>
           sseq (store_dfl k page 1)
          (sseq (call (k_sys k (Madvise page ps 101)))
          (sseq (store_dfl k page 2) (ret 0))))"

section \<open>What the checks find\<close>

text \<open>The count of a world, when \<open>/proc/meminfo\<close> can be read.\<close>

definition count_of :: "'w soft_env \<Rightarrow> 'w \<Rightarrow> u32" where
  "count_of e w = (case so_meminfo e w of Some ls \<Rightarrow> (case meminfo_lines ls of Some v \<Rightarrow> v * 1024 div of_nat (so_PS e) | None \<Rightarrow> 0))"

definition readable :: "'w soft_env \<Rightarrow> 'w \<Rightarrow> bool" where
  "readable e w \<longleftrightarrow> (\<exists>ls. so_meminfo e w = Some ls \<and> meminfo_lines ls \<noteq> None)"

lemma hardware_corrupted_run: "readable e w \<Longrightarrow> hardware_corrupted e (g, w) = (Inr (count_of e w), g, w)"
  by (auto simp: hardware_corrupted_def meminfo_def sbind_apply readable_def count_of_def)

lemma check_run:
  assumes "readable e w"
  shows "\<exists>out. check e name 1 (g, w) =
    (Inr (), g\<lparr>so_out := out, exitcode := (if count_of e w = so_count g then 1 else exitcode g),
       so_count := count_of e w, corrupted := 0\<rparr>, w)"
proof -
  have "(count_of e w - so_count g < 1) = (count_of e w = so_count g)"
    by (simp add: word_less_nat_alt unat_eq_zero)
  then show ?thesis
    by (auto simp: check_def sbind_apply sseq_apply hardware_corrupted_run [OF assms] so_say_def Let_def
        intro: exI [of _ "so_out g"])
qed

text \<open>The cases touch neither the exit code nor the last count.\<close>

definition so_keeps :: "('w, 'a) so_act \<Rightarrow> bool" where
  "so_keeps m \<longleftrightarrow> (\<forall>g w. exitcode (fst (snd (m (g, w)))) = exitcode g \<and> so_count (fst (snd (m (g, w)))) = so_count g)"

named_theorems so_keeping

lemma so_keeps_basic [so_keeping]:
  "so_keeps (ret x)" "so_keeps (halt e)" "so_keeps nop" "so_keeps (call f)" "so_keeps (so_say s)"
  by (auto simp: so_keeps_def so_say_def split: prod.splits)

lemma so_keeps_bind [so_keeping]: "so_keeps m \<Longrightarrow> (\<And>x. so_keeps (f x)) \<Longrightarrow> so_keeps (sbind m f)"
  unfolding so_keeps_def sbind_def by (auto split: prod.split sum.split) (metis fst_conv snd_conv)+

lemma so_keeps_seq [so_keeping]: "so_keeps m \<Longrightarrow> so_keeps n \<Longrightarrow> so_keeps (sseq m n)"
  by (simp add: sseq_def so_keeps_bind)

lemma so_keeps_each: "(\<And>x. so_keeps (f x)) \<Longrightarrow> so_keeps (each f xs)"
  by (induction xs) (auto intro: so_keeping)

lemma so_keeps_cases [so_keeping]:
  "(\<And>x. so_keeps (f x)) \<Longrightarrow> so_keeps n \<Longrightarrow> so_keeps (case p of None \<Rightarrow> n | Some x \<Rightarrow> f x)"
  "(\<And>x y. so_keeps (h x y)) \<Longrightarrow> so_keeps (case q of (x, y) \<Rightarrow> h x y)"
  "so_keeps n \<Longrightarrow> so_keeps m \<Longrightarrow> so_keeps (if b then n else m)"
  by (auto split: option.splits prod.splits)

lemma so_keeps_store [so_keeping]: "so_keeps (store_one k p)"
  unfolding store_one_def store_dfl_def by (intro so_keeps_each so_keeping)

lemma so_keeps_offline [so_keeping]: "so_keeps (offline e k p)"
  unfolding offline_def by (intro so_keeping) (simp add: so_keeps_def)

lemma soft_cases_keep: "(name, body) \<in> set (soft_cases e k) \<Longrightarrow> so_keeps body"
  by (auto simp: soft_cases_def so_anonymous_def disk_backed_def so_mmap_def so_shm_hugepage_def so_anonymous_hugepage_def
      so_filebacked_hugepage_def alloc_shm_hugepage_def alloc_anonymous_hugepage_def alloc_filebacked_hugepage_def
      free_shm_hugepage_def free_anonymous_hugepage_def free_filebacked_hugepage_def Let_def intro!: so_keeping)

text \<open>The counts after each case of a run.\<close>

fun counts_after :: "'w soft_env \<Rightarrow> (string \<times> ('w, unit) so_act) list \<Rightarrow> soft \<times> 'w \<Rightarrow> u32 list" where
  "counts_after e [] s = []"
| "counts_after e (c # cs) s = count_of e (snd (snd (snd c s))) # counts_after e cs (snd (soft_checked e c s))"

lemma checked_cases:
  assumes "\<And>w. readable e w" "\<And>name body. (name, body) \<in> set cs \<Longrightarrow> so_keeps body"
    and "each (soft_checked e) cs (g, w) = (Inr (), g', w')" "exitcode g \<in> {0, 1}"
  shows "exitcode g' = (if distinct_adj (so_count g # counts_after e cs (g, w)) then exitcode g else 1)"
  using assms(2-4)
proof (induction cs arbitrary: g w)
  case (Cons c cs)
  obtain name body where c: "c = (name, body)" by fastforce
  obtain r g1 w1 where b: "body (g, w) = (r, g1, w1)" by (cases "body (g, w)")
  with Cons.prems(1) c have k: "exitcode g1 = exitcode g" "so_count g1 = so_count g"
    unfolding so_keeps_def by (metis list.set_intros(1) fst_conv snd_conv)+
  from check_run [OF assms(1), where name = name and g = g1 and w = w1] obtain out where
      chk: "check e name 1 (g1, w1) = (Inr (), g1\<lparr>so_out := out, exitcode := (if count_of e w1 = so_count g then 1 else exitcode g),
        so_count := count_of e w1, corrupted := 0\<rparr>, w1)" (is "_ = (_, ?g2, _)") unfolding k by blast
  from Cons.prems(2) b have r: "r = Inr ()" by (cases r) (auto simp: soft_checked_def c sseq_apply)
  with b chk have step: "soft_checked e c (g, w) = (Inr (), ?g2, w1)" by (simp add: soft_checked_def c sseq_apply)
  with Cons.prems(2) have "each (soft_checked e) cs (?g2, w1) = (Inr (), g', w')" by (simp add: sseq_apply)
  moreover have "so_keeps body" if "(name, body) \<in> set cs" for name body
    using Cons.prems(1) that by (meson list.set_intros(2))
  moreover have "exitcode ?g2 \<in> {0, 1}" using Cons.prems(3) by auto
  ultimately have "exitcode g' = (if distinct_adj (so_count ?g2 # counts_after e cs (?g2, w1)) then exitcode ?g2 else 1)"
    by (intro Cons.IH)
  then have "exitcode g' = (if distinct_adj (count_of e w1 # counts_after e cs (?g2, w1)) then exitcode ?g2 else 1)" by simp
  then show ?case using step b c by (auto simp: distinct_adj_Cons)
qed simp

text \<open>
  C32. The exit code of \<open>tsoftinj\<close>, when all cases could be run and the counter could be read: it is 1 exactly when the
  counter was found unchanged after one of the seven cases. A counter that has fallen passes for one that has risen.
\<close>

theorem soft_verdict:
  assumes "\<And>w. readable e w" "soft_main e k True (g, w) = (Inr n, g', w')" "exitcode g = 0"
  shows "n = (if distinct_adj (count_of e w # counts_after e (soft_cases e k) (g\<lparr>so_count := count_of e w\<rparr>, w)) then 0 else 1)"
proof -
  let ?g = "g\<lparr>so_count := count_of e w\<rparr>"
  from assms(2) have "sseq (each (soft_checked e) (soft_cases e k)) (glob exitcode) (?g, w) = (Inr n, g', w')"
    by (simp add: soft_main_def sbind_apply sseq_apply hardware_corrupted_run [OF assms(1)])
  then have run: "each (soft_checked e) (soft_cases e k) (?g, w) = (Inr (), g', w')" and n: "n = exitcode g'"
    by (auto simp: sseq_apply split: prod.splits sum.splits)
  from checked_cases [OF assms(1) soft_cases_keep run] assms(3) show ?thesis unfolding n by simp
qed

text \<open>A kernel that takes the pages offline and never counts one.\<close>

definition demo_soft_env :: "memw soft_env" where
  "demo_soft_env = \<lparr>so_PS = 4096, so_HPS = 2097152, so_pid = 7, so_hugetlbfs = ''/mnt'',
     so_meminfo = (\<lambda>_. Some [''MemTotal: 16 kB'', ''HardwareCorrupted: 4 kB''])\<rparr>"

definition demo_soft :: soft where
  "demo_soft = \<lparr>exitcode = 0, corrupted = 0, so_count = 0, so_out = []\<rparr>"

lemma demo_soft_count: "meminfo_lines [''MemTotal: 16 kB'', ''HardwareCorrupted: 4 kB''] = Some 4"
proof -
  have "strtoll 10 (show_dec 4 @ '' kB'') = 4"
    using strtoll_show_dec [where n = 4 and rest = "'' kB''"] by (simp add: hdc_def digit_of_def)
  then show ?thesis by (simp add: scan_corrupted_def c_isspace_def hdc_def digit_of_def show_base.simps digit_char_def)
qed

lemma store_one_runs:
  assumes "m_bad w = {}"
  shows "store_one (memory_kern pn base) p (g, w) = (Inr (), g, w\<lparr>m_cell := (m_cell w)(p := 1, p + 1 := 0, p + 2 := 0, p + 3 := 0)\<rparr>)"
proof -
  have "[0..<4] = [0, 1, 2, 3 :: nat]" by (simp add: upt_rec)
  with assms show ?thesis by (simp add: store_one_def store_dfl_def memory_kern_def act_run)
qed

lemmas soft_case_defs = so_anonymous_def disk_backed_def so_mmap_def so_shm_hugepage_def so_anonymous_hugepage_def
  so_filebacked_hugepage_def alloc_shm_hugepage_def alloc_anonymous_hugepage_def alloc_filebacked_hugepage_def
  free_shm_hugepage_def free_anonymous_hugepage_def free_filebacked_hugepage_def offline_def so_say_def Let_def

lemma demo_soft_case:
  assumes "(name, body) \<in> set (soft_cases demo_soft_env (memory_kern page_no base))" "m_bad w = {}"
  shows "\<exists>g' w'. body (g, w) = (Inr (), g', w') \<and> m_bad w' = {}"
  using assms
  by (auto simp: soft_cases_def soft_case_defs act_run memory_kern_calls store_one_runs)

lemma demo_soft_each:
  assumes "set cs \<subseteq> set (soft_cases demo_soft_env (memory_kern page_no base))" "m_bad w = {}"
  shows "\<exists>g' w'. each (soft_checked demo_soft_env) cs (g, w) = (Inr (), g', w')"
  using assms
proof (induction cs arbitrary: g w)
  case (Cons c cs)
  obtain name body where c: "c = (name, body)" by fastforce
  with Cons.prems demo_soft_case [of name body base w g] obtain g1 w1 where b: "body (g, w) = (Inr (), g1, w1)" "m_bad w1 = {}"
    by auto
  have "readable demo_soft_env w1" by (simp add: readable_def demo_soft_env_def demo_soft_count del: meminfo_lines.simps)
  from check_run [OF this, where name = name and g = g1] b c obtain g2 where
      "soft_checked demo_soft_env c (g, w) = (Inr (), g2, w1)" by (auto simp: soft_checked_def sseq_apply)
  with Cons.IH [of w1 g2] Cons.prems(1) b(2) show ?case by (simp add: sseq_apply)
qed simp

theorem soft_verdict_witness:
  "fst (soft_main demo_soft_env (memory_kern page_no 0x7f0000000000) True (demo_soft, fresh_memory)) = Inr 1"
proof -
  let ?k = "memory_kern page_no 0x7f0000000000"
  have r: "readable demo_soft_env w" for w
    by (simp add: readable_def demo_soft_env_def demo_soft_count del: meminfo_lines.simps)
  have n: "count_of demo_soft_env w = 1" for w
    by (simp add: count_of_def demo_soft_env_def demo_soft_count del: meminfo_lines.simps)
  let ?g = "demo_soft\<lparr>so_count := 1\<rparr>"
  obtain g' w' where "each (soft_checked demo_soft_env) (soft_cases demo_soft_env ?k) (?g, fresh_memory) = (Inr (), g', w')"
    using demo_soft_each [of "soft_cases demo_soft_env ?k" "0x7f0000000000" fresh_memory ?g] by (auto simp: fresh_memory_def)
  then have run: "soft_main demo_soft_env ?k True (demo_soft, fresh_memory) = (Inr (exitcode g'), g', w')"
    by (simp add: soft_main_def act_run hardware_corrupted_run [OF r] n)
  from soft_verdict [OF r run] n have "exitcode g' = 1" by (simp add: soft_cases_def demo_soft_def)
  with run show ?thesis by simp
qed

end
