(* ===== verification/Kill_Tests.thy ===== *)
theory Kill_Tests
  imports Poison_Memory
begin

text \<open>
  The short programs of \<open>cases/function/hwpoison\<close> around one injection each: \<open>tsimpleinj.c\<close>, an early form of
  \<open>tinjpage.c\<close>; \<open>tprctl.c\<close>, the kill policy of a process; \<open>tkillpoison.c\<close>, which is to be killed.
\<close>

section \<open>tsimpleinj\<close>

record simple =
  s_count :: int
  s_failure :: int
  s_total :: int
  s_tmp :: int
  s_out :: "string list"

definition simple_init :: simple where
  "simple_init = \<lparr>s_count = 20, s_failure = 0, s_total = 0, s_tmp = 0, s_out = []\<rparr>"

definition s_say :: "string \<Rightarrow> (simple, 'w, unit) act" where
  "s_say s = upd (\<lambda>g. g\<lparr>s_out := s_out g @ [s]\<rparr>)"

definition simple_handler :: "bus \<Rightarrow> (simple, 'w, unit) act" where
  "simple_handler b =
     sseq (s_say (''signal 7 code '' @ show_int (si_code b) @ '' addr '' @ fmt_ptr (si_addr b) @ [NL]))
    (sseq (upd (\<lambda>g. g\<lparr>s_count := s_count g - 1\<rparr>))
    (sbind (glob s_count) (\<lambda>n. if n = 0 then halt (Exit 1) else nop)))"

text \<open>The code under \<open>sigsetjmp\<close>: the signal that ends it, if any.\<close>

definition simple_inject :: "'w kern \<Rightarrow> u64 \<Rightarrow> bool \<Rightarrow> (simple, 'w, bus option) act" where
  "simple_inject k page w =
     sbind (call (k_poison k page)) (\<lambda>r. case r of
         Inl b \<Rightarrow> ret (Some b)
       | Inr e \<Rightarrow>
           sseq (if e \<noteq> 0 then upd (\<lambda>g. g\<lparr>s_failure := s_failure g + 1\<rparr>) else nop)
          (if w then call (k_store k page 2)
           else sbind (call (k_load k page)) (\<lambda>r. case r of
               Inl b \<Rightarrow> ret (Some b)
             | Inr v \<Rightarrow> sseq (s_say (show_hex (unat v) @ [NL])) (ret None))))"

definition simple_testmem :: "'w kern \<Rightarrow> string \<Rightarrow> u64 \<Rightarrow> bool \<Rightarrow> (simple, 'w, unit) act" where
  "simple_testmem k msg page w =
     sseq (s_say (msg @ '' page '' @ fmt_ptr page @ [NL]))
    (sseq (upd (\<lambda>g. g\<lparr>s_total := s_total g + 1\<rparr>))
    (sbind (simple_inject k page w) (\<lambda>sig.
     sseq (case sig of None \<Rightarrow> nop | Some b \<Rightarrow> simple_handler b) (s_say (''recovered'' @ [NL])))))"

definition simple_expecterr :: "string \<Rightarrow> int \<Rightarrow> (simple, 'w, unit) act" where
  "simple_expecterr msg res = (if res = 0 then s_say (''no error on '' @ msg @ [NL]) else nop)"

definition simple_tempfd :: "'w kern \<Rightarrow> (simple, 'w, int) act" where
  "simple_tempfd k =
     sbind (glob s_tmp) (\<lambda>n.
     sseq (upd (\<lambda>g. g\<lparr>s_tmp := n + 1\<rparr>))
    (let buf = take 29 (''./test'' @ show_int n @ ''.XXXXXXXX'')
     in sbind (call (k_sys k (Open buf ''mkstemp''))) (\<lambda>fd.
        sseq (if 0 \<le> fd then sseq (call (k_sys k (Unlink buf))) nop else nop) (ret fd))))"

text \<open>The first two mappings are used without a look at the result, which is \<open>(void *)-1\<close> on failure.\<close>

definition simple_anon :: "'w kern \<Rightarrow> nat \<Rightarrow> string \<Rightarrow> mflag \<Rightarrow> (simple, 'w, unit) act" where
  "simple_anon k ps msg flag =
     sbind (call (k_mmap k ps [PROT_READ, PROT_WRITE] [MAP_PRIVATE, MAP_ANONYMOUS, flag] 0)) (\<lambda>p.
       simple_testmem k msg (case p of Some a \<Rightarrow> a | None \<Rightarrow> -1) True)"

definition simple_mmap :: "'w kern \<Rightarrow> nat \<Rightarrow> prot list \<Rightarrow> mflag list \<Rightarrow> int \<Rightarrow> (simple, 'w, u64) act" where
  "simple_mmap k ps prots flags fd =
     sbind (call (k_mmap k ps prots flags fd)) (\<lambda>p. case p of None \<Rightarrow> halt (Exit 1) | Some a \<Rightarrow> ret a)"

definition simple_clean_file :: "'w kern \<Rightarrow> nat \<Rightarrow> (simple, 'w, unit) act" where
  "simple_clean_file k ps =
     sbind (call (k_sys k (Open ''./Makefile'' ''O_RDONLY''))) (\<lambda>fd.
       if fd < 0 then halt (Exit 1)
       else
         sbind (simple_mmap k ps [PROT_READ] [MAP_SHARED, MAP_POPULATE] fd) (\<lambda>page.
         sseq (call (k_sys k (Close fd)))
           (simple_testmem k ''clean file'' page False)))"

text \<open>The store that makes the page dirty is outside of any \<open>sigsetjmp\<close>.\<close>

definition simple_dirty :: "'w kern \<Rightarrow> u64 \<Rightarrow> (simple, 'w, unit) act" where
  "simple_dirty k page =
     sbind (call (k_store k page 1)) (\<lambda>r. case r of
         None \<Rightarrow> nop
       | Some b \<Rightarrow> sseq (simple_handler b) (halt (Undef ''siglongjmp to a function that has returned'')))"

definition simple_file :: "'w kern \<Rightarrow> nat \<Rightarrow> string \<Rightarrow> (int \<Rightarrow> (simple, 'w, unit) act) \<Rightarrow> (simple, 'w, unit) act" where
  "simple_file k ps name content =
     sbind (simple_tempfd k) (\<lambda>fd.
       if fd < 0 then halt (Exit 1)
       else
         sseq (content fd)
        (sbind (simple_mmap k ps [PROT_READ, PROT_WRITE] [MAP_SHARED] fd) (\<lambda>page.
         sseq (simple_dirty k page)
        (sseq (simple_testmem k (name @ ''file dirty'') page False)
        (sbind (call (k_sys k (Msync page ps))) (\<lambda>r.
         sseq (simple_expecterr (name @ ''msync expect error'') r)
        (sbind (call (k_sys k (Fsync fd))) (\<lambda>r.
         sseq (simple_expecterr (name @ ''fsync expect error'') r)
        (sseq (call (k_sys k (Close fd))) nop)))))))))"

definition simple_main :: "'w kern \<Rightarrow> nat \<Rightarrow> (simple, 'w, int) act" where
  "simple_main k ps =
     sseq (simple_anon k ps ''dirty'' MAP_POPULATE)
    (sseq (simple_anon k ps ''mlocked'' MAP_LOCKED)
    (sseq (simple_clean_file k ps)
    (sseq (simple_file k ps '''' (\<lambda>fd. sseq (call (k_sys k (Write fd (replicate ps 0xff)))) nop))
    (sseq (simple_file k ps ''hole '' (\<lambda>fd. sseq (call (k_sys k (Ftruncate fd ps))) nop))
    (sbind (glob id) (\<lambda>g.
       if 0 < s_failure g
       then sseq (s_say (''FAILURE -- '' @ show_int (s_failure g) @ '' of '' @ show_int (s_total g) @ '' cases broken!'' @ [NL])) (ret 1)
       else sseq (s_say (''SUCCESS'' @ [NL])) (ret 0)))))))"

section \<open>tprctl\<close>

text \<open>The output is the only global: \<open>seq\<close> tells in which of the two calls the signal came.\<close>

definition prctl_test :: "'w kern \<Rightarrow> nat \<Rightarrow> bool \<Rightarrow> (string list, 'w, unit) act" where
  "prctl_test k ps early =
     sbind (call (k_mmap k ps [PROT_READ, PROT_WRITE] [MAP_PRIVATE, MAP_ANONYMOUS, MAP_POPULATE] 0)) (\<lambda>p. case p of
         None \<Rightarrow> halt (Exit 1)
       | Some a \<Rightarrow>
           sseq (upd (\<lambda>out. out @ [''ptr = '' @ fmt_ptr a @ [NL], ''injection'' @ [NL]]))
          (sbind (call (k_poison k a)) (\<lambda>r. case r of
              Inl b \<Rightarrow>
                sseq (upd (\<lambda>out. out @ [''recovered'' @ [NL]]))
               (if \<not> early
                then sseq (upd (\<lambda>out. out @ [''FAILURE: late mode set, but early kill'' @ [NL]])) (halt (Exit 1))
                else nop)
            | Inr e \<Rightarrow>
                if e < 0 then halt (Exit 1)
                else
                  sseq (upd (\<lambda>out. out @ [''faulting'' @ [NL]]))
                 (sbind (call (k_store k a 1)) (\<lambda>s. case s of
                     None \<Rightarrow> upd (\<lambda>out. out @ [''finished'' @ [NL]])
                   | Some b \<Rightarrow>
                       sseq (upd (\<lambda>out. out @ [''recovered'' @ [NL]]))
                      (if early
                       then sseq (upd (\<lambda>out. out @ [''FAILURE: early mode set, but no early kill'' @ [NL]])) (halt (Exit 1))
                       else nop))))))"

definition prctl_expect :: "'w kern \<Rightarrow> int \<Rightarrow> string \<Rightarrow> (string list, 'w, unit) act" where
  "prctl_expect k policy msg =
     sbind (call (k_sys k (Prctl 34 0 0))) (\<lambda>r.
       if r < 0 then halt (Exit 1)
       else if r \<noteq> policy then sseq (upd (\<lambda>out. out @ [''FAILURE: '' @ msg @ [NL]])) (halt (Exit 1))
       else nop)"

definition prctl_set :: "'w kern \<Rightarrow> int \<Rightarrow> int \<Rightarrow> (string list, 'w, unit) act" where
  "prctl_set k act arg = sbind (call (k_sys k (Prctl 33 act arg))) (\<lambda>r. if r < 0 then halt (Exit 1) else nop)"

definition prctl_main :: "'w kern \<Rightarrow> nat \<Rightarrow> (string list, 'w, int) act" where
  "prctl_main k ps =
     sseq (prctl_expect k 2 ''starting policy not default'')
    (sseq (prctl_set k 1 0)
    (sseq (prctl_test k ps False)
    (sseq (prctl_set k 1 1)
    (sseq (prctl_test k ps True)
    (sseq (prctl_expect k 1 ''get mode not early after setting'')
    (sseq (prctl_set k 0 0)
    (sseq (prctl_expect k 2 ''ending policy not default'') (ret 0))))))))"

section \<open>tkillpoison\<close>

definition killpoison_main :: "'w kern \<Rightarrow> nat \<Rightarrow> (string list, 'w, int) act" where
  "killpoison_main k ps =
     sbind (call (k_mmap k ps [PROT_READ, PROT_WRITE] [MAP_PRIVATE, MAP_ANONYMOUS, MAP_POPULATE] 0)) (\<lambda>p.
     let a = (case p of Some a \<Rightarrow> a | None \<Rightarrow> -1) in
     sseq (upd (\<lambda>out. out @ [''ptr = '' @ fmt_ptr a @ [NL]]))
    (sbind (poison_dfl k a) (\<lambda>_.
     sseq (upd (\<lambda>out. out @ [''faulting'' @ [NL]]))
    (sseq (store_dfl k a 1)
    (sseq (upd (\<lambda>out. out @ [''waiting'' @ [NL]])) (ret 0))))))"

section \<open>What the verdict of tsimpleinj is about\<close>

text \<open>What an action makes of the globals when it returns.\<close>

definition leads :: "('g \<Rightarrow> bool) \<Rightarrow> ('g, 'w, 'a) act \<Rightarrow> ('a \<Rightarrow> 'g \<Rightarrow> bool) \<Rightarrow> bool" where
  "leads P m Q \<longleftrightarrow> (\<forall>g w x g' w'. P g \<longrightarrow> m (g, w) = (Inr x, g', w') \<longrightarrow> Q x g')"

lemma leads_bind: "leads P m Q \<Longrightarrow> (\<And>x. leads (Q x) (f x) R) \<Longrightarrow> leads P (sbind m f) R"
  unfolding leads_def sbind_def by (auto split: prod.splits sum.splits) blast

lemma leads_seq: "leads P m (\<lambda>_. Q) \<Longrightarrow> leads Q n R \<Longrightarrow> leads P (sseq m n) R"
  unfolding sseq_def by (rule leads_bind)

lemma leads_basic:
  "leads P (ret x) (\<lambda>_. P)" "leads P nop (\<lambda>_. P)" "leads P (call f) (\<lambda>_. P)" "leads P (halt e) Q"
  by (auto simp: leads_def split: prod.splits)

lemma leads_option:
  "leads P n Q \<Longrightarrow> (\<And>x. leads P (f x) Q) \<Longrightarrow> leads P (case r of None \<Rightarrow> n | Some x \<Rightarrow> f x) Q"
  by (cases r) auto

lemma leads_if: "leads P m Q \<Longrightarrow> leads P n Q \<Longrightarrow> leads P (if b then m else n) Q"
  by simp

text \<open>After \<open>n\<close> cases: each costs one signal at most; \<open>fails\<close> is whether the injections fail.\<close>

definition simple_after :: "bool \<Rightarrow> int \<Rightarrow> simple \<Rightarrow> bool" where
  "simple_after fails n g \<longleftrightarrow> s_total g = n \<and> s_failure g = (if fails then n else 0) \<and> 20 - n \<le> s_count g"

lemma leads_say: "leads (simple_after fails n) (s_say s) (\<lambda>_. simple_after fails n)"
  by (auto simp: leads_def s_say_def simple_after_def)

text \<open>A kernel whose injections never fail, with or without effect, and one whose injections always do.\<close>

definition injects_quietly :: "bool \<Rightarrow> 'w kern \<Rightarrow> bool" where
  "injects_quietly fails k \<longleftrightarrow>
     (\<forall>a w. if fails then (\<exists>e. e \<noteq> 0 \<and> fst (k_poison k a w) = Inr e) else (\<forall>e. fst (k_poison k a w) = Inr e \<longrightarrow> e = 0))"

lemma testmem_leads:
  assumes "injects_quietly fails k"
  shows "leads (simple_after fails n) (simple_testmem k msg page wr) (\<lambda>_. simple_after fails (n + 1))"
proof -
  have "simple_after fails (n + 1) g'"
    if g: "simple_after fails n g" and run: "simple_testmem k msg page wr (g, w) = (Inr x, g', w')" for g w x g' w'
  proof -
    obtain r w1 where p: "k_poison k page w = (r, w1)" by (cases "k_poison k page w")
    show ?thesis
    proof (cases r)
      case (Inl b)
      with assms p have "\<not> fails" unfolding injects_quietly_def by (metis fst_conv sum.distinct(1))
      with run p Inl g show ?thesis
        by (auto simp: simple_testmem_def simple_inject_def simple_handler_def s_say_def act_run simple_after_def split: if_splits)
    next
      case (Inr e)
      with assms p have e: "e \<noteq> 0 \<longleftrightarrow> fails" unfolding injects_quietly_def by (metis fst_conv sum.inject(2))
      obtain v w2 where st: "k_store k page 2 w1 = (v, w2)" by (cases "k_store k page 2 w1")
      obtain u w3 where ld: "k_load k page w1 = (u, w3)" by (cases "k_load k page w1")
      show ?thesis
        using run p Inr e g st ld
        by (cases wr; cases v; cases u)
          (auto simp: simple_testmem_def simple_inject_def simple_handler_def s_say_def act_run simple_after_def split: if_splits)
    qed
  qed
  then show ?thesis by (auto simp: leads_def)
qed

lemma simple_parts_lead:
  assumes "injects_quietly fails k"
  shows "leads (simple_after fails n) (simple_anon k ps msg flag) (\<lambda>_. simple_after fails (n + 1))"
    and "leads (simple_after fails n) (simple_clean_file k ps) (\<lambda>_. simple_after fails (n + 1))"
    and "(\<And>fd. leads (simple_after fails n) (content fd) (\<lambda>_. simple_after fails n)) \<Longrightarrow>
      leads (simple_after fails n) (simple_file k ps name content) (\<lambda>_. simple_after fails (n + 1))"
proof -
  note tm = testmem_leads [OF assms]
  have mm: "leads (simple_after fails n) (simple_mmap k ps prots flags fd) (\<lambda>_. simple_after fails n)" for prots flags fd
    unfolding simple_mmap_def by (rule leads_bind [OF leads_basic(3)]) (intro leads_option leads_basic)
  show "leads (simple_after fails n) (simple_anon k ps msg flag) (\<lambda>_. simple_after fails (n + 1))"
    unfolding simple_anon_def by (rule leads_bind [OF leads_basic(3)]) (rule tm)
  show "leads (simple_after fails n) (simple_clean_file k ps) (\<lambda>_. simple_after fails (n + 1))"
    unfolding simple_clean_file_def
    by (rule leads_bind [OF leads_basic(3)], intro leads_if leads_basic leads_bind [OF mm] leads_seq [OF leads_basic(3)] tm)
  assume content: "\<And>fd. leads (simple_after fails n) (content fd) (\<lambda>_. simple_after fails n)"
  have fd: "leads (simple_after fails n) (simple_tempfd k) (\<lambda>_. simple_after fails n)"
    by (auto simp: leads_def simple_tempfd_def act_run simple_after_def Let_def split: prod.splits if_splits)
  have dirty: "leads (simple_after fails n) (simple_dirty k page) (\<lambda>_. simple_after fails n)" for page
    unfolding simple_dirty_def by (rule leads_bind [OF leads_basic(3)])
      (intro leads_option leads_basic leads_seq [where Q = "\<lambda>_. True"], simp add: leads_def)
  have ex: "leads (simple_after fails m) (simple_expecterr s r) (\<lambda>_. simple_after fails m)" for m s r
    unfolding simple_expecterr_def by (intro leads_if leads_say leads_basic)
  show "leads (simple_after fails n) (simple_file k ps name content) (\<lambda>_. simple_after fails (n + 1))"
    unfolding simple_file_def
    by (rule leads_bind [OF fd], intro leads_if leads_basic leads_seq [OF content] leads_bind [OF mm] leads_seq [OF dirty]
        leads_seq [OF tm] leads_bind [OF leads_basic(3)] leads_seq [OF ex] leads_seq [OF leads_basic(3)])
qed

text \<open>
  When \<open>tsimpleinj\<close> comes to its verdict, it is \<open>SUCCESS\<close> if no injection failed, whatever the accesses to the poisoned
  pages did, and \<open>FAILURE\<close> if all failed. Each of the five cases takes at most one signal, so the limit of 20 is far.
\<close>

theorem simple_verdict:
  assumes "injects_quietly fails k" "simple_main k ps (simple_init, w) = (Inr n, g', w')"
  shows "n = (if fails then 1 else 0) \<and> s_total g' = 5 \<and> 15 \<le> s_count g'"
proof -
  let ?I = "simple_after fails"
  note parts = simple_parts_lead [OF assms(1)]
  have content: "leads (?I m) (sseq (call f) nop) (\<lambda>_. ?I m)" for m and f :: "'a \<Rightarrow> int \<times> 'a"
    by (intro leads_seq [OF leads_basic(3)] leads_basic)
  have five: "leads (?I 5) (sbind (glob id) (\<lambda>g.
       if 0 < s_failure g
       then sseq (s_say (''FAILURE -- '' @ show_int (s_failure g) @ '' of '' @ show_int (s_total g) @ '' cases broken!'' @ [NL])) (ret 1)
       else sseq (s_say (''SUCCESS'' @ [NL])) (ret 0))) (\<lambda>n g. n = (if fails then 1 else 0) \<and> s_total g = 5 \<and> 15 \<le> s_count g)"
    by (auto simp: leads_def s_say_def act_run simple_after_def split: if_splits)
  have "leads (?I 0) (simple_main k ps) (\<lambda>n g. n = (if fails then 1 else 0) \<and> s_total g = 5 \<and> 15 \<le> s_count g)"
    unfolding simple_main_def
    by (rule leads_seq [OF parts(1) [of 0, simplified]], rule leads_seq [OF parts(1) [of 1, simplified]],
        rule leads_seq [OF parts(2) [of 2, simplified]], rule leads_seq [OF parts(3) [of 3, simplified, OF content]],
        rule leads_seq [OF parts(3) [of 4, simplified, OF content]], rule five)
  moreover have "?I 0 simple_init" by (simp add: simple_after_def simple_init_def)
  ultimately show ?thesis using assms(2) unfolding leads_def by blast
qed

text \<open>A kernel whose injections do nothing at all.\<close>

definition mute_kern :: "memw kern" where
  "mute_kern = memory_kern page_no 0x7f0000000000\<lparr>k_poison := (\<lambda>_ w. (Inr 0, w))\<rparr>"

lemma mute_accesses:
  assumes "m_bad w = {}"
  shows "k_load mute_kern a w = (Inr (m_cell w a), w)" "k_store mute_kern a v w = (None, w\<lparr>m_cell := (m_cell w)(a := v)\<rparr>)"
    "k_poison mute_kern a w = (Inr 0, w)"
  using assms by (simp_all add: mute_kern_def memory_kern_def)

lemma mute_calls:
  "k_mmap mute_kern len prots flags fd w = (Some 0x7f0000000000, w)"
  "k_sys mute_kern c w = (0, case c of Prctl op act e \<Rightarrow> if op = 33 \<and> act = 1 then w\<lparr>m_early := (e = 1)\<rparr> else w | _ \<Rightarrow> w)"
  by (simp_all add: mute_kern_def memory_kern_def split: syscall.split)

lemma mute_testmem:
  assumes "m_bad w = {}"
  shows "\<exists>g' w'. simple_testmem mute_kern msg page wr (g, w) = (Inr (), g', w') \<and> m_bad w' = {}"
  using assms by (cases wr) (simp_all add: simple_testmem_def simple_inject_def s_say_def act_run mute_accesses)

lemma mute_parts:
  assumes "m_bad w = {}"
  shows "\<exists>g' w'. simple_anon mute_kern ps msg flag (g, w) = (Inr (), g', w') \<and> m_bad w' = {}"
    and "\<exists>g' w'. simple_clean_file mute_kern ps (g, w) = (Inr (), g', w') \<and> m_bad w' = {}"
    and "(\<And>fd g. content fd (g, w) = (Inr (), g, w)) \<Longrightarrow>
      \<exists>g' w'. simple_file mute_kern ps name content (g, w) = (Inr (), g', w') \<and> m_bad w' = {}"
proof -
  show "\<exists>g' w'. simple_anon mute_kern ps msg flag (g, w) = (Inr (), g', w') \<and> m_bad w' = {}"
    using mute_testmem [OF assms] by (simp add: simple_anon_def act_run mute_calls)
  show "\<exists>g' w'. simple_clean_file mute_kern ps (g, w) = (Inr (), g', w') \<and> m_bad w' = {}"
    using mute_testmem [OF assms] by (simp add: simple_clean_file_def simple_mmap_def act_run mute_calls)
  assume content: "\<And>fd g. content fd (g, w) = (Inr (), g, w)"
  obtain g1 where g1: "simple_tempfd mute_kern (g, w) = (Inr 0, g1, w)"
    by (simp add: simple_tempfd_def act_run mute_calls Let_def)
  let ?w = "w\<lparr>m_cell := (m_cell w)(0x7f0000000000 := 1)\<rparr>"
  from mute_testmem [of ?w "name @ ''file dirty''" "0x7f0000000000" False g1] assms obtain g2 w2 where
      "simple_testmem mute_kern (name @ ''file dirty'') 0x7f0000000000 False (g1, ?w) = (Inr (), g2, w2)" "m_bad w2 = {}" by auto
  with assms g1 content show "\<exists>g' w'. simple_file mute_kern ps name content (g, w) = (Inr (), g', w') \<and> m_bad w' = {}"
    by (simp add: simple_file_def simple_mmap_def simple_dirty_def simple_expecterr_def s_say_def act_run mute_calls mute_accesses)
qed

lemma mute_main: "\<exists>n g' w'. simple_main mute_kern 4096 (simple_init, fresh_memory) = (Inr n, g', w')"
proof -
  have c: "sseq (call (k_sys mute_kern (Write fd bs))) nop (g, w) = (Inr (), g, w)"
      "sseq (call (k_sys mute_kern (Ftruncate fd n))) nop (g, w) = (Inr (), g, w)" for fd bs n and g :: simple and w
    by (simp_all add: act_run mute_calls)
  have f: "m_bad fresh_memory = {}" by (simp add: fresh_memory_def)
  obtain g1 w1 where 1: "simple_anon mute_kern 4096 ''dirty'' MAP_POPULATE (simple_init, fresh_memory) = (Inr (), g1, w1)" "m_bad w1 = {}"
    using mute_parts(1) [OF f] by blast
  obtain g2 w2 where 2: "simple_anon mute_kern 4096 ''mlocked'' MAP_LOCKED (g1, w1) = (Inr (), g2, w2)" "m_bad w2 = {}"
    using mute_parts(1) [OF 1(2)] by blast
  obtain g3 w3 where 3: "simple_clean_file mute_kern 4096 (g2, w2) = (Inr (), g3, w3)" "m_bad w3 = {}"
    using mute_parts(2) [OF 2(2)] by blast
  obtain g4 w4 where 4: "simple_file mute_kern 4096 '''' (\<lambda>fd. sseq (call (k_sys mute_kern (Write fd (replicate 4096 0xff)))) nop) (g3, w3)
      = (Inr (), g4, w4)" "m_bad w4 = {}"
    using mute_parts(3) [OF 3(2), where content = "\<lambda>fd. sseq (call (k_sys mute_kern (Write fd (replicate 4096 0xff)))) nop"
        and ps = 4096 and name = "[]" and g = g3]
    by (auto simp: c)
  obtain g5 w5 where 5: "simple_file mute_kern 4096 ''hole '' (\<lambda>fd. sseq (call (k_sys mute_kern (Ftruncate fd 4096))) nop) (g4, w4)
      = (Inr (), g5, w5)"
    using mute_parts(3) [OF 4(2), where content = "\<lambda>fd. sseq (call (k_sys mute_kern (Ftruncate fd 4096))) nop"
        and ps = 4096 and name = "''hole ''" and g = g4]
    by (auto simp: c)
  show ?thesis
    by (simp add: simple_main_def sseq_apply 1(1) 2(1) 3(1) 4(1) 5) (simp add: act_run s_say_def)
qed

theorem simple_verdict_witness:
  "fst (simple_main mute_kern 4096 (simple_init, fresh_memory)) = Inr 0"
proof -
  have "injects_quietly False mute_kern" by (simp add: injects_quietly_def mute_kern_def)
  moreover obtain n g' w' where run: "simple_main mute_kern 4096 (simple_init, fresh_memory) = (Inr n, g', w')"
    using mute_main by blast
  ultimately have "n = 0" using simple_verdict [of False mute_kern] by simp
  with run show ?thesis by simp
qed

section \<open>What the verdict of tprctl is about\<close>

text \<open>\<open>policy\<close> is the kill policy of the process: 0 late, 1 early, 2 default. \<open>prctl\<close> sets and gets it, nothing else does.\<close>

definition prctl_law :: "'w kern \<Rightarrow> ('w \<Rightarrow> int) \<Rightarrow> bool" where
  "prctl_law k policy \<longleftrightarrow>
     (\<forall>w. k_sys k (Prctl 34 0 0) w = (policy w, w))
   \<and> (\<forall>e w. fst (k_sys k (Prctl 33 1 e) w) = 0 \<and> policy (snd (k_sys k (Prctl 33 1 e) w)) = e)
   \<and> (\<forall>w. fst (k_sys k (Prctl 33 0 0) w) = 0 \<and> policy (snd (k_sys k (Prctl 33 0 0) w)) = 2)
   \<and> (\<forall>len prots flags fd w. fst (k_mmap k len prots flags fd w) \<noteq> None \<and> policy (snd (k_mmap k len prots flags fd w)) = policy w)
   \<and> (\<forall>a w. policy (snd (k_poison k a w)) = policy w) \<and> (\<forall>a v w. policy (snd (k_store k a v w)) = policy w)"

text \<open>When the signal comes: at the injection, at the access, or not at all.\<close>

datatype kill = Early_kill | Late_kill | No_kill

definition kills :: "'w kern \<Rightarrow> kill \<Rightarrow> u64 \<Rightarrow> 'w \<Rightarrow> bool" where
  "kills k x a w =
     (case x of
        Early_kill \<Rightarrow> isl (fst (k_poison k a w))
      | Late_kill \<Rightarrow> fst (k_poison k a w) = Inr 0 \<and> fst (k_store k a 1 (snd (k_poison k a w))) \<noteq> None
      | No_kill \<Rightarrow> fst (k_poison k a w) = Inr 0 \<and> fst (k_store k a 1 (snd (k_poison k a w))) = None)"

definition passes :: "bool \<Rightarrow> kill \<Rightarrow> bool" where
  "passes early x \<longleftrightarrow> x = No_kill \<or> x = (if early then Early_kill else Late_kill)"

lemma prctl_test_run:
  assumes law: "prctl_law k policy" and kills: "\<And>a w'. policy w' = policy w \<Longrightarrow> kills k x a w'"
  shows "\<exists>out' w'. prctl_test k ps early (out, w) = (if passes early x then Inr () else Inl (Exit 1), out', w')
    \<and> policy w' = policy w"
proof -
  obtain p w1 where m: "k_mmap k ps [PROT_READ, PROT_WRITE] [MAP_PRIVATE, MAP_ANONYMOUS, MAP_POPULATE] 0 w = (p, w1)"
    by (cases "k_mmap k ps [PROT_READ, PROT_WRITE] [MAP_PRIVATE, MAP_ANONYMOUS, MAP_POPULATE] 0 w")
  with law have "p \<noteq> None" "policy w1 = policy w" unfolding prctl_law_def by (metis fst_conv snd_conv)+
  then obtain a where a: "p = Some a" "policy w1 = policy w" by blast
  obtain r w2 where r: "k_poison k a w1 = (r, w2)" by (cases "k_poison k a w1")
  obtain s w3 where s: "k_store k a 1 w2 = (s, w3)" by (cases "k_store k a 1 w2")
  have pol: "policy w2 = policy w" "policy w3 = policy w"
    using law r s a(2) unfolding prctl_law_def by (metis snd_conv)+
  from kills [OF a(2), of a] show ?thesis
    using m a r s pol by (cases x; cases r; cases s) (auto simp: kills_def passes_def prctl_test_def act_run)
qed

text \<open>
  \<open>tprctl\<close> fails on a kernel that kills too early or too late in one of the two modes, and passes on one that follows the
  policy. It passes as well on a kernel that never kills: a test that comes to \<open>finished\<close> is not a failure.
\<close>

theorem prctl_verdict:
  assumes law: "prctl_law k policy" and start: "policy w = 2"
    and late: "\<And>a w. policy w = 0 \<Longrightarrow> kills k x a w" and early: "\<And>a w. policy w = 1 \<Longrightarrow> kills k y a w"
  shows "fst (prctl_main k ps (out, w)) = (if x \<noteq> Early_kill \<and> y \<noteq> Late_kill then Inr 0 else Inl (Exit 1))"
proof -
  have set1: "\<exists>w'. prctl_set k 1 e (o', w0) = (Inr (), o', w') \<and> policy w' = e" for e o' w0
  proof -
    from law have "fst (k_sys k (Prctl 33 1 e) w0) = 0 \<and> policy (snd (k_sys k (Prctl 33 1 e) w0)) = e"
      unfolding prctl_law_def by blast
    then show ?thesis by (cases "k_sys k (Prctl 33 1 e) w0") (simp add: prctl_set_def act_run)
  qed
  have set0: "\<exists>w'. prctl_set k 0 0 (o', w0) = (Inr (), o', w') \<and> policy w' = 2" for o' w0
  proof -
    from law have "fst (k_sys k (Prctl 33 0 0) w0) = 0 \<and> policy (snd (k_sys k (Prctl 33 0 0) w0)) = 2"
      unfolding prctl_law_def by blast
    then show ?thesis by (cases "k_sys k (Prctl 33 0 0) w0") (simp add: prctl_set_def act_run)
  qed
  have exp: "prctl_expect k (policy w0) msg (o', w0) = (Inr (), o', w0)" if "0 \<le> policy w0" for msg o' w0
    using law that unfolding prctl_law_def prctl_expect_def by (simp add: act_run)
  obtain w1 where w1: "prctl_set k 1 0 (out, w) = (Inr (), out, w1)" "policy w1 = 0" using set1 by blast
  obtain o2 w2 where w2: "prctl_test k ps False (out, w1) = (if passes False x then Inr () else Inl (Exit 1), o2, w2)"
    using prctl_test_run [OF law, where early = False and x = x and w = w1] late w1(2) by metis
  obtain w3 where w3: "prctl_set k 1 1 (o2, w2) = (Inr (), o2, w3)" "policy w3 = 1" using set1 by blast
  obtain o4 w4 where w4: "prctl_test k ps True (o2, w3) = (if passes True y then Inr () else Inl (Exit 1), o4, w4)" "policy w4 = 1"
    using prctl_test_run [OF law, where early = True and x = y and w = w3] early w3(2) by metis
  obtain w5 where w5: "prctl_set k 0 0 (o4, w4) = (Inr (), o4, w5)" "policy w5 = 2" using set0 by blast
  have p: "passes False x \<longleftrightarrow> x \<noteq> Early_kill" "passes True y \<longleftrightarrow> y \<noteq> Late_kill"
    by (cases x, simp_all add: passes_def) (cases y, simp_all add: passes_def)
  show ?thesis
    using exp [of w] exp [of w4] exp [of w5] start w1 w2 w3 w4 w5 by (simp add: prctl_main_def act_run p)
qed

text \<open>A kernel that kills a process at the access whatever its policy is: with policy 1 it should have been at the injection.\<close>

definition tardy_kern :: "int kern" where
  "tardy_kern = \<lparr>
     k_poison = (\<lambda>a p. (Inr 0, p)), k_load = (\<lambda>a p. (Inr 0, p)), k_store = (\<lambda>a v p. (Some (sigbus a), p)),
     k_mmap = (\<lambda>len prots flags fd p. (Some 0x7f0000000000, p)), k_shmat = (\<lambda>key p. (None, p)),
     k_sys = (\<lambda>c p. case c of
         Prctl op act e \<Rightarrow> if op = 34 then (p, p) else if act = 1 then (0, e) else (0, 2)
       | _ \<Rightarrow> (0, p)),
     k_pagemap = (\<lambda>a p. None), k_mce_inject = (\<lambda>s p. (Inr False, p)), k_fork = (\<lambda>p. (False, p)), k_core = (\<lambda>p. False)\<rparr>"

theorem prctl_verdict_witness:
  "fst (prctl_main tardy_kern 4096 ([], 2)) = Inl (Exit 1)"
proof -
  have "prctl_law tardy_kern id" by (simp add: prctl_law_def tardy_kern_def)
  moreover have "kills tardy_kern Late_kill a w" for a w by (simp add: kills_def tardy_kern_def)
  ultimately show ?thesis
    using prctl_verdict [of tardy_kern id 2 Late_kill Late_kill 4096 "[]"] by simp
qed

end
