(* ===== verification/Cper.thy ===== *)
theory Cper
  imports Prelude
begin

text \<open>
  \<open>cases/function/erst-inject/uuid.h\<close> and \<open>cper.h\<close>: the error records of the UEFI specification. The structures are
  packed, so one lies in memory as its fields one after the other, each in little-endian order. For a structure
  there are the record, its bytes, what a program finds in memory through a pointer to it, and, where it has arrays,
  the condition that these have their lengths.
\<close>

text \<open>The signature that the first field of a record should have.\<close>

definition CPER_SIG_RECORD :: string where "CPER_SIG_RECORD = ''REPC''"

section \<open>GUIDs\<close>

type_synonym u16 = "16 word"

text \<open>\<open>lguid_t\<close> is 16 bytes; the first three parts of a GUID are little-endian in it.\<close>

type_synonym lguid = "u8 list"

definition LGUID :: "u32 \<Rightarrow> u16 \<Rightarrow> u16 \<Rightarrow> u8 \<Rightarrow> u8 \<Rightarrow> u8 \<Rightarrow> u8 \<Rightarrow> u8 \<Rightarrow> u8 \<Rightarrow> u8 \<Rightarrow> u8 \<Rightarrow> lguid" where
  "LGUID a b c d0 d1 d2 d3 d4 d5 d6 d7 =
     [ucast (a AND 0xff), ucast (drop_bit 8 a AND 0xff), ucast (drop_bit 16 a AND 0xff), ucast (drop_bit 24 a AND 0xff),
      ucast (b AND 0xff), ucast (drop_bit 8 b AND 0xff), ucast (c AND 0xff), ucast (drop_bit 8 c AND 0xff),
      d0, d1, d2, d3, d4, d5, d6, d7]"

text \<open>\<open>CPER_SEC_PROC_IPF\<close> has one byte too many for \<open>LGUID\<close> and cannot be used.\<close>

definition CPER_NOTIFY_CMC :: lguid where
  "CPER_NOTIFY_CMC = LGUID 0x2DCE8BB1 0xBDD7 0x450e 0xB9 0xAD 0x9C 0xF4 0xEB 0xD4 0xF8 0x90"
definition CPER_NOTIFY_CPE :: lguid where
  "CPER_NOTIFY_CPE = LGUID 0x4E292F96 0xD843 0x4a55 0xA8 0xC2 0xD4 0x81 0xF2 0x7E 0xBE 0xEE"
definition CPER_NOTIFY_MCE :: lguid where
  "CPER_NOTIFY_MCE = LGUID 0xE8F56FFE 0x919C 0x4cc5 0xBA 0x88 0x65 0xAB 0xE1 0x49 0x13 0xBB"
definition CPER_NOTIFY_PCIE :: lguid where
  "CPER_NOTIFY_PCIE = LGUID 0xCF93C01F 0x1A16 0x4dfc 0xB8 0xBC 0x9C 0x4D 0xAF 0x67 0xC1 0x04"
definition CPER_NOTIFY_INIT :: lguid where
  "CPER_NOTIFY_INIT = LGUID 0xCC5263E8 0x9308 0x454a 0x89 0xD0 0x34 0x0B 0xD3 0x9B 0xC9 0x8E"
definition CPER_NOTIFY_NMI :: lguid where
  "CPER_NOTIFY_NMI = LGUID 0x5BAD89FF 0xB7E6 0x42c9 0x81 0x4A 0xCF 0x24 0x85 0xD6 0xE9 0x8A"
definition CPER_NOTIFY_BOOT :: lguid where
  "CPER_NOTIFY_BOOT = LGUID 0x3D61A466 0xAB40 0x409a 0xA6 0x98 0xF3 0x62 0xD4 0x64 0xB3 0x8F"
definition CPER_NOTIFY_DMAR :: lguid where
  "CPER_NOTIFY_DMAR = LGUID 0x667DD791 0xC6B3 0x4c27 0x8A 0x6B 0x0F 0x8E 0x72 0x2D 0xEB 0x41"
definition CPER_SEC_PROC_GENERIC :: lguid where
  "CPER_SEC_PROC_GENERIC = LGUID 0x9876CCAD 0x47B4 0x4bdb 0xB6 0x5E 0x16 0xF1 0x93 0xC4 0xF3 0xDB"
definition CPER_SEC_PROC_IA :: lguid where
  "CPER_SEC_PROC_IA = LGUID 0xDC3EA0B0 0xA144 0x4797 0xB9 0x5B 0x53 0xFA 0x24 0x2B 0x6E 0x1D"
definition CPER_SEC_PLATFORM_MEM :: lguid where
  "CPER_SEC_PLATFORM_MEM = LGUID 0xA5BC1114 0x6F64 0x4EDE 0xB8 0x63 0x3E 0x83 0xED 0x7C 0x83 0xB1"
definition CPER_SEC_PCIE :: lguid where
  "CPER_SEC_PCIE = LGUID 0xD995E954 0xBBC1 0x430F 0xAD 0x91 0xB4 0x4D 0xCB 0x3C 0x6F 0x35"
definition CPER_SEC_FW_ERR_REC_REF :: lguid where
  "CPER_SEC_FW_ERR_REC_REF = LGUID 0x81212A96 0x09ED 0x4996 0x94 0x71 0x8D 0x72 0x9C 0x8E 0x69 0xED"
definition CPER_SEC_PCI_X_BUS :: lguid where
  "CPER_SEC_PCI_X_BUS = LGUID 0xC5753963 0x3B84 0x4095 0xBF 0x78 0xED 0xDA 0xD3 0xF9 0xC9 0xDD"
definition CPER_SEC_PCI_DEV :: lguid where
  "CPER_SEC_PCI_DEV = LGUID 0xEB5E4685 0xCA66 0x4769 0xB6 0xA2 0x26 0x06 0x8B 0x00 0x13 0x26"
definition CPER_SEC_DMAR_GENERIC :: lguid where
  "CPER_SEC_DMAR_GENERIC = LGUID 0x5B51FEF7 0xC79D 0x4434 0x8F 0x1B 0xAA 0x62 0xDE 0x3E 0x2C 0x64"
definition CPER_SEC_DMAR_VT :: lguid where
  "CPER_SEC_DMAR_VT = LGUID 0x71761D37 0x32B2 0x45cd 0xA7 0xD0 0xB0 0xFE 0xDD 0x93 0xE8 0xCF"
definition CPER_SEC_DMAR_IOMMU :: lguid where
  "CPER_SEC_DMAR_IOMMU = LGUID 0x036F84E1 0x7F37 0x428c 0xA7 0x9E 0x57 0x5F 0xDF 0xAA 0x84 0xEC"

section \<open>Severities\<close>

definition CPER_SER_RECOVERABLE :: u32 where "CPER_SER_RECOVERABLE = 0"
definition CPER_SER_FATAL :: u32 where "CPER_SER_FATAL = 1"
definition CPER_SER_CORRECTED :: u32 where "CPER_SER_CORRECTED = 2"
definition CPER_SER_INFORMATIONAL :: u32 where "CPER_SER_INFORMATIONAL = 3"

section \<open>Fields in memory\<close>

definition bytes_at :: "nat \<Rightarrow> nat \<Rightarrow> u8 list \<Rightarrow> u8 list" where
  "bytes_at off n bs = take n (drop off bs)"

definition word_at :: "nat \<Rightarrow> u8 list \<Rightarrow> 'a::len word" where
  "word_at off bs = le_word (bytes_at off (LENGTH('a) div 8) bs)"

section \<open>The structures\<close>

record cper_record_header =
  rh_signature :: "u8 list"
  rh_revision :: u16
  rh_signature_end :: u32
  rh_section_count :: u16
  rh_error_severity :: u32
  rh_validation_bits :: u32
  rh_record_length :: u32
  rh_timestamp :: u64
  rh_platform_id :: lguid
  rh_partition_id :: lguid
  rh_creator_id :: lguid
  rh_notification_type :: lguid
  rh_record_id :: u64
  rh_flags :: u32
  rh_persistence_information :: u64
  rh_reserved :: "u8 list"

definition record_header_bytes :: "cper_record_header \<Rightarrow> u8 list" where
  "record_header_bytes x =
     rh_signature x @ le_bytes (rh_revision x) @ le_bytes (rh_signature_end x) @
     le_bytes (rh_section_count x) @ le_bytes (rh_error_severity x) @ le_bytes (rh_validation_bits x) @
     le_bytes (rh_record_length x) @ le_bytes (rh_timestamp x) @ rh_platform_id x @ rh_partition_id x @
     rh_creator_id x @ rh_notification_type x @ le_bytes (rh_record_id x) @ le_bytes (rh_flags x) @
     le_bytes (rh_persistence_information x) @ rh_reserved x"

definition record_header_ok :: "cper_record_header \<Rightarrow> bool" where
  "record_header_ok x \<longleftrightarrow> length (rh_signature x) = 4 \<and> length (rh_platform_id x) = 16 \<and>
     length (rh_partition_id x) = 16 \<and> length (rh_creator_id x) = 16 \<and>
     length (rh_notification_type x) = 16 \<and> length (rh_reserved x) = 12"

definition record_header_of :: "u8 list \<Rightarrow> cper_record_header" where
  "record_header_of bs =
     \<lparr>rh_signature = bytes_at 0 4 bs, rh_revision = word_at 4 bs, rh_signature_end = word_at 6 bs,
      rh_section_count = word_at 10 bs, rh_error_severity = word_at 12 bs,
      rh_validation_bits = word_at 16 bs, rh_record_length = word_at 20 bs, rh_timestamp = word_at 24 bs,
      rh_platform_id = bytes_at 32 16 bs, rh_partition_id = bytes_at 48 16 bs,
      rh_creator_id = bytes_at 64 16 bs, rh_notification_type = bytes_at 80 16 bs,
      rh_record_id = word_at 96 bs, rh_flags = word_at 104 bs,
      rh_persistence_information = word_at 108 bs, rh_reserved = bytes_at 116 12 bs\<rparr>"

record cper_section_descriptor =
  sd_section_offset :: u32
  sd_section_length :: u32
  sd_revision :: u16
  sd_validation_bits :: u8
  sd_reserved :: u8
  sd_flags :: u32
  sd_section_type :: lguid
  sd_fru_id :: lguid
  sd_section_severity :: u32
  sd_fru_text :: "u8 list"

definition section_descriptor_bytes :: "cper_section_descriptor \<Rightarrow> u8 list" where
  "section_descriptor_bytes x =
     le_bytes (sd_section_offset x) @ le_bytes (sd_section_length x) @ le_bytes (sd_revision x) @
     le_bytes (sd_validation_bits x) @ le_bytes (sd_reserved x) @ le_bytes (sd_flags x) @
     sd_section_type x @ sd_fru_id x @ le_bytes (sd_section_severity x) @ sd_fru_text x"

definition section_descriptor_ok :: "cper_section_descriptor \<Rightarrow> bool" where
  "section_descriptor_ok x \<longleftrightarrow> length (sd_section_type x) = 16 \<and> length (sd_fru_id x) = 16 \<and> length (sd_fru_text x) = 20"

definition section_descriptor_of :: "u8 list \<Rightarrow> cper_section_descriptor" where
  "section_descriptor_of bs =
     \<lparr>sd_section_offset = word_at 0 bs, sd_section_length = word_at 4 bs, sd_revision = word_at 8 bs,
      sd_validation_bits = word_at 10 bs, sd_reserved = word_at 11 bs, sd_flags = word_at 12 bs,
      sd_section_type = bytes_at 16 16 bs, sd_fru_id = bytes_at 32 16 bs,
      sd_section_severity = word_at 48 bs, sd_fru_text = bytes_at 52 20 bs\<rparr>"

record cper_sec_proc_generic =
  pg_validation_bits :: u64
  pg_proc_type :: u8
  pg_proc_isa :: u8
  pg_proc_error_type :: u8
  pg_operation :: u8
  pg_flags :: u8
  pg_level :: u8
  pg_reserved :: u16
  pg_cpu_version :: u64
  pg_cpu_brand :: "u8 list"
  pg_proc_id :: u64
  pg_target_addr :: u64
  pg_requestor_id :: u64
  pg_responder_id :: u64
  pg_ip :: u64

definition sec_proc_generic_bytes :: "cper_sec_proc_generic \<Rightarrow> u8 list" where
  "sec_proc_generic_bytes x =
     le_bytes (pg_validation_bits x) @ le_bytes (pg_proc_type x) @ le_bytes (pg_proc_isa x) @
     le_bytes (pg_proc_error_type x) @ le_bytes (pg_operation x) @ le_bytes (pg_flags x) @
     le_bytes (pg_level x) @ le_bytes (pg_reserved x) @ le_bytes (pg_cpu_version x) @ pg_cpu_brand x @
     le_bytes (pg_proc_id x) @ le_bytes (pg_target_addr x) @ le_bytes (pg_requestor_id x) @
     le_bytes (pg_responder_id x) @ le_bytes (pg_ip x)"

definition sec_proc_generic_ok :: "cper_sec_proc_generic \<Rightarrow> bool" where
  "sec_proc_generic_ok x \<longleftrightarrow> length (pg_cpu_brand x) = 128"

definition sec_proc_generic_of :: "u8 list \<Rightarrow> cper_sec_proc_generic" where
  "sec_proc_generic_of bs =
     \<lparr>pg_validation_bits = word_at 0 bs, pg_proc_type = word_at 8 bs, pg_proc_isa = word_at 9 bs,
      pg_proc_error_type = word_at 10 bs, pg_operation = word_at 11 bs, pg_flags = word_at 12 bs,
      pg_level = word_at 13 bs, pg_reserved = word_at 14 bs, pg_cpu_version = word_at 16 bs,
      pg_cpu_brand = bytes_at 24 128 bs, pg_proc_id = word_at 152 bs, pg_target_addr = word_at 160 bs,
      pg_requestor_id = word_at 168 bs, pg_responder_id = word_at 176 bs, pg_ip = word_at 184 bs\<rparr>"

record cper_sec_proc_ia =
  pi_validation_bits :: u64
  pi_lapic_id :: u8
  pi_cpuid :: "u8 list"

definition sec_proc_ia_bytes :: "cper_sec_proc_ia \<Rightarrow> u8 list" where
  "sec_proc_ia_bytes x =
     le_bytes (pi_validation_bits x) @ le_bytes (pi_lapic_id x) @ pi_cpuid x"

definition sec_proc_ia_ok :: "cper_sec_proc_ia \<Rightarrow> bool" where
  "sec_proc_ia_ok x \<longleftrightarrow> length (pi_cpuid x) = 48"

definition sec_proc_ia_of :: "u8 list \<Rightarrow> cper_sec_proc_ia" where
  "sec_proc_ia_of bs =
     \<lparr>pi_validation_bits = word_at 0 bs, pi_lapic_id = word_at 8 bs, pi_cpuid = bytes_at 9 48 bs\<rparr>"

record cper_ia_err_info =
  ei_err_type :: lguid
  ei_validation_bits :: u64
  ei_check_info :: u64
  ei_target_id :: u64
  ei_requestor_id :: u64
  ei_responder_id :: u64
  ei_ip :: u64

definition ia_err_info_bytes :: "cper_ia_err_info \<Rightarrow> u8 list" where
  "ia_err_info_bytes x =
     ei_err_type x @ le_bytes (ei_validation_bits x) @ le_bytes (ei_check_info x) @
     le_bytes (ei_target_id x) @ le_bytes (ei_requestor_id x) @ le_bytes (ei_responder_id x) @
     le_bytes (ei_ip x)"

definition ia_err_info_ok :: "cper_ia_err_info \<Rightarrow> bool" where
  "ia_err_info_ok x \<longleftrightarrow> length (ei_err_type x) = 16"

definition ia_err_info_of :: "u8 list \<Rightarrow> cper_ia_err_info" where
  "ia_err_info_of bs =
     \<lparr>ei_err_type = bytes_at 0 16 bs, ei_validation_bits = word_at 16 bs, ei_check_info = word_at 24 bs,
      ei_target_id = word_at 32 bs, ei_requestor_id = word_at 40 bs, ei_responder_id = word_at 48 bs,
      ei_ip = word_at 56 bs\<rparr>"

record cper_ia_proc_ctx =
  pc_reg_ctx_type :: u16
  pc_reg_arr_size :: u16
  pc_msr_addr :: u32
  pc_mm_reg_addr :: u64

definition ia_proc_ctx_bytes :: "cper_ia_proc_ctx \<Rightarrow> u8 list" where
  "ia_proc_ctx_bytes x =
     le_bytes (pc_reg_ctx_type x) @ le_bytes (pc_reg_arr_size x) @ le_bytes (pc_msr_addr x) @
     le_bytes (pc_mm_reg_addr x)"

definition ia_proc_ctx_of :: "u8 list \<Rightarrow> cper_ia_proc_ctx" where
  "ia_proc_ctx_of bs =
     \<lparr>pc_reg_ctx_type = word_at 0 bs, pc_reg_arr_size = word_at 2 bs, pc_msr_addr = word_at 4 bs,
      pc_mm_reg_addr = word_at 8 bs\<rparr>"

record cper_sec_mem_err =
  me_validation_bits :: u64
  me_error_status :: u64
  me_physical_addr :: u64
  me_physical_addr_mask :: u64
  me_node :: u16
  me_card :: u16
  me_module :: u16
  me_bank :: u16
  me_device :: u16
  me_row :: u16
  me_column :: u16
  me_bit_pos :: u16
  me_requestor_id :: u64
  me_responder_id :: u64
  me_target_id :: u64
  me_error_type :: u8

definition sec_mem_err_bytes :: "cper_sec_mem_err \<Rightarrow> u8 list" where
  "sec_mem_err_bytes x =
     le_bytes (me_validation_bits x) @ le_bytes (me_error_status x) @ le_bytes (me_physical_addr x) @
     le_bytes (me_physical_addr_mask x) @ le_bytes (me_node x) @ le_bytes (me_card x) @
     le_bytes (me_module x) @ le_bytes (me_bank x) @ le_bytes (me_device x) @ le_bytes (me_row x) @
     le_bytes (me_column x) @ le_bytes (me_bit_pos x) @ le_bytes (me_requestor_id x) @
     le_bytes (me_responder_id x) @ le_bytes (me_target_id x) @ le_bytes (me_error_type x)"

definition sec_mem_err_of :: "u8 list \<Rightarrow> cper_sec_mem_err" where
  "sec_mem_err_of bs =
     \<lparr>me_validation_bits = word_at 0 bs, me_error_status = word_at 8 bs, me_physical_addr = word_at 16 bs,
      me_physical_addr_mask = word_at 24 bs, me_node = word_at 32 bs, me_card = word_at 34 bs,
      me_module = word_at 36 bs, me_bank = word_at 38 bs, me_device = word_at 40 bs,
      me_row = word_at 42 bs, me_column = word_at 44 bs, me_bit_pos = word_at 46 bs,
      me_requestor_id = word_at 48 bs, me_responder_id = word_at 56 bs, me_target_id = word_at 64 bs,
      me_error_type = word_at 72 bs\<rparr>"

section \<open>From memory to the structure and back\<close>

text \<open>The interface: a packed structure of \<open>len\<close> bytes.\<close>

locale packed =
  fixes enc :: "'a \<Rightarrow> u8 list" and dec :: "u8 list \<Rightarrow> 'a" and ok :: "'a \<Rightarrow> bool" and len :: nat
  assumes enc_length: "ok x \<Longrightarrow> length (enc x) = len"
    and dec_enc: "ok x \<Longrightarrow> dec (enc x @ rest) = x"
begin

lemma dec_at: "ok x \<Longrightarrow> length front = off \<Longrightarrow> dec (drop off (front @ enc x @ rest)) = x"
  by (simp add: dec_enc)

lemma enc_inj: "ok x \<Longrightarrow> ok y \<Longrightarrow> enc x @ r = enc y @ s \<Longrightarrow> x = y \<and> r = s"
  using dec_enc [of x r] dec_enc [of y s] by (metis same_append_eq)

end

lemma bytes_at_skip: "length a \<le> off \<Longrightarrow> bytes_at off n (a @ r) = bytes_at (off - length a) n r"
  by (simp add: bytes_at_def)

lemma bytes_at_here: "length a = n \<Longrightarrow> bytes_at 0 n (a @ r) = a"
  by (simp add: bytes_at_def)

lemma word_at_skip: "length a \<le> off \<Longrightarrow> word_at off (a @ r) = word_at (off - length a) r"
  by (simp add: word_at_def bytes_at_skip)

lemma word_at_here: "8 dvd LENGTH('a) \<Longrightarrow> word_at 0 (le_bytes (w :: 'a::len word) @ r) = w"
  by (simp add: word_at_def bytes_at_here)

lemmas layout = bytes_at_skip bytes_at_here word_at_skip word_at_here

interpretation rh: packed record_header_bytes record_header_of record_header_ok 128
  by unfold_locales (simp_all add: record_header_bytes_def record_header_of_def record_header_ok_def layout)

interpretation sd: packed section_descriptor_bytes section_descriptor_of section_descriptor_ok 72
  by unfold_locales (simp_all add: section_descriptor_bytes_def section_descriptor_of_def section_descriptor_ok_def layout)

interpretation pg: packed sec_proc_generic_bytes sec_proc_generic_of sec_proc_generic_ok 192
  by unfold_locales (simp_all add: sec_proc_generic_bytes_def sec_proc_generic_of_def sec_proc_generic_ok_def layout)

interpretation pi: packed sec_proc_ia_bytes sec_proc_ia_of sec_proc_ia_ok 57
  by unfold_locales (simp_all add: sec_proc_ia_bytes_def sec_proc_ia_of_def sec_proc_ia_ok_def layout)

interpretation ei: packed ia_err_info_bytes ia_err_info_of ia_err_info_ok 64
  by unfold_locales (simp_all add: ia_err_info_bytes_def ia_err_info_of_def ia_err_info_ok_def layout)

interpretation pc: packed ia_proc_ctx_bytes ia_proc_ctx_of "\<lambda>_. True" 16
  by unfold_locales (simp_all add: ia_proc_ctx_bytes_def ia_proc_ctx_of_def layout)

interpretation me: packed sec_mem_err_bytes sec_mem_err_of "\<lambda>_. True" 73
  by unfold_locales (simp_all add: sec_mem_err_bytes_def sec_mem_err_of_def layout)

lemma length_LGUID [simp]: "length (LGUID a b c d0 d1 d2 d3 d4 d5 d6 d7) = 16"
  by (simp add: LGUID_def)

end
