(* ===== verification/Erst.thy ===== *)
theory Erst
  imports Cper Poison_Base
begin

text \<open>
  \<open>cases/function/erst-inject/erst-inject.c\<close>: writes, reads, counts and clears error records in the persistent store
  of the firmware, through the device \<open>/dev/erst_dbg\<close>. The device and \<open>malloc\<close> are functions on a world; the only
  global is what the program has printed.
\<close>

section \<open>The device\<close>

record 'w erst_dev =
  e_malloc :: "nat \<Rightarrow> 'w \<Rightarrow> u8 list option \<times> 'w"
  e_open :: "string \<Rightarrow> 'w \<Rightarrow> int \<times> 'w"
  e_write :: "int \<Rightarrow> u8 list \<Rightarrow> 'w \<Rightarrow> int \<times> 'w"
  e_read :: "int \<Rightarrow> nat \<Rightarrow> 'w \<Rightarrow> (int \<times> u8 list) \<times> 'w"
  e_clear :: "int \<Rightarrow> u64 \<Rightarrow> 'w \<Rightarrow> int \<times> 'w"
  e_count :: "int \<Rightarrow> 'w \<Rightarrow> (int \<times> u32) \<times> 'w"
  e_close :: "int \<Rightarrow> 'w \<Rightarrow> int \<times> 'w"

type_synonym ('w, 'a) erst_act = "(string list, 'w, 'a) act"

definition ERST_DEV :: string where "ERST_DEV = ''/dev/erst_dbg''"

definition CPER_CREATOR_LINUX :: lguid where
  "CPER_CREATOR_LINUX = LGUID 0x94DB0E05 0xEE60 0x42D8 0x91 0xA5 0xC6 0xC0 0x02 0x41 0x6C 0x6A"

definition error_exit :: "('w, 'a) erst_act" where
  "error_exit = halt (Exit (-1))"

definition erst_print :: "string \<Rightarrow> ('w, unit) erst_act" where
  "erst_print s = upd (\<lambda>out. out @ [s @ [NL]])"

section \<open>The record that is injected\<close>

definition ascii :: "string \<Rightarrow> u8 list" where
  "ascii s = map (\<lambda>c. of_nat (of_char c)) s"

definition SIZEOF_HEADER :: nat where "SIZEOF_HEADER = 128"
definition SIZEOF_SECTION :: nat where "SIZEOF_SECTION = 72"
definition SIZEOF_MEM_ERR :: nat where "SIZEOF_MEM_ERR = 73"

definition erst_len :: u32 where
  "erst_len = of_nat (SIZEOF_HEADER + SIZEOF_SECTION + SIZEOF_MEM_ERR)"

definition rcd_hdr :: "u64 \<Rightarrow> cper_record_header" where
  "rcd_hdr record_id =
     \<lparr>rh_signature = ascii ''CPER'', rh_revision = 0x0100, rh_signature_end = 0xffffffff, rh_section_count = 1,
      rh_error_severity = CPER_SER_FATAL, rh_validation_bits = 0, rh_record_length = erst_len, rh_timestamp = 0,
      rh_platform_id = replicate 16 0, rh_partition_id = replicate 16 0, rh_creator_id = CPER_CREATOR_LINUX,
      rh_notification_type = CPER_NOTIFY_NMI, rh_record_id = record_id, rh_flags = 0,
      rh_persistence_information = le_word (ascii ''ER''), rh_reserved = replicate 12 0\<rparr>"

definition sec_hdr :: cper_section_descriptor where
  "sec_hdr =
     \<lparr>sd_section_offset = of_nat (SIZEOF_HEADER + SIZEOF_SECTION), sd_section_length = of_nat SIZEOF_MEM_ERR,
      sd_revision = 0x0100, sd_validation_bits = 0, sd_reserved = 0, sd_flags = 0,
      sd_section_type = CPER_SEC_PLATFORM_MEM, sd_fru_id = replicate 16 0, sd_section_severity = CPER_SER_FATAL,
      sd_fru_text = replicate 20 0\<rparr>"

definition mem_err :: cper_sec_mem_err where
  "mem_err =
     \<lparr>me_validation_bits = 0x6, me_error_status = 0, me_physical_addr = 0x2000, me_physical_addr_mask = NOT 0xfff,
      me_node = 0, me_card = 0, me_module = 0, me_bank = 0, me_device = 0, me_row = 0, me_column = 0, me_bit_pos = 0,
      me_requestor_id = 0, me_responder_id = 0, me_target_id = 0, me_error_type = 0\<rparr>"

definition erst_record :: "u64 \<Rightarrow> u8 list" where
  "erst_record record_id =
     record_header_bytes (rcd_hdr record_id) @ section_descriptor_bytes sec_hdr @ sec_mem_err_bytes mem_err"

section \<open>The operations\<close>

definition erst_inject :: "'w erst_dev \<Rightarrow> int \<Rightarrow> u64 \<Rightarrow> ('w, unit) erst_act" where
  "erst_inject d fd record_id =
     sseq (erst_print (''sizes: '' @ show_dec SIZEOF_HEADER @ '', '' @ show_dec SIZEOF_SECTION @ '', '' @ show_dec SIZEOF_MEM_ERR))
    (sbind (call (e_malloc d (unat erst_len))) (\<lambda>p. case p of
        None \<Rightarrow> error_exit
      | Some _ \<Rightarrow>
          sbind (call (e_write d fd (erst_record record_id))) (\<lambda>rc.
            if (word_of_int rc :: u32) \<noteq> erst_len then error_exit else nop)))"

definition POLL_BUF_SIZ :: nat where "POLL_BUF_SIZ = 1024 * 1024"

text \<open>The C string at the beginning of a buffer.\<close>

definition string_at :: "u8 list \<Rightarrow> string option" where
  "string_at bs = (if 0 \<in> set bs then Some (map (\<lambda>b. char_of (unat b)) (takeWhile (\<lambda>b. b \<noteq> 0) bs)) else None)"

text \<open>
  The buffer holds what \<open>read\<close> gave, and after it what \<open>malloc\<close> left there; the signature has no terminator of its
  own.
\<close>

definition poll :: "'w erst_dev \<Rightarrow> int \<Rightarrow> ('w, int) erst_act" where
  "poll d fd =
     sbind (call (e_malloc d POLL_BUF_SIZ)) (\<lambda>p. case p of
        None \<Rightarrow> error_exit
      | Some junk \<Rightarrow>
          sbind (call (e_read d fd POLL_BUF_SIZ)) (\<lambda>(rc, bs).
            if rc < 0 then error_exit
            else
              let buf = bs @ drop (length bs) junk
              in sseq (erst_print (''rc: '' @ show_int rc))
                (case string_at buf of
                   None \<Rightarrow> halt (Undef ''no NUL in the buffer'')
                 | Some s \<Rightarrow>
                     sseq (erst_print (''rcd sig: '' @ fmt_right 4 s))
                    (sseq (erst_print (''rcd id: 0x'' @ show_hex (unat (rh_record_id (record_header_of buf)))))
                       (ret rc)))))"

definition clear :: "'w erst_dev \<Rightarrow> int \<Rightarrow> u64 \<Rightarrow> ('w, unit) erst_act" where
  "clear d fd record_id =
     sseq (erst_print (''clear an error record: id = 0x'' @ show_hex (unat record_id)))
    (sbind (call (e_clear d fd record_id)) (\<lambda>rc. if rc \<noteq> 0 then error_exit else nop))"

definition get_record_count :: "'w erst_dev \<Rightarrow> int \<Rightarrow> ('w, u32) erst_act" where
  "get_record_count d fd =
     sbind (call (e_count d fd)) (\<lambda>(rc, n).
       if rc \<noteq> 0 then error_exit
       else sseq (erst_print (''total error record count: '' @ show_dec (unat n))) (ret n))"

section \<open>main\<close>

datatype erst_todo = ERST_INJECT | ERST_POLL | ERST_CLEAR | ERST_COUNT | ERST_MAX

definition erst_usage :: "('w, unit) erst_act" where
  "erst_usage =
     each erst_print
       [''Usage: ./erst-inject [option] <id>'', ''PAY ATTENTION, <id> is hexadecimal.'',
        TAB # ''p'' @ TAB # ''return all error records in the ERST'',
        TAB # ''i'' @ TAB # ''write an error record to be persisted into one item with <id>'',
        TAB # ''c'' @ TAB # ''clean specific error record with <id>'',
        TAB # ''n'' @ TAB # ''return error records count in the ERST'',
        NL # ''Example:'' @ TAB # '' ./erst-inject -p'',
        TAB # TAB # '' ./erst-inject -i 0x1234567'', TAB # TAB # '' ./erst-inject -c 5050'',
        TAB # TAB # '' ./erst-inject -n'']"

text \<open>Options that \<open>getopt\<close> does not know are ignored; the last of the others counts.\<close>

fun erst_options :: "(char \<times> string) list \<Rightarrow> erst_todo \<times> u64 \<Rightarrow> erst_todo \<times> u64" where
  "erst_options [] s = s"
| "erst_options ((c, arg) # os) (todo, record_id) =
     erst_options os
       (if c = CHR ''p'' then (ERST_POLL, record_id)
        else if c = CHR ''i'' then (ERST_INJECT, fst (strtoull 16 arg))
        else if c = CHR ''c'' then (ERST_CLEAR, fst (strtoull 16 arg))
        else if c = CHR ''n'' then (ERST_COUNT, record_id)
        else (todo, record_id))"

text \<open>\<open>while (poll(fd));\<close> for at most \<open>n\<close> rounds: \<open>False\<close> when it has not ended then.\<close>

fun poll_loop :: "nat \<Rightarrow> 'w erst_dev \<Rightarrow> int \<Rightarrow> ('w, bool) erst_act" where
  "poll_loop 0 d fd = ret False"
| "poll_loop (Suc n) d fd = sbind (poll d fd) (\<lambda>rc. if rc \<noteq> 0 then poll_loop n d fd else ret True)"

definition erst_do :: "nat \<Rightarrow> 'w erst_dev \<Rightarrow> int \<Rightarrow> erst_todo \<times> u64 \<Rightarrow> ('w, bool) erst_act" where
  "erst_do n d fd = (\<lambda>(todo, record_id). case todo of
       ERST_INJECT \<Rightarrow> sseq (erst_inject d fd record_id) (ret True)
     | ERST_POLL \<Rightarrow> poll_loop n d fd
     | ERST_CLEAR \<Rightarrow> sseq (clear d fd record_id) (ret True)
     | ERST_COUNT \<Rightarrow> sseq (get_record_count d fd) (ret True)
     | ERST_MAX \<Rightarrow> sseq erst_usage (ret True))"

text \<open>\<open>args\<close> are the options, \<open>None\<close> a command line without any argument. The result is \<open>None\<close> when \<open>n\<close> rounds of
  the loop are not enough.\<close>

definition erst_main :: "nat \<Rightarrow> 'w erst_dev \<Rightarrow> (char \<times> string) list option \<Rightarrow> ('w, int option) erst_act" where
  "erst_main n d args =
     (case args of
        None \<Rightarrow> sseq erst_usage (halt (Exit 0))
      | Some os \<Rightarrow>
          sbind (call (e_open d ERST_DEV)) (\<lambda>fd.
            if fd < 0 then error_exit
            else sbind (erst_do n d fd (erst_options os (ERST_MAX, 0x12345678))) (\<lambda>ended.
              if ended then sseq (call (e_close d fd)) (ret (Some 0)) else ret None)))"

section \<open>The record\<close>

lemma length_ascii [simp]: "length (ascii s) = length s"
  by (simp add: ascii_def)

lemmas rcd_hdr_fields [simp] = rcd_hdr_def sec_hdr_def

lemma record_parts_ok: "record_header_ok (rcd_hdr i)" "section_descriptor_ok sec_hdr"
  by (simp_all add: record_header_ok_def section_descriptor_ok_def CPER_CREATOR_LINUX_def CPER_NOTIFY_NMI_def
      CPER_SEC_PLATFORM_MEM_def)

declare rcd_hdr_fields [simp del]

lemma length_erst_record [simp]: "length (erst_record i) = 273"
  using rh.enc_length [OF record_parts_ok(1)] sd.enc_length [OF record_parts_ok(2)]
  by (simp add: erst_record_def me.enc_length)

lemma header_of_record [simp]: "record_header_of (erst_record i @ r) = rcd_hdr i"
  by (simp add: erst_record_def rh.dec_enc [OF record_parts_ok(1)])

text \<open>
  C35. What \<open>inject\<close> writes is consistent in itself: the length in the header is that of the record, offset and length of its only
  section lead to the memory error and to the end, and the id is the one that was asked for. The signature is not the one
  that \<open>cper.h\<close> demands: the record starts with \<open>CPER\<close>, which is \<open>CPER_SIG_RECORD\<close> (and the comment "must be REPC") backwards,
  and ends with the 0 of the revision behind it.
\<close>

theorem erst_record_layout:
  "let bs = erst_record i; h = record_header_of bs; s = section_descriptor_of (drop 128 bs)
   in length bs = unat (rh_record_length h) \<and> rh_section_count h = 1 \<and> rh_record_id h = i
    \<and> unat (sd_section_offset s) + unat (sd_section_length s) = length bs
    \<and> sec_mem_err_of (drop (unat (sd_section_offset s)) bs) = mem_err
    \<and> record_header_ok h \<and> section_descriptor_ok s \<and> take 6 bs = ascii ''CPER'' @ [0, 1]
    \<and> rh_signature h \<noteq> ascii CPER_SIG_RECORD \<and> rh_signature h = rev (ascii CPER_SIG_RECORD)"
proof -
  have h: "record_header_of (erst_record i) = rcd_hdr i" using header_of_record [of i "[]"] by simp
  have len: "length (record_header_bytes (rcd_hdr i)) = 128" "length (section_descriptor_bytes sec_hdr) = 72"
    using rh.enc_length [OF record_parts_ok(1)] sd.enc_length [OF record_parts_ok(2)] by simp_all
  have s: "section_descriptor_of (drop 128 (erst_record i)) = sec_hdr"
    using sd.dec_enc [OF record_parts_ok(2)] len(1) by (simp add: erst_record_def)
  have m: "sec_mem_err_of (drop 200 (erst_record i)) = mem_err"
    using me.dec_enc [of mem_err "[]"] len by (simp add: erst_record_def)
  have sig: "take 6 (erst_record i) = ascii ''CPER'' @ [0, 1]"
    by (simp add: erst_record_def record_header_bytes_def rcd_hdr_def le_bytes_def upt_rec)
  have "unat (rh_record_length (rcd_hdr i)) = 273" "rh_section_count (rcd_hdr i) = 1" "rh_record_id (rcd_hdr i) = i"
    "unat (sd_section_offset sec_hdr) = 200" "unat (sd_section_length sec_hdr) = 73"
    by (simp_all add: rcd_hdr_def sec_hdr_def erst_len_def SIZEOF_HEADER_def SIZEOF_SECTION_def SIZEOF_MEM_ERR_def)
  moreover have "rh_signature (rcd_hdr i) = rev (ascii CPER_SIG_RECORD)" "rev (ascii CPER_SIG_RECORD) \<noteq> ascii CPER_SIG_RECORD"
    by (simp_all add: rcd_hdr_def CPER_SIG_RECORD_def ascii_def)
  ultimately show ?thesis using m sig record_parts_ok by (simp add: Let_def h s)
qed

lemma string_at_record: "string_at (erst_record i @ r) = Some ''CPER''"
proof -
  obtain t where "erst_record i = [67, 80, 69, 82, 0] @ t"
    by (simp add: erst_record_def record_header_bytes_def rcd_hdr_def le_bytes_def upt_rec ascii_def)
  moreover have "char_of (67::nat) = CHR ''C''" "char_of (80::nat) = CHR ''P''" "char_of (69::nat) = CHR ''E''"
    "char_of (82::nat) = CHR ''R''" by code_simp+
  ultimately show ?thesis by (simp add: string_at_def)
qed

section \<open>A store that keeps its promises\<close>

text \<open>
  \<open>stored\<close> are the records of the device under their ids, \<open>unread\<close> what the open device has still to give. The device
  takes a record whose header is right, under the id in it, and gives after \<open>open\<close> each of its records once, in some
  order, and then nothing; it clears a record it has, and it counts them. No buffer of \<open>malloc\<close> is without a NUL.
\<close>

definition acceptable :: "u8 list \<Rightarrow> bool" where
  "acceptable bs \<longleftrightarrow> 128 \<le> length bs \<and> take 4 bs = ascii ''CPER'' \<and> unat (rh_record_length (record_header_of bs)) = length bs"

definition erst_law :: "'w erst_dev \<Rightarrow> ('w \<Rightarrow> u64 \<rightharpoonup> u8 list) \<Rightarrow> ('w \<Rightarrow> u8 list list) \<Rightarrow> bool" where
  "erst_law d stored unread \<longleftrightarrow>
     (\<forall>n w. 0 < n \<longrightarrow> (\<exists>junk w'. e_malloc d n w = (Some junk, w') \<and> length junk = n \<and> 0 \<in> set junk \<and> stored w' = stored w
        \<and> unread w' = unread w))
   \<and> (\<forall>w. \<exists>fd ids w'. e_open d ERST_DEV w = (fd, w') \<and> 0 \<le> fd \<and> stored w' = stored w
        \<and> distinct ids \<and> set ids = dom (stored w) \<and> unread w' = map (the \<circ> stored w) ids)
   \<and> (\<forall>fd bs w. acceptable bs \<longrightarrow> (\<exists>w'. e_write d fd bs w = (int (length bs), w')
        \<and> stored w' = (stored w)(rh_record_id (record_header_of bs) \<mapsto> bs)))
   \<and> (\<forall>fd n w. \<exists>w'. stored w' = stored w \<and> (case unread w of
          [] \<Rightarrow> e_read d fd n w = ((0, []), w') \<and> unread w' = []
        | r # rs \<Rightarrow> length r \<le> n \<longrightarrow> e_read d fd n w = ((int (length r), r), w') \<and> unread w' = rs))
   \<and> (\<forall>fd i w. \<exists>rc w'. e_clear d fd i w = (rc, w') \<and> (rc = 0 \<longleftrightarrow> i \<in> dom (stored w)) \<and> stored w' = (stored w)(i := None))
   \<and> (\<forall>fd w. \<exists>w'. e_count d fd w = ((0, of_nat (card (dom (stored w)))), w') \<and> stored w' = stored w)
   \<and> (\<forall>fd w. stored (snd (e_close d fd w)) = stored w)"

lemma erst_laws:
  assumes "erst_law d stored unread"
  shows erst_malloc: "0 < n \<Longrightarrow>
        \<exists>junk w'. e_malloc d n w = (Some junk, w') \<and> 0 \<in> set junk \<and> stored w' = stored w \<and> unread w' = unread w"
    and erst_open: "\<exists>fd ids w'. e_open d ERST_DEV w = (fd, w') \<and> 0 \<le> fd \<and> stored w' = stored w
        \<and> distinct ids \<and> set ids = dom (stored w) \<and> unread w' = map (the \<circ> stored w) ids"
    and erst_write: "acceptable bs \<Longrightarrow> \<exists>w'. e_write d fd bs w = (int (length bs), w')
        \<and> stored w' = (stored w)(rh_record_id (record_header_of bs) \<mapsto> bs)"
    and erst_read_end: "unread w = [] \<Longrightarrow> \<exists>w'. e_read d fd n w = ((0, []), w') \<and> stored w' = stored w \<and> unread w' = []"
    and erst_read_next: "unread w = r # rs \<Longrightarrow> length r \<le> n \<Longrightarrow>
        \<exists>w'. e_read d fd n w = ((int (length r), r), w') \<and> stored w' = stored w \<and> unread w' = rs"
    and erst_clear: "\<exists>rc w'. e_clear d fd i w = (rc, w') \<and> (rc = 0 \<longleftrightarrow> i \<in> dom (stored w)) \<and> stored w' = (stored w)(i := None)"
    and erst_count: "\<exists>w'. e_count d fd w = ((0, of_nat (card (dom (stored w)))), w') \<and> stored w' = stored w"
    and erst_close: "stored (snd (e_close d fd w)) = stored w"
proof -
  note law = assms [unfolded erst_law_def]
  show "\<exists>junk w'. e_malloc d n w = (Some junk, w') \<and> 0 \<in> set junk \<and> stored w' = stored w \<and> unread w' = unread w"
    if "0 < n" using conjunct1 [OF law] that by metis
  show "\<exists>fd ids w'. e_open d ERST_DEV w = (fd, w') \<and> 0 \<le> fd \<and> stored w' = stored w
      \<and> distinct ids \<and> set ids = dom (stored w) \<and> unread w' = map (the \<circ> stored w) ids"
    using law by blast
  show "\<exists>w'. e_write d fd bs w = (int (length bs), w') \<and> stored w' = (stored w)(rh_record_id (record_header_of bs) \<mapsto> bs)"
    if "acceptable bs" using law that by blast
  have read: "\<exists>w'. stored w' = stored w \<and> (case unread w of
          [] \<Rightarrow> e_read d fd n w = ((0, []), w') \<and> unread w' = []
        | r # rs \<Rightarrow> length r \<le> n \<longrightarrow> e_read d fd n w = ((int (length r), r), w') \<and> unread w' = rs)"
    using law by blast
  show "\<exists>w'. e_read d fd n w = ((0, []), w') \<and> stored w' = stored w \<and> unread w' = []" if "unread w = []"
    using read that by auto
  show "\<exists>w'. e_read d fd n w = ((int (length r), r), w') \<and> stored w' = stored w \<and> unread w' = rs"
    if "unread w = r # rs" "length r \<le> n" using read that by auto
  show "\<exists>rc w'. e_clear d fd i w = (rc, w') \<and> (rc = 0 \<longleftrightarrow> i \<in> dom (stored w)) \<and> stored w' = (stored w)(i := None)"
    using law by blast
  show "\<exists>w'. e_count d fd w = ((0, of_nat (card (dom (stored w)))), w') \<and> stored w' = stored w"
    using law by blast
  show "stored (snd (e_close d fd w)) = stored w" using law by blast
qed

lemma acceptable_record: "acceptable (erst_record i)"
proof -
  have "take 4 (erst_record i) = ascii ''CPER''"
    by (simp add: erst_record_def record_header_bytes_def rcd_hdr_def)
  moreover have "unat (rh_record_length (record_header_of (erst_record i))) = 273"
    using header_of_record [of i "[]"]
    by (simp add: rcd_hdr_def erst_len_def SIZEOF_HEADER_def SIZEOF_SECTION_def SIZEOF_MEM_ERR_def)
  ultimately show ?thesis by (simp add: acceptable_def)
qed

lemma inject_stores:
  assumes "erst_law d stored unread"
  shows "\<exists>w'. erst_inject d fd i (out, w) = (Inr (), out @ [''sizes: 128, 72, 73'' @ [NL]], w')
    \<and> stored w' = (stored w)(i \<mapsto> erst_record i)"
proof -
  have len: "unat erst_len = 273" by (simp add: erst_len_def SIZEOF_HEADER_def SIZEOF_SECTION_def SIZEOF_MEM_ERR_def)
  obtain junk w1 where 1: "e_malloc d (unat erst_len) w = (Some junk, w1)" "stored w1 = stored w"
    using erst_malloc [OF assms, of "unat erst_len" w] len by auto
  obtain w2 where 2: "e_write d fd (erst_record i) w1 = (273, w2)" "stored w2 = (stored w1)(i \<mapsto> erst_record i)"
    using erst_write [OF assms acceptable_record, of fd i w1] header_of_record [of i "[]"] by (auto simp: rcd_hdr_def)
  have "show_dec SIZEOF_HEADER = ''128''" "show_dec SIZEOF_SECTION = ''72''" "show_dec SIZEOF_MEM_ERR = ''73''"
    by (simp_all add: SIZEOF_HEADER_def SIZEOF_SECTION_def SIZEOF_MEM_ERR_def show_base.simps digit_char_def)
  moreover have "(273 :: u32) = erst_len" by (simp add: erst_len_def SIZEOF_HEADER_def SIZEOF_SECTION_def SIZEOF_MEM_ERR_def)
  ultimately show ?thesis using 1 2 by (simp add: erst_inject_def erst_print_def act_run)
qed

section \<open>Reading them back\<close>

definition poll_lines :: "u64 \<Rightarrow> string list" where
  "poll_lines i = [''rc: 273'' @ [NL], ''rcd sig: CPER'' @ [NL], ''rcd id: 0x'' @ show_hex (unat i) @ [NL]]"

lemma poll_record:
  assumes "erst_law d stored unread" "unread w = erst_record i # rs"
  shows "\<exists>w'. poll d fd (out, w) = (Inr 273, out @ poll_lines i, w') \<and> stored w' = stored w \<and> unread w' = rs"
proof -
  obtain junk w1 where 1: "e_malloc d POLL_BUF_SIZ w = (Some junk, w1)" "stored w1 = stored w" "unread w1 = unread w"
    using erst_malloc [OF assms(1), of POLL_BUF_SIZ w] by (auto simp: POLL_BUF_SIZ_def)
  obtain w2 where 2: "e_read d fd POLL_BUF_SIZ w1 = ((273, erst_record i), w2)" "stored w2 = stored w1" "unread w2 = rs"
    using erst_read_next [OF assms(1), of w1 "erst_record i" rs POLL_BUF_SIZ fd] 1 assms(2) by (auto simp: POLL_BUF_SIZ_def)
  have "show_int 273 = ''273''" by (simp add: show_int_def show_base.simps digit_char_def)
  moreover have "fmt_right 4 ''CPER'' = ''CPER''" by (simp add: fmt_right_def)
  ultimately show ?thesis
    using 1 2 by (simp add: poll_def erst_print_def poll_lines_def act_run string_at_record rcd_hdr_def Let_def)
qed

lemma poll_end:
  assumes "erst_law d stored unread" "unread w = []"
  shows "\<exists>s i w'. poll d fd (out, w) = (Inr 0, out @ [''rc: 0'' @ [NL], ''rcd sig: '' @ s @ [NL], ''rcd id: 0x'' @ i @ [NL]], w')
    \<and> stored w' = stored w"
proof -
  obtain junk w1 where 1: "e_malloc d POLL_BUF_SIZ w = (Some junk, w1)" "0 \<in> set junk" "stored w1 = stored w" "unread w1 = []"
    using erst_malloc [OF assms(1), of POLL_BUF_SIZ w] assms(2) by (auto simp: POLL_BUF_SIZ_def)
  obtain w2 where 2: "e_read d fd POLL_BUF_SIZ w1 = ((0, []), w2)" "stored w2 = stored w1"
    using erst_read_end [OF assms(1)] 1(4) by blast
  have "show_int 0 = ''0''" by (simp add: show_int_def show_base.simps digit_char_def)
  with 1 2 show ?thesis
    by (simp add: poll_def erst_print_def act_run string_at_def Let_def)
qed

lemma poll_loop_all:
  assumes "erst_law d stored unread" "unread w = map erst_record ids" "length ids < n"
  shows "\<exists>s i w'. poll_loop n d fd (out, w) = (Inr True, out @ concat (map poll_lines ids)
      @ [''rc: 0'' @ [NL], ''rcd sig: '' @ s @ [NL], ''rcd id: 0x'' @ i @ [NL]], w') \<and> stored w' = stored w"
  using assms(2,3)
proof (induction ids arbitrary: n w out)
  case Nil
  then obtain m where n: "n = Suc m" by (cases n) auto
  with poll_end [OF assms(1), of w fd out] Nil show ?case by (auto simp: act_run)
next
  case (Cons j ids)
  then obtain m where n: "n = Suc m" by (cases n) auto
  obtain w1 where 1: "poll d fd (out, w) = (Inr 273, out @ poll_lines j, w1)" "stored w1 = stored w"
      "unread w1 = map erst_record ids"
    using poll_record [OF assms(1)] Cons.prems by fastforce
  then show ?case
    using Cons.IH [OF 1(3), of m "out @ poll_lines j"] Cons.prems(2) by (auto simp: n act_run)
qed

text \<open>The state of a store that \<open>erst-inject\<close> alone has filled.\<close>

definition own_records :: "(u64 \<rightharpoonup> u8 list) \<Rightarrow> bool" where
  "own_records m \<longleftrightarrow> (\<forall>i r. m i = Some r \<longrightarrow> r = erst_record i)"

lemma erst_main_poll:
  assumes "erst_law d stored unread" "own_records (stored w)" "card (dom (stored w)) < n"
  shows "\<exists>ids s i w'. distinct ids \<and> set ids = dom (stored w) \<and> stored w' = stored w \<and>
    erst_main n d (Some [(CHR ''p'', arg)]) (out, w) = (Inr (Some 0), out @ concat (map poll_lines ids)
      @ [''rc: 0'' @ [NL], ''rcd sig: '' @ s @ [NL], ''rcd id: 0x'' @ i @ [NL]], w')"
proof -
  obtain fd ids w1 where 1: "e_open d ERST_DEV w = (fd, w1)" "0 \<le> fd" "stored w1 = stored w" "distinct ids"
      "set ids = dom (stored w)" "unread w1 = map (the \<circ> stored w) ids"
    using erst_open [OF assms(1), of w] by blast
  have "map (the \<circ> stored w) ids = map erst_record ids"
    using 1(5) assms(2) by (intro map_cong) (auto simp: own_records_def)
  moreover have "length ids < n" using assms(3) 1(4,5) by (metis distinct_card)
  ultimately obtain s i w2 where 2: "poll_loop n d fd (out, w1) = (Inr True, out @ concat (map poll_lines ids)
      @ [''rc: 0'' @ [NL], ''rcd sig: '' @ s @ [NL], ''rcd id: 0x'' @ i @ [NL]], w2)" "stored w2 = stored w1"
    using poll_loop_all [OF assms(1)] 1(6) by metis
  obtain rc w3 where 3: "e_close d fd w2 = (rc, w3)" by (cases "e_close d fd w2")
  with erst_close [OF assms(1), of fd w2] have "stored w3 = stored w2" by simp
  with 1 2 3 show ?thesis
    by (intro exI [of _ ids]) (simp add: erst_main_def erst_do_def act_run)
qed

lemma erst_main_inject:
  assumes "erst_law d stored unread"
  shows "\<exists>w'. erst_main n d (Some [(CHR ''i'', arg)]) (out, w) = (Inr (Some 0), out @ [''sizes: 128, 72, 73'' @ [NL]], w')
    \<and> stored w' = (stored w)(fst (strtoull 16 arg) \<mapsto> erst_record (fst (strtoull 16 arg)))"
proof -
  let ?i = "fst (strtoull 16 arg)"
  obtain fd ids w1 where 1: "e_open d ERST_DEV w = (fd, w1)" "0 \<le> fd" "stored w1 = stored w"
    using erst_open [OF assms(1), of w] by blast
  obtain w2 where 2: "erst_inject d fd ?i (out, w1) = (Inr (), out @ [''sizes: 128, 72, 73'' @ [NL]], w2)"
      "stored w2 = (stored w1)(?i \<mapsto> erst_record ?i)"
    using inject_stores [OF assms] by blast
  obtain rc w3 where 3: "e_close d fd w2 = (rc, w3)" by (cases "e_close d fd w2")
  with erst_close [OF assms(1), of fd w2] have "stored w3 = stored w2" by simp
  with 1 2 3 show ?thesis by (simp add: erst_main_def erst_do_def act_run)
qed

text \<open>One run of \<open>erst-inject -i\<close>.\<close>

definition run_inject :: "nat \<Rightarrow> 'w erst_dev \<Rightarrow> string \<Rightarrow> ('w, unit) erst_act" where
  "run_inject n d arg = sseq (erst_main n d (Some [(CHR ''i'', arg)])) nop"

lemma injections:
  assumes "erst_law d stored unread"
  shows "\<exists>out' w'. each (run_inject n d) args (out, w) = (Inr (), out', w')
    \<and> dom (stored w') = dom (stored w) \<union> (\<lambda>a. fst (strtoull 16 a)) ` set args
    \<and> (own_records (stored w) \<longrightarrow> own_records (stored w'))"
proof (induction args arbitrary: out w)
  case (Cons a args)
  obtain w1 where 1: "erst_main n d (Some [(CHR ''i'', a)]) (out, w) = (Inr (Some 0), out @ [''sizes: 128, 72, 73'' @ [NL]], w1)"
      "stored w1 = (stored w)(fst (strtoull 16 a) \<mapsto> erst_record (fst (strtoull 16 a)))"
    using erst_main_inject [OF assms] by blast
  then have run: "run_inject n d a (out, w) = (Inr (), out @ [''sizes: 128, 72, 73'' @ [NL]], w1)"
    by (simp add: run_inject_def sseq_apply)
  have own: "own_records (stored w) \<longrightarrow> own_records (stored w1)" by (simp add: 1(2) own_records_def)
  have dom: "dom (stored w1) = insert (fst (strtoull 16 a)) (dom (stored w))" by (simp add: 1(2))
  obtain out2 w2 where "each (run_inject n d) args
        (out @ [''sizes: 128, 72, 73'' @ [NL]], w1) = (Inr (), out2, w2)"
      "dom (stored w2) = dom (stored w1) \<union> (\<lambda>a. fst (strtoull 16 a)) ` set args"
      "own_records (stored w1) \<longrightarrow> own_records (stored w2)"
    using Cons.IH [of "out @ [''sizes: 128, 72, 73'' @ [NL]]" w1] by blast
  with run own dom show ?case by (simp add: sseq_apply)
qed simp

text \<open>
  C21. What \<open>erst-inject -i\<close> has written into an empty store, \<open>erst-inject -p\<close> gives back: the signature and the id of each
  record once, whatever order the device has, and it ends. Behind them it prints what \<open>malloc\<close> left in its buffer, as
  the round that reads nothing prints too.
\<close>

theorem erst_roundtrip:
  assumes "erst_law d stored unread" "stored w = Map.empty" "length args < n"
  shows "\<exists>out1 w1 ids s i w2.
    each (run_inject n d) args ([], w) = (Inr (), out1, w1)
    \<and> distinct ids \<and> set ids = (\<lambda>a. fst (strtoull 16 a)) ` set args
    \<and> erst_main n d (Some [(CHR ''p'', [])]) (out1, w1) = (Inr (Some 0), out1 @ concat (map poll_lines ids)
        @ [''rc: 0'' @ [NL], ''rcd sig: '' @ s @ [NL], ''rcd id: 0x'' @ i @ [NL]], w2)"
proof -
  let ?ids = "(\<lambda>a. fst (strtoull 16 a)) ` set args"
  obtain out1 w1 where 1: "each (run_inject n d) args ([], w) = (Inr (), out1, w1)"
      "dom (stored w1) = ?ids" "own_records (stored w1)"
    using injections [OF assms(1), of n args "[]" w] assms(2) by (auto simp: own_records_def)
  have "card ?ids < n" using assms(3) card_image_le [of "set args"] card_length [of args] by (meson finite_set le_less_trans le_trans)
  with erst_main_poll [OF assms(1) 1(3), of n "[]" out1] 1 show ?thesis by metis
qed

text \<open>A device in memory: the records with their ids, the latest first, and what is still to be read.\<close>

type_synonym erst_world = "(u64 \<times> u8 list) list \<times> u8 list list"

definition erst_keys :: "erst_world \<Rightarrow> u64 list" where
  "erst_keys w = remdups (map fst (fst w))"

definition memory_dev :: "erst_world erst_dev" where
  "memory_dev = \<lparr>
     e_malloc = (\<lambda>n w. (Some (replicate n 0), w)),
     e_open = (\<lambda>name w. (3, fst w, map (the \<circ> map_of (fst w)) (erst_keys w))),
     e_write = (\<lambda>fd bs w. (int (length bs), (rh_record_id (record_header_of bs), bs) # fst w, snd w)),
     e_read = (\<lambda>fd n w. case snd w of [] \<Rightarrow> ((0, []), w) | r # rs \<Rightarrow> ((int (length r), r), fst w, rs)),
     e_clear = (\<lambda>fd i w. (if i \<in> set (erst_keys w) then 0 else -1, filter (\<lambda>(j, _). j \<noteq> i) (fst w), snd w)),
     e_count = (\<lambda>fd w. ((0, of_nat (length (erst_keys w))), w)),
     e_close = (\<lambda>fd w. (0, w))\<rparr>"

lemma erst_keys: "distinct (erst_keys w)" "set (erst_keys w) = dom (map_of (fst w))" "length (erst_keys w) = card (dom (map_of (fst w)))"
proof -
  show keys: "distinct (erst_keys w)" "set (erst_keys w) = dom (map_of (fst w))"
    by (simp_all add: erst_keys_def dom_map_of_conv_image_fst)
  show "length (erst_keys w) = card (dom (map_of (fst w)))"
    using distinct_card [OF keys(1)] keys(2) by simp
qed

lemma map_of_cleared: "map_of (filter (\<lambda>(j, _). j \<noteq> i) l) = (map_of l)(i := None)"
  by (induction l) (auto simp: fun_eq_iff)

lemma memory_dev_law: "erst_law memory_dev (\<lambda>w. map_of (fst w)) snd"
  unfolding erst_law_def
proof (intro conjI allI impI)
  fix n w assume "0 < (n :: nat)"
  then show "\<exists>junk w'. e_malloc memory_dev n w = (Some junk, w') \<and> length junk = n \<and> 0 \<in> set junk
      \<and> map_of (fst w') = map_of (fst w) \<and> snd w' = snd w"
    by (simp add: memory_dev_def)
next
  fix w show "\<exists>fd ids w'. e_open memory_dev ERST_DEV w = (fd, w') \<and> 0 \<le> fd \<and> map_of (fst w') = map_of (fst w)
      \<and> distinct ids \<and> set ids = dom (map_of (fst w)) \<and> snd w' = map (the \<circ> map_of (fst w)) ids"
    using erst_keys [of w] by (auto simp: memory_dev_def)
next
  fix fd n and w :: erst_world
  obtain l u where w: "w = (l, u)" by (cases w)
  show "\<exists>w'. map_of (fst w') = map_of (fst w) \<and> (case snd w of
          [] \<Rightarrow> e_read memory_dev fd n w = ((0, []), w') \<and> snd w' = []
        | r # rs \<Rightarrow> length r \<le> n \<longrightarrow> e_read memory_dev fd n w = ((int (length r), r), w') \<and> snd w' = rs)"
    by (cases u) (auto simp: w memory_dev_def)
qed (auto simp: memory_dev_def erst_keys map_of_cleared)

theorem erst_roundtrip_witness:
  "\<exists>out1 w1 s i w2.
    each (run_inject 3 memory_dev) [''0x10'', ''10''] ([], [], []) = (Inr (), out1, w1)
    \<and> erst_main 3 memory_dev (Some [(CHR ''p'', [])]) (out1, w1) = (Inr (Some 0), out1 @ poll_lines 16
        @ [''rc: 0'' @ [NL], ''rcd sig: '' @ s @ [NL], ''rcd id: 0x'' @ i @ [NL]], w2)"
proof -
  have "digit_of 16 CHR ''1'' = Some 1" "digit_of 16 CHR ''0'' = Some 0" by code_simp+
  then have ids: "fst (strtoull 16 ''0x10'') = 16" "fst (strtoull 16 ''10'') = 16"
    by (simp_all add: strtoull_def strto_magnitude_def c_isspace_def)
  obtain out1 w1 ids s i w2 where
      1: "each (run_inject 3 memory_dev) [''0x10'', ''10''] ([], [], []) = (Inr (), out1, w1)"
    and 2: "distinct ids" "set ids = (\<lambda>a. fst (strtoull 16 a)) ` set [''0x10'', ''10'']"
    and 3: "erst_main 3 memory_dev (Some [(CHR ''p'', [])]) (out1, w1) = (Inr (Some 0), out1 @ concat (map poll_lines ids)
        @ [''rc: 0'' @ [NL], ''rcd sig: '' @ s @ [NL], ''rcd id: 0x'' @ i @ [NL]], w2)"
    using erst_roundtrip [OF memory_dev_law, of "([], [])" "[''0x10'', ''10'']" 3] by auto
  from 2 have "set ids = {16}" by (simp add: ids)
  with 2(1) have "ids = [16]" by (cases ids; cases "tl ids") auto
  with 1 3 show ?thesis by auto
qed

section \<open>The other commands\<close>

text \<open>
  C38. \<open>erst-inject -c\<close> removes the record with the id and ends with 0, or with an error when there is none; \<open>-n\<close> prints the
  number of records. Of several of the options the last one counts.
\<close>

theorem erst_commands:
  assumes "erst_law d stored unread"
  shows "(\<exists>out' w'. erst_main n d (Some (os @ [(CHR ''c'', arg)])) (out, w)
        = (if fst (strtoull 16 arg) \<in> dom (stored w) then Inr (Some 0) else Inl (Exit (-1)), out', w')
      \<and> stored w' = (stored w)(fst (strtoull 16 arg) := None))
    \<and> (\<exists>w'. erst_main n d (Some (os @ [(CHR ''n'', arg)])) (out, w)
        = (Inr (Some 0), out @ [''total error record count: '' @ show_dec (unat (of_nat (card (dom (stored w))) :: u32)) @ [NL]], w')
      \<and> stored w' = stored w)"
proof -
  let ?i = "fst (strtoull 16 arg)"
  have opts: "erst_options (os @ os') s = erst_options os' (erst_options os s)" for os' s
    by (induction os s rule: erst_options.induct) auto
  obtain fd ids w1 where 1: "e_open d ERST_DEV w = (fd, w1)" "0 \<le> fd" "stored w1 = stored w"
    using erst_open [OF assms, of w] by blast
  obtain rc w2 where 2: "e_clear d fd ?i w1 = (rc, w2)" "rc = 0 \<longleftrightarrow> ?i \<in> dom (stored w)" "stored w2 = (stored w)(?i := None)"
    using erst_clear [OF assms, of fd ?i w1] 1(3) by auto
  obtain w3 where 3: "e_count d fd w1 = ((0, of_nat (card (dom (stored w)))), w3)" "stored w3 = stored w"
    using erst_count [OF assms, of fd w1] 1(3) by auto
  have closed: "\<exists>rc w4. e_close d fd w' = (rc, w4) \<and> stored w4 = stored w'" for w'
    using erst_close [OF assms, of fd w'] by (cases "e_close d fd w'") simp
  obtain todo j where t: "erst_options os (ERST_MAX, 0x12345678) = (todo, j)" by (cases "erst_options os (ERST_MAX, 0x12345678)")
  have "\<exists>out' w'. erst_main n d (Some (os @ [(CHR ''c'', arg)])) (out, w)
        = (if ?i \<in> dom (stored w) then Inr (Some 0) else Inl (Exit (-1)), out', w') \<and> stored w' = (stored w)(?i := None)"
    using 1 2 closed [of w2] by (auto simp: erst_main_def erst_do_def clear_def erst_print_def error_exit_def opts t act_run)
  moreover have "\<exists>w'. erst_main n d (Some (os @ [(CHR ''n'', arg)])) (out, w)
        = (Inr (Some 0), out @ [''total error record count: '' @ show_dec (unat (of_nat (card (dom (stored w))) :: u32)) @ [NL]], w')
      \<and> stored w' = stored w"
    using 1 3 closed [of w3] by (auto simp: erst_main_def erst_do_def get_record_count_def erst_print_def opts t act_run)
  ultimately show ?thesis by blast
qed

theorem erst_commands_witness:
  "fst (erst_main 0 memory_dev (Some [(CHR ''i'', ''7''), (CHR ''c'', ''5'')]) ([], [], [])) = Inl (Exit (-1))"
  using erst_commands [OF memory_dev_law, of 0 "[(CHR ''i'', ''7'')]" "''5''" "[]" "([], [])"] by auto

end
