(* ===== verification/Dir_Tree.thy ===== *)
theory Dir_Tree
  imports Poison_Base
begin

text \<open>
  The calls on files and directories that \<open>k-tree-gen.c\<close> and \<open>k-tree-trav.c\<close> make, as functions on a world, and what
  a POSIX file system promises of them: each call does to the directory tree and to the working directory what the
  operation of the same name below does.
\<close>

section \<open>The calls\<close>

record 'w fs_os =
  f_open :: "string \<Rightarrow> 'w \<Rightarrow> int \<times> 'w"
  f_dup :: "int \<Rightarrow> 'w \<Rightarrow> int \<times> 'w"
  f_close :: "int \<Rightarrow> 'w \<Rightarrow> int \<times> 'w"
  f_write :: "int \<Rightarrow> string \<Rightarrow> 'w \<Rightarrow> int \<times> 'w"
  f_lseek :: "int \<Rightarrow> int \<Rightarrow> int \<Rightarrow> 'w \<Rightarrow> int \<times> 'w"
  f_read :: "int \<Rightarrow> nat \<Rightarrow> 'w \<Rightarrow> int \<times> 'w"
  f_mkdir :: "string \<Rightarrow> u32 \<Rightarrow> 'w \<Rightarrow> int \<times> 'w"
  f_getcwd :: "'w \<Rightarrow> string option \<times> 'w"
  f_chdir :: "string \<Rightarrow> 'w \<Rightarrow> int \<times> 'w"
  f_link :: "string \<Rightarrow> string \<Rightarrow> 'w \<Rightarrow> int \<times> 'w"
  f_unlink :: "string \<Rightarrow> 'w \<Rightarrow> int \<times> 'w"
  f_rename :: "string \<Rightarrow> string \<Rightarrow> 'w \<Rightarrow> int \<times> 'w"
  f_symlink :: "string \<Rightarrow> string \<Rightarrow> 'w \<Rightarrow> int \<times> 'w"
  f_chmod :: "string \<Rightarrow> u32 \<Rightarrow> 'w \<Rightarrow> int \<times> 'w"

section \<open>The directory tree\<close>

text \<open>A file with its inode, a directory with its mode, a symbolic link. A path is the list of its names from the root.\<close>

datatype fs_node = Reg nat | Dir u32 | Sym string

record fs_view =
  fs_cwd :: "string list"
  fs_tree :: "string list \<rightharpoonup> fs_node"

definition at :: "fs_view \<Rightarrow> string \<Rightarrow> string list" where
  "at v s = fs_cwd v @ [s]"

definition put :: "string list \<Rightarrow> fs_node option \<Rightarrow> fs_view \<Rightarrow> fs_view" where
  "put p n v = v\<lparr>fs_tree := (fs_tree v)(p := n)\<rparr>"

definition path_text :: "string list \<Rightarrow> string" where
  "path_text p = (if p = [] then ''/'' else concat (map (\<lambda>n. CHR ''/'' # n) p))"

fun split_at :: "char \<Rightarrow> string \<Rightarrow> string \<Rightarrow> string list" where
  "split_at c acc [] = [rev acc]"
| "split_at c acc (x # xs) = (if x = c then rev acc # split_at c [] xs else split_at c (x # acc) xs)"

definition path_of :: "string \<Rightarrow> string list" where
  "path_of s = filter (\<lambda>n. n \<noteq> []) (split_at CHR ''/'' [] s)"

text \<open>The bits of a mode that let its owner enter a directory and change it.\<close>

definition may_enter :: "bool \<Rightarrow> fs_node option \<Rightarrow> bool" where
  "may_enter root n \<longleftrightarrow> (case n of Some (Dir m) \<Rightarrow> root \<or> bit m 6 | _ \<Rightarrow> False)"

definition may_change :: "bool \<Rightarrow> fs_node option \<Rightarrow> bool" where
  "may_change root n \<longleftrightarrow> (case n of Some (Dir m) \<Rightarrow> root \<or> bit m 6 \<and> bit m 7 | _ \<Rightarrow> False)"

definition PATH_LIMIT :: nat where "PATH_LIMIT = 4096"

text \<open>Every directory on the way to \<open>p\<close>, \<open>p\<close> included, may be entered.\<close>

definition walkable :: "bool \<Rightarrow> (string list \<rightharpoonup> fs_node) \<Rightarrow> string list \<Rightarrow> bool" where
  "walkable root t p \<longleftrightarrow> (\<forall>k\<le>length p. may_enter root (t (take k p)))"

definition v_mkdir :: "u32 \<Rightarrow> string \<Rightarrow> fs_view \<Rightarrow> fs_view" where
  "v_mkdir mode d v = (if fs_tree v (at v d) = None then put (at v d) (Some (Dir mode)) v else v)"

definition v_chdir :: "bool \<Rightarrow> string \<Rightarrow> fs_view \<Rightarrow> fs_view" where
  "v_chdir root s v =
     (if hdc s = CHR ''/'' then
        (if length s < PATH_LIMIT \<and> walkable root (fs_tree v) (path_of s) then v\<lparr>fs_cwd := path_of s\<rparr> else v)
      else if may_enter root (fs_tree v (at v s)) then v\<lparr>fs_cwd := at v s\<rparr> else v)"

definition v_link :: "string \<Rightarrow> string \<Rightarrow> fs_view \<Rightarrow> fs_view" where
  "v_link a b v =
     (case (fs_tree v (at v a), fs_tree v (at v b)) of
        (Some (Reg i), None) \<Rightarrow> put (at v b) (Some (Reg i)) v
      | _ \<Rightarrow> v)"

definition v_unlink :: "string \<Rightarrow> fs_view \<Rightarrow> fs_view" where
  "v_unlink a v = (case fs_tree v (at v a) of Some (Reg i) \<Rightarrow> put (at v a) None v | _ \<Rightarrow> v)"

text \<open>Renaming to a name that exists: a link to the same file stays, another file is replaced.\<close>

definition v_rename :: "string \<Rightarrow> string \<Rightarrow> fs_view \<Rightarrow> fs_view" where
  "v_rename a b v =
     (case (fs_tree v (at v a), fs_tree v (at v b)) of
        (Some (Reg i), Some (Dir m)) \<Rightarrow> v
      | (Some (Reg i), n) \<Rightarrow> if n = Some (Reg i) then v else put (at v a) None (put (at v b) (Some (Reg i)) v)
      | _ \<Rightarrow> v)"

definition v_symlink :: "string \<Rightarrow> string \<Rightarrow> fs_view \<Rightarrow> fs_view" where
  "v_symlink target s v = (if fs_tree v (at v s) = None then put (at v s) (Some (Sym target)) v else v)"

definition v_chmod :: "string \<Rightarrow> u32 \<Rightarrow> fs_view \<Rightarrow> fs_view" where
  "v_chmod s mode v = (case fs_tree v (at v s) of Some (Dir m) \<Rightarrow> put (at v s) (Some (Dir mode)) v | _ \<Rightarrow> v)"

section \<open>What a file system promises\<close>

text \<open>What can be the name of an entry of a directory, and a path of such names.\<close>

definition NAME_MAX :: nat where "NAME_MAX = 255"

definition file_name :: "string \<Rightarrow> bool" where
  "file_name n \<longleftrightarrow> n \<noteq> [] \<and> CHR ''/'' \<notin> set n \<and> n \<noteq> ''.'' \<and> n \<noteq> ''..'' \<and> length n \<le> NAME_MAX"

definition proper :: "string list \<Rightarrow> bool" where
  "proper p \<longleftrightarrow> (\<forall>n\<in>set p. file_name n)"

text \<open>
  It is asked for no more than in a working directory the process may change, in a tree of its own without symbolic
  links, with room for what is written, on names of entries and for \<open>chdir\<close> on absolute paths too.
\<close>

definition ready :: "bool \<Rightarrow> fs_view \<Rightarrow> bool" where
  "ready root v \<longleftrightarrow> may_change root (fs_tree v (fs_cwd v)) \<and> (\<forall>p t. fs_tree v p \<noteq> Some (Sym t))"

definition tree_law_at :: "'w fs_os \<Rightarrow> ('w \<Rightarrow> fs_view) \<Rightarrow> bool \<Rightarrow> u32 \<Rightarrow> 'w \<Rightarrow> bool" where
  "tree_law_at os view root umask w \<longleftrightarrow>
     (\<forall>s. file_name s \<longrightarrow> (\<exists>i. view (snd (f_open os s w)) =
        (if fs_tree (view w) (at (view w) s) = None then put (at (view w) s) (Some (Reg i)) (view w) else view w)))
   \<and> (\<forall>fd. view (snd (f_dup os fd w)) = view w \<and> view (snd (f_close os fd w)) = view w)
   \<and> (\<forall>fd bs. view (snd (f_write os fd bs w)) = view w)
   \<and> (\<forall>fd off whence. view (snd (f_lseek os fd off whence w)) = view w)
   \<and> (\<forall>fd n. view (snd (f_read os fd n w)) = view w)
   \<and> (\<forall>d m. file_name d \<longrightarrow> view (snd (f_mkdir os d m w)) = v_mkdir (m AND NOT umask) d (view w))
   \<and> (length (path_text (fs_cwd (view w))) < PATH_LIMIT \<longrightarrow> fst (f_getcwd os w) = Some (path_text (fs_cwd (view w))))
   \<and> view (snd (f_getcwd os w)) = view w
   \<and> (\<forall>s. file_name s \<or> (\<exists>p. proper p \<and> s = path_text p) \<longrightarrow> view (snd (f_chdir os s w)) = v_chdir root s (view w))
   \<and> (\<forall>a b. file_name a \<and> file_name b \<longrightarrow> view (snd (f_link os a b w)) = v_link a b (view w))
   \<and> (\<forall>a. file_name a \<longrightarrow> view (snd (f_unlink os a w)) = v_unlink a (view w))
   \<and> (\<forall>a b. file_name a \<and> file_name b \<longrightarrow> view (snd (f_rename os a b w)) = v_rename a b (view w))
   \<and> (\<forall>a b. file_name a \<and> file_name b \<longrightarrow> view (snd (f_symlink os a b w)) = v_symlink a b (view w))
   \<and> (\<forall>s m. file_name s \<longrightarrow> view (snd (f_chmod os s m w)) = v_chmod s m (view w))"

definition tree_law :: "'w fs_os \<Rightarrow> ('w \<Rightarrow> fs_view) \<Rightarrow> bool \<Rightarrow> u32 \<Rightarrow> bool" where
  "tree_law os view root umask \<longleftrightarrow> (\<forall>w. ready root (view w) \<longrightarrow> tree_law_at os view root umask w)"

lemma tree_laws:
  assumes "tree_law os view root umask" "ready root (view w)"
  shows law_open: "file_name s \<Longrightarrow> \<exists>i. view (snd (f_open os s w)) =
      (if fs_tree (view w) (at (view w) s) = None then put (at (view w) s) (Some (Reg i)) (view w) else view w)"
    and law_fd: "view (snd (f_dup os fd w)) = view w" "view (snd (f_close os fd w)) = view w"
      "view (snd (f_write os fd bs w)) = view w" "view (snd (f_lseek os fd off whence w)) = view w"
      "view (snd (f_read os fd n w)) = view w"
    and law_mkdir: "file_name d \<Longrightarrow> view (snd (f_mkdir os d m w)) = v_mkdir (m AND NOT umask) d (view w)"
    and law_getcwd: "length (path_text (fs_cwd (view w))) < PATH_LIMIT \<Longrightarrow> fst (f_getcwd os w) = Some (path_text (fs_cwd (view w)))"
      "view (snd (f_getcwd os w)) = view w"
    and law_chdir: "file_name s \<Longrightarrow> view (snd (f_chdir os s w)) = v_chdir root s (view w)"
      "proper p \<Longrightarrow> view (snd (f_chdir os (path_text p) w)) = v_chdir root (path_text p) (view w)"
    and law_link: "file_name a \<Longrightarrow> file_name b \<Longrightarrow> view (snd (f_link os a b w)) = v_link a b (view w)"
      "file_name a \<Longrightarrow> view (snd (f_unlink os a w)) = v_unlink a (view w)"
      "file_name a \<Longrightarrow> file_name b \<Longrightarrow> view (snd (f_rename os a b w)) = v_rename a b (view w)"
      "file_name a \<Longrightarrow> file_name b \<Longrightarrow> view (snd (f_symlink os a b w)) = v_symlink a b (view w)"
    and law_chmod: "file_name s \<Longrightarrow> view (snd (f_chmod os s m w)) = v_chmod s m (view w)"
  using assms(1) [unfolded tree_law_def tree_law_at_def, rule_format, OF assms(2)] by auto

text \<open>A file system that is its own view.\<close>

definition memory_fs :: "bool \<Rightarrow> u32 \<Rightarrow> fs_view fs_os" where
  "memory_fs root umask = \<lparr>
     f_open = (\<lambda>s v. (3, if fs_tree v (at v s) = None then put (at v s) (Some (Reg 1)) v else v)),
     f_dup = (\<lambda>fd v. (4, v)), f_close = (\<lambda>fd v. (0, v)), f_write = (\<lambda>fd bs v. (3, v)),
     f_lseek = (\<lambda>fd off whence v. (0, v)), f_read = (\<lambda>fd n v. (3, v)),
     f_mkdir = (\<lambda>d m v. (0, v_mkdir (m AND NOT umask) d v)),
     f_getcwd = (\<lambda>v. (let s = path_text (fs_cwd v) in if length s < PATH_LIMIT then Some s else None, v)),
     f_chdir = (\<lambda>s v. (0, v_chdir root s v)), f_link = (\<lambda>a b v. (0, v_link a b v)), f_unlink = (\<lambda>a v. (0, v_unlink a v)),
     f_rename = (\<lambda>a b v. (0, v_rename a b v)), f_symlink = (\<lambda>a b v. (0, v_symlink a b v)),
     f_chmod = (\<lambda>s m v. (0, v_chmod s m v))\<rparr>"

lemma memory_fs_law: "tree_law (memory_fs root umask) (\<lambda>v. v) root umask"
  by (auto simp: tree_law_def tree_law_at_def memory_fs_def)

section \<open>Watching a file system\<close>

text \<open>The same file system with a list of the files that \<open>link\<close> was called for, by their paths; all else is passed on.\<close>

definition pass_on :: "('w \<Rightarrow> 'a \<times> 'w) \<Rightarrow> 'w \<times> 'l \<Rightarrow> 'a \<times> 'w \<times> 'l" where
  "pass_on f = (\<lambda>(w, l). (fst (f w), snd (f w), l))"

definition watched :: "'w fs_os \<Rightarrow> ('w \<Rightarrow> fs_view) \<Rightarrow> ('w \<times> string list list) fs_os" where
  "watched os view = \<lparr>f_open = (\<lambda>s. pass_on (f_open os s)), f_dup = (\<lambda>fd. pass_on (f_dup os fd)),
     f_close = (\<lambda>fd. pass_on (f_close os fd)), f_write = (\<lambda>fd bs. pass_on (f_write os fd bs)),
     f_lseek = (\<lambda>fd off whence. pass_on (f_lseek os fd off whence)), f_read = (\<lambda>fd n. pass_on (f_read os fd n)),
     f_mkdir = (\<lambda>d m. pass_on (f_mkdir os d m)), f_getcwd = pass_on (f_getcwd os), f_chdir = (\<lambda>s. pass_on (f_chdir os s)),
     f_link = (\<lambda>a b wl. (fst (f_link os a b (fst wl)), snd (f_link os a b (fst wl)), snd wl @ [at (view (fst wl)) a])),
     f_unlink = (\<lambda>a. pass_on (f_unlink os a)), f_rename = (\<lambda>a b. pass_on (f_rename os a b)),
     f_symlink = (\<lambda>a b. pass_on (f_symlink os a b)), f_chmod = (\<lambda>s m. pass_on (f_chmod os s m))\<rparr>"

lemma pass_on_simps [simp]: "fst (pass_on f wl) = fst (f (fst wl))" "snd (pass_on f wl) = (snd (f (fst wl)), snd wl)"
  by (simp_all add: pass_on_def split_beta)

lemma watched_law_at: "tree_law_at (watched os view) (view \<circ> fst) root umask wl \<longleftrightarrow> tree_law_at os view root umask (fst wl)"
  by (simp add: tree_law_at_def watched_def)

lemma watched_law: "tree_law os view root umask \<Longrightarrow> tree_law (watched os view) (view \<circ> fst) root umask"
  by (simp add: tree_law_def watched_law_at)

text \<open>\<open>log\<close> is such a list: it grows with the calls of \<open>link\<close> only.\<close>

definition logs_links :: "'w fs_os \<Rightarrow> ('w \<Rightarrow> fs_view) \<Rightarrow> ('w \<Rightarrow> string list list) \<Rightarrow> bool" where
  "logs_links os view log \<longleftrightarrow> (\<forall>w. (\<forall>a b. log (snd (f_link os a b w)) = log w @ [at (view w) a])
     \<and> (\<forall>a. log (snd (f_unlink os a w)) = log w) \<and> (\<forall>a b. log (snd (f_rename os a b w)) = log w)
     \<and> (\<forall>a b. log (snd (f_symlink os a b w)) = log w) \<and> log (snd (f_getcwd os w)) = log w
     \<and> (\<forall>s m. log (snd (f_chmod os s m w)) = log w) \<and> (\<forall>s. log (snd (f_chdir os s w)) = log w))"

lemma watched_logs: "logs_links (watched os view) (view \<circ> fst) snd"
  by (simp add: logs_links_def watched_def)

section \<open>Paths and views\<close>

lemma split_at_name: "c \<notin> set n \<Longrightarrow> split_at c acc (n @ s) = split_at c (rev n @ acc) s"
  by (induction n arbitrary: acc) auto

lemma split_at_path:
  "proper p \<Longrightarrow> split_at CHR ''/'' acc (concat (map (\<lambda>n. CHR ''/'' # n) p)) = rev acc # p"
proof (induction p arbitrary: acc)
  case (Cons n p)
  then show ?case by (simp add: proper_def file_name_def split_at_name)
qed simp

lemma path_of_text: "proper p \<Longrightarrow> path_of (path_text p) = p"
proof (cases p)
  case Nil
  then show ?thesis by (simp add: path_of_def path_text_def)
next
  case (Cons n q)
  assume proper: "proper p"
  then have "filter (\<lambda>n. n \<noteq> []) p = p" by (auto simp: proper_def file_name_def filter_id_conv)
  with split_at_path [OF proper, of "[]"] Cons show ?thesis by (simp add: path_of_def path_text_def del: split_at.simps)
qed

lemma path_text_slash: "hdc (path_text p) = CHR ''/''"
  by (cases p) (simp_all add: path_text_def)

lemma file_name_proper: "file_name n \<Longrightarrow> proper [n]"
  by (simp add: proper_def)

lemma proper_append [simp]: "proper (p @ q) \<longleftrightarrow> proper p \<and> proper q"
  by (auto simp: proper_def)

lemma length_path_text: "length (path_text (p @ [n])) \<le> length (path_text p) + length n + 1"
  by (simp add: path_text_def)

lemma put_simps [simp]: "fs_cwd (put p n v) = fs_cwd v" "fs_tree (put p n v) = (fs_tree v)(p := n)"
  by (simp_all add: put_def)

lemma put_same: "n = fs_tree v p \<Longrightarrow> put p n v = v"
  by (simp add: put_def)

lemma at_not_cwd [simp]: "at v s \<noteq> fs_cwd v" "fs_cwd v \<noteq> at v s"
  by (simp_all add: at_def)

lemma at_inj [simp]: "at v a = at v b \<longleftrightarrow> a = b"
  by (simp add: at_def)

lemma at_put [simp]: "at (put p n v) s = at v s"
  by (simp add: at_def)

lemma ready_put [simp]:
  "p \<noteq> fs_cwd v \<Longrightarrow> (\<forall>t. n \<noteq> Some (Sym t)) \<Longrightarrow> ready root v \<Longrightarrow> ready root (put p n v)"
  by (auto simp: ready_def)

lemma walkable_snoc: "walkable root t (p @ [n]) \<longleftrightarrow> walkable root t p \<and> may_enter root (t (p @ [n]))"
  by (auto simp: walkable_def le_Suc_eq)

lemma v_chdir_name:
  "file_name s \<Longrightarrow> v_chdir root s v = (if may_enter root (fs_tree v (at v s)) then v\<lparr>fs_cwd := at v s\<rparr> else v)"
  by (cases s) (auto simp: v_chdir_def file_name_def)

lemma v_chdir_back:
  "proper p \<Longrightarrow> length (path_text p) < PATH_LIMIT \<Longrightarrow> walkable root (fs_tree v) p \<Longrightarrow>
    v_chdir root (path_text p) v = v\<lparr>fs_cwd := p\<rparr>"
  by (simp add: v_chdir_def path_text_slash path_of_text)

end
