(* ===== verification/K_Tree.thy ===== *)
theory K_Tree
  imports Dir_Tree
begin

text \<open>
  \<open>cases/stress/hwpoison/tools/fs-metadata/k-tree-gen.c\<close> and \<open>k-tree-trav.c\<close>: a tree of directories in which each has
  \<open>node_nr\<close> files and \<open>node_nr\<close> subdirectories is made, and walked with operations on the inodes of the files. The only
  global is the output.
\<close>

section \<open>The names\<close>

definition k_dir :: "nat \<Rightarrow> string" where "k_dir cnt = show_dec cnt @ ''-d''"
definition k_leaf :: "nat \<Rightarrow> string" where "k_leaf cnt = show_dec cnt @ ''-f''"
definition k_tmp :: "nat \<Rightarrow> string" where "k_tmp cnt = show_dec cnt @ ''-f-t''"
definition k_ln :: "nat \<Rightarrow> string" where "k_ln cnt = show_dec cnt @ ''-l''"

section \<open>The programs\<close>

type_synonym ('w, 'a) k_act = "(string list, 'w, 'a) act"

text \<open>A loop whose body has a local variable.\<close>

fun each_with :: "('a \<Rightarrow> 's \<Rightarrow> ('g, 'w, 's) act) \<Rightarrow> 'a list \<Rightarrow> 's \<Rightarrow> ('g, 'w, 's) act" where
  "each_with f [] s = ret s"
| "each_with f (x # xs) s = sbind (f x s) (each_with f xs)"

text \<open>\<open>getcwd (cwd, sizeof (cwd))\<close>: when it fails the buffer keeps what it has, at first nothing.\<close>

definition save_cwd :: "'w fs_os \<Rightarrow> string option \<Rightarrow> ('w, string option) k_act" where
  "save_cwd os cwd = sbind (call (f_getcwd os)) (\<lambda>r. ret (case r of Some s \<Rightarrow> Some s | None \<Rightarrow> cwd))"

text \<open>\<open>chdir (dir)\<close>, the recursive call, \<open>chdir (cwd)\<close>.\<close>

definition visit :: "'w fs_os \<Rightarrow> string \<Rightarrow> string option \<Rightarrow> ('w, int) k_act \<Rightarrow> ('w, string option) k_act" where
  "visit os dir cwd sub =
     sseq (call (f_chdir os dir))
    (sseq sub
    (case cwd of
       None \<Rightarrow> halt (Undef ''cwd has no value'')
     | Some s \<Rightarrow> sseq (call (f_chdir os s)) (ret cwd)))"

text \<open>The file of a node: made, written through a copy of its descriptor, read again.\<close>

definition gen_leaf :: "'w fs_os \<Rightarrow> string \<Rightarrow> ('w, unit) k_act" where
  "gen_leaf os leaf =
     sbind (call (f_open os leaf)) (\<lambda>fd.
     sbind (call (f_dup os fd)) (\<lambda>fd2.
     sseq (call (f_close os fd))
    (sseq (call (f_write os fd2 (take 3 leaf)))
    (sseq (call (f_lseek os fd2 0 0))
    (sseq (call (f_read os fd2 3))
    (sseq (call (f_close os fd2)) nop))))))"

definition gen_node :: "'w fs_os \<Rightarrow> ('w, int) k_act \<Rightarrow> nat \<Rightarrow> string option \<Rightarrow> ('w, string option) k_act" where
  "gen_node os sub cnt cwd =
     sseq (gen_leaf os (k_leaf cnt))
    (sseq (call (f_mkdir os (k_dir cnt) 0x1ff))
    (sbind (save_cwd os cwd) (\<lambda>cwd. visit os (k_dir cnt) cwd sub)))"

fun k_tree_gen :: "'w fs_os \<Rightarrow> nat \<Rightarrow> nat \<Rightarrow> ('w, int) k_act" where
  "k_tree_gen os 0 node_nr = ret 0"
| "k_tree_gen os (Suc lvl) node_nr =
     sbind (each_with (gen_node os (k_tree_gen os lvl node_nr)) [0..<node_nr] None) (\<lambda>_. ret 1)"

definition trav_inodes :: "'w fs_os \<Rightarrow> nat \<Rightarrow> ('w, unit) k_act" where
  "trav_inodes os cnt =
     sseq (call (f_link os (k_leaf cnt) (k_tmp cnt)))
    (sseq (call (f_unlink os (k_leaf cnt)))
    (sseq (call (f_rename os (k_tmp cnt) (k_leaf cnt)))
    (sseq (call (f_symlink os (k_ln cnt) (k_leaf cnt)))
    (sseq (call (f_unlink os (k_ln cnt))) nop))))"

text \<open>\<open>S_IRUSR | S_IWUSR | S_IRGRP | S_IROTH\<close>\<close>

definition TRAV_MODE :: u32 where "TRAV_MODE = 0x1a4"

definition trav_node :: "'w fs_os \<Rightarrow> ('w, int) k_act \<Rightarrow> nat \<Rightarrow> string option \<Rightarrow> ('w, string option) k_act" where
  "trav_node os sub cnt cwd =
     sseq (trav_inodes os cnt)
    (sbind (save_cwd os cwd) (\<lambda>cwd.
     sseq (call (f_chmod os (k_dir cnt) TRAV_MODE)) (visit os (k_dir cnt) cwd sub)))"

fun k_tree_trav :: "'w fs_os \<Rightarrow> nat \<Rightarrow> nat \<Rightarrow> ('w, int) k_act" where
  "k_tree_trav os 0 node_nr = ret 0"
| "k_tree_trav os (Suc lvl) node_nr =
     sbind (each_with (trav_node os (k_tree_trav os lvl node_nr)) [0..<node_nr] None) (\<lambda>_. ret 1)"

text \<open>
  The two programs, with their arguments. Numbers below 0 are as good as 0. With one argument \<open>argv[2]\<close> is NULL.
\<close>

definition k_main :: "(nat \<Rightarrow> nat \<Rightarrow> ('w, int) k_act) \<Rightarrow> string \<Rightarrow> string \<Rightarrow> string \<Rightarrow> string list \<Rightarrow> ('w, int) k_act" where
  "k_main run usage starting done args =
     (case args of
        [] \<Rightarrow> sseq (upd (\<lambda>out. out @ [usage])) (ret 1)
      | [_] \<Rightarrow> halt (Undef ''NULL for %s'')
      | depth # width # _ \<Rightarrow>
          (let what = '' k tree (depth: '' @ depth @ '', width: '' @ width @ '')''
           in sseq (upd (\<lambda>out. out @ [done @ what @ starting @ [NL]]))
             (sseq (run (nat (atoi depth)) (nat (atoi width)))
             (sseq (upd (\<lambda>out. out @ [done @ what @ '', done'' @ [NL]])) (ret 0)))))"

definition gen_main :: "'w fs_os \<Rightarrow> string list \<Rightarrow> ('w, int) k_act" where
  "gen_main os = k_main (k_tree_gen os) (''Usage: k-tree tree_depth tree_width'' @ [NL]) '' ...'' ''Generate''"

definition trav_main :: "'w fs_os \<Rightarrow> string \<Rightarrow> string list \<Rightarrow> ('w, int) k_act" where
  "trav_main os argv0 = k_main (k_tree_trav os) (''Usage: '' @ argv0 @ '' tree_depth tree_width'' @ [NL]) ''...'' ''Traverse''"

text \<open>\<open>cases/function/pfa/busy.c\<close> sleeps forever: \<open>n\<close> rounds of its loop.\<close>

fun busy_loop :: "('w \<Rightarrow> int \<times> 'w) \<Rightarrow> nat \<Rightarrow> ('g, 'w, unit) act" where
  "busy_loop sleep 0 = nop"
| "busy_loop sleep (Suc n) = sseq (call sleep) (busy_loop sleep n)"

section \<open>Facts about the names\<close>

lemma show_dec_plain: "x \<in> set (show_dec n) \<Longrightarrow> x \<in> set ''0123456789''"
proof -
  assume "x \<in> set (show_dec n)"
  then obtain d where d: "d < 10" "x = digit_char d" using set_show_base [of 10 n] by auto
  then have "d \<in> {0, 1, 2, 3, 4, 5, 6, 7, 8, 9}" by auto
  with d(2) show ?thesis by (auto simp: digit_char_def)
qed

lemma show_dec_inj: "show_dec a = show_dec b \<Longrightarrow> a = b"
  using digits_value_show_base [of 10 0 a "[]"] digits_value_show_base [of 10 0 b "[]"] by simp

lemma k_names:
  "k_dir a = k_dir b \<longleftrightarrow> a = b" "k_leaf a = k_leaf b \<longleftrightarrow> a = b" "k_dir a \<noteq> k_leaf b" "k_leaf a \<noteq> k_dir b"
  "k_tmp a \<noteq> k_leaf b" "k_tmp a \<noteq> k_dir b" "k_ln a \<noteq> k_leaf b" "k_ln a \<noteq> k_dir b" "k_leaf b \<noteq> k_tmp a" "k_leaf b \<noteq> k_ln a"
  by (auto simp: k_dir_def k_leaf_def k_tmp_def k_ln_def append_eq_append_conv2 Cons_eq_append_conv dest: show_dec_inj)
text \<open>The numbers of the nodes are below that of an \<open>int\<close>, so their names are short.\<close>

lemma k_file_names:
  assumes "c < n" "n \<le> 2 ^ 31"
  shows "file_name (k_dir c)" "file_name (k_leaf c)" "file_name (k_tmp c)" "file_name (k_ln c)"
proof -
  from assms have "c < 10 ^ 10" by simp
  then have "length (show_dec c) \<le> 10" using length_show_dec [of c 10] by simp
  moreover have "x \<noteq> CHR ''/''" if "x \<in> set (show_dec c)" for x using show_dec_plain [OF that] by auto
  moreover have "show_dec c \<noteq> []" by simp
  ultimately show "file_name (k_dir c)" "file_name (k_leaf c)" "file_name (k_tmp c)" "file_name (k_ln c)"
    by (auto simp: file_name_def NAME_MAX_def k_dir_def k_leaf_def k_tmp_def k_ln_def append_eq_Cons_conv)
qed

lemma atoi_bound: "nat (atoi s) \<le> 2 ^ 31"
  using sint_lt [of "word_of_int (strtoll 10 s) :: u32"] by (simp add: atoi_def)

lemma length_k_dir:
  assumes "c < n" "n \<le> 10 ^ k" "0 < k"
  shows "length (k_dir c) \<le> k + 2"
  using assms length_show_dec [of c k] by (simp add: k_dir_def)

section \<open>Running a node\<close>

lemma call_seq [simp]: "sseq (call f) m (g, w) = m (g, snd (f w))"
  by (cases "f w") (simp add: sseq_apply)

lemma call_bind [simp]: "sbind (call f) m (g, w) = m (fst (f w)) (g, snd (f w))"
  by (cases "f w") (simp add: sbind_apply)

lemma each_with_append: "each_with f (xs @ ys) = (\<lambda>s. sbind (each_with f xs s) (each_with f ys))"
proof (induction xs)
  case Nil
  show ?case by (rule ext) (simp only: append_Nil each_with.simps ret_simps(2))
next
  case (Cons x xs)
  show ?case by (rule ext) (simp add: Cons.IH sbind_assoc)
qed

lemma each_with_counts:
  assumes "I 0 s w" "\<And>c s w. c < n \<Longrightarrow> I c s w \<Longrightarrow> \<exists>s' w'. f c s (out, w) = (Inr s', out, w') \<and> I (Suc c) s' w'"
  shows "\<exists>s' w'. each_with f [0..<n] s (out, w) = (Inr s', out, w') \<and> I n s' w'"
  using assms(2)
proof (induction n)
  case 0
  with assms(1) show ?case by simp
next
  case (Suc n)
  then obtain s1 w1 where 1: "each_with f [0..<n] s (out, w) = (Inr s1, out, w1)" "I n s1 w1" by fastforce
  with Suc.prems [of n s1 w1] obtain s2 w2 where "f n s1 (out, w1) = (Inr s2, out, w2)" "I (Suc n) s2 w2" by auto
  with 1 show ?case by (auto simp: each_with_append sbind_apply)
qed

lemma gen_leaf_run:
  assumes law: "tree_law os view root umask" and "ready root (view w)" "fs_tree (view w) (at (view w) s) = None" "file_name s"
  shows "\<exists>i w'. gen_leaf os s (out, w) = (Inr (), out, w') \<and> view w' = put (at (view w) s) (Some (Reg i)) (view w)"
proof -
  obtain i where i: "view (snd (f_open os s w)) = put (at (view w) s) (Some (Reg i)) (view w)"
    using law_open [OF assms(1,2,4)] assms(3) by auto
  then have r: "ready root (view (snd (f_open os s w)))" using assms(2) by simp
  show ?thesis
    by (intro exI [of _ i]) (simp add: gen_leaf_def law_fd [OF law] r, simp add: i)
qed

lemma save_cwd_run:
  assumes "tree_law os view root umask" "ready root (view w)" "length (path_text (fs_cwd (view w))) < PATH_LIMIT"
  shows "\<exists>w'. save_cwd os cwd (out, w) = (Inr (Some (path_text (fs_cwd (view w)))), out, w') \<and> view w' = view w"
  by (simp add: save_cwd_def law_getcwd [OF assms(1,2)] assms(3))

lemma visit_run:
  assumes law: "tree_law os view root umask" and rdy: "ready root (view w)" and name: "file_name (k_dir c)"
    and dir: "may_enter root (fs_tree (view w) (at (view w) (k_dir c)))"
    and b: "fs_cwd (view w) = b" "proper b" "length (path_text b) < PATH_LIMIT"
    and sub: "\<And>w1. view w1 = (view w)\<lparr>fs_cwd := b @ [k_dir c]\<rparr> \<Longrightarrow>
      \<exists>r w2. sub (out, w1) = (Inr r, out, w2) \<and> ready root (view w2) \<and> walkable root (fs_tree (view w2)) b \<and> P (fs_tree (view w2))"
  shows "\<exists>w'. visit os (k_dir c) (Some (path_text b)) sub (out, w) = (Inr (Some (path_text b)), out, w')
    \<and> fs_cwd (view w') = b \<and> P (fs_tree (view w'))"
proof -
  let ?w1 = "snd (f_chdir os (k_dir c) w)"
  have "view ?w1 = (view w)\<lparr>fs_cwd := b @ [k_dir c]\<rparr>"
    using law_chdir(1) [OF law rdy name] dir b(1) v_chdir_name [OF name] by (simp add: at_def)
  from sub [OF this] obtain r w2 where 2: "sub (out, ?w1) = (Inr r, out, w2)" "ready root (view w2)"
      "walkable root (fs_tree (view w2)) b" "P (fs_tree (view w2))" by blast
  then have "view (snd (f_chdir os (path_text b) w2)) = (view w2)\<lparr>fs_cwd := b\<rparr>"
    using law_chdir(2) [OF law 2(2) b(2)] v_chdir_back [OF b(2,3)] by simp
  with 2 show ?thesis by (simp add: visit_def sseq_apply [of sub])
qed

section \<open>The tree that is made\<close>

text \<open>
  What is at a path below the start, in a tree of \<open>l\<close> levels with \<open>m\<close> nodes at the top and \<open>n\<close> in each other
  directory: \<open>True\<close> for a directory, \<open>False\<close> for a file.
\<close>

fun k_kind :: "nat \<Rightarrow> nat \<Rightarrow> nat \<Rightarrow> string list \<Rightarrow> bool option" where
  "k_kind (Suc l) m n (x # q) =
     (if x \<in> k_dir ` {..<m} then (if q = [] then Some True else k_kind l n n q)
      else if q = [] \<and> x \<in> k_leaf ` {..<m} then Some False
      else None)"
| "k_kind _ m n q = None"

fun is_dir :: "fs_node \<Rightarrow> bool" where
  "is_dir (Dir m) = True"
| "is_dir _ = False"

text \<open>\<open>t\<close> is \<open>t0\<close> with that below \<open>b\<close>: the directories have mode \<open>mode\<close>, the rest are files.\<close>

definition k_built :: "nat \<Rightarrow> nat \<Rightarrow> nat \<Rightarrow> string list \<Rightarrow> u32 \<Rightarrow> (string list \<rightharpoonup> fs_node) \<Rightarrow> (string list \<rightharpoonup> fs_node) \<Rightarrow> bool" where
  "k_built l m n b mode t0 t \<longleftrightarrow>
     (\<forall>q. q \<noteq> [] \<longrightarrow> map_option is_dir (t (b @ q)) = k_kind l m n q)
   \<and> (\<forall>q x. q \<noteq> [] \<longrightarrow> t (b @ q) = Some x \<longrightarrow> x = Dir mode \<or> (\<exists>i. x = Reg i))
   \<and> (\<forall>p. (\<forall>q. q \<noteq> [] \<longrightarrow> p \<noteq> b @ q) \<longrightarrow> t p = t0 p)"

lemma k_kind_Suc:
  "k_kind (Suc l) (Suc c) n (x # q) =
     (if x = k_dir c then (if q = [] then Some True else k_kind l n n q)
      else if q = [] \<and> x = k_leaf c then Some False
      else k_kind (Suc l) c n (x # q))"
  by (auto simp: lessThan_Suc k_names)

lemma k_kind_new: "k_kind (Suc l) c n (k_dir c # q) = None" "k_kind (Suc l) c n [k_leaf c] = None"
  by (auto simp: k_names)

lemma k_built_node:
  assumes "k_built (Suc l) c n b mode t0 t"
    and "k_built l n n (b @ [k_dir c]) mode (t(b @ [k_leaf c] := Some (Reg i), b @ [k_dir c] := Some (Dir mode))) t'"
  shows "k_built (Suc l) (Suc c) n b mode t0 t'"
proof -
  let ?t = "t(b @ [k_leaf c] := Some (Reg i), b @ [k_dir c] := Some (Dir mode))"
  have other: "t' p = ?t p" if "\<forall>q. q \<noteq> [] \<longrightarrow> p \<noteq> b @ k_dir c # q" for p
    using assms(2) that unfolding k_built_def by simp
  have kind: "map_option is_dir (t' (b @ x # q)) = k_kind (Suc l) (Suc c) n (x # q)" for x q
  proof (cases "x = k_dir c \<and> q \<noteq> []")
    case True
    with assms(2) show ?thesis unfolding k_built_def k_kind_Suc by simp
  next
    case False
    then have "t' (b @ x # q) = ?t (b @ x # q)" by (intro other) auto
    moreover have "map_option is_dir (t (b @ x # q)) = k_kind (Suc l) c n (x # q)"
      using assms(1) unfolding k_built_def by simp
    ultimately show ?thesis using False unfolding k_kind_Suc by (auto simp: k_names simp del: k_kind.simps)
  qed
  have nodes: "y = Dir mode \<or> (\<exists>i. y = Reg i)" if "t' (b @ x # q) = Some y" for x q y
  proof (cases "x = k_dir c \<and> q \<noteq> []")
    case True
    with assms(2) that show ?thesis unfolding k_built_def by (metis append.assoc append_Cons append_Nil)
  next
    case False
    then have "t' (b @ x # q) = ?t (b @ x # q)" by (intro other) auto
    with that assms(1) show ?thesis unfolding k_built_def by (auto split: if_splits)
  qed
  have rest: "t' p = t0 p" if "\<forall>q. q \<noteq> [] \<longrightarrow> p \<noteq> b @ q" for p
  proof -
    have "t' p = ?t p" using that by (intro other) auto
    also have "\<dots> = t p" using that by auto
    also have "\<dots> = t0 p" using assms(1) that unfolding k_built_def by blast
    finally show ?thesis .
  qed
  show ?thesis
    unfolding k_built_def using kind nodes rest by (metis neq_Nil_conv)
qed

section \<open>k-tree-gen makes it\<close>

lemma k_built_0: "(\<And>q. q \<noteq> [] \<Longrightarrow> t (b @ q) = None) \<Longrightarrow> k_built 0 m n b mode t t"
  by (simp add: k_built_def)

lemma k_built_start: "(\<And>q. q \<noteq> [] \<Longrightarrow> t (b @ q) = None) \<Longrightarrow> k_built (Suc l) 0 n b mode t t"
proof -
  have "k_kind (Suc l) 0 n q = None" for q by (cases q) auto
  then show "(\<And>q. q \<noteq> [] \<Longrightarrow> t (b @ q) = None) \<Longrightarrow> k_built (Suc l) 0 n b mode t t" by (simp add: k_built_def)
qed

lemma k_built_above:
  assumes "k_built l m n b mode t0 t"
  shows "k \<le> length b \<Longrightarrow> t (take k b) = t0 (take k b)" "t b = t0 b"
proof -
  have "take k b \<noteq> b @ q" if "q \<noteq> []" for k q
    using that by (metis append_Nil2 append_take_drop_id leD length_append length_greater_0_conv length_take less_add_same_cancel1 min.cobounded1)
  then show 1: "k \<le> length b \<Longrightarrow> t (take k b) = t0 (take k b)" for k using assms unfolding k_built_def by blast
  from 1 [of "length b"] show "t b = t0 b" by simp
qed

lemma k_built_walkable: "k_built l m n b mode t0 t \<Longrightarrow> walkable root t0 b \<Longrightarrow> walkable root t b"
  by (simp add: walkable_def k_built_above)

lemma k_built_ready:
  assumes "k_built l m n b mode (fs_tree v0) (fs_tree v)" "fs_cwd v = b" "fs_cwd v0 = b" "ready root v0"
  shows "ready root v"
proof -
  have "fs_tree v p \<noteq> Some (Sym t)" for p t
  proof (cases "\<exists>q. q \<noteq> [] \<and> p = b @ q")
    case True
    with assms(1) show ?thesis unfolding k_built_def by blast
  next
    case False
    with assms(1) have "fs_tree v p = fs_tree v0 p" unfolding k_built_def by blast
    with assms(4) show ?thesis by (simp add: ready_def)
  qed
  with k_built_above(2) [OF assms(1)] assms show ?thesis by (simp add: ready_def)
qed

text \<open>The mode of the directories that are made, and who may use them.\<close>

definition made_mode :: "u32 \<Rightarrow> u32" where
  "made_mode umask = 0x1ff AND NOT umask"

definition usable_umask :: "bool \<Rightarrow> u32 \<Rightarrow> bool" where
  "usable_umask root umask \<longleftrightarrow> root \<or> \<not> bit umask 6 \<and> \<not> bit umask 7"

lemma made_mode_usable:
  assumes "usable_umask root umask"
  shows "may_enter root (Some (Dir (made_mode umask)))" "may_change root (Some (Dir (made_mode umask)))"
proof -
  have "(0x1ff :: u32) = mask 9" by (simp add: mask_eq_exp_minus_1)
  then show "may_enter root (Some (Dir (made_mode umask)))" "may_change root (Some (Dir (made_mode umask)))"
    using assms by (auto simp: may_enter_def may_change_def usable_umask_def made_mode_def bit_simps)
qed

text \<open>Where the two programs can start: a directory that can be found by its name and changed, with short paths below it.\<close>

definition k_start :: "bool \<Rightarrow> nat \<Rightarrow> nat \<Rightarrow> fs_view \<Rightarrow> bool" where
  "k_start root k l v \<longleftrightarrow> ready root v \<and> proper (fs_cwd v) \<and> walkable root (fs_tree v) (fs_cwd v)
     \<and> length (path_text (fs_cwd v)) + l * (k + 3) < PATH_LIMIT"

lemma k_start_below:
  assumes "k_start root k (Suc l) v" "c < n" "n \<le> 10 ^ k" "0 < k" "file_name (k_dir c)"
    and "may_enter root (fs_tree v (fs_cwd v @ [k_dir c]))" "may_change root (fs_tree v (fs_cwd v @ [k_dir c]))"
  shows "k_start root k l (v\<lparr>fs_cwd := fs_cwd v @ [k_dir c]\<rparr>)"
proof -
  have "length (path_text (fs_cwd v @ [k_dir c])) \<le> length (path_text (fs_cwd v)) + (k + 3)"
    using length_path_text [of "fs_cwd v" "k_dir c"] length_k_dir [OF assms(2-4)] by simp
  with assms show ?thesis
    by (auto simp: k_start_def ready_def file_name_proper walkable_snoc)
qed

lemma gen_node_run:
  assumes law: "tree_law os view root umask" and um: "usable_umask root umask" and c: "c < n" "n \<le> 10 ^ k" "0 < k"
    and small: "n \<le> 2 ^ 31"
    and start: "k_start root k (Suc l) (view w)" and b: "fs_cwd (view w) = b"
    and built: "k_built (Suc l) c n b (made_mode umask) t0 (fs_tree (view w))"
    and sub: "\<And>w. k_start root k l (view w) \<Longrightarrow> (\<And>q. q \<noteq> [] \<Longrightarrow> fs_tree (view w) (fs_cwd (view w) @ q) = None) \<Longrightarrow>
      \<exists>w'. sub (out, w) = (Inr r, out, w') \<and> fs_cwd (view w') = fs_cwd (view w) \<and>
        k_built l n n (fs_cwd (view w)) (made_mode umask) (fs_tree (view w)) (fs_tree (view w'))"
  shows "\<exists>w'. gen_node os sub c cwd (out, w) = (Inr (Some (path_text b)), out, w') \<and> fs_cwd (view w') = b
    \<and> k_built (Suc l) (Suc c) n b (made_mode umask) t0 (fs_tree (view w'))"
proof -
  let ?d = "b @ [k_dir c]" and ?f = "b @ [k_leaf c]" and ?m = "made_mode umask"
  note s = start [unfolded k_start_def b] and names = k_file_names [OF c(1) small]
  have none: "fs_tree (view w) (b @ k_dir c # q) = None" "fs_tree (view w) ?f = None" for q
    using built k_kind_new [of l c n] unfolding k_built_def by (metis list.discI map_option_is_None)+
  then obtain i w1 where 1: "gen_leaf os (k_leaf c) (out, w) = (Inr (), out, w1)" "view w1 = put ?f (Some (Reg i)) (view w)"
    using gen_leaf_run [OF law, of w "k_leaf c" out] s names(2) by (auto simp: at_def b)
  have r1: "ready root (view w1)" using s b by (simp add: 1(2))
  let ?w2 = "snd (f_mkdir os (k_dir c) 0x1ff w1)"
  have "fs_tree (view w1) ?d = None" using none(1) [of "[]"] by (simp add: 1(2) k_names)
  then have 2: "view ?w2 = put ?d (Some (Dir ?m)) (view w1)"
    using law_mkdir [OF law r1 names(1)] by (simp add: v_mkdir_def made_mode_def at_def 1(2) b)
  have r2: "ready root (view ?w2)" using r1 b by (simp add: 2 1(2))
  have c2: "fs_cwd (view ?w2) = b" by (simp add: 2 1(2) b)
  have t2: "fs_tree (view ?w2) = (fs_tree (view w))(?f := Some (Reg i), ?d := Some (Dir ?m))" by (simp add: 2 1(2))
  obtain w3 where 3: "save_cwd os cwd (out, ?w2) = (Inr (Some (path_text b)), out, w3)" "view w3 = view ?w2"
    using save_cwd_run [OF law r2, of cwd out] s c2 by auto
  have w2: "walkable root (fs_tree (view ?w2)) b"
    using s unfolding t2 walkable_def by (metis append_self_conv fun_upd_other length_append_singleton length_take not_less_eq_eq min.bounded_iff
        not_Cons_self2 order_refl take_all_iff)
  have start2: "k_start root k (Suc l) (view ?w2)" using s r2 w2 by (simp add: k_start_def c2)
  have below: "k_start root k l ((view w3)\<lparr>fs_cwd := ?d\<rparr>)"
    using k_start_below [OF start2 c names(1)] made_mode_usable [OF um] c2 t2 3(2) by simp
  have sub': "\<exists>r w5. sub (out, w4) = (Inr r, out, w5) \<and> ready root (view w5) \<and> walkable root (fs_tree (view w5)) b
      \<and> k_built l n n ?d ?m (fs_tree (view ?w2)) (fs_tree (view w5))" if w4: "view w4 = (view w3)\<lparr>fs_cwd := ?d\<rparr>" for w4
  proof -
    have "fs_tree (view w4) (fs_cwd (view w4) @ q) = None" if "q \<noteq> []" for q
      using none(1) [of q] that by (simp add: w4 3(2) t2)
    from sub [of w4, OF _ this] below obtain w5 where 5: "sub (out, w4) = (Inr r, out, w5)" "fs_cwd (view w5) = ?d"
        "k_built l n n ?d ?m (fs_tree (view ?w2)) (fs_tree (view w5))"
      by (auto simp: w4 3(2))
    have rdy: "ready root (view w5)"
      using k_built_ready [of l n n ?d ?m "view w4" "view w5" root] below 5 by (simp add: w4 3(2) k_start_def)
    have "walkable root (fs_tree (view w5)) ?d"
      using k_built_walkable [OF 5(3)] below by (simp add: k_start_def 3(2))
    with 5 rdy show ?thesis by (auto simp: walkable_snoc)
  qed
  have enter: "may_enter root (fs_tree (view w3) (at (view w3) (k_dir c)))"
    using made_mode_usable(1) [OF um] by (simp add: 3(2) t2 at_def c2)
  have "\<exists>w6. visit os (k_dir c) (Some (path_text b)) sub (out, w3) = (Inr (Some (path_text b)), out, w6)
      \<and> fs_cwd (view w6) = b \<and> k_built l n n ?d ?m (fs_tree (view ?w2)) (fs_tree (view w6))"
  proof (rule visit_run [OF law _ names(1) enter])
    show "ready root (view w3)" "fs_cwd (view w3) = b" using r2 c2 by (simp_all add: 3(2))
    show "proper b" "length (path_text b) < PATH_LIMIT" using s by auto
  qed (rule sub')
  then obtain w6 where 6: "visit os (k_dir c) (Some (path_text b)) sub (out, w3) = (Inr (Some (path_text b)), out, w6)"
      "fs_cwd (view w6) = b" "k_built l n n ?d ?m (fs_tree (view ?w2)) (fs_tree (view w6))" by blast
  have "gen_node os sub c cwd (out, w) = (Inr (Some (path_text b)), out, w6)"
    by (simp add: gen_node_def sseq_apply [of "gen_leaf os (k_leaf c)"] 1(1) sbind_apply [of "save_cwd os cwd"] 3(1) 6(1))
  with 6 k_built_node [OF built, of i] show ?thesis by (auto simp: t2)
qed

lemma gen_spec:
  assumes law: "tree_law os view root umask" and um: "usable_umask root umask" and n: "n \<le> 10 ^ k" "0 < k" "n \<le> 2 ^ 31"
  shows "k_start root k l (view w) \<Longrightarrow> (\<And>q. q \<noteq> [] \<Longrightarrow> fs_tree (view w) (fs_cwd (view w) @ q) = None) \<Longrightarrow>
    \<exists>w'. k_tree_gen os l n (out, w) = (Inr (if l = 0 then 0 else 1), out, w') \<and> fs_cwd (view w') = fs_cwd (view w) \<and>
      k_built l n n (fs_cwd (view w)) (made_mode umask) (fs_tree (view w)) (fs_tree (view w'))"
proof (induction l arbitrary: w)
  case 0
  then show ?case by (simp add: k_built_0)
next
  case (Suc l)
  let ?b = "fs_cwd (view w)" and ?m = "made_mode umask" and ?t = "fs_tree (view w)"
  let ?I = "\<lambda>c (s :: string option) w'. fs_cwd (view w') = ?b \<and> k_built (Suc l) c n ?b ?m ?t (fs_tree (view w'))"
  note s = Suc.prems(1) [unfolded k_start_def]
  have "\<exists>s' w'. each_with (gen_node os (k_tree_gen os l n)) [0..<n] None (out, w) = (Inr s', out, w') \<and> ?I n s' w'"
  proof (rule each_with_counts [where I = ?I])
    show "?I 0 None w" using k_built_start Suc.prems(2) by simp
  next
    fix c cwd w1
    assume c: "c < n" and I: "?I c cwd w1"
    then have "ready root (view w1)" "walkable root (fs_tree (view w1)) ?b"
      using k_built_ready [of "Suc l" c n ?b ?m "view w" "view w1" root] k_built_walkable s by auto
    then have start: "k_start root k (Suc l) (view w1)" using s I by (simp add: k_start_def)
    show "\<exists>s' w'. gen_node os (k_tree_gen os l n) c cwd (out, w1) = (Inr s', out, w') \<and> ?I (Suc c) s' w'"
      using gen_node_run [OF law um c n start, of ?b ?t "k_tree_gen os l n" out "if l = 0 then 0 else 1" cwd] I Suc.IH by blast
  qed
  then obtain cwd w1 where "each_with (gen_node os (k_tree_gen os l n)) [0..<n] None (out, w) = (Inr cwd, out, w1)"
      "?I n cwd w1" by blast
  then show ?case by (simp add: sbind_apply)
qed

lemma k_main_run:
  assumes "\<And>out. \<exists>r w'. run (nat (atoi depth)) (nat (atoi width)) (out, w) = (Inr r, out, w') \<and> P w'"
  shows "\<exists>out' w'. k_main run usage starting done (depth # width # others) (out, w) = (Inr 0, out', w') \<and> P w'"
proof -
  let ?out = "out @ [done @ ('' k tree (depth: '' @ depth @ '', width: '' @ width @ '')'') @ starting @ [NL]]"
  from assms [of ?out] obtain r w' where "run (nat (atoi depth)) (nat (atoi width)) (?out, w) = (Inr r, ?out, w')" "P w'" by blast
  then show ?thesis by (simp add: k_main_def Let_def sseq_apply)
qed

text \<open>
  C20. \<open>k-tree-gen\<close> in an empty directory makes the whole tree and nothing else, and ends where it started: below each
  directory of a level above the last, a file and a directory for each number, the directories with the mode that
  \<open>umask\<close> leaves. The path of the deepest directory has to be shorter than \<open>PATH_LIMIT\<close>, or the way back is lost.
\<close>

theorem k_gen_builds:
  assumes "tree_law os view root umask" "usable_umask root umask"
    and "nat (atoi width) \<le> 10 ^ k" "0 < k" "k_start root k (nat (atoi depth)) (view w)"
    and "\<forall>q. q \<noteq> [] \<longrightarrow> fs_tree (view w) (fs_cwd (view w) @ q) = None"
  shows "\<exists>out' w'. gen_main os [depth, width] (out, w) = (Inr 0, out', w') \<and> fs_cwd (view w') = fs_cwd (view w)
    \<and> k_built (nat (atoi depth)) (nat (atoi width)) (nat (atoi width)) (fs_cwd (view w)) (made_mode umask)
        (fs_tree (view w)) (fs_tree (view w'))"
  unfolding gen_main_def
  using gen_spec [OF assms(1-4) atoi_bound assms(5)] assms(6) by (intro k_main_run) blast

text \<open>A new file system: one directory for everybody.\<close>

definition empty_fs :: fs_view where
  "empty_fs = \<lparr>fs_cwd = [''tmp''], fs_tree = [[] \<mapsto> Dir 0x1ff, [''tmp''] \<mapsto> Dir 0x1ff]\<rparr>"

lemma path_text_tmp: "path_text [''tmp''] = ''/tmp''"
  by (simp add: path_text_def)

lemma empty_fs_start: "l \<le> 100 \<Longrightarrow> k_start root 1 l empty_fs"
proof -
  assume l: "l \<le> 100"
  have "bit (0x1ff :: u32) 6" "bit (0x1ff :: u32) 7" by simp_all
  then have "ready root empty_fs" by (simp add: ready_def may_change_def empty_fs_def)
  moreover have "walkable root (fs_tree empty_fs) (fs_cwd empty_fs)"
    using \<open>bit (0x1ff :: u32) 6\<close> by (auto simp: walkable_def may_enter_def empty_fs_def le_Suc_eq)
  moreover have "proper (fs_cwd empty_fs)" by (simp add: empty_fs_def proper_def file_name_def NAME_MAX_def)
  ultimately show ?thesis using l by (simp add: k_start_def empty_fs_def PATH_LIMIT_def path_text_tmp)
qed

lemma empty_fs_empty: "q \<noteq> [] \<Longrightarrow> fs_tree empty_fs (fs_cwd empty_fs @ q) = None"
  by (simp add: empty_fs_def)

lemma atoi_digit: "atoi ''2'' = 2" "atoi ''3'' = 3"
  using atoi_show_int [of 2 "[]"] atoi_show_int [of 3 "[]"]
  by (simp_all add: show_int_def show_base.simps digit_char_def)

theorem k_gen_builds_witness:
  "\<exists>out' w'. gen_main (memory_fs False 0) [''2'', ''3''] ([], empty_fs) = (Inr 0, out', w')
    \<and> map_option is_dir (fs_tree w' [''tmp'', ''2-d'', ''0-f'']) = Some False \<and> fs_tree w' [''tmp'', ''2-d'', ''0-d'', ''0-f''] = None"
proof -
  have "usable_umask False 0" by (simp add: usable_umask_def)
  moreover have "k_start False 1 (nat (atoi ''2'')) empty_fs" by (rule empty_fs_start) (simp add: atoi_digit)
  ultimately obtain out' w' where 1: "gen_main (memory_fs False 0) [''2'', ''3''] ([], empty_fs) = (Inr 0, out', w')"
      "k_built 2 3 3 [''tmp''] (made_mode 0) (fs_tree empty_fs) (fs_tree w')"
    using k_gen_builds [OF memory_fs_law, of False 0 "''3''" 1 "''2''" empty_fs "[]"] empty_fs_empty
    by (auto simp: atoi_digit) (auto simp: empty_fs_def)
  have names: "''2-d'' = k_dir 2" "''0-d'' = k_dir 0" "''0-f'' = k_leaf 0"
    by (simp_all add: k_dir_def k_leaf_def show_base.simps digit_char_def)
  have "k_kind 2 3 3 [k_dir 2, k_leaf 0] = Some False" "k_kind 2 3 3 [k_dir 2, k_dir 0, k_leaf 0] = None"
    by (auto simp: numeral_2_eq_2 k_names)
  with 1(2) have "map_option is_dir (fs_tree w' ([''tmp''] @ [k_dir 2, k_leaf 0])) = Some False"
    "fs_tree w' ([''tmp''] @ [k_dir 2, k_dir 0, k_leaf 0]) = None"
    unfolding k_built_def by (metis list.discI, metis list.discI map_option_is_None)
  with 1(1) show ?thesis unfolding names by auto
qed

section \<open>k-tree-trav walks it as root\<close>

lemma put_round:
  "fs_tree v a = None \<Longrightarrow> fs_tree v l = Some n \<Longrightarrow> a \<noteq> l \<Longrightarrow> put a None (put l (Some n) (put l None (put a x v))) = v"
  by (cases v) (simp add: put_def fun_eq_iff)

lemma trav_inodes_run:
  assumes law: "tree_law os view root umask" and rdy: "ready root (view w)" and c: "c < n" "n \<le> 2 ^ 31"
    and names: "fs_tree (view w) (at (view w) (k_leaf c)) = Some (Reg i)" "fs_tree (view w) (at (view w) (k_tmp c)) = None"
      "fs_tree (view w) (at (view w) (k_ln c)) = None"
  shows "\<exists>w'. trav_inodes os c (out, w) = (Inr (), out, w') \<and> view w' = view w"
proof -
  note fn = k_file_names [OF c]
  let ?v = "view w" and ?w1 = "snd (f_link os (k_leaf c) (k_tmp c) w)"
  let ?w2 = "snd (f_unlink os (k_leaf c) ?w1)"
  let ?w3 = "snd (f_rename os (k_tmp c) (k_leaf c) ?w2)"
  let ?w4 = "snd (f_symlink os (k_ln c) (k_leaf c) ?w3)"
  have 1: "view ?w1 = put (at ?v (k_tmp c)) (Some (Reg i)) ?v"
    using law_link(1) [OF law rdy fn(2,3)] names by (simp add: v_link_def)
  then have r1: "ready root (view ?w1)" using rdy by simp
  have 2: "view ?w2 = put (at ?v (k_leaf c)) None (view ?w1)"
    using law_link(2) [OF law r1 fn(2)] names by (simp add: v_unlink_def 1 k_names)
  then have r2: "ready root (view ?w2)" using r1 by (simp add: 1)
  have "view ?w3 = put (at ?v (k_tmp c)) None (put (at ?v (k_leaf c)) (Some (Reg i)) (view ?w2))"
    using law_link(3) [OF law r2 fn(3,2)] by (simp add: v_rename_def 1 2 k_names)
  then have 3: "view ?w3 = ?v" unfolding 1 2 using names by (simp add: put_round k_names)
  then have 4: "view ?w4 = ?v" using law_link(4) [OF law _ fn(4,2), of ?w3] rdy names by (simp add: v_symlink_def)
  then have "view (snd (f_unlink os (k_ln c) ?w4)) = ?v"
    using law_link(2) [OF law _ fn(4), of ?w4] rdy names by (simp add: v_unlink_def)
  then show ?thesis by (simp add: trav_inodes_def)
qed

lemma trav_inodes_log:
  "logs_links os view log \<Longrightarrow> log (snd (snd (trav_inodes os c (out, w)))) = log w @ [at (view w) (k_leaf c)]"
  by (simp add: trav_inodes_def logs_links_def)

lemma save_cwd_log: "logs_links os view log \<Longrightarrow> log (snd (snd (save_cwd os cwd (out, w)))) = log w"
  by (simp add: save_cwd_def logs_links_def split: option.split)

text \<open>A node up to the \<open>chmod\<close>.\<close>

lemma trav_node_run:
  assumes law: "tree_law os view root umask" and rdy: "ready root (view w)" and b: "fs_cwd (view w) = b"
    and len: "length (path_text b) < PATH_LIMIT" and c: "c < n" "n \<le> 2 ^ 31"
    and names: "fs_tree (view w) (b @ [k_leaf c]) = Some (Reg i)" "fs_tree (view w) (b @ [k_tmp c]) = None"
      "fs_tree (view w) (b @ [k_ln c]) = None" "fs_tree (view w) (b @ [k_dir c]) = Some (Dir m)"
  obtains w1 where "trav_node os sub c cwd (out, w) = visit os (k_dir c) (Some (path_text b)) sub (out, w1)"
    "view w1 = put (b @ [k_dir c]) (Some (Dir TRAV_MODE)) (view w)" "ready root (view w1)"
    "\<And>log. logs_links os view log \<Longrightarrow> log w1 = log w @ [b @ [k_leaf c]]"
proof -
  obtain w1 where 1: "trav_inodes os c (out, w) = (Inr (), out, w1)" "view w1 = view w"
    using trav_inodes_run [OF law rdy c] names by (fastforce simp: at_def b)
  obtain w2 where 2: "save_cwd os cwd (out, w1) = (Inr (Some (path_text b)), out, w2)" "view w2 = view w"
    using save_cwd_run [OF law, of w1 cwd out] 1(2) rdy len b by auto
  let ?w3 = "snd (f_chmod os (k_dir c) TRAV_MODE w2)"
  have 3: "view ?w3 = put (b @ [k_dir c]) (Some (Dir TRAV_MODE)) (view w)"
    using law_chmod [OF law _ k_file_names(1) [OF c], of w2] rdy names(4) by (simp add: v_chmod_def at_def 2 b)
  show thesis
  proof (rule that)
    show "trav_node os sub c cwd (out, w) = visit os (k_dir c) (Some (path_text b)) sub (out, ?w3)"
      by (simp add: trav_node_def sseq_apply [of "trav_inodes os c"] 1(1) sbind_apply [of "save_cwd os cwd"] 2(1))
    show "ready root (view ?w3)" unfolding 3 using rdy b by (simp del: put_simps)
    show "log ?w3 = log w @ [b @ [k_leaf c]]" if "logs_links os view log" for log
      using trav_inodes_log [OF that, of c out w] save_cwd_log [OF that, of cwd out w1] that
      by (simp add: 1(1) 2(1) at_def b) (simp add: logs_links_def)
  qed (rule 3)
qed

text \<open>The tree with the mode of the traversal on the directories \<open>D\<close>.\<close>

definition open_dirs :: "(string list \<Rightarrow> bool) \<Rightarrow> (string list \<rightharpoonup> fs_node) \<Rightarrow> string list \<rightharpoonup> fs_node" where
  "open_dirs D t = (\<lambda>p. if D p then Some (Dir TRAV_MODE) else t p)"

definition k_dirs :: "nat \<Rightarrow> nat \<Rightarrow> nat \<Rightarrow> string list \<Rightarrow> string list \<Rightarrow> bool" where
  "k_dirs l m n b p \<longleftrightarrow> (\<exists>q. p = b @ q \<and> k_kind l m n q = Some True)"

lemma k_dirs_below: "k_dirs l m n b (b @ q) \<longleftrightarrow> k_kind l m n q = Some True"
  by (simp add: k_dirs_def)

lemma k_dirs_not_above: "k \<le> length b \<Longrightarrow> \<not> k_dirs l m n b (take k b)"
proof
  assume "k \<le> length b" "k_dirs l m n b (take k b)"
  then obtain q where q: "take k b = b @ q" "k_kind l m n q = Some True" by (auto simp: k_dirs_def)
  then have "length (b @ q) \<le> length b" by (metis length_take min.cobounded1)
  then have "q = []" by simp
  with q(2) show False by simp
qed

lemma k_kind_dir_mono: "k_kind (Suc l) c n q = Some True \<Longrightarrow> c \<le> n \<Longrightarrow> k_kind (Suc l) n n q = Some True"
  by (cases q) (auto split: if_splits)

lemma k_kind_node:
  assumes "c < n"
  shows "k_kind (Suc l) n n [k_leaf c] = Some False" "k_kind (Suc l) n n [k_dir c] = Some True"
    "k_kind (Suc l) n n [k_tmp c] = None" "k_kind (Suc l) n n [k_ln c] = None"
    "q \<noteq> [] \<Longrightarrow> k_kind (Suc l) n n (k_dir c # q) = k_kind l n n q"
  using assms by (auto simp: k_names)

lemma is_dir_cases:
  assumes "\<forall>p t. tr p \<noteq> Some (Sym t)"
  shows "map_option is_dir (tr p) = Some False \<longleftrightarrow> (\<exists>i. tr p = Some (Reg i))"
    "map_option is_dir (tr p) = Some True \<longleftrightarrow> (\<exists>m. tr p = Some (Dir m))"
    "map_option is_dir (tr p) = None \<longleftrightarrow> tr p = None"
proof -
  have "tr p = None \<or> (\<exists>i. tr p = Some (Reg i)) \<or> (\<exists>m. tr p = Some (Dir m))"
    using assms by (metis fs_node.exhaust option.exhaust)
  then show "map_option is_dir (tr p) = Some False \<longleftrightarrow> (\<exists>i. tr p = Some (Reg i))"
    "map_option is_dir (tr p) = Some True \<longleftrightarrow> (\<exists>m. tr p = Some (Dir m))"
    "map_option is_dir (tr p) = None \<longleftrightarrow> tr p = None" by auto
qed

lemma k_name_sets: "k_leaf c \<notin> k_dir ` S" "k_dir c \<notin> k_leaf ` S" "k_dir c \<notin> k_dir ` {..<c}" "k_leaf c \<notin> k_leaf ` {..<c}"
  by (auto simp: k_names)

lemma open_dirs_node:
  assumes "c < n"
  shows "open_dirs (k_dirs l n n (b @ [k_dir c])) ((open_dirs (k_dirs (Suc l) c n b) t)(b @ [k_dir c] := Some (Dir TRAV_MODE)))
    = open_dirs (k_dirs (Suc l) (Suc c) n b) t"
proof
  fix p
  show "open_dirs (k_dirs l n n (b @ [k_dir c])) ((open_dirs (k_dirs (Suc l) c n b) t)(b @ [k_dir c] := Some (Dir TRAV_MODE))) p
    = open_dirs (k_dirs (Suc l) (Suc c) n b) t p"
  proof (cases "\<exists>x q. p = b @ x # q")
    case True
    then obtain x q where p: "p = b @ x # q" by blast
    have sub: "k_dirs l n n (b @ [k_dir c]) p \<longleftrightarrow> x = k_dir c \<and> k_kind l n n q = Some True"
      by (auto simp: k_dirs_def p)
    have top: "k_dirs (Suc l) m n b p \<longleftrightarrow> k_kind (Suc l) m n (x # q) = Some True" for m by (auto simp: k_dirs_def p)
    show ?thesis
      by (cases q) (auto simp: open_dirs_def sub top k_kind_Suc simp del: k_kind.simps(1), auto simp: p k_name_sets)
  next
    case False
    then have "\<not> k_dirs l n n (b @ [k_dir c]) p" "\<not> k_dirs (Suc l) m n b p" "p \<noteq> b @ [k_dir c]" for m
      unfolding k_dirs_def by (auto, metis append.right_neutral k_kind.simps(3) neq_Nil_conv option.distinct(1))
    then show ?thesis by (simp add: open_dirs_def)
  qed
qed

lemma view_eqI: "fs_cwd (v :: fs_view) = fs_cwd u \<Longrightarrow> fs_tree v = t \<Longrightarrow> v = u\<lparr>fs_tree := t\<rparr>"
  by (cases v; cases u) simp

lemma open_dirs_ready:
  assumes "ready root v" "\<not> D (fs_cwd v)"
  shows "ready root (v\<lparr>fs_tree := open_dirs D (fs_tree v)\<rparr>)"
  using assms by (auto simp: ready_def open_dirs_def)

lemma k_dirs_cwd: "\<not> k_dirs l m n b b"
  using k_dirs_not_above [of "length b" b] by simp

lemma open_dirs_walkable:
  "walkable root (open_dirs (k_dirs l m n b) t) b \<longleftrightarrow> walkable root t b"
  by (simp add: walkable_def open_dirs_def k_dirs_not_above)

lemma trav_spec:
  assumes law: "tree_law os view True umask" and n: "n \<le> 10 ^ k" "0 < k" "n \<le> 2 ^ 31"
  shows "k_start True k l (view w) \<Longrightarrow>
    (\<And>q. q \<noteq> [] \<Longrightarrow> map_option is_dir (fs_tree (view w) (fs_cwd (view w) @ q)) = k_kind l n n q) \<Longrightarrow>
    \<exists>w'. k_tree_trav os l n (out, w) = (Inr (if l = 0 then 0 else 1), out, w') \<and>
      view w' = (view w)\<lparr>fs_tree := open_dirs (k_dirs l n n (fs_cwd (view w))) (fs_tree (view w))\<rparr>"
proof (induction l arbitrary: w)
  case 0
  have "open_dirs (k_dirs 0 n n b) t = t" for b t by (simp add: open_dirs_def k_dirs_def)
  then show ?case by simp
next
  case (Suc l)
  let ?b = "fs_cwd (view w)" and ?t = "fs_tree (view w)"
  let ?T = "\<lambda>c. open_dirs (k_dirs (Suc l) c n ?b) ?t"
  let ?I = "\<lambda>c (s :: string option) w'. view w' = (view w)\<lparr>fs_tree := ?T c\<rparr>"
  note s = Suc.prems(1) [unfolded k_start_def] and shape = Suc.prems(2)
  have no_sym: "\<forall>p u. ?t p \<noteq> Some (Sym u)" using s by (simp add: ready_def)
  have "\<exists>s' w'. each_with (trav_node os (k_tree_trav os l n)) [0..<n] None (out, w) = (Inr s', out, w') \<and> ?I n s' w'"
  proof (rule each_with_counts [where I = ?I])
    have "k_kind (Suc l) 0 n q \<noteq> Some True" for q by (cases q) auto
    then have "?T 0 = ?t" by (simp add: open_dirs_def k_dirs_def)
    then show "?I 0 None w" by simp
  next
    fix c cwd w1
    assume c: "c < n" and I: "?I c cwd w1"
    let ?d = "?b @ [k_dir c]"
    have start: "k_start True k (Suc l) (view w1)"
      using s open_dirs_ready [of True "view w" "k_dirs (Suc l) c n ?b"] by (simp add: k_start_def I k_dirs_cwd open_dirs_walkable)
    have kept: "?T c (?b @ q) = ?t (?b @ q)" if "k_kind (Suc l) c n q \<noteq> Some True" for q
      using that by (simp add: open_dirs_def k_dirs_below)
    have free: "k_kind (Suc l) c n q \<noteq> Some True" if "k_kind (Suc l) n n q = None" for q
      using k_kind_dir_mono [of l c n q] that c by auto
    obtain i where leaf: "?T c (?b @ [k_leaf c]) = Some (Reg i)"
      using shape [of "[k_leaf c]"] is_dir_cases(1) [OF no_sym] k_kind_node(1) [OF c] kept [of "[k_leaf c]"] k_kind_new(2) [of l c n]
      by fastforce
    obtain m where dir: "?T c ?d = Some (Dir m)"
      using shape [of "[k_dir c]"] is_dir_cases(2) [OF no_sym] k_kind_node(2) [OF c] kept [of "[k_dir c]"] k_kind_new(1) [of l c n "[]"]
      by fastforce
    have none: "?T c (?b @ [k_tmp c]) = None" "?T c (?b @ [k_ln c]) = None"
      using shape [of "[k_tmp c]"] shape [of "[k_ln c]"] k_kind_node(3,4) [OF c, of l]
        kept [OF free [OF k_kind_node(3) [OF c, of l]]] kept [OF free [OF k_kind_node(4) [OF c, of l]]]
      by (simp_all del: k_kind.simps)
    obtain w2 where 2: "trav_node os (k_tree_trav os l n) c cwd (out, w1)
          = visit os (k_dir c) (Some (path_text ?b)) (k_tree_trav os l n) (out, w2)"
        "view w2 = put ?d (Some (Dir TRAV_MODE)) (view w1)" "ready True (view w2)"
      using trav_node_run [OF law, of w1 ?b c n i m "k_tree_trav os l n" cwd out] start leaf dir none c n(3) by (auto simp: I k_start_def)
    have cwd2: "fs_cwd (view w2) = ?b" and t2: "fs_tree (view w2) = (?T c)(?d := Some (Dir TRAV_MODE))"
      by (simp_all add: 2(2) I)
    have walk2: "walkable True (fs_tree (view w2)) ?b"
      using start unfolding k_start_def t2 I walkable_def
      by (simp add: I) (metis append_self_conv length_append_singleton length_take min.cobounded1 not_less_eq_eq order_refl)
    have "k_start True k (Suc l) (view w2)" using 2(3) walk2 s by (simp add: k_start_def cwd2)
    then have below: "k_start True k l ((view w2)\<lparr>fs_cwd := ?d\<rparr>)"
      using k_start_below [of True k l "view w2" c n] c n k_file_names(1) [OF c n(3)] by (simp add: cwd2 t2 may_enter_def may_change_def)
    have "\<exists>w'. visit os (k_dir c) (Some (path_text ?b)) (k_tree_trav os l n) (out, w2) = (Inr (Some (path_text ?b)), out, w')
      \<and> fs_cwd (view w') = ?b \<and> fs_tree (view w') = ?T (Suc c)"
    proof (rule visit_run [OF law 2(3) k_file_names(1) [OF c n(3)]])
      show "may_enter True (fs_tree (view w2) (at (view w2) (k_dir c)))" by (simp add: at_def cwd2 t2 may_enter_def)
      show "fs_cwd (view w2) = ?b" "proper ?b" "length (path_text ?b) < PATH_LIMIT" using s cwd2 by auto
    next
      fix w3 assume 3: "view w3 = (view w2)\<lparr>fs_cwd := ?b @ [k_dir c]\<rparr>"
      have "map_option is_dir (fs_tree (view w3) (fs_cwd (view w3) @ q)) = k_kind l n n q" if "q \<noteq> []" for q
        using shape [of "k_dir c # q"] kept [of "k_dir c # q"] k_kind_new(1) [of l c n q] k_kind_node(5) [OF c that, of l] that
        by (simp add: 3 t2)
      then obtain w4 where 4: "k_tree_trav os l n (out, w3) = (Inr (if l = 0 then 0 else 1), out, w4)"
          "view w4 = (view w3)\<lparr>fs_tree := open_dirs (k_dirs l n n ?d) (fs_tree (view w3))\<rparr>"
        using Suc.IH [of w3] below 3 by auto
      have "fs_tree (view w4) = ?T (Suc c)" using open_dirs_node [OF c, of l ?b ?t] by (simp add: 4(2) 3 t2)
      moreover have "ready True (view w4)"
        using open_dirs_ready [of True "view w3" "k_dirs l n n ?d"] below by (simp add: 4(2) 3 k_start_def k_dirs_cwd)
      moreover have "walkable True (?T (Suc c)) ?b" using s by (simp add: open_dirs_walkable)
      ultimately show "\<exists>r w4. k_tree_trav os l n (out, w3) = (Inr r, out, w4) \<and> ready True (view w4)
          \<and> walkable True (fs_tree (view w4)) ?b \<and> fs_tree (view w4) = ?T (Suc c)"
        using 4(1) by auto
    qed
    then show "\<exists>s' w'. trav_node os (k_tree_trav os l n) c cwd (out, w1) = (Inr s', out, w') \<and> ?I (Suc c) s' w'"
      using view_eqI unfolding 2(1) by blast
  qed
  then obtain cwd w1 where "each_with (trav_node os (k_tree_trav os l n)) [0..<n] None (out, w) = (Inr cwd, out, w1)"
      "?I n cwd w1" by blast
  then show ?case by (simp add: sbind_apply)
qed

text \<open>
  C29. As root, \<open>k-tree-trav\<close> finds every node of a tree that \<open>k-tree-gen\<close> made, leaves every file with its inode where it
  was and no other file behind, sets the mode of every directory, and ends where it started.
\<close>

theorem k_trav_root:
  assumes "tree_law os view True umask" "nat (atoi width) \<le> 10 ^ k" "0 < k" "k_start True k (nat (atoi depth)) (view w)"
    and "\<forall>q. q \<noteq> [] \<longrightarrow> map_option is_dir (fs_tree (view w) (fs_cwd (view w) @ q))
      = k_kind (nat (atoi depth)) (nat (atoi width)) (nat (atoi width)) q"
  shows "\<exists>out' w'. trav_main os argv0 [depth, width] (out, w) = (Inr 0, out', w') \<and> fs_cwd (view w') = fs_cwd (view w)
    \<and> (\<forall>p. fs_tree (view w') p =
        (if \<exists>q. p = fs_cwd (view w) @ q \<and> k_kind (nat (atoi depth)) (nat (atoi width)) (nat (atoi width)) q = Some True
         then Some (Dir TRAV_MODE) else fs_tree (view w) p))"
proof -
  let ?l = "nat (atoi depth)" and ?n = "nat (atoi width)"
  have "\<exists>out' w'. trav_main os argv0 [depth, width] (out, w) = (Inr 0, out', w')
      \<and> view w' = (view w)\<lparr>fs_tree := open_dirs (k_dirs ?l ?n ?n (fs_cwd (view w))) (fs_tree (view w))\<rparr>"
    unfolding trav_main_def using trav_spec [OF assms(1-3) atoi_bound assms(4)] assms(5) by (intro k_main_run) blast
  then show ?thesis by (auto simp: open_dirs_def k_dirs_def)
qed

theorem k_trav_root_witness:
  "\<exists>out1 w1 out2 w2. gen_main (memory_fs True 0) [''2'', ''2''] ([], empty_fs) = (Inr 0, out1, w1)
    \<and> trav_main (memory_fs True 0) ''k-tree-trav'' [''2'', ''2''] (out1, w1) = (Inr 0, out2, w2)
    \<and> fs_tree w2 [''tmp'', k_dir 1] = Some (Dir TRAV_MODE)"
proof -
  have two: "nat (atoi ''2'') = 2" by (simp add: atoi_digit)
  have um: "usable_umask True 0" by (simp add: usable_umask_def)
  have start: "k_start True 1 2 empty_fs" by (rule empty_fs_start) simp
  have gen: "\<exists>w'. k_tree_gen (memory_fs True 0) 2 2 (out, empty_fs) = (Inr 1, out, w') \<and> fs_cwd w' = fs_cwd empty_fs
      \<and> k_built 2 2 2 (fs_cwd empty_fs) (made_mode 0) (fs_tree empty_fs) (fs_tree w')" for out
    using gen_spec [OF memory_fs_law um, of 2 1 2 empty_fs out] empty_fs_empty start by auto
  have "\<exists>out' w'. gen_main (memory_fs True 0) [''2'', ''2''] ([], empty_fs) = (Inr 0, out', w')
      \<and> fs_cwd w' = fs_cwd empty_fs \<and> k_built 2 2 2 (fs_cwd empty_fs) (made_mode 0) (fs_tree empty_fs) (fs_tree w')"
    unfolding gen_main_def
    by (intro k_main_run) (unfold two, use gen in blast)
  then obtain out1 w1 where 1: "gen_main (memory_fs True 0) [''2'', ''2''] ([], empty_fs) = (Inr 0, out1, w1)"
      "fs_cwd w1 = fs_cwd empty_fs" "k_built 2 2 2 (fs_cwd empty_fs) (made_mode 0) (fs_tree empty_fs) (fs_tree w1)" by blast
  have "k_start True 1 2 w1"
    using start k_built_ready [OF 1(3) 1(2) refl] k_built_walkable [OF 1(3)] 1(2) by (simp add: k_start_def)
  then obtain out2 w2 where 2: "trav_main (memory_fs True 0) ''k-tree-trav'' [''2'', ''2''] (out1, w1) = (Inr 0, out2, w2)"
      "\<And>p. fs_tree w2 p = (if \<exists>q. p = fs_cwd w1 @ q \<and> k_kind 2 2 2 q = Some True then Some (Dir TRAV_MODE) else fs_tree w1 p)"
    using k_trav_root [OF memory_fs_law, where width = "''2''" and depth = "''2''" and k = 1 and w = w1 and umask = 0
        and out = out1 and ?argv0.0 = "''k-tree-trav''"] 1(2,3) two unfolding k_built_def
    by auto
  have "k_kind 2 2 2 [k_dir 1] = Some True" by (simp add: numeral_2_eq_2)
  then have "fs_tree w2 [''tmp'', k_dir 1] = Some (Dir TRAV_MODE)"
    using 2(2) [of "[''tmp'', k_dir 1]"] by (auto simp: 1(2) empty_fs_def)
  with 1(1) 2(1) show ?thesis by blast
qed

end
