(* ===== verification/K_Tree_User.thy ===== *)
theory K_Tree_User
  imports K_Tree
begin

text \<open>
  \<open>k-tree-trav\<close> for another user than root, whose \<open>chmod\<close> shuts the directories before it can enter them: which nodes it
  visits instead is read off a file system that is watched.
\<close>

section \<open>A watched run is a run\<close>

text \<open>\<open>m'\<close> does on a world with a list what \<open>m\<close> does on the world.\<close>

definition shadows :: "('g, 'w \<times> 'l, 'a) act \<Rightarrow> ('g, 'w, 'a) act \<Rightarrow> bool" where
  "shadows m' m \<longleftrightarrow> (\<forall>g w l. \<exists>l'. m' (g, w, l) = (case m (g, w) of (r, g, w) \<Rightarrow> (r, g, w, l')))"

lemma shadows_base [intro]:
  "shadows (ret x) (ret x)" "shadows (halt e) (halt e)" "shadows nop nop" "shadows (upd f) (upd f)"
  by (simp_all add: shadows_def ret_def halt_def nop_def upd_def)

lemma shadowsD:
  assumes "shadows m' m" "m (g, w) = (r, g1, w1)"
  shows "\<exists>l'. m' (g, w, l) = (r, g1, w1, l')"
  using assms(1) [unfolded shadows_def, THEN spec, THEN spec, THEN spec, of g w l] by (simp add: assms(2))

lemma shadowsI:
  assumes "\<And>g w l r g1 w1. m (g, w) = (r, g1, w1) \<Longrightarrow> \<exists>l'. m' (g, w, l) = (r, g1, w1, l')"
  shows "shadows m' m"
  unfolding shadows_def
proof (intro allI)
  fix g w l
  obtain r g1 w1 where "m (g, w) = (r, g1, w1)" by (metis prod_cases3)
  with assms [OF this, of l] show "\<exists>l'. m' (g, w, l) = (case m (g, w) of (r, g, w) \<Rightarrow> (r, g, w, l'))" by simp
qed

lemma shadows_call:
  assumes "\<And>w l. \<exists>l'. f' (w, l) = (fst (f w), snd (f w), l')"
  shows "shadows (call f') (call f)"
proof (rule shadowsI)
  fix g w l r g1 w1
  assume "call f (g, w) = (r, g1, w1)"
  moreover obtain l' where "f' (w, l) = (fst (f w), snd (f w), l')" using assms by blast
  ultimately show "\<exists>l'. call f' (g, w, l) = (r, g1, w1, l')" by (cases "f w") (simp add: call_def)
qed

lemma shadows_bind:
  assumes "shadows m' m" "\<And>x. shadows (h' x) (h x)"
  shows "shadows (sbind m' h') (sbind m h)"
proof (rule shadowsI)
  fix g w l r g2 w2
  assume run: "sbind m h (g, w) = (r, g2, w2)"
  obtain q g1 w1 where 1: "m (g, w) = (q, g1, w1)" by (metis prod_cases3)
  from shadowsD [OF assms(1) this] obtain l1 where "m' (g, w, l) = (q, g1, w1, l1)" by blast
  with 1 run shadowsD [OF assms(2)] show "\<exists>l'. sbind m' h' (g, w, l) = (r, g2, w2, l')"
    by (cases q) (auto simp: sbind_def)
qed

lemma shadows_seq: "shadows m' m \<Longrightarrow> shadows n' n \<Longrightarrow> shadows (sseq m' n') (sseq m n)"
  by (simp add: sseq_def shadows_bind)

lemma shadows_each: "(\<And>x s. shadows (f' x s) (f x s)) \<Longrightarrow> shadows (each_with f' xs s) (each_with f xs s)"
  by (induction xs arbitrary: s) (auto intro: shadows_bind)

lemma watched_calls:
  "shadows (call (f_link (watched os view) a b)) (call (f_link os a b))"
  "shadows (call (f_unlink (watched os view) a)) (call (f_unlink os a))"
  "shadows (call (f_rename (watched os view) a b)) (call (f_rename os a b))"
  "shadows (call (f_symlink (watched os view) a b)) (call (f_symlink os a b))"
  "shadows (call (f_getcwd (watched os view))) (call (f_getcwd os))"
  "shadows (call (f_chdir (watched os view) a)) (call (f_chdir os a))"
  "shadows (call (f_chmod (watched os view) a m)) (call (f_chmod os a m))"
  by (rule shadows_call, simp add: watched_def pass_on_def)+

lemmas shadows_intros = shadows_base watched_calls shadows_bind shadows_seq shadows_each

lemma watched_visit: "shadows sub' sub \<Longrightarrow> shadows (visit (watched os view) d cwd sub') (visit os d cwd sub)"
  unfolding visit_def by (cases cwd) (auto intro!: shadows_intros)

lemma watched_node: "shadows sub' sub \<Longrightarrow> shadows (trav_node (watched os view) sub' c cwd) (trav_node os sub c cwd)"
  unfolding trav_node_def trav_inodes_def save_cwd_def by (intro shadows_intros watched_visit)

lemma watched_trav: "shadows (k_tree_trav (watched os view) l n) (k_tree_trav os l n)"
proof (induction l)
  case 0
  show ?case unfolding k_tree_trav.simps by (rule shadows_base)
next
  case (Suc l)
  show ?case unfolding k_tree_trav.simps by (intro shadows_intros watched_node Suc.IH)
qed

lemma watched_main: "shadows (trav_main (watched os view) argv0 args) (trav_main os argv0 args)"
  unfolding trav_main_def k_main_def Let_def
  by (auto intro!: shadows_intros watched_trav split: list.split)

section \<open>What it visits\<close>

lemma visit_stay:
  assumes law: "tree_law os view root umask" and rdy: "ready root (view w)" and name: "file_name (k_dir c)"
    and logs: "logs_links os view log"
    and dir: "\<not> may_enter root (fs_tree (view w) (at (view w) (k_dir c)))"
    and b: "fs_cwd (view w) = b" "proper b" "length (path_text b) < PATH_LIMIT"
    and sub: "\<And>w1. view w1 = view w \<Longrightarrow> log w1 = log w \<Longrightarrow>
      \<exists>r w2. sub (out, w1) = (Inr r, out, w2) \<and> ready root (view w2) \<and> walkable root (fs_tree (view w2)) b
        \<and> fs_cwd (view w2) = b \<and> P (view w2) (log w2)"
  shows "\<exists>w'. visit os (k_dir c) (Some (path_text b)) sub (out, w) = (Inr (Some (path_text b)), out, w') \<and> P (view w') (log w')"
proof -
  let ?w1 = "snd (f_chdir os (k_dir c) w)"
  have "view ?w1 = view w"
    using law_chdir(1) [OF law rdy name] dir v_chdir_name [OF name] by simp
  moreover have "log ?w1 = log w" using logs by (simp add: logs_links_def)
  ultimately obtain r w2 where 2: "sub (out, ?w1) = (Inr r, out, w2)" "ready root (view w2)"
      "walkable root (fs_tree (view w2)) b" "fs_cwd (view w2) = b" "P (view w2) (log w2)"
    using sub by blast
  then have "view (snd (f_chdir os (path_text b) w2)) = (view w2)\<lparr>fs_cwd := b\<rparr>"
    using law_chdir(2) [OF law 2(2) b(2)] v_chdir_back [OF b(2,3)] by simp
  also have "\<dots> = view w2" using 2(4) by (cases "view w2") simp
  finally show ?thesis using 2 logs by (simp add: visit_def sseq_apply [of sub] logs_links_def)
qed

text \<open>The nodes of one directory: its files and its directories.\<close>

definition k_nodes :: "nat \<Rightarrow> fs_view \<Rightarrow> bool" where
  "k_nodes n v \<longleftrightarrow> (\<forall>c<n. (\<exists>i. fs_tree v (at v (k_leaf c)) = Some (Reg i)) \<and> (\<exists>m. fs_tree v (at v (k_dir c)) = Some (Dir m))
     \<and> fs_tree v (at v (k_tmp c)) = None \<and> fs_tree v (at v (k_ln c)) = None)"

definition closed :: "nat set \<Rightarrow> fs_view \<Rightarrow> fs_view" where
  "closed D v = v\<lparr>fs_tree := open_dirs (\<lambda>p. \<exists>c\<in>D. p = at v (k_dir c)) (fs_tree v)\<rparr>"

lemma open_dirs_twice: "open_dirs D (open_dirs E t) = open_dirs (\<lambda>p. D p \<or> E p) t"
  by (auto simp: open_dirs_def fun_eq_iff)

lemma open_dirs_upd: "(open_dirs D t)(p := Some (Dir TRAV_MODE)) = open_dirs (\<lambda>q. q = p \<or> D q) t"
  by (auto simp: open_dirs_def fun_eq_iff)

lemma at_tree [simp]: "at (v\<lparr>fs_tree := t\<rparr>) s = at v s"
  by (simp add: at_def)

lemma closed_simps [simp]:
  "fs_cwd (closed D v) = fs_cwd v" "at (closed D v) s = at v s" "closed D (closed E v) = closed (D \<union> E) v" "closed {} v = v"
  "put (at v (k_dir c)) (Some (Dir TRAV_MODE)) (closed D v) = closed (insert c D) v"
  by (simp_all add: closed_def open_dirs_twice open_dirs_upd put_def bex_Un) (simp add: open_dirs_def)

lemma closed_tree: "s \<notin> range k_dir \<Longrightarrow> fs_tree (closed D v) (at v s) = fs_tree v (at v s)"
  by (auto simp: closed_def open_dirs_def)

lemma closed_nodes: "k_nodes n v \<Longrightarrow> k_nodes n (closed D v)"
  unfolding k_nodes_def using k_names
  by (auto simp: closed_def open_dirs_def at_def)

lemma closed_ready: "ready root v \<Longrightarrow> ready root (closed D v)"
  unfolding closed_def by (rule open_dirs_ready) auto

lemma closed_walkable: "walkable root (fs_tree (closed D v)) (fs_cwd v) \<longleftrightarrow> walkable root (fs_tree v) (fs_cwd v)"
proof -
  have "take k (fs_cwd v) \<noteq> at v s" for k s
  proof
    assume "take k (fs_cwd v) = at v s"
    then have "length (take k (fs_cwd v)) = length (at v s)" by simp
    then show False by (simp add: at_def)
  qed
  then have "fs_tree (closed D v) (take k (fs_cwd v)) = fs_tree v (take k (fs_cwd v))" for k
    by (simp add: closed_def open_dirs_def)
  then show ?thesis by (simp add: walkable_def)
qed

lemma TRAV_MODE_closed: "\<not> may_enter False (Some (Dir TRAV_MODE))"
  by (simp add: may_enter_def TRAV_MODE_def)

text \<open>The numbers of the nodes that are visited: every one of the directory, again and again.\<close>

fun user_walk :: "nat \<Rightarrow> nat \<Rightarrow> nat list" where
  "user_walk 0 n = []"
| "user_walk (Suc l) n = concat (map (\<lambda>c. c # user_walk l n) [0..<n])"

lemma trav_stays:
  assumes law: "tree_law os view False umask" and logs: "logs_links os view log" and n: "n \<le> 2 ^ 31"
  shows "k_start False k 0 (view w) \<Longrightarrow> k_nodes n (view w) \<Longrightarrow>
    \<exists>w'. k_tree_trav os l n (out, w) = (Inr (if l = 0 then 0 else 1), out, w') \<and>
      view w' = closed (if l = 0 then {} else {..<n}) (view w) \<and>
      log w' = log w @ map (\<lambda>c. at (view w) (k_leaf c)) (user_walk l n)"
proof (induction l arbitrary: w)
  case (Suc l)
  let ?b = "fs_cwd (view w)" and ?at = "\<lambda>c. at (view w) (k_leaf c)"
  let ?seen = "\<lambda>c. log w @ map ?at (concat (map (\<lambda>c. c # user_walk l n) [0..<c]))"
  let ?I = "\<lambda>c (s :: string option) w'. \<exists>D. {..<c} \<subseteq> D \<and> D \<subseteq> {..<n} \<and> view w' = closed D (view w) \<and> log w' = ?seen c"
  note s = Suc.prems(1) [unfolded k_start_def]
  have "\<exists>s' w'. each_with (trav_node os (k_tree_trav os l n)) [0..<n] None (out, w) = (Inr s', out, w') \<and> ?I n s' w'"
  proof (rule each_with_counts [where I = ?I])
    show "?I 0 None w" by (intro exI [of _ "{}"]) simp
  next
    fix c cwd w1
    assume c: "c < n" and "?I c cwd w1"
    then obtain D where D: "{..<c} \<subseteq> D" "D \<subseteq> {..<n}" "view w1 = closed D (view w)" "log w1 = ?seen c" by blast
    have start: "k_start False k 0 (view w1)"
      using s by (simp add: k_start_def D(3) closed_ready closed_walkable)
    obtain i m where nodes: "fs_tree (view w1) (?b @ [k_leaf c]) = Some (Reg i)" "fs_tree (view w1) (?b @ [k_tmp c]) = None"
        "fs_tree (view w1) (?b @ [k_ln c]) = None" "fs_tree (view w1) (?b @ [k_dir c]) = Some (Dir m)"
      using closed_nodes [OF Suc.prems(2), of D] c unfolding D(3) k_nodes_def closed_simps(2) unfolding at_def by blast
    have cwd1: "fs_cwd (view w1) = ?b" by (simp add: D(3))
    have "ready False (view w1)" "length (path_text ?b) < PATH_LIMIT" using start s by (simp_all add: k_start_def)
    then obtain w2 where w2: "trav_node os (k_tree_trav os l n) c cwd (out, w1)
          = visit os (k_dir c) (Some (path_text ?b)) (k_tree_trav os l n) (out, w2)"
        "view w2 = put (?b @ [k_dir c]) (Some (Dir TRAV_MODE)) (view w1)" "ready False (view w2)"
        "log w2 = ?seen c @ [?at c]"
      using trav_node_run [OF law _ cwd1 _ c n nodes] D(4) logs unfolding at_def by metis
    have "view w2 = closed (insert c D) (view w)"
      unfolding w2(2) D(3) at_def [of "view w" "k_dir c", symmetric] by (rule closed_simps(5))
    note 2 = w2(1) this w2(3,4)
    let ?E = "(if l = 0 then {} else {..<n}) \<union> insert c D"
    have "\<exists>w'. visit os (k_dir c) (Some (path_text ?b)) (k_tree_trav os l n) (out, w2) = (Inr (Some (path_text ?b)), out, w')
      \<and> (view w' = closed ?E (view w) \<and> log w' = ?seen (Suc c))"
    proof (rule visit_stay [OF law 2(3) k_file_names(1) [OF c n] logs])
      show "\<not> may_enter False (fs_tree (view w2) (at (view w2) (k_dir c)))"
        using TRAV_MODE_closed by (auto simp: 2(2)) (auto simp: closed_def open_dirs_def)
      show "fs_cwd (view w2) = ?b" "proper ?b" "length (path_text ?b) < PATH_LIMIT" using s by (auto simp: 2(2))
    next
      fix w3 assume 3: "view w3 = view w2" "log w3 = log w2"
      have "k_start False k 0 (view w3)" using s by (simp add: k_start_def 3(1) 2(2) closed_ready closed_walkable)
      moreover have "k_nodes n (view w3)" using closed_nodes [OF Suc.prems(2)] by (simp add: 3(1) 2(2))
      ultimately obtain w4 where 4: "k_tree_trav os l n (out, w3) = (Inr (if l = 0 then 0 else 1), out, w4)"
          "view w4 = closed (if l = 0 then {} else {..<n}) (view w3)"
          "log w4 = log w3 @ map (\<lambda>c. at (view w3) (k_leaf c)) (user_walk l n)"
        using Suc.IH by blast
      have "view w4 = closed ?E (view w)" "log w4 = ?seen (Suc c)" by (simp_all add: 4(2,3) 3 2(2,4))
      with 4(1) s show "\<exists>r w4. k_tree_trav os l n (out, w3) = (Inr r, out, w4) \<and> ready False (view w4)
          \<and> walkable False (fs_tree (view w4)) ?b \<and> fs_cwd (view w4) = ?b \<and> (view w4 = closed ?E (view w) \<and> log w4 = ?seen (Suc c))"
        by (auto simp: closed_ready closed_walkable)
    qed
    moreover have "{..<Suc c} \<subseteq> ?E" "?E \<subseteq> {..<n}" using D(1,2) c by (auto simp: lessThan_Suc)
    ultimately show "\<exists>s' w'. trav_node os (k_tree_trav os l n) c cwd (out, w1) = (Inr s', out, w') \<and> ?I (Suc c) s' w'"
      unfolding 2(1) by blast
  qed
  then obtain cwd w1 D where "each_with (trav_node os (k_tree_trav os l n)) [0..<n] None (out, w) = (Inr cwd, out, w1)"
      "{..<n} \<subseteq> D" "D \<subseteq> {..<n}" "view w1 = closed D (view w)" "log w1 = ?seen n" by blast
  then show ?case by (simp add: sbind_apply subset_antisym)
qed simp

text \<open>
  C36. For any other user the \<open>chmod\<close> takes away the permission to enter a directory just before the \<open>chdir\<close> into it. So
  \<open>k-tree-trav\<close> comes to the nodes of the directory it starts in over and over, and to no other one: run on the same file
  system watched, it calls \<open>link\<close> for the files of \<open>user_walk\<close>, one after the other, all in the starting directory.
  The directories there lose their modes, nothing else changes, and the status is 0.
\<close>

theorem k_trav_user:
  assumes "tree_law os view False umask" "k_start False k 0 (view w)" "k_nodes (nat (atoi width)) (view w)" "0 < atoi depth"
  shows "\<exists>out' w'. trav_main os argv0 [depth, width] (out, w) = (Inr 0, out', w')
    \<and> trav_main (watched os view) argv0 [depth, width] (out, w, [])
      = (Inr 0, out', w', map (\<lambda>c. fs_cwd (view w) @ [k_leaf c]) (user_walk (nat (atoi depth)) (nat (atoi width))))
    \<and> fs_cwd (view w') = fs_cwd (view w)
    \<and> (\<forall>p. fs_tree (view w') p =
        (if \<exists>c<nat (atoi width). p = fs_cwd (view w) @ [k_dir c] then Some (Dir TRAV_MODE) else fs_tree (view w) p))"
proof -
  let ?l = "nat (atoi depth)" and ?n = "nat (atoi width)"
  let ?P = "\<lambda>w'. view (fst w') = closed {..<?n} (view w) \<and> snd w' = map (\<lambda>c. at (view w) (k_leaf c)) (user_walk ?l ?n)"
  have "\<exists>w'. k_tree_trav (watched os view) ?l ?n (out, w, []) = (Inr 1, out, w') \<and> ?P w'" for out
    using trav_stays [OF watched_law [OF assms(1)] watched_logs atoi_bound, of k "(w, [])" width ?l out] assms(2-4) by simp
  then have "\<exists>out' w'. trav_main (watched os view) argv0 [depth, width] (out, w, []) = (Inr 0, out', w') \<and> ?P w'"
    unfolding trav_main_def by (intro k_main_run) blast
  then obtain out' w' l where run: "trav_main (watched os view) argv0 [depth, width] (out, w, []) = (Inr 0, out', w', l)"
      "?P (w', l)" by auto
  obtain r g u where "trav_main os argv0 [depth, width] (out, w) = (r, g, u)" by (metis prod_cases3)
  moreover from shadowsD [OF watched_main this, of view "[]"] run(1) have "r = Inr 0 \<and> g = out' \<and> u = w'" by auto
  ultimately have "trav_main os argv0 [depth, width] (out, w) = (Inr 0, out', w')" by simp
  with run show ?thesis by (auto simp: closed_def open_dirs_def at_def)
qed

lemma k_built_nodes:
  assumes "k_built (Suc l) n n (fs_cwd v) mode t0 (fs_tree v)" "ready root v"
  shows "k_nodes n v"
  unfolding k_nodes_def
proof (intro allI impI)
  fix c assume c: "c < n"
  have no_sym: "\<forall>p u. fs_tree v p \<noteq> Some (Sym u)" using assms(2) by (simp add: ready_def)
  have kind: "map_option is_dir (fs_tree v (at v s)) = k_kind (Suc l) n n [s]" for s
    using assms(1) unfolding k_built_def at_def by blast
  show "(\<exists>i. fs_tree v (at v (k_leaf c)) = Some (Reg i)) \<and> (\<exists>m. fs_tree v (at v (k_dir c)) = Some (Dir m))
     \<and> fs_tree v (at v (k_tmp c)) = None \<and> fs_tree v (at v (k_ln c)) = None"
    using kind [of "k_leaf c"] kind [of "k_dir c"] kind [of "k_tmp c"] kind [of "k_ln c"]
    unfolding k_kind_node(1-4) [OF c] is_dir_cases [OF no_sym] by blast
qed

theorem k_trav_user_witness:
  "\<exists>out1 w1 out2 w2. gen_main (memory_fs False 0) [''2'', ''2''] ([], empty_fs) = (Inr 0, out1, w1)
    \<and> trav_main (memory_fs False 0) ''k-tree-trav'' [''2'', ''2''] (out1, w1) = (Inr 0, out2, w2)
    \<and> trav_main (watched (memory_fs False 0) (\<lambda>v. v)) ''k-tree-trav'' [''2'', ''2''] (out1, w1, [])
        = (Inr 0, out2, w2, map (\<lambda>c. [''tmp'', k_leaf c]) [0, 0, 1, 1, 0, 1])
    \<and> fs_tree w2 [''tmp'', k_dir 1] = Some (Dir TRAV_MODE)
    \<and> fs_tree w2 [''tmp'', k_dir 1, k_dir 0] = fs_tree w1 [''tmp'', k_dir 1, k_dir 0]"
proof -
  have two: "nat (atoi ''2'') = 2" "0 < atoi ''2''" by (simp_all add: atoi_digit)
  have um: "usable_umask False 0" by (simp add: usable_umask_def)
  have start: "k_start False 1 2 empty_fs" "k_start False 1 0 empty_fs" by (rule empty_fs_start, simp)+
  have gen: "\<exists>w'. k_tree_gen (memory_fs False 0) 2 2 (out, empty_fs) = (Inr 1, out, w') \<and> fs_cwd w' = fs_cwd empty_fs
      \<and> k_built 2 2 2 (fs_cwd empty_fs) (made_mode 0) (fs_tree empty_fs) (fs_tree w')" for out
    using gen_spec [OF memory_fs_law um, of 2 1 2 empty_fs out] empty_fs_empty start(1) by auto
  have "\<exists>out' w'. gen_main (memory_fs False 0) [''2'', ''2''] ([], empty_fs) = (Inr 0, out', w')
      \<and> fs_cwd w' = fs_cwd empty_fs \<and> k_built 2 2 2 (fs_cwd empty_fs) (made_mode 0) (fs_tree empty_fs) (fs_tree w')"
    unfolding gen_main_def by (intro k_main_run) (unfold two, use gen in blast)
  then obtain out1 w1 where 1: "gen_main (memory_fs False 0) [''2'', ''2''] ([], empty_fs) = (Inr 0, out1, w1)"
      "fs_cwd w1 = fs_cwd empty_fs" "k_built 2 2 2 (fs_cwd empty_fs) (made_mode 0) (fs_tree empty_fs) (fs_tree w1)" by blast
  have r: "ready False w1" using start k_built_ready [OF 1(3) 1(2) refl] by (simp add: k_start_def)
  then have k: "k_start False 1 0 w1" using start k_built_walkable [OF 1(3)] 1(2) by (simp add: k_start_def)
  have "k_nodes 2 w1" using k_built_nodes [of 1 2 w1] 1(2,3) r by (simp add: numeral_2_eq_2)
  then obtain out2 w2 where 2: "trav_main (memory_fs False 0) ''k-tree-trav'' [''2'', ''2''] (out1, w1) = (Inr 0, out2, w2)"
      "trav_main (watched (memory_fs False 0) (\<lambda>v. v)) ''k-tree-trav'' [''2'', ''2''] (out1, w1, [])
        = (Inr 0, out2, w2, map (\<lambda>c. fs_cwd w1 @ [k_leaf c]) (user_walk 2 2))"
      "\<And>p. fs_tree w2 p = (if \<exists>c<2. p = fs_cwd w1 @ [k_dir c] then Some (Dir TRAV_MODE) else fs_tree w1 p)"
    using k_trav_user [OF memory_fs_law k, where width = "''2''" and depth = "''2''" and umask = 0 and out = out1
        and ?argv0.0 = "''k-tree-trav''"] two by auto
  have "fs_tree w2 [''tmp'', k_dir 1] = Some (Dir TRAV_MODE)" "fs_tree w2 [''tmp'', k_dir 1, k_dir 0] = fs_tree w1 [''tmp'', k_dir 1, k_dir 0]"
    using 2(3) [of "[''tmp'', k_dir 1]"] 2(3) [of "[''tmp'', k_dir 1, k_dir 0]"]
    by (auto simp: 1(2) empty_fs_def k_names dest: spec [of _ 1])
  moreover have "user_walk 2 2 = [0, 0, 1, 1, 0, 1]" by (simp add: numeral_2_eq_2)
  then have "map (\<lambda>c. fs_cwd w1 @ [k_leaf c]) (user_walk 2 2) = map (\<lambda>c. [''tmp'', k_leaf c]) [0, 0, 1, 1, 0, 1]"
    by (simp add: 1(2) empty_fs_def)
  ultimately show ?thesis using 1(1) 2(1,2) by metis
qed

end
