(* ===== verification/Sniper.thy ===== *)
theory Sniper
  imports Tinjpage
begin

text \<open>
  The sniper cases of \<open>tinjpage.c\<close> (option \<open>--sniper\<close>): a second thread is to poison a page while the first one has it
  under I/O. The threads meet in \<open>waitfor\<close>, over the variable \<open>sstate\<close>. A step of a thread is the code up to its next
  access to \<open>sstate\<close>; a look that does not find the value it waits for leaves everything as it is.
\<close>

section \<open>The threads\<close>

datatype sstate = START | WAITING | SNIPE

text \<open>The first thread: what it does before \<open>waitfor\<close>, the store and the loop of \<open>waitfor\<close>, and what follows.\<close>

datatype mplace = M_io | M_store | M_spin | M_after | M_done

text \<open>The sniper; \<open>S_none\<close> when \<open>pthread_create\<close> failed, which is not noticed as it never returns a negative number.\<close>

datatype splace = S_none | S_store | S_spin | S_poison | S_done

text \<open>\<open>struct poison_arg\<close>, a local variable of the first thread, and the I/O around the meeting.\<close>

record 'w io_case =
  arg_msg :: string
  arg_page :: u64
  arg_mode :: rmode
  io_before :: "(inj, 'w, unit) act"
  io_after :: "(inj, 'w, unit) act"

record 'w sniper_sys =
  sn_state :: sstate
  m_at :: mplace
  s_at :: splace
  sn_inj :: inj
  sn_world :: 'w
  sn_stop :: "stop option"

text \<open>Code between two accesses: when it ends the program, both threads are gone.\<close>

definition sn_run :: "(inj, 'w, unit) act \<Rightarrow> 'w sniper_sys \<Rightarrow> 'w sniper_sys" where
  "sn_run m s =
     (case m (sn_inj s, sn_world s) of (r, g, w) \<Rightarrow>
        s\<lparr>sn_inj := g, sn_world := w, sn_stop := (case r of Inl e \<Rightarrow> Some e | Inr _ \<Rightarrow> None)\<rparr>)"

text \<open>\<open>waitfor (WAITING, WAITING)\<close> in the first thread.\<close>

definition main_thread :: "'w io_case \<Rightarrow> 'w sniper_sys \<Rightarrow> 'w sniper_sys option" where
  "main_thread io s =
     (case m_at s of
        M_io \<Rightarrow> Some ((sn_run (io_before io) s)\<lparr>m_at := M_store\<rparr>)
      | M_store \<Rightarrow> Some (s\<lparr>sn_state := WAITING, m_at := M_spin\<rparr>)
      | M_spin \<Rightarrow> Some (if sn_state s = WAITING then s\<lparr>m_at := M_after\<rparr> else s)
      | M_after \<Rightarrow> Some ((sn_run (io_after io) s)\<lparr>m_at := M_done\<rparr>)
      | M_done \<Rightarrow> None)"

text \<open>\<open>sniper\<close>: \<open>waitfor (START, WAITING)\<close>, then the injection. When the first thread has returned, its \<open>arg\<close> is gone.\<close>

definition sniper_thread :: "tconf \<Rightarrow> 'w kern \<Rightarrow> 'w io_case \<Rightarrow> 'w sniper_sys \<Rightarrow> 'w sniper_sys option" where
  "sniper_thread c k io s =
     (case s_at s of
        S_store \<Rightarrow> Some (s\<lparr>sn_state := START, s_at := S_spin\<rparr>)
      | S_spin \<Rightarrow> Some (if sn_state s = WAITING then s\<lparr>s_at := S_poison\<rparr> else s)
      | S_poison \<Rightarrow>
          Some ((sn_run (if m_at s = M_done then halt (Undef ''arg is out of scope'')
                         else poison c k (arg_msg io) (arg_page io) (arg_mode io)) s)\<lparr>s_at := S_done\<rparr>)
      | _ \<Rightarrow> None)"

definition sniper_step :: "tconf \<Rightarrow> 'w kern \<Rightarrow> 'w io_case \<Rightarrow> nat \<Rightarrow> 'w sniper_sys \<Rightarrow> 'w sniper_sys option" where
  "sniper_step c k io i s =
     (if sn_stop s \<noteq> None then None
      else if i = 0 then main_thread io s
      else if i = 1 then sniper_thread c k io s
      else None)"

fun sniper_schedule :: "tconf \<Rightarrow> 'w kern \<Rightarrow> 'w io_case \<Rightarrow> nat list \<Rightarrow> 'w sniper_sys \<Rightarrow> 'w sniper_sys option" where
  "sniper_schedule c k io [] s = Some s"
| "sniper_schedule c k io (i # is) s =
     (case sniper_step c k io i s of None \<Rightarrow> None | Some t \<Rightarrow> sniper_schedule c k io is t)"

section \<open>The cases\<close>

text \<open>\<open>setup_sniper\<close>: with one processor there is no test; \<open>created\<close> is whether there is a thread.\<close>

definition setup_sniper :: "int \<Rightarrow> bool \<Rightarrow> 'w io_case \<Rightarrow> (inj, 'w, splace option) act" where
  "setup_sniper cpus created io =
     (if cpus < 2 then sseq (upd (say (arg_msg io @ '': Need at least two CPUs. Not tested'' @ [NL]))) (ret None)
      else ret (Some (if created then S_store else S_none)))"

definition under_io_dirty :: "tconf \<Rightarrow> 'w kern \<Rightarrow> (inj, 'w, 'w io_case) act" where
  "under_io_dirty c k =
     sbind (tempfd k) (\<lambda>fd.
     sbind (checked_mmap k (PS c) [PROT_READ, PROT_WRITE] [MAP_SHARED, MAP_POPULATE] fd) (\<lambda>page.
     ret \<lparr>arg_msg = ''under io dirty'', arg_page = page, arg_mode = MWRITE,
       io_before = sseq (call (k_sys k (Write fd (map (of_nat \<circ> of_char) ''xyz'')))) nop,
       io_after = sbind (call (k_sys k (Fsync fd))) (\<lambda>r.
         sseq (expecterr ''write under io'' (r < 0)) (sseq (call (k_sys k (Close fd))) nop))\<rparr>))"

text \<open>\<open>name\<close> is what the array \<open>fn\<close>, which is never set, happens to hold; \<open>pread\<close> gives no verdict.\<close>

definition under_io_clean :: "tconf \<Rightarrow> 'w kern \<Rightarrow> string \<Rightarrow> (inj, 'w, 'w io_case) act" where
  "under_io_clean c k name =
     sbind (playfile c k name) (\<lambda>(_, fd).
     sbind (checked_mmap k (PS c) [PROT_READ, PROT_WRITE] [MAP_SHARED, MAP_POPULATE] fd) (\<lambda>page.
     sseq (call (k_sys k (Madvise page (PS c) 4)))
    (ret \<lparr>arg_msg = ''under io clean'', arg_page = page, arg_mode = MREAD_OK,
       io_before = nop,
       io_after = sseq (call (k_sys k (Read fd 10))) (sseq (call (k_sys k (Close fd))) nop)\<rparr>)))"

definition sniper_init :: "splace \<Rightarrow> inj \<Rightarrow> 'w \<Rightarrow> 'w sniper_sys" where
  "sniper_init p g w = \<lparr>sn_state = START, m_at = M_io, s_at = p, sn_inj = g, sn_world = w, sn_stop = None\<rparr>"

text \<open>A case with a schedule of the threads: \<open>Inr None\<close> when it is not tested.\<close>

definition run_sniper ::
    "tconf \<Rightarrow> 'w kern \<Rightarrow> int \<Rightarrow> bool \<Rightarrow> (inj, 'w, 'w io_case) act \<Rightarrow> nat list \<Rightarrow> inj \<times> 'w \<Rightarrow> 'w sniper_sys option option res" where
  "run_sniper c k cpus created body is s =
     (case sbind body (\<lambda>io. sbind (setup_sniper cpus created io) (\<lambda>p. ret (io, p))) s of (r, g, w) \<Rightarrow>
        rbind r (\<lambda>(io, p). case p of
            None \<Rightarrow> Inr None
          | Some p \<Rightarrow> Inr (Some (sniper_schedule c k io is (sniper_init p g w)))))"

section \<open>How the threads meet, or not\<close>

lemma sniper_append:
  "sniper_schedule c k io (is @ js) s = (case sniper_schedule c k io is s of None \<Rightarrow> None | Some t \<Rightarrow> sniper_schedule c k io js t)"
  by (induction "is" arbitrary: s) (auto split: option.splits)

lemma sniper_keeps:
  assumes "\<And>i s t. I s \<Longrightarrow> sniper_step c k io i s = Some t \<Longrightarrow> I t"
  shows "sniper_schedule c k io is s = Some t \<Longrightarrow> I s \<Longrightarrow> I t"
  using assms by (induction "is" arbitrary: s) (auto split: option.splits)

lemma sn_run_fields [simp]:
  "sn_state (sn_run m s) = sn_state s" "m_at (sn_run m s) = m_at s" "s_at (sn_run m s) = s_at s"
  by (simp_all add: sn_run_def split: prod.split)

lemmas sniper_steps = sniper_step_def main_thread_def sniper_thread_def

text \<open>Once the sniper has stored \<open>START\<close> before the first thread stores \<open>WAITING\<close>, that value stays.\<close>

definition sniper_in_time :: "'w sniper_sys \<Rightarrow> bool" where
  "sniper_in_time s \<longleftrightarrow> s_at s \<notin> {S_none, S_store} \<and> (m_at s \<in> {M_spin, M_after, M_done} \<longrightarrow> sn_state s = WAITING)"

lemma sniper_in_time_step: "sniper_in_time s \<Longrightarrow> sniper_step c k io i s = Some t \<Longrightarrow> sniper_in_time t"
  by (auto simp: sniper_steps sniper_in_time_def split: mplace.splits splace.splits if_splits)

lemma sniper_in_time_keeps: "sniper_schedule c k io is s = Some t \<Longrightarrow> sniper_in_time s \<Longrightarrow> sniper_in_time t"
  using sniper_keeps [where I = sniper_in_time] sniper_in_time_step by blast

text \<open>When it comes later it takes the value away: the first thread hangs as well, or has gone on.\<close>

definition sniper_stuck :: "mplace set \<Rightarrow> 'w sniper_sys \<Rightarrow> bool" where
  "sniper_stuck places s \<longleftrightarrow> s_at s = S_spin \<and> sn_state s = START \<and> m_at s \<in> places"

lemma sniper_stuck_step:
  "sniper_stuck {M_spin} s \<Longrightarrow> sniper_step c k io i s = Some t \<Longrightarrow> sniper_stuck {M_spin} t"
  "sniper_stuck {M_after, M_done} s \<Longrightarrow> sniper_step c k io i s = Some t \<Longrightarrow> sniper_stuck {M_after, M_done} t"
  by (auto simp: sniper_steps sniper_stuck_def split: mplace.splits splace.splits if_splits)

lemma sniper_stuck_keeps:
  "sniper_schedule c k io is s = Some t \<Longrightarrow> sniper_stuck {M_spin} s \<Longrightarrow> sniper_stuck {M_spin} t"
  "sniper_schedule c k io is s = Some t \<Longrightarrow> sniper_stuck {M_after, M_done} s \<Longrightarrow> sniper_stuck {M_after, M_done} t"
  using sniper_keeps [where I = "sniper_stuck {M_spin}"] sniper_stuck_step(1) apply blast
  using sniper_keeps [where I = "sniper_stuck {M_after, M_done}"] sniper_stuck_step(2) by blast

text \<open>The threads from the start of a case that has a sniper.\<close>

definition meet :: "tconf \<Rightarrow> 'w kern \<Rightarrow> 'w io_case \<Rightarrow> inj \<Rightarrow> 'w \<Rightarrow> nat list \<Rightarrow> 'w sniper_sys option" where
  "meet c k io g w is = sniper_schedule c k io is (sniper_init S_store g w)"


text \<open>A case without I/O, and its threads in the order in which both hang.\<close>

definition idle_case :: "u64 list io_case" where
  "idle_case = \<lparr>arg_msg = [], arg_page = 4096, arg_mode = MWRITE, io_before = nop, io_after = nop\<rparr>"


end
