(* ===== verification/Shared_Page.thy ===== *)
theory Shared_Page
  imports Tinjpage Schedules
begin

text \<open>
  \<open>do_shared\<close> of \<open>tinjpage.c\<close>: the parent and its child share a page, which the child poisons. Late kill: the parent runs
  into the poison once the child has ended. Early kill: a semaphore makes the child wait until the parent is ready for
  the signal, and the parent sleeps until it comes. A step of a process is the code up to the next call that the other
  process can see. All semaphore operations have \<open>SEM_UNDO\<close>.
\<close>

section \<open>The two processes\<close>

definition MMAP_SHARED :: int where "MMAP_SHARED = 0"
definition IPV_SHARED :: int where "IPV_SHARED = 1"

text \<open>The parent after \<open>fork\<close>; \<open>P_end\<close> when it has left \<open>do_shared\<close>, in whatever way.\<close>

datatype ppoint = P_attach | P_fill | P_put | P_sleep | P_wait | P_check | P_recover | P_detach | P_clean | P_end

text \<open>The child; \<open>D_back\<close> when it returned from \<open>do_shared\<close> and runs on as a second \<open>tinjpage\<close>.\<close>

datatype cpoint = D_attach | D_fill | D_get | D_test | D_detach | D_exit | D_back | D_gone

text \<open>What both know: the mode, the identifiers (-1 without) and \<open>early_kill\<close>.\<close>

record share =
  sh_mode :: int
  sh_shm :: int
  sh_sem :: int
  sh_early :: bool

text \<open>
  \<open>p_jmp\<close> is whether the parent has filled \<open>early_recover_ctx\<close>, \<open>p_sig\<close> what \<open>waitid\<close> stored, \<open>c_how\<close> how the child ended
  and \<open>shsem\<close> the semaphore, \<open>None\<close> when it does not exist.
\<close>

record 'w shsys =
  p_at :: ppoint
  p_page :: u64
  p_inj :: inj
  p_jmp :: bool
  p_sig :: "(int \<times> int) option"
  p_res :: "unit res"
  c_at :: cpoint
  c_page :: u64
  c_inj :: inj
  c_how :: "(int \<times> int) res option"
  shsem :: "nat option"
  p_undo :: int
  c_undo :: int
  shworld :: 'w

definition sem_undo :: "int \<Rightarrow> nat option \<Rightarrow> nat option" where
  "sem_undo adj = map_option (\<lambda>n. nat (int n + adj))"

definition parent_stops :: "unit res \<Rightarrow> 'w shsys \<Rightarrow> 'w shsys" where
  "parent_stops r s = s\<lparr>p_at := P_end, p_res := r, shsem := (if isl r then sem_undo (p_undo s) (shsem s) else shsem s)\<rparr>"

definition child_stops :: "(int \<times> int) res \<Rightarrow> 'w shsys \<Rightarrow> 'w shsys" where
  "child_stops how s = s\<lparr>c_at := D_gone, c_how := Some how, shsem := sem_undo (c_undo s) (shsem s)\<rparr>"

text \<open>Code of a process; its result is where it goes on and its \<open>shared_page\<close>.\<close>

definition parent_does :: "(inj, 'w, ppoint \<times> u64) act \<Rightarrow> 'w shsys \<Rightarrow> 'w shsys" where
  "parent_does m s =
     (case m (p_inj s, shworld s) of (r, g, w) \<Rightarrow>
        let s = s\<lparr>p_inj := g, shworld := w\<rparr>
        in case r of Inl e \<Rightarrow> parent_stops (Inl e) s | Inr (q, page) \<Rightarrow> s\<lparr>p_at := q, p_page := page\<rparr>)"

definition child_does :: "'w kern \<Rightarrow> (inj, 'w, cpoint \<times> u64) act \<Rightarrow> 'w shsys \<Rightarrow> 'w shsys" where
  "child_does k m s =
     (case m (c_inj s, shworld s) of (r, g, w) \<Rightarrow>
        let s = s\<lparr>c_inj := g, shworld := w\<rparr>
        in case r of
             Inl e \<Rightarrow> child_stops (child_end k False (Inl e) w) s
           | Inr (q, page) \<Rightarrow> s\<lparr>c_at := q, c_page := page\<rparr>)"

section \<open>What they do\<close>

definition shared_attach :: "'w kern \<Rightarrow> share \<Rightarrow> 'p \<Rightarrow> 'p \<Rightarrow> u64 \<Rightarrow> (inj, 'w, 'p \<times> u64) act" where
  "shared_attach k sh next cleanup page =
     (if sh_mode sh = IPV_SHARED then
        sbind (call (k_shmat k (sh_shm sh))) (\<lambda>p. case p of
          None \<Rightarrow> ret (cleanup, -1) | Some page \<Rightarrow> ret (next, page))
      else ret (next, page))"

text \<open>\<open>memset (shared_page, 'a', 3)\<close>, and the handler with early killing.\<close>

definition shared_fill :: "tconf \<Rightarrow> 'w kern \<Rightarrow> share \<Rightarrow> 'p \<Rightarrow> u64 \<Rightarrow> (inj, 'w, 'p \<times> u64) act" where
  "shared_fill c k sh next page =
     sseq (each (\<lambda>i. store_page c k (page + of_nat i) 0x61) [0..<3])
    (sseq (if sh_early sh then upd (\<lambda>g. g\<lparr>handled := True, expected_addr := page\<rparr>) else nop)
    (ret (next, page)))"

text \<open>From the label \<open>cleanup\<close>; a process that comes here after \<open>shmdt\<close> calls it again.\<close>

definition shared_clean :: "'w kern \<Rightarrow> tconf \<Rightarrow> share \<Rightarrow> u64 \<Rightarrow> (inj, 'w, unit) act" where
  "shared_clean k c sh page =
     sseq (if page = 0 then nop
           else if sh_mode sh = IPV_SHARED then sseq (call (k_sys k (Shmdt page))) nop
           else munmap_reserve k page (PS c))
    (sseq (if 0 \<le> sh_shm sh then sbind (call (k_sys k (Shmctl_Rmid (sh_shm sh)))) (\<lambda>r. if r < 0 then halt (Exit 1) else nop)
           else nop)
          (if 0 \<le> sh_sem sh then sbind (call (k_sys k (Semctl_Rmid (sh_sem sh)))) (\<lambda>r. if r < 0 then halt (Exit 1) else nop)
           else nop))"

text \<open>The verdict on the child, from what \<open>waitid\<close> stored.\<close>

definition shared_check :: "share \<Rightarrow> int \<Rightarrow> (inj, 'w, ppoint) act" where
  "shared_check sh code =
     sbind (glob handled) (\<lambda>h.
       if shared_child_error (sh_early sh) h code
       then sseq (upd (fail_with (''XXX child process was terminated unexpectedly'' @ [NL]))) (ret P_clean)
       else ret (if sh_early sh then P_detach else P_recover))"

text \<open>\<open>cleanup\<close> follows in any case.\<close>

definition shared_detach :: "'w kern \<Rightarrow> share \<Rightarrow> u64 \<Rightarrow> (inj, 'w, ppoint) act" where
  "shared_detach k sh page =
     (if sh_mode sh = IPV_SHARED then sseq (call (k_sys k (Shmdt page))) (ret P_clean) else ret P_clean)"

definition shared_timeout :: "(inj, 'w, ppoint) act" where
  "shared_timeout =
     sseq (upd (fail_with (''XXX timeout: child process does not send signal'' @ [NL]))) (ret P_clean)"

definition at_page :: "u64 \<Rightarrow> (inj, 'w, ppoint) act \<Rightarrow> (inj, 'w, ppoint \<times> u64) act" where
  "at_page page m = sbind m (\<lambda>q. ret (q, page))"

text \<open>\<open>cleanup\<close> removes the semaphore, in the child as in the parent.\<close>

definition shared_parent :: "tconf \<Rightarrow> 'w kern \<Rightarrow> share \<Rightarrow> 'w shsys \<Rightarrow> 'w shsys option" where
  "shared_parent c k sh s =
     (let page = p_page s
      in case p_at s of
        P_attach \<Rightarrow> Some (parent_does (shared_attach k sh P_fill P_clean page) s)
      | P_fill \<Rightarrow>
          (let t = parent_does (shared_fill c k sh (if sh_early sh then P_put else P_wait) page) s
           in Some (t\<lparr>p_jmp := sh_early sh \<and> p_at t \<noteq> P_end\<rparr>))
      | P_put \<Rightarrow>
          Some (case shsem s of
              None \<Rightarrow> parent_stops (Inl (Exit 1)) s
            | Some n \<Rightarrow> s\<lparr>shsem := Some (n + 1), p_undo := p_undo s - 1, p_at := P_sleep\<rparr>)
      | P_sleep \<Rightarrow> None
      | P_wait \<Rightarrow>
          (case c_how s of
             None \<Rightarrow> None
           | Some (Inl e) \<Rightarrow> Some (parent_stops (Inl e) s)
           | Some (Inr sig) \<Rightarrow> Some (s\<lparr>p_sig := Some sig, p_at := P_check\<rparr>))
      | P_check \<Rightarrow> Some (parent_does (at_page page (shared_check sh (case p_sig s of None \<Rightarrow> 0 | Some sig \<Rightarrow> fst sig))) s)
      | P_recover \<Rightarrow>
          Some (parent_does (at_page page (sseq (recover c k ''ipv shared page (parent)'' page MWRITE) (ret P_detach))) s)
      | P_detach \<Rightarrow> Some (parent_does (at_page page (shared_detach k sh page)) s)
      | P_clean \<Rightarrow>
          (let t = parent_does (at_page page (sseq (shared_clean k c sh page) (ret P_end))) s
           in Some (if isl (p_res t) then t else t\<lparr>shsem := None\<rparr>))
      | P_end \<Rightarrow> None)"

text \<open>\<open>failure = 0\<close> comes before the child waits.\<close>

definition shared_child :: "tconf \<Rightarrow> 'w kern \<Rightarrow> share \<Rightarrow> 'w shsys \<Rightarrow> 'w shsys option" where
  "shared_child c k sh s =
     (let page = c_page s
      in case c_at s of
        D_attach \<Rightarrow>
          (let t = child_does k (shared_attach k sh D_fill D_back page) s
           in if c_at t \<noteq> D_back then Some t
              else
                let u = child_does k (sseq (shared_clean k c sh (c_page t)) (ret (D_back, c_page t))) t
                in Some (if c_at u = D_back then u\<lparr>shsem := None\<rparr> else u))
      | D_fill \<Rightarrow>
          Some (child_does k (sseq (shared_fill c k sh D_get page) (sseq (upd (\<lambda>g. g\<lparr>failure := 0\<rparr>)) (ret (D_get, page)))) s)
      | D_get \<Rightarrow>
          (if \<not> sh_early sh then Some (s\<lparr>c_at := D_test\<rparr>)
           else case shsem s of
               None \<Rightarrow> Some (child_stops (Inr (CLD_EXITED, 1)) s)
             | Some n \<Rightarrow> if n = 0 then None
                         else Some (s\<lparr>shsem := Some (n - 1), c_undo := c_undo s + 1, c_at := D_test\<rparr>))
      | D_test \<Rightarrow> Some (child_does k (sseq (testmem c k ''ipv shared page'' page MWRITE) (ret (D_detach, page))) s)
      | D_detach \<Rightarrow>
          Some (child_does k
            (if sh_mode sh = IPV_SHARED
             then sbind (call (k_sys k (Shmdt page))) (\<lambda>r. if r = -1 then halt (Exit 1) else ret (D_exit, page))
             else ret (D_exit, page)) s)
      | D_exit \<Rightarrow> Some (child_stops (Inr (CLD_EXITED, failure (c_inj s) mod 256)) s)
      | _ \<Rightarrow> None)"
text \<open>
  What happens: a step of a process, the end of the ten seconds of \<open>sleep\<close>, or a signal to the parent. The handler jumps
  back to \<open>sigsetjmp\<close> and \<open>waitid\<close> follows; after a first \<open>waitid\<close> the jump leaves \<open>sig\<close> indeterminate.
\<close>

datatype sh_event = Parent | Child | Time | Signal bus

definition shared_signal :: "tconf \<Rightarrow> bus \<Rightarrow> 'w shsys \<Rightarrow> 'w shsys" where
  "shared_signal c b s =
     parent_does (at_page (p_page s)
       (sseq (deliver c (if p_jmp s then In_poison else Outside) b)
         (if p_sig s = None then ret P_wait else halt (Undef ''sig is indeterminate'')))) s"

definition shared_step :: "tconf \<Rightarrow> 'w kern \<Rightarrow> share \<Rightarrow> sh_event \<Rightarrow> 'w shsys \<Rightarrow> 'w shsys option" where
  "shared_step c k sh ev s =
     (case ev of
        Parent \<Rightarrow> shared_parent c k sh s
      | Child \<Rightarrow> shared_child c k sh s
      | Time \<Rightarrow> (if p_at s = P_sleep then Some (parent_does (at_page (p_page s) shared_timeout) s) else None)
      | Signal b \<Rightarrow> (if p_at s = P_end then None else Some (shared_signal c b s)))"

fun shared_run :: "tconf \<Rightarrow> 'w kern \<Rightarrow> share \<Rightarrow> sh_event list \<Rightarrow> 'w shsys \<Rightarrow> 'w shsys option" where
  "shared_run c k sh [] s = Some s"
| "shared_run c k sh (e # es) s =
     (case shared_step c k sh e s of None \<Rightarrow> None | Some t \<Rightarrow> shared_run c k sh es t)"

section \<open>Before the fork\<close>

text \<open>\<open>Inr None\<close> goes to \<open>cleanup\<close>; the semaphore is then 1, taken once by the parent.\<close>

definition shared_open :: "tconf \<Rightarrow> 'w kern \<Rightarrow> int \<Rightarrow> (inj, 'w, share \<times> u64) act" where
  "shared_open c k mode =
     sbind (glob early_kill) (\<lambda>early.
     if mode = MMAP_SHARED then
       sbind (checked_mmap k (PS c) [PROT_READ, PROT_WRITE] [MAP_SHARED, MAP_ANONYMOUS, MAP_POPULATE] 0) (\<lambda>page.
         ret (\<lparr>sh_mode = mode, sh_shm = -1, sh_sem = -1, sh_early = early\<rparr>, page))
     else
       sbind (call (k_sys k (Shmget 0 (PS c) ''0666|IPC_CREAT''))) (\<lambda>shm.
         if shm = -1 then halt (Exit 1)
         else ret (\<lparr>sh_mode = mode, sh_shm = shm, sh_sem = -1, sh_early = early\<rparr>, 0)))"

definition shared_sem :: "'w kern \<Rightarrow> share \<Rightarrow> (inj, 'w, share \<times> bool) act" where
  "shared_sem k sh =
     (if \<not> sh_early sh then ret (sh, True)
      else
        sbind (call (k_sys k (Semget 1 ''IPC_PRIVATE 0666|IPC_CREAT''))) (\<lambda>id.
        let sh = sh\<lparr>sh_sem := id\<rparr>
        in if id = -1 then ret (sh, False)
           else sbind (call (k_sys k (Semctl_Setval id 0 1))) (\<lambda>r.
             if r = -1 then ret (sh, False)
             else sbind (call (k_sys k (Semop id (-1)))) (\<lambda>r. ret (sh, r = 0)))))"

definition shared_init :: "share \<Rightarrow> u64 \<Rightarrow> inj \<Rightarrow> 'w \<Rightarrow> 'w shsys" where
  "shared_init sh page g w =
     \<lparr>p_at = P_attach, p_page = page, p_inj = g, p_jmp = False, p_sig = None, p_res = Inr (),
      c_at = D_attach, c_page = page, c_inj = g, c_how = None,
      shsem = (if sh_early sh then Some (1 - 1) else None), p_undo = (if sh_early sh then 1 else 0), c_undo = 0, shworld = w\<rparr>"

text \<open>
  \<open>do_shared\<close> with the events after the fork. An event that is not possible is passed over; when the parent is not done
  then, the last result is \<open>Undef\<close>.
\<close>

fun shared_events :: "tconf \<Rightarrow> 'w kern \<Rightarrow> share \<Rightarrow> sh_event list \<Rightarrow> 'w shsys \<Rightarrow> 'w shsys" where
  "shared_events c k sh [] s = s"
| "shared_events c k sh (e # es) s =
     shared_events c k sh es (case shared_step c k sh e s of None \<Rightarrow> s | Some t \<Rightarrow> t)"

definition do_shared :: "tconf \<Rightarrow> 'w kern \<Rightarrow> sh_event list \<Rightarrow> int \<Rightarrow> (inj, 'w, unit) act" where
  "do_shared c k es mode =
     (if mode \<noteq> MMAP_SHARED \<and> mode \<noteq> IPV_SHARED then upd (say (''XXX: invalid shared_mode'' @ [NL]))
      else
        sbind (shared_open c k mode) (\<lambda>(sh, page).
        sbind (shared_sem k sh) (\<lambda>(sh, ok).
        sbind (if ok then call (k_fork k) else ret False) (\<lambda>forked.
          if \<not> forked then shared_clean k c sh page
          else (\<lambda>(g, w).
            let s = shared_events c k sh es (shared_init sh page g w)
            in (if p_at s = P_end then p_res s else Inl (Undef ''do_shared has not returned''), p_inj s, shworld s))))))"

definition mmap_shared :: "tconf \<Rightarrow> 'w kern \<Rightarrow> sh_event list \<Rightarrow> (inj, 'w, unit) act" where
  "mmap_shared c k es = do_shared c k es MMAP_SHARED"

definition ipv_shared :: "tconf \<Rightarrow> 'w kern \<Rightarrow> sh_event list \<Rightarrow> (inj, 'w, unit) act" where
  "ipv_shared c k es = do_shared c k es IPV_SHARED"

text \<open>The cases of the program, with its two shared ones.\<close>

definition all_cases :: "tconf \<Rightarrow> 'w kern \<Rightarrow> sh_event list \<Rightarrow> sh_event list \<Rightarrow> (inj, 'w) testcase list" where
  "all_cases c k es fs = cases c k (mmap_shared c k es) (ipv_shared c k fs)"

section \<open>What the steps leave alone\<close>

lemma parent_does_frame [simp]:
  "c_at (parent_does m s) = c_at s" "c_how (parent_does m s) = c_how s" "c_undo (parent_does m s) = c_undo s"
  "c_inj (parent_does m s) = c_inj s" "p_jmp (parent_does m s) = p_jmp s" "p_sig (parent_does m s) = p_sig s"
  "p_at (parent_does m s) \<noteq> P_end \<Longrightarrow> shsem (parent_does m s) = shsem s"
  by (simp_all add: parent_does_def parent_stops_def Let_def split: prod.splits sum.splits)

lemma child_does_frame [simp]:
  "p_at (child_does k m s) = p_at s" "p_page (child_does k m s) = p_page s" "p_inj (child_does k m s) = p_inj s"
  "p_jmp (child_does k m s) = p_jmp s" "p_sig (child_does k m s) = p_sig s" "p_res (child_does k m s) = p_res s"
  "c_undo (child_does k m s) = c_undo s"
  by (simp_all add: child_does_def child_stops_def Let_def split: prod.splits sum.splits)

lemma child_does_sem:
  "shsem (child_does k m s) = shsem s \<or> c_at (child_does k m s) = D_gone \<and> shsem (child_does k m s) = sem_undo (c_undo s) (shsem s)"
  by (simp add: child_does_def child_stops_def Let_def split: prod.splits sum.splits)

lemma child_does_how: "c_at (child_does k m s) \<noteq> D_gone \<Longrightarrow> c_how (child_does k m s) = c_how s"
  by (simp add: child_does_def child_stops_def Let_def split: prod.splits sum.splits)

text \<open>Actions that lead to given places.\<close>

definition leads_in :: "'p set \<Rightarrow> (inj, 'w, 'p \<times> u64) act \<Rightarrow> bool" where
  "leads_in P m \<longleftrightarrow> (\<forall>s q page t. m s = (Inr (q, page), t) \<longrightarrow> q \<in> P)"

lemma leads_intros [intro]:
  "q \<in> P \<Longrightarrow> leads_in P (ret (q, page))"
  "leads_in P (halt e)"
  "(\<And>x. leads_in P (f x)) \<Longrightarrow> leads_in P (sbind m f)"
  "leads_in P n \<Longrightarrow> leads_in P (sseq m n)"
  by (auto simp: leads_in_def act_run split: prod.splits sum.splits)

lemma parent_leads: "leads_in P m \<Longrightarrow> p_at (parent_does m s) \<in> insert P_end P"
  by (fastforce simp: leads_in_def parent_does_def parent_stops_def Let_def split: prod.splits sum.splits)

lemma child_leads: "leads_in P m \<Longrightarrow> c_at (child_does k m s) \<in> insert D_gone P"
  by (fastforce simp: leads_in_def child_does_def child_stops_def Let_def split: prod.splits sum.splits)

lemma leads_code:
  "leads_in {next, cleanup} (shared_attach k sh next cleanup page)"
  "leads_in {next} (shared_fill c k sh next page)"
  "leads_in (if sh_early sh then {P_clean, P_detach} else {P_clean, P_recover}) (at_page page (shared_check sh code))"
  "leads_in {P_clean} (at_page page (shared_detach k sh page))"
  "leads_in {P_clean} (at_page page shared_timeout)"
  by (auto simp: leads_in_def shared_attach_def shared_fill_def shared_check_def shared_detach_def shared_timeout_def at_page_def
      act_run split: if_splits prod.splits sum.splits option.splits)

section \<open>Early kill: the child waits for the parent\<close>

text \<open>
  As long as the parent has no jump buffer and is still there, the semaphore cannot be taken, and the child has not come
  past it.
\<close>

definition sync :: "'w shsys \<Rightarrow> bool" where
  "sync s \<longleftrightarrow>
     (c_at s \<in> {D_attach, D_fill, D_get} \<longrightarrow> c_undo s = 0)
   \<and> (\<not> p_jmp s \<and> p_at s \<noteq> P_end \<longrightarrow> c_at s \<notin> {D_test, D_detach, D_exit} \<and> shsem s \<in> {None, Some 0})
   \<and> (c_at s \<noteq> D_gone \<longrightarrow> c_how s = None \<and> p_sig s = None)
   \<and> (p_at s \<in> {P_put, P_sleep} \<longrightarrow> p_jmp s) \<and> p_at s \<noteq> P_recover"

lemma sync_parent_move:
  assumes "sync s" "p_at s \<noteq> P_end" "c_at t = c_at s" "c_undo t = c_undo s" "c_how t = c_how s" "p_jmp t = p_jmp s" "p_sig t = p_sig s"
    and "p_at t = P_end \<or> shsem t = shsem s \<and> p_at t \<in> {P_fill, P_wait, P_check, P_detach, P_clean}"
  shows "sync t"
  using assms(8)
proof
  assume "p_at t = P_end"
  with assms(1-7) show ?thesis by (simp add: sync_def)
next
  assume "shsem t = shsem s \<and> p_at t \<in> {P_fill, P_wait, P_check, P_detach, P_clean}"
  then have "shsem t = shsem s" "p_at t \<notin> {P_put, P_sleep, P_recover}" by auto
  with assms(1-7) show ?thesis by (simp add: sync_def)
qed

lemma sync_parent_does:
  assumes "sync s" "p_at s \<noteq> P_end" "leads_in P m" "P \<subseteq> {P_fill, P_wait, P_check, P_detach, P_clean, P_end}"
  shows "sync (parent_does m s)"
proof -
  have "p_at (parent_does m s) \<in> insert P_end P" using assms(3) by (rule parent_leads)
  with assms(4) have "p_at (parent_does m s) \<in> {P_fill, P_wait, P_check, P_detach, P_clean, P_end}" by blast
  moreover from this have "p_at (parent_does m s) = P_end \<or> p_at (parent_does m s) \<in> {P_fill, P_wait, P_check, P_detach, P_clean}"
    by blast
  ultimately show ?thesis
    by (cases "p_at (parent_does m s) = P_end")
      (rule sync_parent_move [OF assms(1,2)]; simp only: parent_does_frame simp_thms)+
qed

lemma sync_parent:
  assumes "sync s" "sh_early sh" "shared_parent c k sh s = Some t"
  shows "sync t"
proof (cases "p_at s")
  case P_attach
  with assms show ?thesis
    by (auto simp: shared_parent_def Let_def intro!: sync_parent_does [OF _ _ leads_code(1)])
next
  case P_fill
  let ?t = "parent_does (shared_fill c k sh P_put (p_page s)) s"
  have t: "t = ?t\<lparr>p_jmp := p_at ?t \<noteq> P_end\<rparr>" using assms P_fill by (simp add: shared_parent_def Let_def)
  have "p_at ?t = P_end \<or> p_at ?t = P_put" using parent_leads [OF leads_code(2)] by blast
  then show ?thesis
    using assms(1) P_fill by (elim disjE) (simp_all add: t sync_def)
next
  case P_check
  have "leads_in {P_clean, P_detach} (at_page (p_page s) (shared_check sh (case p_sig s of None \<Rightarrow> 0 | Some x \<Rightarrow> fst x)))"
    using leads_code(3) [of sh] assms(2) by simp
  from sync_parent_does [OF assms(1) _ this] P_check assms(3) show ?thesis by (simp add: shared_parent_def Let_def)
next
  case P_detach
  with assms show ?thesis by (auto simp: shared_parent_def Let_def intro!: sync_parent_does [OF _ _ leads_code(4)])
next
  case P_clean
  let ?t = "parent_does (at_page (p_page s) (sseq (shared_clean k c sh (p_page s)) (ret P_end))) s"
  have "leads_in {P_end} (at_page (p_page s) (sseq (shared_clean k c sh (p_page s)) (ret P_end)))"
    by (auto simp: leads_in_def at_page_def act_run split: prod.splits sum.splits)
  from sync_parent_does [OF assms(1) _ this] parent_leads [OF this, of s] P_clean have "sync ?t" "p_at ?t = P_end" by simp_all
  moreover have "t = ?t \<or> t = ?t\<lparr>shsem := None\<rparr>" using P_clean assms(3) by (simp add: shared_parent_def Let_def split: if_splits)
  ultimately show ?thesis by (elim disjE) (simp_all add: sync_def)
next
  case P_put
  with assms(3) have "t = parent_stops (Inl (Exit 1)) s \<or>
      (\<exists>n. t = s\<lparr>shsem := Some (n + 1), p_undo := p_undo s - 1, p_at := P_sleep\<rparr>)"
    by (auto simp: shared_parent_def Let_def split: option.splits)
  then show ?thesis using assms(1) P_put by (elim disjE exE) (simp_all add: sync_def parent_stops_def)
next
  case P_wait
  with assms(3) have "(\<exists>e. t = parent_stops (Inl e) s) \<or> c_how s \<noteq> None \<and> (\<exists>sig. t = s\<lparr>p_sig := Some sig, p_at := P_check\<rparr>)"
    by (auto simp: shared_parent_def Let_def split: option.splits sum.splits)
  then show ?thesis using assms(1) P_wait by (elim disjE exE conjE) (simp_all add: sync_def parent_stops_def)
qed (use assms in \<open>simp_all add: shared_parent_def Let_def sync_def\<close>)

lemma sync_child_early:
  assumes "sync s" "c_at s \<in> {D_attach, D_fill, D_get, D_back}" "c_undo s = 0"
    and "leads_in Q m" "Q \<subseteq> {D_fill, D_get, D_back}"
  shows "sync (child_does k m s)"
proof -
  let ?t = "child_does k m s"
  have at: "c_at ?t \<in> {D_gone, D_fill, D_get, D_back}" using child_leads [OF assms(4)] assms(5) by blast
  have "sem_undo 0 x = x" for x by (cases x) (simp_all add: sem_undo_def)
  with child_does_sem [of k m s] assms(3) have sem: "shsem ?t = shsem s" by auto
  have no: "c_at s \<noteq> D_gone" using assms(2) by auto
  have "c_at ?t \<notin> {D_test, D_detach, D_exit}" using at by auto
  with child_does_how [of k m s] assms(1,3) no sem show ?thesis by (simp add: sync_def)
qed

lemma sync_child_late:
  assumes "sync s" "c_at s \<in> {D_test, D_detach}" "leads_in Q m" "Q \<subseteq> {D_detach, D_exit}"
  shows "sync (child_does k m s)"
proof -
  let ?t = "child_does k m s"
  have at: "c_at ?t \<in> {D_gone, D_detach, D_exit}" using child_leads [OF assms(3)] assms(4) by blast
  have no: "c_at s \<noteq> D_gone" "p_jmp s \<or> p_at s = P_end" using assms(1,2) by (auto simp: sync_def)
  have "c_at ?t \<notin> {D_attach, D_fill, D_get}" using at by auto
  with child_does_how [of k m s] assms(1) no show ?thesis by (simp add: sync_def) blast
qed

lemma sync_child:
  assumes "sync s" "sh_early sh" "shared_child c k sh s = Some t"
  shows "sync t"
proof (cases "c_at s")
  case D_attach
  have undo: "c_undo s = 0" using assms(1) D_attach by (simp add: sync_def)
  let ?t = "child_does k (shared_attach k sh D_fill D_back (c_page s)) s"
  have 1: "sync ?t" by (rule sync_child_early [OF assms(1) _ undo leads_code(1)]) (simp_all add: D_attach)
  let ?u = "child_does k (sseq (shared_clean k c sh (c_page ?t)) (ret (D_back, c_page ?t))) ?t"
  have "leads_in {D_back} (sseq (shared_clean k c sh (c_page ?t)) (ret (D_back, c_page ?t)))" by auto
  from sync_child_early [OF 1 _ _ this] undo have 2: "sync ?u" if "c_at ?t = D_back" using that by simp
  then have "sync (?u\<lparr>shsem := None\<rparr>)" if "c_at ?t = D_back" using that by (simp add: sync_def)
  with 1 2 D_attach assms(3) show ?thesis by (auto simp: shared_child_def Let_def split: if_splits)
next
  case D_fill
  have undo: "c_undo s = 0" using assms(1) D_fill by (simp add: sync_def)
  let ?m = "sseq (shared_fill c k sh D_get (c_page s)) (sseq (upd (\<lambda>g. g\<lparr>failure := 0\<rparr>)) (ret (D_get, c_page s)))"
  have "leads_in {D_get} ?m" by auto
  from sync_child_early [OF assms(1) _ undo this] D_fill assms(3) show ?thesis by (auto simp: shared_child_def Let_def)
next
  case D_get
  with assms show ?thesis
    by (auto simp: shared_child_def Let_def sync_def child_stops_def sem_undo_def split: option.splits if_splits)
next
  case D_test
  let ?m = "sseq (testmem c k ''ipv shared page'' (c_page s) MWRITE) (ret (D_detach, c_page s))"
  have "leads_in {D_detach} ?m" by auto
  from sync_child_late [OF assms(1) _ this] D_test assms(3) show ?thesis by (auto simp: shared_child_def Let_def)
next
  case D_detach
  let ?m = "if sh_mode sh = IPV_SHARED
     then sbind (call (k_sys k (Shmdt (c_page s)))) (\<lambda>r. if r = -1 then halt (Exit 1) else ret (D_exit, c_page s))
     else ret (D_exit, c_page s)"
  have "leads_in {D_exit} ?m" by (auto simp: leads_in_def act_run split: prod.splits sum.splits if_splits)
  from sync_child_late [OF assms(1) _ this] D_detach assms(3) show ?thesis by (auto simp: shared_child_def Let_def)
next
  case D_exit
  then have "p_jmp s \<or> p_at s = P_end" using assms(1) by (auto simp: sync_def)
  with assms D_exit show ?thesis by (auto simp: shared_child_def Let_def sync_def child_stops_def)
qed (use assms(3) in \<open>simp_all add: shared_child_def Let_def\<close>)

lemma sync_step:
  assumes "sync s" "sh_early sh" "shared_step c k sh e s = Some t"
  shows "sync t"
proof (cases e)
  case Time
  with assms show ?thesis
    by (auto simp: shared_step_def split: if_splits intro!: sync_parent_does [OF _ _ leads_code(5)])
next
  case (Signal b)
  have "leads_in {P_wait} (at_page (p_page s) (sseq (deliver c (if p_jmp s then In_poison else Outside) b)
      (if p_sig s = None then ret P_wait else halt (Undef ''sig is indeterminate''))))"
    by (auto simp: leads_in_def at_page_def act_run split: prod.splits sum.splits if_splits)
  from sync_parent_does [OF assms(1) _ this] Signal assms(3) show ?thesis
    by (auto simp: shared_step_def shared_signal_def split: if_splits)
qed (use assms sync_parent sync_child in \<open>auto simp: shared_step_def\<close>)

lemma shared_run_keeps:
  assumes "\<And>e s t. I s \<Longrightarrow> shared_step c k sh e s = Some t \<Longrightarrow> I t"
  shows "shared_run c k sh es s = Some t \<Longrightarrow> I s \<Longrightarrow> I t"
  using assms by (induction es arbitrary: s) (auto split: option.splits)

text \<open>What the handler needs: no action of the parent takes it away.\<close>

definition keeps_setup :: "(inj, 'w, 'a) act \<Rightarrow> bool" where
  "keeps_setup m \<longleftrightarrow> (\<forall>g w r g' w'. m (g, w) = (r, g', w') \<longrightarrow>
     handled g' = handled g \<and> expected_addr g' = expected_addr g \<and> test_hugepage g' = test_hugepage g)"

lemma keeps_setup_basic:
  "keeps_setup (ret x)" "keeps_setup (halt e)" "keeps_setup nop" "keeps_setup (call f)" "keeps_setup (glob h)"
  by (auto simp: keeps_setup_def split: prod.splits)

lemma keeps_setup_upd:
  "(\<And>g. handled (f g) = handled g \<and> expected_addr (f g) = expected_addr g \<and> test_hugepage (f g) = test_hugepage g)
   \<Longrightarrow> keeps_setup (upd f)"
  by (auto simp: keeps_setup_def)

lemma keeps_setup_bind:
  "keeps_setup m \<Longrightarrow> (\<And>x. keeps_setup (f x)) \<Longrightarrow> keeps_setup (sbind m f)"
  by (fastforce simp: keeps_setup_def act_run split: prod.splits sum.splits)

lemma keeps_setup_seq: "keeps_setup m \<Longrightarrow> keeps_setup n \<Longrightarrow> keeps_setup (sseq m n)"
  unfolding sseq_def by (rule keeps_setup_bind)

lemmas keeps_setup_intros = keeps_setup_basic keeps_setup_bind keeps_setup_seq

lemma keeps_setup_each: "(\<And>x. keeps_setup (f x)) \<Longrightarrow> keeps_setup (each f xs)"
  by (induction xs) (auto intro!: keeps_setup_intros)

lemma deliver_keeps_setup: "keeps_setup (deliver c ctx b)"
  by (auto simp: deliver_def sighandler_def fail_with_def say_def intro!: keeps_setup_intros keeps_setup_upd split: option.split if_splits)

lemma store_keeps_setup: "keeps_setup (store_page c k a x)"
  unfolding store_page_def by (auto split: option.split intro!: keeps_setup_intros deliver_keeps_setup)

lemma shared_clean_keeps_setup: "keeps_setup (shared_clean k c sh page)"
  unfolding shared_clean_def munmap_reserve_def by (auto intro!: keeps_setup_intros)

lemma keeps_setup_code:
  "keeps_setup (shared_attach k sh next cleanup page)"
  "keeps_setup (shared_check sh code)"
  "keeps_setup (shared_detach k sh page)"
  "keeps_setup shared_timeout"
  by (auto simp: shared_attach_def shared_check_def shared_detach_def shared_timeout_def intro!: keeps_setup_intros keeps_setup_upd split: option.split)

text \<open>The parent is ready for the signal.\<close>

definition set_up :: "tconf \<Rightarrow> 'w shsys \<Rightarrow> bool" where
  "set_up c s \<longleftrightarrow> sizes_ok c (p_inj s) \<and> (p_jmp s \<and> p_at s \<noteq> P_end \<longrightarrow> handled (p_inj s) \<and> expected_addr (p_inj s) = p_page s)
     \<and> (p_at s \<in> {P_attach, P_fill} \<longrightarrow> \<not> p_jmp s)"

lemma setup_parent_does:
  assumes "keeps_setup m"
  shows "handled (p_inj (parent_does m s)) = handled (p_inj s)"
    "expected_addr (p_inj (parent_does m s)) = expected_addr (p_inj s)"
    "test_hugepage (p_inj (parent_does m s)) = test_hugepage (p_inj s)"
proof -
  obtain r g w where m: "m (p_inj s, shworld s) = (r, g, w)" by (cases "m (p_inj s, shworld s)")
  with assms have "handled g = handled (p_inj s) \<and> expected_addr g = expected_addr (p_inj s) \<and> test_hugepage g = test_hugepage (p_inj s)"
    unfolding keeps_setup_def by blast
  with m show "handled (p_inj (parent_does m s)) = handled (p_inj s)"
    "expected_addr (p_inj (parent_does m s)) = expected_addr (p_inj s)"
    "test_hugepage (p_inj (parent_does m s)) = test_hugepage (p_inj s)"
    by (cases r; simp add: parent_does_def parent_stops_def Let_def split: prod.splits)+
qed

lemma ready_parent_does:
  assumes "set_up c s" "p_at s \<noteq> P_end" "keeps_setup m" "leads_in P (at_page (p_page s) m)" "P \<inter> {P_attach, P_fill} = {}"
  shows "set_up c (parent_does (at_page (p_page s) m) s)"
proof -
  let ?m = "at_page (p_page s) m"
  have k: "keeps_setup ?m" using assms(3) by (auto simp: at_page_def intro!: keeps_setup_intros)
  have "p_at (parent_does ?m s) \<in> insert P_end P" using assms(4) by (rule parent_leads)
  with assms(5) have at: "p_at (parent_does ?m s) \<notin> {P_attach, P_fill}" by auto
  have page: "p_page (parent_does ?m s) = p_page s"
    by (simp add: parent_does_def parent_stops_def at_page_def act_run Let_def split: prod.splits sum.splits)
  from assms(1,2) at show ?thesis
    by (simp add: set_up_def sizes_ok_def setup_parent_does [OF k] page)
qed

lemma ready_fill:
  assumes "set_up c s" "p_at s = P_fill" "sh_early sh" "shared_parent c k sh s = Some t"
  shows "set_up c t"
proof -
  let ?m = "shared_fill c k sh P_put (p_page s)"
  obtain r g w where st: "each (\<lambda>i. store_page c k (p_page s + of_nat i) 0x61) [0..<3] (p_inj s, shworld s) = (r, g, w)"
    by (cases "each (\<lambda>i. store_page c k (p_page s + of_nat i) 0x61) [0..<3] (p_inj s, shworld s)")
  have "keeps_setup (each (\<lambda>i. store_page c k (p_page s + of_nat i) 0x61) [0..<3])"
    by (intro keeps_setup_each store_keeps_setup)
  with st have size: "test_hugepage g = test_hugepage (p_inj s)" unfolding keeps_setup_def by blast
  have t: "t = (parent_does ?m s)\<lparr>p_jmp := p_at (parent_does ?m s) \<noteq> P_end\<rparr>"
    using assms(2-4) by (simp add: shared_parent_def Let_def)
  show ?thesis
  proof (cases r)
    case (Inl e)
    with st have "?m (p_inj s, shworld s) = (Inl e, g, w)" by (simp only: shared_fill_def sseq_apply) simp
    with assms(1) size show ?thesis
      by (simp add: t parent_does_def parent_stops_def set_up_def sizes_ok_def Let_def)
  next
    case (Inr u)
    with st assms(3) have "?m (p_inj s, shworld s) = (Inr (P_put, p_page s), g\<lparr>handled := True, expected_addr := p_page s\<rparr>, w)"
      by (simp only: shared_fill_def sseq_apply) simp
    with assms(1) size show ?thesis by (simp add: t parent_does_def set_up_def sizes_ok_def Let_def)
  qed
qed

lemma ready_parent:
  assumes "set_up c s" "sync s" "sh_early sh" "shared_parent c k sh s = Some t"
  shows "set_up c t"
proof (cases "p_at s")
  case P_attach
  let ?m = "shared_attach k sh P_fill P_clean (p_page s)"
  have t: "t = parent_does ?m s" and jmp: "\<not> p_jmp s" using P_attach assms(1,4) by (simp_all add: shared_parent_def Let_def set_up_def)
  with assms(1) show ?thesis by (simp add: set_up_def sizes_ok_def setup_parent_does [OF keeps_setup_code(1)])
next
  case P_fill
  with assms ready_fill show ?thesis by blast
next
  case P_check
  have "leads_in {P_clean, P_detach} (at_page (p_page s) (shared_check sh (case p_sig s of None \<Rightarrow> 0 | Some x \<Rightarrow> fst x)))"
    using leads_code(3) [of sh] assms(3) by simp
  from ready_parent_does [OF assms(1) _ keeps_setup_code(2) this] P_check assms(4) show ?thesis
    by (auto simp: shared_parent_def Let_def)
next
  case P_detach
  from ready_parent_does [OF assms(1) _ keeps_setup_code(3) leads_code(4)] P_detach assms(4) show ?thesis
    by (auto simp: shared_parent_def Let_def)
next
  case P_clean
  let ?m = "sseq (shared_clean k c sh (p_page s)) (ret P_end)"
  have "keeps_setup ?m" by (intro keeps_setup_seq shared_clean_keeps_setup keeps_setup_basic)
  moreover have "leads_in {P_end} (at_page (p_page s) ?m)"
    by (auto simp: leads_in_def at_page_def act_run split: prod.splits sum.splits)
  ultimately have "set_up c (parent_does (at_page (p_page s) ?m) s)"
    using ready_parent_does [OF assms(1)] P_clean by fastforce
  with P_clean assms(4) show ?thesis by (auto simp: shared_parent_def Let_def set_up_def split: if_splits)
next
  case P_put
  with assms(4) have "t = parent_stops (Inl (Exit 1)) s \<or>
      (\<exists>n. t = s\<lparr>shsem := Some (n + 1), p_undo := p_undo s - 1, p_at := P_sleep\<rparr>)"
    by (auto simp: shared_parent_def Let_def split: option.splits)
  then show ?thesis using assms(1) P_put by (elim disjE exE) (simp_all add: set_up_def parent_stops_def)
next
  case P_wait
  with assms(4) have "(\<exists>e. t = parent_stops (Inl e) s) \<or> (\<exists>sig. t = s\<lparr>p_sig := Some sig, p_at := P_check\<rparr>)"
    by (auto simp: shared_parent_def Let_def split: option.splits sum.splits)
  then show ?thesis using assms(1) P_wait by (elim disjE exE) (simp_all add: set_up_def parent_stops_def)
qed (use assms in \<open>simp_all add: shared_parent_def Let_def sync_def\<close>)

lemma ready_step:
  assumes "set_up c s" "sync s" "sh_early sh" "shared_step c k sh e s = Some t"
  shows "set_up c t"
proof (cases e)
  case Parent
  with assms ready_parent show ?thesis by (auto simp: shared_step_def)
next
  case Child
  with assms(4) have "p_inj t = p_inj s" "p_jmp t = p_jmp s" "p_at t = p_at s" "p_page t = p_page s"
    by (auto simp: shared_step_def shared_child_def Let_def child_stops_def
        split: cpoint.splits if_splits option.splits)
  with assms(1) show ?thesis by (simp add: set_up_def)
next
  case Time
  then have "t = parent_does (at_page (p_page s) shared_timeout) s" "p_at s = P_sleep"
    using assms(4) by (simp_all add: shared_step_def split: if_splits)
  with ready_parent_does [OF assms(1) _ keeps_setup_code(4) leads_code(5)] show ?thesis by auto
next
  case (Signal b)
  let ?m = "sseq (deliver c (if p_jmp s then In_poison else Outside) b)
      (if p_sig s = None then ret P_wait else halt (Undef ''sig is indeterminate''))"
  have "keeps_setup ?m" by (auto intro!: keeps_setup_intros deliver_keeps_setup)
  moreover have "leads_in {P_wait} (at_page (p_page s) ?m)"
    by (auto simp: leads_in_def at_page_def act_run split: prod.splits sum.splits if_splits)
  ultimately have "p_at s \<noteq> P_end \<Longrightarrow> set_up c (parent_does (at_page (p_page s) ?m) s)"
    using ready_parent_does [OF assms(1)] by fastforce
  with Signal assms(4) show ?thesis by (auto simp: shared_step_def shared_signal_def split: if_splits)
qed

lemma early_run:
  assumes "sh_early sh" "sizes_ok c g" "shared_run c k sh es (shared_init sh page g w) = Some s"
  shows "sync s \<and> set_up c s"
proof (rule shared_run_keeps [OF _ assms(3), where I = "\<lambda>s. sync s \<and> set_up c s"])
  show "sync (shared_init sh page g w) \<and> set_up c (shared_init sh page g w)"
    using assms(1,2) by (simp add: shared_init_def sync_def set_up_def)
qed (use sync_step ready_step assms(1) in blast)

lemma deliver_jumps:
  assumes "sizes_ok c g" "handled g" "si_code b \<noteq> 4"
  shows "\<exists>g'. deliver c In_poison b (g, w) = (if recovercount g = 1 then Inl (Exit 1) else Inr (), g', w)
    \<and> failure g' = failure g + (if si_addr b = expected_addr g then 0 else 1)"
proof -
  from assms(1) obtain l where "(if test_hugepage g then ilog2 (HPS c) else PAGE_LSB c) = Some l"
    by (cases "test_hugepage g") (simp_all add: sizes_ok_def PAGE_LSB_def ilog2_def)
  with assms(2,3) show ?thesis
    by (cases "test_hugepage g") (simp_all add: deliver_def sighandler_def act_run fail_with_def)
qed

text \<open>
  C17. With early killing, however the two processes are scheduled and whatever signals come before: when the child has come
  to the poisoning and has not ended, the parent has ended or is ready, that is its handler is installed, the jump buffer
  belongs to the running function and the expected address is its page. The signal of the injection, whose code is not 4,
  then makes it wait for the child, unless the signals before it have brought \<open>recovercount\<close> down to 1: then the handler gives
  up and the parent exits with 1 while the child runs on. In both cases a failure is counted exactly for a wrong address.
\<close>

theorem shared_early_ready:
  assumes "sh_early sh" "sizes_ok c g" "shared_run c k sh es (shared_init sh page g w) = Some s"
    and "c_at s \<in> {D_test, D_detach, D_exit}" "p_at s \<noteq> P_end" "si_code b \<noteq> 4"
  shows "handled (p_inj s) \<and> p_jmp s \<and> expected_addr (p_inj s) = p_page s
    \<and> (\<exists>t. shared_step c k sh (Signal b) s = Some t \<and> c_at t = c_at s
          \<and> (if recovercount (p_inj s) = 1 then p_at t = P_end \<and> p_res t = Inl (Exit 1) else p_at t = P_wait)
          \<and> failure (p_inj t) = failure (p_inj s) + (if si_addr b = p_page s then 0 else 1))"
proof -
  have inv: "sync s" "set_up c s" using early_run [OF assms(1-3)] by auto
  have "p_jmp s" using inv(1) assms(4,5) by (auto simp: sync_def)
  moreover have "p_sig s = None" using inv(1) assms(4) by (auto simp: sync_def)
  moreover have r: "handled (p_inj s)" "expected_addr (p_inj s) = p_page s" "sizes_ok c (p_inj s)"
    using inv(2) \<open>p_jmp s\<close> assms(5) by (simp_all add: set_up_def)
  moreover obtain g' where "deliver c In_poison b (p_inj s, shworld s)
      = (if recovercount (p_inj s) = 1 then Inl (Exit 1) else Inr (), g', shworld s)"
    "failure g' = failure (p_inj s) + (if si_addr b = p_page s then 0 else 1)"
    using deliver_jumps [OF r(3,1) assms(6), of "shworld s"] r(2) by auto
  ultimately show ?thesis
    using assms(5) by (simp add: shared_step_def shared_signal_def parent_does_def parent_stops_def at_page_def act_run Let_def)
qed

definition early_inj :: inj where
  "early_inj = demo_inj\<lparr>early_kill := True, recovercount := 4\<rparr>"

definition demo_share :: share where
  "demo_share = \<lparr>sh_mode = MMAP_SHARED, sh_shm = -1, sh_sem = 7, sh_early = True\<rparr>"

lemmas shared_simps = shared_step_def shared_parent_def shared_child_def shared_signal_def parent_does_def child_does_def
  parent_stops_def child_stops_def at_page_def shared_attach_def shared_fill_def shared_init_def store_page_def
  MMAP_SHARED_def IPV_SHARED_def Let_def act_run numeral_3_eq_3

theorem shared_early_ready_witness:
  "\<exists>s t. shared_run demo_tconf demo_kern demo_share [Parent, Parent, Child, Child, Parent, Child]
        (shared_init demo_share 4096 early_inj []) = Some s
    \<and> shared_step demo_tconf demo_kern demo_share (Signal \<lparr>si_code = 5, si_addr = 4096, si_addr_lsb = 12\<rparr>) s = Some t
    \<and> p_at t = P_wait \<and> failure (p_inj t) = 0"
proof -
  obtain s where s: "shared_run demo_tconf demo_kern demo_share [Parent, Parent, Child, Child, Parent, Child]
        (shared_init demo_share 4096 early_inj []) = Some s" "c_at s = D_test" "p_at s = P_sleep" "p_page s = 4096"
    "failure (p_inj s) = 0" "recovercount (p_inj s) = 4"
    by (simp add: shared_simps demo_share_def demo_tconf_def demo_kern_def early_inj_def demo_inj_def)
  have "sh_early demo_share" "sizes_ok demo_tconf early_inj"
    by (simp_all add: demo_share_def sizes_ok_def demo_tconf_def early_inj_def demo_inj_def)
  from shared_early_ready [OF this s(1), of "\<lparr>si_code = 5, si_addr = 4096, si_addr_lsb = 12\<rparr>"] s show ?thesis by auto
qed

section \<open>Late kill: the parent runs into the poison\<close>

text \<open>
  C30. The verdict of late killing, in a process with the handler: a child that did not exit is a failure and the page is not
  touched; otherwise the parent writes to the page, and counts the deviations of the kernel.
\<close>

theorem shared_late_verdict:
  assumes "\<not> sh_early sh" "p_at s = P_wait" "c_how s = Some (Inr (code, status))"
    and "handled (p_inj s)" "sizes_ok c (p_inj s)"
    and "kernel_access k (p_page s) MWRITE (shworld s) = (sig, w')" "\<And>b. sig = Some b \<Longrightarrow> si_code b = 4"
  shows "if code = CLD_EXITED
    then \<exists>t. shared_run c k sh [Parent, Parent, Parent] s = Some t \<and> p_at t = P_detach \<and> shworld t = w'
           \<and> failure (p_inj t) = failure (p_inj s) + int (access_deviations MWRITE (p_page s) sig)
    else \<exists>t. shared_run c k sh [Parent, Parent] s = Some t \<and> p_at t = P_clean \<and> shworld t = shworld s
           \<and> failure (p_inj t) = failure (p_inj s) + 1"
proof (cases "code = CLD_EXITED")
  case True
  let ?g = "(p_inj s)\<lparr>expected_addr := p_page s, recovercount := 5\<rparr>"
  obtain h where h: "touch k (p_page s) MWRITE (?g, shworld s) = (Inr sig, h, w')" "h = ?g\<lparr>printed := printed h\<rparr>"
    using touch_access [OF assms(6), of ?g] by blast
  then have "h = (p_inj s)\<lparr>expected_addr := p_page s, recovercount := 5, printed := printed h\<rparr>" by simp
  from recover_verdict [OF assms(5,4) h(1) this assms(7)] obtain g' where
    "recover c k ''ipv shared page (parent)'' (p_page s) MWRITE (p_inj s, shworld s) = (Inr (), g', w')"
    "failure g' = failure (p_inj s) + int (access_deviations MWRITE (p_page s) sig)" by blast
  with True assms(1-4) show ?thesis
    by (simp add: shared_step_def shared_parent_def parent_does_def at_page_def shared_check_def shared_child_error_def
        act_run Let_def)
next
  case False
  with assms(1-4) show ?thesis
    by (simp add: shared_step_def shared_parent_def parent_does_def at_page_def shared_check_def shared_child_error_def
        act_run Let_def)
qed

text \<open>
  Nothing makes the child wait then: when it is faster, the \<open>memset\<close> of the parent runs into the poison, outside of every
  \<open>sigsetjmp\<close>. Without the handler this kills the parent, with it the jump has no meaning.
\<close>

theorem shared_late_race:
  assumes "p_at s = P_fill" "k_store k (p_page s) 0x61 (shworld s) = (Some b, w')"
    and "sizes_ok c (p_inj s)" "1 < recovercount (p_inj s)"
  shows "\<exists>t. shared_step c k sh Parent s = Some t \<and> p_at t = P_end
    \<and> p_res t = Inl (if handled (p_inj s) then Undef ''siglongjmp to a function that has returned'' else Fatal ''SIGBUS'')"
proof -
  from assms(3) obtain l where "(if test_hugepage (p_inj s) then ilog2 (HPS c) else PAGE_LSB c) = Some l"
    by (cases "test_hugepage (p_inj s)") (simp_all add: sizes_ok_def PAGE_LSB_def ilog2_def)
  with assms show ?thesis
    by (cases "test_hugepage (p_inj s)"; cases "si_code b = 4")
      (auto simp: shared_step_def shared_parent_def parent_does_def parent_stops_def shared_fill_def store_page_def
        deliver_def sighandler_def act_run Let_def numeral_3_eq_3 upt_conv_Cons)
qed

text \<open>A run in which the child comes first, and one in which the parent does.\<close>

definition late_share :: share where
  "late_share = \<lparr>sh_mode = MMAP_SHARED, sh_shm = -1, sh_sem = -1, sh_early = False\<rparr>"

definition late_inj :: inj where
  "late_inj = demo_inj\<lparr>recovercount := 4\<rparr>"

lemmas late_simps = late_share_def demo_tconf_def demo_kern_def late_inj_def demo_inj_def

lemma demo_store: "k_store demo_kern a x [] = (None, [])"
  by (simp add: demo_kern_def)

lemma late_child_test:
  "\<exists>g'. testmem demo_tconf demo_kern msg 4096 MWRITE (late_inj\<lparr>failure := 0\<rparr>, []) = (Inr (), g', [4096]) \<and> failure g' = 0"
proof -
  have "sizes_ok demo_tconf (late_inj\<lparr>failure := 0\<rparr>)" "handled (late_inj\<lparr>failure := 0\<rparr>)" "inject_fn demo_tconf = Inject_madvise"
    "k_poison demo_kern 4096 [] = (Inr 0, [4096])"
    "kernel_access demo_kern 4096 MWRITE [4096] = (Some \<lparr>si_code = 4, si_addr = 4096, si_addr_lsb = 12\<rparr>, [4096])"
    by (simp_all add: sizes_ok_def late_simps kernel_access_def)
  from testmem_exact [OF this(1-4) _ this(5), of msg] show ?thesis
    by (auto simp: late_simps early_deviations_def access_deviations_def wrong_address_def)
qed

theorem shared_late_race_witness:
  "\<exists>s t. shared_run demo_tconf demo_kern late_share [Parent, Child, Child, Child, Child] (shared_init late_share 4096 late_inj []) = Some s
    \<and> shared_step demo_tconf demo_kern late_share Parent s = Some t
    \<and> p_res t = Inl (Undef ''siglongjmp to a function that has returned'')"
proof -
  obtain g' where g': "testmem demo_tconf demo_kern ''ipv shared page'' 4096 MWRITE (late_inj\<lparr>failure := 0\<rparr>, []) = (Inr (), g', [4096])"
    using late_child_test by blast
  obtain s where s: "shared_run demo_tconf demo_kern late_share [Parent, Child, Child, Child, Child]
      (shared_init late_share 4096 late_inj []) = Some s"
    "p_at s = P_fill" "p_page s = 4096" "shworld s = [4096]" "p_inj s = late_inj"
    by (simp add: shared_simps demo_store late_share_def g')
  have "k_store demo_kern (p_page s) 0x61 (shworld s) = (Some \<lparr>si_code = 4, si_addr = 4096, si_addr_lsb = 12\<rparr>, [4096])"
    "sizes_ok demo_tconf (p_inj s)" "1 < recovercount (p_inj s)" "handled (p_inj s)"
    using s by (simp_all add: sizes_ok_def late_simps)
  from shared_late_race [OF s(2) this(1-3)] this(4) s(1) show ?thesis by auto
qed

theorem shared_late_verdict_witness:
  "\<exists>s t. shared_run demo_tconf demo_kern late_share [Parent, Parent, Child, Child, Child, Child, Child, Child]
       (shared_init late_share 4096 late_inj []) = Some s
    \<and> shared_run demo_tconf demo_kern late_share [Parent, Parent, Parent] s = Some t \<and> failure (p_inj t) = 0"
proof -
  obtain g' where g': "testmem demo_tconf demo_kern ''ipv shared page'' 4096 MWRITE (late_inj\<lparr>failure := 0\<rparr>, []) = (Inr (), g', [4096])"
    "failure g' = 0"
    using late_child_test by blast
  obtain s where s: "shared_run demo_tconf demo_kern late_share [Parent, Parent, Child, Child, Child, Child, Child, Child]
      (shared_init late_share 4096 late_inj []) = Some s"
    "p_at s = P_wait" "p_page s = 4096" "shworld s = [4096]" "p_inj s = late_inj" "c_how s = Some (Inr (CLD_EXITED, 0))"
    by (simp add: shared_simps demo_store late_share_def g')
  have "\<not> sh_early late_share" "handled (p_inj s)" "sizes_ok demo_tconf (p_inj s)"
    "kernel_access demo_kern (p_page s) MWRITE (shworld s) = (Some \<lparr>si_code = 4, si_addr = 4096, si_addr_lsb = 12\<rparr>, [4096])"
    using s by (simp_all add: sizes_ok_def late_simps kernel_access_def)
  from shared_late_verdict [OF this(1) s(2,6) this(2-4)] s show ?thesis
    by (auto simp: access_deviations_def wrong_address_def late_inj_def demo_inj_def)
qed

section \<open>The schedules are bounded\<close>

fun parent_rank :: "ppoint \<Rightarrow> nat" where
  "parent_rank P_attach = 9" | "parent_rank P_fill = 8" | "parent_rank P_put = 7" | "parent_rank P_sleep = 6"
| "parent_rank P_wait = 5" | "parent_rank P_check = 4" | "parent_rank P_recover = 3" | "parent_rank P_detach = 2"
| "parent_rank P_clean = 1" | "parent_rank P_end = 0"

fun child_rank :: "cpoint \<Rightarrow> nat" where
  "child_rank D_attach = 6" | "child_rank D_fill = 5" | "child_rank D_get = 4" | "child_rank D_test = 3"
| "child_rank D_detach = 2" | "child_rank D_exit = 1" | "child_rank D_back = 0" | "child_rank D_gone = 0"

text \<open>Process 0 is the parent, for which the time may be over; process 1 is the child.\<close>

definition shared_move :: "tconf \<Rightarrow> 'w kern \<Rightarrow> share \<Rightarrow> nat \<Rightarrow> 'w shsys \<Rightarrow> 'w shsys option" where
  "shared_move c k sh i s =
     (if i = 0 then shared_step c k sh (if p_at s = P_sleep then Time else Parent) s
      else if i = 1 then shared_step c k sh Child s
      else None)"

definition shared_rank :: "'w shsys \<Rightarrow> nat \<Rightarrow> nat" where
  "shared_rank s i = (if i = 0 then parent_rank (p_at s) else if i = 1 then child_rank (c_at s) else 0)"

lemma parent_does_lowers:
  assumes "leads_in P m" "\<forall>q \<in> P. parent_rank q < n" "0 < n"
  shows "parent_rank (p_at (parent_does m s)) < n"
  using parent_leads [OF assms(1), of s] assms(2,3) by auto

lemma child_does_lowers:
  assumes "leads_in Q m" "\<forall>q \<in> Q. child_rank q < n" "0 < n"
  shows "child_rank (c_at (child_does k m s)) < n"
  using child_leads [OF assms(1), of k s] assms(2,3) by auto

lemma shared_parent_lowers:
  assumes "shared_parent c k sh s = Some t" shows "parent_rank (p_at t) < parent_rank (p_at s) \<and> c_at t = c_at s"
proof (cases "p_at s")
  case P_attach
  with assms parent_does_lowers [OF leads_code(1), of P_fill P_clean 9] show ?thesis
    by (auto simp: shared_parent_def Let_def)
next
  case P_fill
  let ?m = "shared_fill c k sh (if sh_early sh then P_put else P_wait) (p_page s)"
  have "parent_rank (p_at (parent_does ?m s)) < 8" by (rule parent_does_lowers [OF leads_code(2)]) simp_all
  with assms P_fill show ?thesis by (auto simp: shared_parent_def Let_def)
next
  case P_check
  have "(\<forall>q \<in> (if sh_early sh then {P_clean, P_detach} else {P_clean, P_recover}). parent_rank q < 4)" by simp
  with assms parent_does_lowers [OF leads_code(3) this] P_check show ?thesis by (auto simp: shared_parent_def Let_def)
next
  case P_recover
  have "leads_in {P_detach} (at_page (p_page s) (sseq (recover c k ''ipv shared page (parent)'' (p_page s) MWRITE) (ret P_detach)))"
    by (auto simp: at_page_def leads_in_def act_run split: prod.splits sum.splits)
  from parent_does_lowers [OF this, of 3] assms P_recover show ?thesis by (auto simp: shared_parent_def Let_def)
next
  case P_detach
  with assms parent_does_lowers [OF leads_code(4), of 2] show ?thesis by (auto simp: shared_parent_def Let_def)
next
  case P_clean
  have "leads_in {P_end} (at_page (p_page s) (sseq (shared_clean k c sh (p_page s)) (ret P_end)))"
    by (auto simp: leads_in_def at_page_def act_run split: prod.splits sum.splits)
  from parent_does_lowers [OF this, of 1] assms P_clean show ?thesis by (auto simp: shared_parent_def Let_def split: if_splits)
qed (use assms in \<open>auto simp: shared_parent_def Let_def parent_stops_def split: option.splits sum.splits\<close>)

lemma shared_child_lowers:
  assumes "shared_child c k sh s = Some t" shows "child_rank (c_at t) < child_rank (c_at s) \<and> p_at t = p_at s"
proof (cases "c_at s")
  case D_attach
  let ?t = "child_does k (shared_attach k sh D_fill D_back (c_page s)) s"
  let ?u = "child_does k (sseq (shared_clean k c sh (c_page ?t)) (ret (D_back, c_page ?t))) ?t"
  have "child_rank (c_at ?t) < 6" by (rule child_does_lowers [OF leads_code(1)]) simp_all
  moreover have "child_rank (c_at ?u) < 6" by (rule child_does_lowers [of "{D_back}"]) auto
  ultimately show ?thesis using assms D_attach by (auto simp: shared_child_def Let_def split: if_splits)
next
  case D_fill
  let ?m = "sseq (shared_fill c k sh D_get (c_page s)) (sseq (upd (\<lambda>g. g\<lparr>failure := 0\<rparr>)) (ret (D_get, c_page s)))"
  have "child_rank (c_at (child_does k ?m s)) < 5" by (rule child_does_lowers [of "{D_get}"]) auto
  with assms D_fill show ?thesis by (auto simp: shared_child_def Let_def)
next
  case D_test
  let ?m = "sseq (testmem c k ''ipv shared page'' (c_page s) MWRITE) (ret (D_detach, c_page s))"
  have "child_rank (c_at (child_does k ?m s)) < 3" by (rule child_does_lowers [of "{D_detach}"]) auto
  with assms D_test show ?thesis by (auto simp: shared_child_def Let_def)
next
  case D_detach
  let ?m = "if sh_mode sh = IPV_SHARED
     then sbind (call (k_sys k (Shmdt (c_page s)))) (\<lambda>r. if r = -1 then halt (Exit 1) else ret (D_exit, c_page s))
     else ret (D_exit, c_page s)"
  have "leads_in {D_exit} ?m" by (auto simp: leads_in_def act_run split: prod.splits sum.splits if_splits)
  then have "child_rank (c_at (child_does k ?m s)) < 2" by (rule child_does_lowers) simp_all
  with assms D_detach show ?thesis by (auto simp: shared_child_def Let_def)
qed (use assms in \<open>auto simp: shared_child_def Let_def child_stops_def split: if_splits option.splits\<close>)

lemma shared_move_lowers:
  assumes "shared_move c k sh i s = Some t"
  shows "shared_rank t i < shared_rank s i" "j \<noteq> i \<Longrightarrow> shared_rank t j = shared_rank s j"
proof -
  have time: "parent_rank (p_at (parent_does (at_page (p_page s) shared_timeout) s)) < 6"
    by (rule parent_does_lowers [OF leads_code(5)]) simp_all
  consider (sleep) "i = 0" "p_at s = P_sleep" "t = parent_does (at_page (p_page s) shared_timeout) s"
    | (parent) "i = 0" "shared_parent c k sh s = Some t" | (child) "i = 1" "shared_child c k sh s = Some t"
    using assms by (auto simp: shared_move_def shared_step_def split: if_splits)
  then show "shared_rank t i < shared_rank s i" "j \<noteq> i \<Longrightarrow> shared_rank t j = shared_rank s j"
    by (cases; use time shared_parent_lowers [of c k sh s t] shared_child_lowers [of c k sh s t] in \<open>simp add: shared_rank_def\<close>)+
qed

interpretation shared: ranked_processes "shared_move c k sh" shared_rank for c k sh
  using shared_move_lowers by unfold_locales blast+

lemma shared_run_moves:
  assumes "shared_run c k sh es s = Some t" "\<And>b. Signal b \<notin> set es"
  shows "shared.moves_of c k sh (map (\<lambda>e. if e = Child then 1 else 0) es) s = Some t"
  using assms
proof (induction es arbitrary: s)
  case (Cons e es)
  then obtain u where u: "shared_step c k sh e s = Some u" "shared_run c k sh es u = Some t" by (auto split: option.splits)
  have no: "\<And>b. e \<noteq> Signal b" "\<And>b. Signal b \<notin> set es" using Cons.prems(2) by auto
  have "shared_move c k sh (if e = Child then 1 else 0) s = Some u"
    using u(1) no(1) by (cases e) (auto simp: shared_move_def shared_step_def shared_parent_def split: if_splits)
  with Cons.IH [OF u(2) no(2)] show ?case by simp
qed simp

text \<open>
  No schedule is endless: without signals the two processes make at most 15 steps, however they are scheduled.
\<close>

theorem shared_bounded:
  assumes "shared_run c k sh es (shared_init sh page g w) = Some t" "\<And>b. Signal b \<notin> set es"
  shows "length es \<le> 15"
proof -
  have "set (map (\<lambda>e. if e = Child then 1 else 0 :: nat) es) \<subseteq> {..<2}" by auto
  from shared.schedule_bounded [OF shared_run_moves [OF assms] this] show ?thesis
    by (simp add: shared_init_def shared_rank_def numeral_2_eq_2)
qed

theorem shared_bounded_witness: "length [Parent, Parent, Child, Child, Parent, Child] \<le> 15"
proof (rule shared_bounded)
  show "shared_run demo_tconf demo_kern demo_share [Parent, Parent, Child, Child, Parent, Child]
      (shared_init demo_share 4096 early_inj []) = Some (the (shared_run demo_tconf demo_kern demo_share
        [Parent, Parent, Child, Child, Parent, Child] (shared_init demo_share 4096 early_inj [])))"
    by (simp add: shared_simps demo_share_def demo_tconf_def demo_kern_def early_inj_def demo_inj_def)
qed auto

end
