(* ===== verification/Tinj_Verdict.thy ===== *)
theory Tinj_Verdict
  imports Tinjpage
begin

text \<open>
  What \<open>tinjpage\<close> says about a kernel that does what it promises: a page in use is poisoned and kills those who touch it, a
  clean page of a file is dropped and read again, and lost data are reported by \<open>fsync\<close> and \<open>msync\<close>. The laws speak of a
  view of the world; the cases are followed through all of them, in the three rounds of \<open>main\<close>.
\<close>

section \<open>Results and stops of an action\<close>

definition ends :: "('g, 'w, 'a) act \<Rightarrow> ('a \<Rightarrow> 'g \<Rightarrow> 'w \<Rightarrow> bool) \<Rightarrow> (stop \<Rightarrow> 'w \<Rightarrow> bool) \<Rightarrow> 'g \<Rightarrow> 'w \<Rightarrow> bool" where
  "ends m Q E g w = (case m (g, w) of (Inr x, g, w) \<Rightarrow> Q x g w | (Inl e, g, w) \<Rightarrow> E e w)"

lemma ends_basic [simp]:
  "ends (ret x) Q E g w = Q x g w"
  "ends (halt e) Q E g w = E e w"
  by (simp_all add: ends_def)

lemma ends_nop [simp]: "ends nop Q E g w = Q () g w"
  by (simp add: ends_def)

lemma ends_glob [simp]: "ends (glob h) Q E g w = Q (h g) g w"
  by (simp add: ends_def)

lemma ends_upd [simp]: "ends (upd f) Q E g w = Q () (f g) w"
  by (simp add: ends_def)

lemma ends_sbind [simp]: "ends (sbind m h) Q E g w = ends m (\<lambda>x. ends (h x) Q E) E g w"
  by (auto simp: ends_def act_run split: prod.splits sum.splits)

lemma ends_sseq [simp]: "ends (sseq m n) Q E g w = ends m (\<lambda>_. ends n Q E) E g w"
  by (simp add: sseq_def)

lemma ends_call: "ends (call h) Q E g w = Q (fst (h w)) g (snd (h w))"
  by (auto simp: ends_def split: prod.split)

lemma ends_mono: "ends m Q E g w \<Longrightarrow> (\<And>x g w. Q x g w \<Longrightarrow> Q' x g w) \<Longrightarrow> (\<And>e w. E e w \<Longrightarrow> E' e w) \<Longrightarrow> ends m Q' E' g w"
  by (auto simp: ends_def split: prod.splits sum.splits)

section \<open>The laws\<close>

text \<open>The state of a page: not written since it was read, written, or poisoned.\<close>

datatype pstate = Clean | Dirty | Bad

text \<open>
  \<open>backing\<close> is the open file that is mapped at an address, \<open>lost\<close> whether data of a file were lost, \<open>pend\<close> whether there is
  data to be written to it, and \<open>early\<close> the policy of the system.
\<close>

record 'w view =
  st :: "'w \<Rightarrow> u64 \<Rightarrow> pstate"
  backing :: "'w \<Rightarrow> u64 \<Rightarrow> int option"
  lost :: "'w \<Rightarrow> int \<Rightarrow> bool"
  pend :: "'w \<Rightarrow> int \<Rightarrow> bool"
  early :: "'w \<Rightarrow> bool"

definition pages_same :: "'w view \<Rightarrow> 'w \<Rightarrow> 'w \<Rightarrow> bool" where
  "pages_same v w w' \<longleftrightarrow> st v w' = st v w \<and> backing v w' = backing v w \<and> lost v w' = lost v w \<and> early v w' = early v w"

text \<open>A new page: anonymous memory is written when it is mapped at once, a file is as its data are.\<close>

definition map_law :: "'w kern \<Rightarrow> 'w view \<Rightarrow> bool" where
  "map_law k v \<longleftrightarrow>
     (\<forall>len prots flags fd w. \<exists>p w'. k_mmap k len prots flags fd w = (Some p, w') \<and> early v w' = early v w \<and> lost v w' = lost v w
        \<and> (if MAP_ANONYMOUS \<in> set flags
           then st v w' p = (if MAP_POPULATE \<in> set flags \<or> MAP_LOCKED \<in> set flags then Dirty else Clean)
           else st v w' p = (if pend v w fd then Dirty else Clean) \<and> backing v w' p = Some fd))
   \<and> (\<forall>shmid w. \<exists>p w'. k_shmat k shmid w = (Some p, w') \<and> early v w' = early v w \<and> st v w' p = Clean)"

text \<open>The signal of an access to a poisoned page, and of an injection with early killing.\<close>

definition access_law :: "'w kern \<Rightarrow> 'w view \<Rightarrow> bool" where
  "access_law k v \<longleftrightarrow>
     (\<forall>p x w. if st v w p = Bad
        then \<exists>b w'. k_store k p x w = (Some b, w') \<and> si_code b = 4 \<and> si_addr b = p \<and> pages_same v w w'
        else \<exists>w'. k_store k p x w = (None, w') \<and> st v w' p = Dirty \<and> backing v w' p = backing v w p \<and> lost v w' = lost v w
          \<and> early v w' = early v w)
   \<and> (\<forall>p w. if st v w p = Bad
        then \<exists>b w'. k_load k p w = (Inl b, w') \<and> si_code b = 4 \<and> si_addr b = p \<and> pages_same v w w'
        else \<exists>x w'. k_load k p w = (Inr x, w') \<and> pages_same v w w')"

definition inject_law :: "'w kern \<Rightarrow> 'w view \<Rightarrow> bool" where
  "inject_law k v \<longleftrightarrow>
     (\<forall>p w. st v w p = Clean \<longrightarrow> (\<exists>w'. k_poison k p w = (Inr 0, w') \<and> pages_same v w w'))
   \<and> (\<forall>p w. st v w p = Dirty \<longrightarrow>
        (\<exists>r w'. k_poison k p w = (r, w') \<and> st v w' p = Bad \<and> backing v w' p = backing v w p \<and> early v w' = early v w
           \<and> (\<forall>fd. backing v w p = Some fd \<longrightarrow> lost v w' fd)
           \<and> (if early v w then \<exists>b. r = Inl b \<and> si_code b = 5 \<and> si_addr b = p else r = Inr 0)))"

definition file_law :: "'w kern \<Rightarrow> 'w view \<Rightarrow> bool" where
  "file_law k v \<longleftrightarrow>
     (\<forall>x w. early v (snd (k_sys k x w)) =
        (case x of System s \<Rightarrow> s = ''sysctl -w vm.memory_failure_early_kill=1'' | _ \<Rightarrow> early v w))
   \<and> (\<forall>path mode w. case k_sys k (Open path mode) w of (fd, w') \<Rightarrow> 0 \<le> fd \<and> \<not> pend v w' fd \<and> \<not> lost v w' fd)
   \<and> (\<forall>fd bs w. case k_sys k (Write fd bs) w of (r, w') \<Rightarrow> pend v w' fd \<and> lost v w' = lost v w)
   \<and> (\<forall>fd n w. case k_sys k (Lseek fd n) w of (r, w') \<Rightarrow> pend v w' = pend v w \<and> lost v w' = lost v w)
   \<and> (\<forall>fd w. pages_same v w (snd (k_sys k (Close fd) w)))
   \<and> (\<forall>p len pg w. pages_same v w (snd (k_sys k (Remap_File_Pages p len pg) w)))
   \<and> (\<forall>fd w. case k_sys k (Fsync fd) w of (r, w') \<Rightarrow>
        if lost v w fd then r < 0 \<and> pages_same v w w' else \<forall>p. backing v w p = Some fd \<longrightarrow> st v w' p = Clean)
   \<and> (\<forall>p len fd w. backing v w p = Some fd \<and> lost v w fd \<longrightarrow> fst (k_sys k (Msync p len) w) < 0)
   \<and> (\<forall>p len w. 0 \<le> fst (k_sys k (Munmap p len) w))
   \<and> (\<forall>key len fl w. 0 \<le> fst (k_sys k (Shmget key len fl) w))"

definition kernel_law :: "'w kern \<Rightarrow> 'w view \<Rightarrow> bool" where
  "kernel_law k v \<longleftrightarrow> map_law k v \<and> access_law k v \<and> inject_law k v \<and> file_law k v
     \<and> (\<forall>w. fst (k_fork k w) \<and> early v (snd (k_fork k w)) = early v w)"

section \<open>The rules of the calls\<close>

text \<open>What the globals have to be, and what a case leaves as it was.\<close>

definition fit :: "tconf \<Rightarrow> 'w view \<Rightarrow> inj \<Rightarrow> 'w \<Rightarrow> bool" where
  "fit c v g w \<longleftrightarrow> sizes_ok c g \<and> early_kill g = early v w \<and> (early_kill g \<longrightarrow> handled g)"

definition same_verdict :: "inj \<Rightarrow> inj \<Rightarrow> bool" where
  "same_verdict g h \<longleftrightarrow> failure h = failure g \<and> early_kill h = early_kill g \<and> handled h = handled g"

lemma same_verdict_refl [simp]: "same_verdict g g"
  by (simp add: same_verdict_def)

lemma same_verdict_trans: "same_verdict g h \<Longrightarrow> same_verdict h i \<Longrightarrow> same_verdict g i"
  by (simp add: same_verdict_def)

lemma file_law_early:
  "kernel_law k v \<Longrightarrow> early v (snd (k_sys k x w)) =
     (case x of System s \<Rightarrow> s = ''sysctl -w vm.memory_failure_early_kill=1'' | _ \<Rightarrow> early v w)"
  by (simp add: kernel_law_def file_law_def)

lemma file_laws:
  assumes "kernel_law k v"
  shows "0 \<le> fst (k_sys k (Open path mode) w)"
    "\<not> pend v (snd (k_sys k (Open path mode) w)) (fst (k_sys k (Open path mode) w))"
    "\<not> lost v (snd (k_sys k (Open path mode) w)) (fst (k_sys k (Open path mode) w))"
    "pend v (snd (k_sys k (Write fd bs) w)) fd"
    "lost v (snd (k_sys k (Write fd bs) w)) = lost v w"
    "pend v (snd (k_sys k (Lseek fd n) w)) = pend v w"
    "lost v (snd (k_sys k (Lseek fd n) w)) = lost v w"
    "pages_same v w (snd (k_sys k (Close fd) w))"
    "pages_same v w (snd (k_sys k (Remap_File_Pages p len pg) w))"
    "0 \<le> fst (k_sys k (Munmap p len) w)"
    "0 \<le> fst (k_sys k (Shmget key len fl) w)"
proof -
  have f: "file_law k v" using assms by (simp add: kernel_law_def)
  show "0 \<le> fst (k_sys k (Open path mode) w)"
    "\<not> pend v (snd (k_sys k (Open path mode) w)) (fst (k_sys k (Open path mode) w))"
    "\<not> lost v (snd (k_sys k (Open path mode) w)) (fst (k_sys k (Open path mode) w))"
    "pend v (snd (k_sys k (Write fd bs) w)) fd"
    "lost v (snd (k_sys k (Write fd bs) w)) = lost v w"
    "pend v (snd (k_sys k (Lseek fd n) w)) = pend v w"
    "lost v (snd (k_sys k (Lseek fd n) w)) = lost v w"
    "pages_same v w (snd (k_sys k (Close fd) w))"
    "pages_same v w (snd (k_sys k (Remap_File_Pages p len pg) w))"
    "0 \<le> fst (k_sys k (Munmap p len) w)"
    "0 \<le> fst (k_sys k (Shmget key len fl) w)"
    using f unfolding file_law_def case_prod_beta by (elim conjE; simp)+
qed

lemma open_law: "kernel_law k v \<Longrightarrow> (fst (k_sys k (Open path mode) w) < 0) = False"
    "kernel_law k v \<Longrightarrow> (0 \<le> fst (k_sys k (Open path mode) w)) = True"
  using file_laws(1) [of k v path mode w] by auto

lemma shmget_law: "kernel_law k v \<Longrightarrow> (fst (k_sys k (Shmget key len fl) w) < 0) = False"
  using file_laws(11) [of k v key len fl w] by auto

lemma fsync_law:
  assumes "kernel_law k v"
  shows "lost v w fd \<Longrightarrow> fst (k_sys k (Fsync fd) w) < 0"
    "\<not> lost v w fd \<Longrightarrow> backing v w p = Some fd \<Longrightarrow> st v (snd (k_sys k (Fsync fd) w)) p = Clean"
proof -
  have "\<forall>fd w. case k_sys k (Fsync fd) w of (r, w') \<Rightarrow>
        if lost v w fd then r < 0 \<and> pages_same v w w' else \<forall>p. backing v w p = Some fd \<longrightarrow> st v w' p = Clean"
    using assms unfolding kernel_law_def file_law_def by (elim conjE)
  then have "if lost v w fd then fst (k_sys k (Fsync fd) w) < 0 \<and> pages_same v w (snd (k_sys k (Fsync fd) w))
      else \<forall>p. backing v w p = Some fd \<longrightarrow> st v (snd (k_sys k (Fsync fd) w)) p = Clean"
    unfolding case_prod_beta by blast
  then show "lost v w fd \<Longrightarrow> fst (k_sys k (Fsync fd) w) < 0"
    "\<not> lost v w fd \<Longrightarrow> backing v w p = Some fd \<Longrightarrow> st v (snd (k_sys k (Fsync fd) w)) p = Clean" by simp_all
qed

lemma msync_law:
  assumes "kernel_law k v" "backing v w p = Some fd" "lost v w fd"
  shows "fst (k_sys k (Msync p len) w) < 0"
proof -
  have "\<forall>p len fd w. backing v w p = Some fd \<and> lost v w fd \<longrightarrow> fst (k_sys k (Msync p len) w) < 0"
    using assms(1) unfolding kernel_law_def file_law_def by (elim conjE)
  with assms(2,3) show ?thesis by blast
qed

lemma map_laws:
  assumes "kernel_law k v"
  shows "\<exists>p w'. k_mmap k len prots flags fd w = (Some p, w') \<and> early v w' = early v w \<and> lost v w' = lost v w
        \<and> (if MAP_ANONYMOUS \<in> set flags
           then st v w' p = (if MAP_POPULATE \<in> set flags \<or> MAP_LOCKED \<in> set flags then Dirty else Clean)
           else st v w' p = (if pend v w fd then Dirty else Clean) \<and> backing v w' p = Some fd)"
    "\<exists>p w'. k_shmat k shmid w = (Some p, w') \<and> early v w' = early v w \<and> st v w' p = Clean"
  using assms unfolding kernel_law_def map_law_def by blast+

lemma access_laws:
  assumes "kernel_law k v"
  shows "st v w p = Bad \<Longrightarrow> \<exists>b w'. k_store k p x w = (Some b, w') \<and> si_code b = 4 \<and> si_addr b = p \<and> pages_same v w w'"
    "st v w p \<noteq> Bad \<Longrightarrow> \<exists>w'. k_store k p x w = (None, w') \<and> st v w' p = Dirty \<and> backing v w' p = backing v w p
       \<and> lost v w' = lost v w \<and> early v w' = early v w"
    "st v w p = Bad \<Longrightarrow> \<exists>b w'. k_load k p w = (Inl b, w') \<and> si_code b = 4 \<and> si_addr b = p \<and> pages_same v w w'"
    "st v w p \<noteq> Bad \<Longrightarrow> \<exists>x w'. k_load k p w = (Inr x, w') \<and> pages_same v w w'"
proof -
  have st: "if st v w p = Bad
        then \<exists>b w'. k_store k p x w = (Some b, w') \<and> si_code b = 4 \<and> si_addr b = p \<and> pages_same v w w'
        else \<exists>w'. k_store k p x w = (None, w') \<and> st v w' p = Dirty \<and> backing v w' p = backing v w p \<and> lost v w' = lost v w
          \<and> early v w' = early v w"
    using assms unfolding kernel_law_def access_law_def by (elim conjE allE)
  have ld: "if st v w p = Bad
        then \<exists>b w'. k_load k p w = (Inl b, w') \<and> si_code b = 4 \<and> si_addr b = p \<and> pages_same v w w'
        else \<exists>x w'. k_load k p w = (Inr x, w') \<and> pages_same v w w'"
    using assms unfolding kernel_law_def access_law_def by (elim conjE allE)
  show "st v w p = Bad \<Longrightarrow> \<exists>b w'. k_store k p x w = (Some b, w') \<and> si_code b = 4 \<and> si_addr b = p \<and> pages_same v w w'"
    "st v w p \<noteq> Bad \<Longrightarrow> \<exists>w'. k_store k p x w = (None, w') \<and> st v w' p = Dirty \<and> backing v w' p = backing v w p
       \<and> lost v w' = lost v w \<and> early v w' = early v w"
    using st by simp_all
  show "st v w p = Bad \<Longrightarrow> \<exists>b w'. k_load k p w = (Inl b, w') \<and> si_code b = 4 \<and> si_addr b = p \<and> pages_same v w w'"
    "st v w p \<noteq> Bad \<Longrightarrow> \<exists>x w'. k_load k p w = (Inr x, w') \<and> pages_same v w w'"
    using ld by simp_all
qed

lemma inject_laws:
  assumes "kernel_law k v"
  shows "st v w p = Clean \<Longrightarrow> \<exists>w'. k_poison k p w = (Inr 0, w') \<and> pages_same v w w'"
    "st v w p = Dirty \<Longrightarrow> \<exists>r w'. k_poison k p w = (r, w') \<and> st v w' p = Bad \<and> backing v w' p = backing v w p
       \<and> early v w' = early v w \<and> (\<forall>fd. backing v w p = Some fd \<longrightarrow> lost v w' fd)
       \<and> (if early v w then \<exists>b. r = Inl b \<and> si_code b = 5 \<and> si_addr b = p else r = Inr 0)"
proof -
  have law: "inject_law k v" using assms by (simp add: kernel_law_def)
  show "st v w p = Clean \<Longrightarrow> \<exists>w'. k_poison k p w = (Inr 0, w') \<and> pages_same v w w'"
    using law unfolding inject_law_def by (elim conjE allE) (erule mp)
  show "st v w p = Dirty \<Longrightarrow> \<exists>r w'. k_poison k p w = (r, w') \<and> st v w' p = Bad \<and> backing v w' p = backing v w p
       \<and> early v w' = early v w \<and> (\<forall>fd. backing v w p = Some fd \<longrightarrow> lost v w' fd)
       \<and> (if early v w then \<exists>b. r = Inl b \<and> si_code b = 5 \<and> si_addr b = p else r = Inr 0)"
    using law unfolding inject_law_def by (elim conjE allE) (erule mp)
qed

lemma ends_mmap:
  assumes "kernel_law k v"
    and "\<And>p w'. early v w' = early v w \<Longrightarrow> lost v w' = lost v w \<Longrightarrow>
        if MAP_ANONYMOUS \<in> set flags
        then st v w' p = (if MAP_POPULATE \<in> set flags \<or> MAP_LOCKED \<in> set flags then Dirty else Clean)
        else st v w' p = (if pend v w fd then Dirty else Clean) \<and> backing v w' p = Some fd \<Longrightarrow> Q p g w'"
  shows "ends (checked_mmap k len prots flags fd) Q E g w"
proof -
  obtain p w' where m: "k_mmap k len prots flags fd w = (Some p, w')" and "early v w' = early v w" "lost v w' = lost v w"
    "if MAP_ANONYMOUS \<in> set flags
        then st v w' p = (if MAP_POPULATE \<in> set flags \<or> MAP_LOCKED \<in> set flags then Dirty else Clean)
        else st v w' p = (if pend v w fd then Dirty else Clean) \<and> backing v w' p = Some fd"
    using map_laws(1) [OF assms(1), of len prots flags fd w] by blast
  from assms(2) [OF this(2-4)] m show ?thesis by (simp add: checked_mmap_def ends_call)
qed

lemma ends_store:
  assumes "kernel_law k v" "st v w p \<noteq> Bad"
    and "\<And>w'. st v w' p = Dirty \<Longrightarrow> backing v w' p = backing v w p \<Longrightarrow> lost v w' = lost v w \<Longrightarrow> early v w' = early v w \<Longrightarrow> Q () g w'"
  shows "ends (store_page c k p x) Q E g w"
  using access_laws(2) [OF assms(1,2), of x] assms(3) by (auto simp: store_page_def ends_call)

lemma ends_recover:
  assumes "kernel_law k v" "fit c v g w" "st v w p \<noteq> Bad"
    and "\<And>h w'. same_verdict g h \<Longrightarrow> fit c v h w' \<Longrightarrow> test_hugepage h = test_hugepage g \<Longrightarrow> pages_same v w w' \<Longrightarrow> Q () h w'"
  shows "ends (recover c k msg p MREAD_OK) Q E g w"
proof -
  obtain x w' where l: "k_load k p w = (Inr x, w')" "pages_same v w w'" using access_laws(4) [OF assms(1,3)] by blast
  let ?h = "say ([TAB] @ ''reading '' @ show_hex (unat x) @ [NL]) (g\<lparr>expected_addr := p, recovercount := 5\<rparr>)"
  have "same_verdict g ?h" "fit c v ?h w'" "test_hugepage ?h = test_hugepage g"
    using assms(2) l(2) by (simp_all add: same_verdict_def fit_def sizes_ok_def pages_same_def)
  from assms(4) [OF this l(2)] l(1) show ?thesis
    by (simp add: recover_def touch_def ends_call)
qed

lemma ends_testmem_clean:
  assumes "kernel_law k v" "fit c v g w" "st v w p = Clean" "survives mode" "inject_fn c = Inject_madvise"
    and "\<And>h w'. same_verdict g h \<Longrightarrow> fit c v h w' \<Longrightarrow> test_hugepage h = test_hugepage g \<Longrightarrow>
        st v w' p = (if mode = MREAD_OK then Clean else Dirty) \<Longrightarrow> Q () h w'"
  shows "ends (testmem c k msg p mode) Q E g w"
proof -
  obtain w1 where p: "k_poison k p w = (Inr 0, w1)" "pages_same v w w1" using inject_laws(1) [OF assms(1,3)] by blast
  let ?g = "(say ([TAB] @ msg @ '' poisoning page '' @ fmt_ptr p @ [NL]) g)\<lparr>expected_addr := p, recovercount := 5\<rparr>"
  have fit: "fit c v ?g w1" using assms(2) p(2) by (simp add: fit_def sizes_ok_def pages_same_def)
  have ok: "st v w1 p \<noteq> Bad" using assms(3) p(2) by (simp add: pages_same_def)
  have pois: "ends (poison c k msg p mode) Q' E h w = Q' () (h\<lparr>expected_addr := p, recovercount := 5\<rparr>) w1" for Q' h
    using assms(4,5) p(1) by (auto simp: poison_def inject_def inject_madvise_def ends_call)
  show ?thesis
  proof (cases "mode = MREAD_OK")
    case True
    have "ends (recover c k msg p MREAD_OK) Q E ?g w1"
      by (rule ends_recover [OF assms(1) fit ok], rule assms(6))
        (use True assms(3) p(2) in \<open>simp_all add: same_verdict_def pages_same_def\<close>)
    with True show ?thesis by (simp add: testmem_def pois [unfolded True])
  next
    case False
    then have mode: "mode = MWRITE_OK" using assms(4) by simp
    obtain w2 where w2: "k_store k p 4 w1 = (None, w2)" "st v w2 p = Dirty" "early v w2 = early v w1"
      using access_laws(2) [OF assms(1) ok, of 4] by blast
    let ?h = "say ([TAB] @ ''writing 4'' @ [NL]) ?g"
    have "same_verdict g ?h" "fit c v ?h w2" "test_hugepage ?h = test_hugepage g"
      using fit w2(3) by (simp_all add: same_verdict_def fit_def sizes_ok_def)
    from assms(6) [OF this] w2 mode show ?thesis
      by (simp add: testmem_def pois [unfolded mode] recover_def touch_def ends_call)
  qed
qed

lemma bad_access:
  assumes "kernel_law k v" "st v w p = Bad" "must_die mode"
  shows "\<exists>b w'. kernel_access k p mode w = (Some b, w') \<and> si_code b = 4 \<and> si_addr b = p \<and> pages_same v w w'"
  using assms(3) access_laws(1) [OF assms(1,2), of 2] access_laws(3) [OF assms(1,2)]
  by (auto simp: kernel_access_def)

text \<open>The page of a must-die test, with the handler: nothing is wrong. Without: the process is killed.\<close>

lemma ends_testmem_dirty:
  assumes "kernel_law k v" "fit c v g w" "st v w p = Dirty" "must_die mode" "inject_fn c = Inject_madvise"
    and ok: "\<And>h w'. handled g \<Longrightarrow> same_verdict g h \<Longrightarrow> fit c v h w' \<Longrightarrow> test_hugepage h = test_hugepage g \<Longrightarrow>
        backing v w' p = backing v w p \<Longrightarrow> (\<And>fd. backing v w p = Some fd \<Longrightarrow> lost v w' fd) \<Longrightarrow> Q () h w'"
    and dead: "\<And>w'. \<not> handled g \<Longrightarrow> early v w' = early v w \<Longrightarrow> E (Fatal ''SIGBUS'') w'"
  shows "ends (testmem c k msg p mode) Q E g w"
proof -
  let ?s = "[TAB] @ msg @ '' poisoning page '' @ fmt_ptr p @ [NL]"
  let ?g = "say ?s g"
  let ?p = "\<lambda>h :: inj. h\<lparr>expected_addr := p, recovercount := 5\<rparr>"
  obtain r w1 where w1: "k_poison k p w = (r, w1)" "st v w1 p = Bad" "backing v w1 p = backing v w p" "early v w1 = early v w"
      "\<And>fd. backing v w p = Some fd \<Longrightarrow> lost v w1 fd"
    and r: "if early v w then \<exists>b. r = Inl b \<and> si_code b = 5 \<and> si_addr b = p else r = Inr 0"
    using inject_laws(2) [OF assms(1,3)] by blast
  obtain b w2 where w2: "kernel_access k p mode w1 = (Some b, w2)" "si_code b = 4" "si_addr b = p" "pages_same v w1 w2"
    using bad_access [OF assms(1) w1(2) assms(4)] by blast
  let ?e = "case r of Inl b \<Rightarrow> Some b | _ \<Rightarrow> None"
  have inj: "inject c k p (h, w) = (Inr ?e, h, w1)" for h
    using r w1(1) assms(5) by (auto simp: inject_def inject_madvise_def act_run split: if_splits)
  have world: "early v w2 = early v w" "backing v w2 p = backing v w p" "\<And>fd. backing v w p = Some fd \<Longrightarrow> lost v w2 fd"
    using w1 w2(4) by (simp_all add: pages_same_def)
  show ?thesis
  proof (cases "handled g")
    case True
    have "sizes_ok c ?g" "handled ?g" using assms(2) True by (simp_all add: fit_def sizes_ok_def)
    from poison_verdict [OF this inj, where mode = mode and msg = msg] r obtain g1 where
      1: "poison c k msg p mode (?g, w) = (Inr (), g1, w1)"
        "failure g1 = failure g + int (early_deviations (early_kill g) mode p ?e)"
        "early_kill g1 = early_kill g" "test_hugepage g1 = test_hugepage g" "handled g1"
      by (fastforce split: if_splits)
    have no: "early_deviations (early_kill g) mode p ?e = 0"
      using r assms(2,4) by (auto simp: early_deviations_def wrong_address_def fit_def split: if_splits)
    have ok1: "sizes_ok c g1" using assms(2) 1 by (simp add: fit_def sizes_ok_def)
    obtain h where h: "touch k p mode (?p g1, w1) = (Inr (Some b), h, w2)" "h = (?p g1)\<lparr>printed := printed h\<rparr>"
      using touch_access [OF w2(1), of "?p g1"] by blast
    from recover_verdict [OF ok1 1(5) h(1), where msg = msg] h(2) w2(2) obtain g2 where
      2: "recover c k msg p mode (g1, w1) = (Inr (), g2, w2)" "failure g2 = failure g1 + int (access_deviations mode p (Some b))"
        "early_kill g2 = early_kill g1" "test_hugepage g2 = test_hugepage g1" "handled g2" by auto
    have "access_deviations mode p (Some b) = 0" using w2(3) assms(4) by (auto simp: access_deviations_def wrong_address_def)
    then have "same_verdict g g2" "fit c v g2 w2" "test_hugepage g2 = test_hugepage g"
      using 1 2 no True assms(2) world(1) by (simp_all add: same_verdict_def fit_def sizes_ok_def)
    from ok [OF True this world(2,3)] 1(1) 2(1) show ?thesis
      by (simp add: testmem_def ends_def act_run)
  next
    case False
    then have late: "\<not> early_kill h" "?e = None" if "early_kill h = early_kill g" for h
      using assms(2) r that by (auto simp: fit_def)
    have p: "poison c k msg p mode (?g, w) = (Inr (), ?p ?g, w1)"
      using late [of ?g] inj by (simp add: poison_def act_run)
    obtain h where h: "touch k p mode (?p (?p ?g), w1) = (Inr (Some b), h, w2)" "h = (?p (?p ?g))\<lparr>printed := printed h\<rparr>"
      using touch_access [OF w2(1), of "?p (?p ?g)"] by blast
    have "handled h = handled g" by (subst h(2)) simp
    then have "recover c k msg p mode (?p ?g, w1) = (Inl (Fatal ''SIGBUS''), h, w2)"
      using h(1) False by (simp add: recover_def deliver_def act_run)
    with p dead [OF False world(1)] show ?thesis by (simp add: testmem_def ends_def act_run)
  qed
qed

section \<open>The cases\<close>

text \<open>
  A case is right if it leaves the verdict as it was; a process without the handler survives it exactly when
  that is expected.
\<close>

definition stays :: "tconf \<Rightarrow> 'w view \<Rightarrow> bool \<Rightarrow> inj \<Rightarrow> inj \<Rightarrow> 'w \<Rightarrow> bool" where
  "stays c v surv g h w' \<longleftrightarrow> same_verdict g h \<and> fit c v h w' \<and> \<not> test_hugepage h \<and> (handled g \<or> surv)"

definition falls :: "'w view \<Rightarrow> bool \<Rightarrow> inj \<Rightarrow> 'w \<Rightarrow> stop \<Rightarrow> 'w \<Rightarrow> bool" where
  "falls v surv g w e w' \<longleftrightarrow> e = Fatal ''SIGBUS'' \<and> \<not> handled g \<and> \<not> surv \<and> early v w' = early v w"

definition case_right :: "tconf \<Rightarrow> 'w view \<Rightarrow> (inj, 'w, unit) act \<Rightarrow> bool \<Rightarrow> bool" where
  "case_right c v m surv \<longleftrightarrow>
     (\<forall>g w. fit c v g w \<and> \<not> test_hugepage g \<longrightarrow> ends m (\<lambda>_. stays c v surv g) (falls v surv g w) g w)"

lemma case_rightI:
  "(\<And>g w. fit c v g w \<Longrightarrow> \<not> test_hugepage g \<Longrightarrow> ends m (\<lambda>_. stays c v surv g) (falls v surv g w) g w) \<Longrightarrow> case_right c v m surv"
  by (simp add: case_right_def)

lemma fit_world: "fit c v g w \<Longrightarrow> early v w' = early v w \<Longrightarrow> fit c v g w'"
  by (simp add: fit_def)

lemmas fits = fit_def sizes_ok_def same_verdict_def pages_same_def

lemma ends_checks:
  "err \<Longrightarrow> Q () (say ([TAB] @ ''expected error on '' @ msg @ [NL]) g) w \<Longrightarrow> ends (expecterr msg err) Q E g w"
  "(\<And>h. same_verdict g h \<Longrightarrow> test_hugepage h = test_hugepage g \<Longrightarrow> Q () h w) \<Longrightarrow> ends (optionalerr msg err) Q E g w"
  by (auto simp: expecterr_def optionalerr_def same_verdict_def)

lemma ends_munmap_reserve:
  assumes "kernel_law k v" "\<And>w'. early v w' = early v w \<Longrightarrow> Q () g w'"
  shows "ends (munmap_reserve k p len) Q E g w"
  using assms(2) file_laws(10) [OF assms(1), of p len w]
  by (simp add: munmap_reserve_def ends_call not_less file_law_early [OF assms(1)])

lemma anonymous_right:
  assumes law: "kernel_law k v" "inject_fn c = Inject_madvise"
    and flags: "MAP_ANONYMOUS \<in> set flags" "MAP_POPULATE \<in> set flags \<or> MAP_LOCKED \<in> set flags"
    and rest: "\<And>g h p w w'. handled g \<Longrightarrow> stays c v False g h w' \<Longrightarrow> ends (m p) (\<lambda>_. stays c v False g) (falls v False g w) h w'"
  shows "case_right c v (sbind (checked_mmap k (PS c) prots flags 0) (\<lambda>p. sseq (testmem c k msg p MWRITE) (m p))) False"
proof (rule case_rightI)
  fix g w assume fit: "fit c v g w" and small: "\<not> test_hugepage g"
  show "ends (sbind (checked_mmap k (PS c) prots flags 0) (\<lambda>p. sseq (testmem c k msg p MWRITE) (m p)))
      (\<lambda>_. stays c v False g) (falls v False g w) g w"
    unfolding ends_sbind ends_sseq
  proof (rule ends_mmap [OF law(1)])
    fix p w1 assume w1: "early v w1 = early v w" "if MAP_ANONYMOUS \<in> set flags
        then st v w1 p = (if MAP_POPULATE \<in> set flags \<or> MAP_LOCKED \<in> set flags then Dirty else Clean)
        else st v w1 p = (if pend v w 0 then Dirty else Clean) \<and> backing v w1 p = Some 0"
    with flags have "st v w1 p = Dirty" by simp
    then show "ends (testmem c k msg p MWRITE) (\<lambda>_. ends (m p) (\<lambda>_. stays c v False g) (falls v False g w)) (falls v False g w) g w1"
      by (rule ends_testmem_dirty [OF law(1) fit_world [OF fit w1(1)] _ _ law(2)])
        (use w1 small in \<open>auto intro!: rest simp: stays_def falls_def\<close>)
  qed
qed

lemma dirty_anonymous_right:
  assumes "kernel_law k v" "inject_fn c = Inject_madvise"
  shows "case_right c v (dirty_anonymous c k) False" "case_right c v (mlocked_anonymous c k) False"
    "case_right c v (dirty_anonymous_unmap c k) False"
proof -
  have nop: "sseq m nop = m" for m :: "(inj, 'w, unit) act"
    by (rule ext) (simp add: act_run split: prod.split sum.split)
  show "case_right c v (dirty_anonymous c k) False" "case_right c v (mlocked_anonymous c k) False"
    using anonymous_right [OF assms, where m = "\<lambda>_. nop" and prots = "[PROT_READ, PROT_WRITE]"]
    by (simp_all add: dirty_anonymous_def mlocked_anonymous_def nop)
  show "case_right c v (dirty_anonymous_unmap c k) False"
    unfolding dirty_anonymous_unmap_def
    by (rule anonymous_right [OF assms]) (auto intro!: ends_munmap_reserve [OF assms(1)] simp: stays_def fits)
qed

lemma ends_reread:
  assumes "kernel_law k v" "fit c v g w" "st v w p \<noteq> Bad"
    and "\<And>h w'. same_verdict g h \<Longrightarrow> fit c v h w' \<Longrightarrow> test_hugepage h = test_hugepage g \<Longrightarrow> pages_same v w w' \<Longrightarrow> Q () h w'"
  shows "ends (reread c k pre p) Q E g w"
proof -
  obtain x w' where l: "k_load k p w = (Inr x, w')" "pages_same v w w'" using access_laws(4) [OF assms(1,3)] by blast
  from assms(4) [OF _ _ _ l(2), of "say (pre @ ''reading '' @ show_hex (unat x) @ [NL]) g"] l assms(2)
  show ?thesis by (simp add: reread_def ends_call fits)
qed

lemma do_file_clean_right:
  assumes law: "kernel_law k v" "inject_fn c = Inject_madvise" and flags: "MAP_ANONYMOUS \<notin> set flags"
  shows "case_right c v (do_file_clean c k flags name) True"
proof (rule case_rightI)
  fix g w assume fit: "fit c v g w" and small: "\<not> test_hugepage g"
  let ?g = "g\<lparr>tmpcount := tmpcount g + 1\<rparr>" and ?fn = "take 29 (''./~test'' @ show_int (tmpcount g))"
  let ?Q = "\<lambda>_. stays c v True g" and ?E = "falls v True g w"
  let ?open = "k_sys k (Open ?fn ''O_RDWR|O_TRUNC|O_CREAT'') w"
  let ?fd = "fst ?open" and ?w1 = "snd ?open"
  let ?w2 = "snd (k_sys k (Write ?fd (map (of_nat \<circ> of_char) (take 4 ?fn))) ?w1)"
  have w2: "pend v ?w2 ?fd" "\<not> lost v ?w2 ?fd" "early v ?w2 = early v w"
    by (simp_all add: file_laws [OF law(1)] file_law_early [OF law(1)])
  have "ends (checked_mmap k (PS c) [PROT_READ, PROT_WRITE] (MAP_SHARED # flags) ?fd) (\<lambda>page.
        ends (sseq (call (k_sys k (Fsync ?fd))) (sseq (call (k_sys k (Close ?fd)))
          (sseq (testmem c k name page MREAD_OK) (sseq (reread c k (TAB # '' '') page) (testmem c k name page MWRITE_OK))))) ?Q ?E)
      ?E ?g ?w2"
  proof (rule ends_mmap [OF law(1)])
    fix p w3 assume w3: "early v w3 = early v ?w2" "lost v w3 = lost v ?w2"
      and p: "if MAP_ANONYMOUS \<in> set (MAP_SHARED # flags)
        then st v w3 p = (if MAP_POPULATE \<in> set (MAP_SHARED # flags) \<or> MAP_LOCKED \<in> set (MAP_SHARED # flags) then Dirty else Clean)
        else st v w3 p = (if pend v ?w2 ?fd then Dirty else Clean) \<and> backing v w3 p = Some ?fd"
    let ?w4 = "snd (k_sys k (Fsync ?fd) w3)"
    let ?w5 = "snd (k_sys k (Close ?fd) ?w4)"
    have "st v ?w4 p = Clean" using fsync_law(2) [OF law(1)] w3(2) p flags w2(2) by simp
    then have w5: "st v ?w5 p = Clean" "fit c v ?g ?w5"
      using file_laws(8) [OF law(1), of ?w4 ?fd] fit w2(3) w3(1)
      by (simp_all add: fits file_law_early [OF law(1)])
    show "ends (sseq (call (k_sys k (Fsync ?fd))) (sseq (call (k_sys k (Close ?fd)))
          (sseq (testmem c k name p MREAD_OK) (sseq (reread c k (TAB # '' '') p) (testmem c k name p MWRITE_OK))))) ?Q ?E ?g w3"
      unfolding ends_sseq ends_call
    proof (rule ends_testmem_clean [OF law(1) w5(2,1) _ law(2)])
      fix h w6 assume h: "same_verdict ?g h" "fit c v h w6" "test_hugepage h = test_hugepage ?g"
        "st v w6 p = (if MREAD_OK = MREAD_OK then Clean else Dirty)"
      then have c6: "st v w6 p = Clean" by simp
      then have ok6: "st v w6 p \<noteq> Bad" by simp
      show "ends (reread c k (TAB # '' '') p) (\<lambda>_. ends (testmem c k name p MWRITE_OK) ?Q ?E) ?E h w6"
      proof (rule ends_reread [OF law(1) h(2) ok6])
        fix i w7 assume i: "same_verdict h i" "fit c v i w7" "test_hugepage i = test_hugepage h" "pages_same v w6 w7"
        with c6 have c7: "st v w7 p = Clean" by (simp add: pages_same_def)
        show "ends (testmem c k name p MWRITE_OK) ?Q ?E i w7"
          by (rule ends_testmem_clean [OF law(1) i(2) c7 _ law(2)])
            (use h(1,3) i(1,3) small in \<open>simp_all add: stays_def same_verdict_def\<close>)
      qed
    qed simp
  qed
  then show "ends (do_file_clean c k flags name) ?Q ?E g w"
    by (simp add: do_file_clean_def ends_call Let_def open_law [OF law(1)])
qed

lemma ends_playfile:
  assumes "kernel_law k v" "fit c v g w"
    and "\<And>n fd h w'. pend v w' fd \<Longrightarrow> \<not> lost v w' fd \<Longrightarrow> same_verdict g h \<Longrightarrow> fit c v h w' \<Longrightarrow>
        test_hugepage h = test_hugepage g \<Longrightarrow> Q (n, fd) h w'"
  shows "ends (playfile c k []) Q E g w"
proof -
  let ?h = "g\<lparr>tmpcount := tmpcount g + 1\<rparr>" and ?fn = "take 99 (''./~poison'' @ show_int (tmpcount g))"
  let ?open = "k_sys k (Open ?fn ''O_CREAT|O_RDWR|O_TRUNC'') w"
  let ?w2 = "snd (k_sys k (Write (fst ?open) (map of_nat [0..<PS c * 5])) (snd ?open))"
  let ?w3 = "snd (k_sys k (Lseek (fst ?open) 0) ?w2)"
  have "pend v ?w3 (fst ?open)" "\<not> lost v ?w3 (fst ?open)" "early v ?w3 = early v w"
    by (simp_all add: file_laws [OF assms(1)] file_law_early [OF assms(1)])
  with assms(2) have "Q (?fn, fst ?open) ?h ?w3" by (intro assms(3)) (simp_all add: fits)
  then show ?thesis by (simp add: playfile_def ends_call open_law [OF assms(1)])
qed

lemma ends_remap_and_read:
  assumes law: "kernel_law k v" "fit c v g w" and flags: "MAP_ANONYMOUS \<notin> set flags"
    and rest: "\<And>h w'. same_verdict g h \<Longrightarrow> fit c v h w' \<Longrightarrow> test_hugepage h = test_hugepage g \<Longrightarrow> Q () h w'"
  shows "ends (remap_and_read c k fn flags msg) Q E g w"
proof -
  let ?open = "k_sys k (Open fn ''O_RDONLY'') w"
  have "ends (checked_mmap k (PS c) [PROT_READ] flags (fst ?open)) (\<lambda>page.
      ends (sseq (recover c k msg page MREAD_OK) (sseq (call (k_sys k (Close (fst ?open)))) (munmap_reserve k page (PS c)))) Q E)
    E g (snd ?open)"
  proof (rule ends_mmap [OF law(1)])
    fix p w2 assume w2: "early v w2 = early v (snd ?open)"
      and p: "if MAP_ANONYMOUS \<in> set flags
        then st v w2 p = (if MAP_POPULATE \<in> set flags \<or> MAP_LOCKED \<in> set flags then Dirty else Clean)
        else st v w2 p = (if pend v (snd ?open) (fst ?open) then Dirty else Clean) \<and> backing v w2 p = Some (fst ?open)"
    have fit2: "fit c v g w2" using law(2) w2 by (simp add: fit_def file_law_early [OF law(1)])
    have ok: "st v w2 p \<noteq> Bad" using p flags by (simp split: if_splits)
    show "ends (sseq (recover c k msg p MREAD_OK) (sseq (call (k_sys k (Close (fst ?open)))) (munmap_reserve k p (PS c)))) Q E g w2"
      unfolding ends_sseq ends_call
      by (rule ends_recover [OF law(1) fit2 ok], rule ends_munmap_reserve [OF law(1)], rule rest)
        (simp_all add: fit_def file_law_early [OF law(1)])
  qed
  then show ?thesis by (simp add: remap_and_read_def ends_call open_law [OF law(1)])
qed

lemma do_file_dirty_right:
  assumes law: "kernel_law k v" "inject_fn c = Inject_madvise" and flags: "MAP_ANONYMOUS \<notin> set flags"
  shows "case_right c v (do_file_dirty c k flags name) False"
proof (rule case_rightI)
  fix g w assume fit: "fit c v g w" and small: "\<not> test_hugepage g"
  show "ends (do_file_dirty c k flags name) (\<lambda>_. stays c v False g) (falls v False g w) g w"
    unfolding do_file_dirty_def ends_sbind ends_sseq ends_call
    apply (rule ends_playfile [OF law(1) fit])
    apply (unfold prod.case ends_sbind ends_sseq ends_call)
    apply (rule ends_mmap [OF law(1)])
    apply (rule ends_testmem_dirty [OF law(1) _ _ _ law(2)])
    prefer 4
    apply (rule ends_checks(1))
    prefer 2
    apply (rule ends_munmap_reserve [OF law(1)])
    apply (rule ends_remap_and_read [OF law(1)])
    prefer 3
    apply (rule ends_remap_and_read [OF law(1)])
    prefer 3
    apply (rule ends_checks(2))+
    apply (use fit small flags in \<open>simp_all add: stays_def falls_def fits file_law_early [OF law(1)] msync_law [OF law(1)] split: if_splits\<close>)
    done
qed

lemma ends_each:
  assumes "I w" "\<And>x w Q E. x \<in> set xs \<Longrightarrow> I w \<Longrightarrow> (\<And>w'. I w' \<Longrightarrow> Q () g w') \<Longrightarrow> ends (f x) Q E g w"
    and "\<And>w'. I w' \<Longrightarrow> Q () g w'"
  shows "ends (each f xs) Q E g w"
  using assms
proof (induction xs arbitrary: w)
  case (Cons x xs)
  have "ends (each f xs) Q E g w'" if "I w'" for w' by (rule Cons.IH [OF that]) (use Cons.prems in auto)
  with Cons.prems(1,2) show ?case by (simp add: Cons.prems(2))
qed simp

lemma ends_tempfd:
  assumes "kernel_law k v" "fit c v g w"
    and "\<And>fd h w'. same_verdict g h \<Longrightarrow> fit c v h w' \<Longrightarrow> test_hugepage h = test_hugepage g \<Longrightarrow> Q fd h w'"
  shows "ends (tempfd k) Q E g w"
  using assms(2)
  by (auto simp: tempfd_def ends_call open_law [OF assms(1)] fits file_law_early [OF assms(1)] intro!: assms(3))

lemma file_hole_right:
  assumes law: "kernel_law k v" "inject_fn c = Inject_madvise"
  shows "case_right c v (file_hole c k) False"
proof (rule case_rightI)
  fix g w assume fit: "fit c v g w" and small: "\<not> test_hugepage g"
  show "ends (file_hole c k) (\<lambda>_. stays c v False g) (falls v False g w) g w"
    unfolding file_hole_def ends_sbind ends_sseq ends_call
    apply (rule ends_tempfd [OF law(1) fit])
    apply (rule ends_mmap [OF law(1)])
    apply (rule ends_store [OF law(1)])
     prefer 2
     apply (rule ends_testmem_dirty [OF law(1) _ _ _ law(2)])
         prefer 4
         apply (rule ends_checks(2))+
    apply (use fit small in \<open>simp_all add: stays_def falls_def fits file_law_early [OF law(1)] split: if_splits\<close>)
    done
qed

lemma nonlinear_right:
  assumes law: "kernel_law k v" "inject_fn c = Inject_madvise"
  shows "case_right c v (nonlinear c k) False"
proof (rule case_rightI)
  fix g w assume fit: "fit c v g w" and small: "\<not> test_hugepage g"
  show "ends (nonlinear c k) (\<lambda>_. stays c v False g) (falls v False g w) g w"
    unfolding nonlinear_def ends_sbind ends_sseq ends_call
    apply (rule ends_tempfd [OF law(1) fit])
    subgoal premises h for fd h w1
      apply (rule ends_each [where I = "\<lambda>w'. early v w' = early v w1"], simp)
       apply (simp add: ends_call file_law_early [OF law(1)])
      apply (rule ends_mmap [OF law(1)])
      subgoal premises m for w2 p w3
        apply (rule ends_each [where I = "pages_same v w3"], simp add: pages_same_def)
        subgoal for x w4 Q E
          using file_laws(9) [OF law(1), of w4 "p + of_nat (x * PS c)" "PS c" "9 - x"] by (simp add: ends_call pages_same_def)
        apply (rule ends_store [OF law(1)])
         prefer 2
         apply (rule ends_testmem_dirty [OF law(1) _ _ _ law(2)])
             prefer 4
             apply (rule ends_checks(1))
              prefer 2
              apply (rule ends_checks(2))+
        apply (use fit small h m in \<open>simp_all add: stays_def falls_def fits file_law_early [OF law(1)] fsync_law(1) [OF law(1)] split: if_splits\<close>)
        done
      done
    done
qed

section \<open>The cases with huge pages\<close>

text \<open>A huge page: written to, tested, freed. Nothing is known of it but that it is not poisoned.\<close>

lemma hugepage_right:
  assumes law: "kernel_law k v" "inject_fn c = Inject_madvise" and size: "1 \<le> HPS c"
    and fit: "fit c v g w" and small: "\<not> test_hugepage g"
    and here: "same_verdict g h" "early v w' = early v w" "test_hugepage h" "st v w' p \<noteq> Bad"
    and rest: "\<And>i w'. handled g \<Longrightarrow> same_verdict g i \<Longrightarrow> early v w' = early v w \<Longrightarrow> ends m (\<lambda>_. stays c v False g) (falls v False g w) i w'"
  shows "ends (store_page c k p x) (\<lambda>_. ends (sseq (testmem c k msg p MWRITE) m) (\<lambda>_. stays c v False g) (falls v False g w))
    (falls v False g w) h w'"
  apply (rule ends_store [OF law(1) here(4)])
  apply (unfold ends_sseq)
  apply (rule ends_testmem_dirty [OF law(1) _ _ _ law(2)])
  using fit size here(1-3) by (auto intro!: rest simp: falls_def fits)

lemma shmat_ok:
  assumes "kernel_law k v" "\<And>p w'. early v w' = early v w \<Longrightarrow> st v w' p = Clean \<Longrightarrow> Q (Some p) g w'"
  shows "ends (call (k_shmat k shmid)) Q E g w"
proof -
  obtain p w' where "k_shmat k shmid w = (Some p, w')" "early v w' = early v w" "st v w' p = Clean"
    using map_laws(2) [OF assms(1), of shmid w] by blast
  with assms(2) show ?thesis by (simp add: ends_call)
qed

lemma mmap_ok:
  assumes "kernel_law k v" "\<And>p w'. early v w' = early v w \<Longrightarrow> st v w' p \<noteq> Bad \<Longrightarrow> Q (Some p) g w'"
  shows "ends (call (k_mmap k len prots flags fd)) Q E g w"
proof -
  obtain p w' where m: "k_mmap k len prots flags fd w = (Some p, w')" "early v w' = early v w" and
    "if MAP_ANONYMOUS \<in> set flags
        then st v w' p = (if MAP_POPULATE \<in> set flags \<or> MAP_LOCKED \<in> set flags then Dirty else Clean)
        else st v w' p = (if pend v w fd then Dirty else Clean) \<and> backing v w' p = Some fd"
    using map_laws(1) [OF assms(1), of len prots flags fd w] by blast
  then have "st v w' p \<noteq> Bad" by (simp split: if_splits)
  with m assms(2) show ?thesis by (simp add: ends_call)
qed

lemma hugepages_right:
  assumes law: "kernel_law k v" "inject_fn c = Inject_madvise" and size: "1 \<le> HPS c"
  shows "case_right c v (anonymous_hugepage c k) False" "case_right c v (file_backed_hugepage c k) False"
    "case_right c v (shm_hugepage c k) False"
proof -
  show "case_right c v (anonymous_hugepage c k) False"
  proof (rule case_rightI)
    fix g w assume fit: "fit c v g w" and small: "\<not> test_hugepage g"
    have no: "(HPS c = 0) = False" using size by simp
    show "ends (anonymous_hugepage c k) (\<lambda>_. stays c v False g) (falls v False g w) g w"
      unfolding anonymous_hugepage_def no if_False ends_sseq ends_sbind ends_upd alloc_anonymous_hugepage_def
      apply (intro mmap_ok [OF law(1)])
      apply (simp only: with_page_def option.case ends_sseq)
      apply (rule hugepage_right [OF law size fit small])
          apply (use fit in \<open>auto simp: free_anonymous_hugepage_def ends_call stays_def fits file_law_early [OF law(1)]\<close>)
      done
  qed
  show "case_right c v (file_backed_hugepage c k) False"
  proof (rule case_rightI)
    fix g w assume fit: "fit c v g w" and small: "\<not> test_hugepage g"
    have no: "(HPS c = 0) = False" using size by simp
    show "ends (file_backed_hugepage c k) (\<lambda>_. stays c v False g) (falls v False g w) g w"
      unfolding file_backed_hugepage_def no if_False Let_def ends_sseq ends_sbind ends_upd ends_glob alloc_filebacked_hugepage_def
      apply (subst ends_call)
      apply (simp only: open_law [OF law(1)] if_False)
      apply (unfold ends_sbind)
      apply (intro mmap_ok [OF law(1)])
      apply (simp only: with_page_def option.case ends_sseq ends_basic prod.case)
      apply (rule hugepage_right [OF law size fit small])
          apply (use fit in \<open>auto simp: free_filebacked_hugepage_def ends_call stays_def fits file_law_early [OF law(1)]\<close>)
      done
  qed
  show "case_right c v (shm_hugepage c k) False"
  proof (rule case_rightI)
    fix g w assume fit: "fit c v g w" and small: "\<not> test_hugepage g"
    have no: "(HPS c = 0) = False" using size by simp
    show "ends (shm_hugepage c k) (\<lambda>_. stays c v False g) (falls v False g w) g w"
      unfolding shm_hugepage_def no if_False ends_sseq ends_sbind ends_upd ends_glob alloc_shm_hugepage_def
      apply (subst ends_call)
      apply (simp only: shmget_law [OF law(1)] if_False)
      apply (unfold ends_sbind)
      apply (intro shmat_ok [OF law(1)])
      apply (simp only: with_page_def option.case ends_sseq ends_sbind ends_basic ends_upd ends_glob prod.case)
      apply (rule hugepage_right [OF law size fit small])
          apply (use fit in \<open>auto simp: free_shm_hugepage_def ends_call stays_def fits file_law_early [OF law(1)]\<close>)
      done
  qed
qed

section \<open>The rounds of main\<close>

text \<open>The cases of one process, without the two of \<open>do_shared\<close>.\<close>

definition single_cases :: "tconf \<Rightarrow> 'w kern \<Rightarrow> (inj, 'w) testcase list" where
  "single_cases c k = filter (\<lambda>t. test_name t \<noteq> ''mmap shared'' \<and> test_name t \<noteq> ''ipv shared'') (cases c k nop nop)"

text \<open>Which of them survive: without huge pages, those with huge pages do nothing.\<close>

definition survives_it :: "tconf \<Rightarrow> (inj, 'w) testcase \<Rightarrow> bool" where
  "survives_it c t \<longleftrightarrow> survivable t
     \<or> HPS c = 0 \<and> test_name t \<in> {''anonymous hugepage'', ''file backed hugepage'', ''shared memory hugepage''}"

lemma nop_right: "case_right c v nop True"
  by (simp add: case_right_def stays_def)

lemma single_cases_right:
  assumes "kernel_law k v" "inject_fn c = Inject_madvise" "0 \<le> HPS c"
  shows "\<forall>t \<in> set (single_cases c k). case_right c v (test_fn t) (survives_it c t)"
proof (cases "HPS c = 0")
  case True
  then have "anonymous_hugepage c k = nop" "file_backed_hugepage c k = nop" "shm_hugepage c k = nop"
    by (simp_all add: anonymous_hugepage_def file_backed_hugepage_def shm_hugepage_def)
  with True show ?thesis
    by (simp add: single_cases_def cases_def survives_it_def nop_right dirty_anonymous_right [OF assms(1,2)]
        file_clean_def file_clean_mlocked_def do_file_clean_right [OF assms(1,2)] file_dirty_def file_dirty_mlocked_def
        do_file_dirty_right [OF assms(1,2)] file_hole_right [OF assms(1,2)] nonlinear_right [OF assms(1,2)])
next
  case False
  then have "1 \<le> HPS c" using assms(3) by simp
  with False show ?thesis
    by (simp add: single_cases_def cases_def survives_it_def hugepages_right [OF assms(1,2)] dirty_anonymous_right [OF assms(1,2)]
        file_clean_def file_clean_mlocked_def do_file_clean_right [OF assms(1,2)] file_dirty_def file_dirty_mlocked_def
        do_file_dirty_right [OF assms(1,2)] file_hole_right [OF assms(1,2)] nonlinear_right [OF assms(1,2)])
qed

definition settled :: "tconf \<Rightarrow> 'w view \<Rightarrow> int \<Rightarrow> bool \<Rightarrow> inj \<Rightarrow> 'w \<Rightarrow> bool" where
  "settled c v n ek g w \<longleftrightarrow> failure g = n \<and> fit c v g w \<and> handled g \<and> \<not> test_hugepage g \<and> early_kill g = ek"

lemma ends_run_here [simp]:
  "ends (run_here how t) Q E g w = ends (test_fn t) Q E (say (''---- testing '' @ test_name t @ how @ [NL]) g) w"
  unfolding run_here_def ends_sseq ends_upd ..

lemma here_round:
  assumes "\<forall>t \<in> set ts. case_right c v (test_fn t) (S t)" "settled c v n ek g w"
    and "\<And>h w'. settled c v n ek h w' \<Longrightarrow> Q () h w'"
  shows "ends (each (run_here how) ts) Q E g w"
  using assms
proof (induction ts arbitrary: g w)
  case (Cons t ts)
  let ?h = "say (''---- testing '' @ test_name t @ how @ [NL]) g"
  have h: "fit c v ?h w" "\<not> test_hugepage ?h" "handled g" using Cons.prems(2) by (simp_all add: settled_def fits)
  have right: "case_right c v (test_fn t) (S t)" using Cons.prems(1) by simp
  have "ends (test_fn t) (\<lambda>_. ends (each (run_here how) ts) Q E) E ?h w"
  proof (rule ends_mono [OF right [unfolded case_right_def, rule_format, OF conjI, OF h(1,2)]])
    fix x i w' assume "stays c v (S t) ?h i w'"
    with Cons.prems(2) have "settled c v n ek i w'" by (simp add: settled_def stays_def same_verdict_def)
    with Cons show "ends (each (run_here how) ts) Q E i w'" by simp
  next
    fix e w' assume "falls v (S t) ?h w e w'"
    with h(3) show "E e w'" by (simp add: falls_def)
  qed
  then show ?case unfolding each.simps ends_sseq ends_run_here .
qed simp

lemma fork_law: "kernel_law k v \<Longrightarrow> fst (k_fork k w) \<and> early v (snd (k_fork k w)) = early v w"
  by (simp add: kernel_law_def)

text \<open>A child that survives although it should not is a failure.\<close>

lemma child_run:
  assumes law: "kernel_law k v" and right: "case_right c v (test_fn t) (S t)" and surv: "survivable t \<Longrightarrow> S t"
    and set: "settled c v n False g w"
    and rest: "\<And>h w'. settled c v (n + (if S t \<and> \<not> survivable t then 1 else 0)) False h w' \<Longrightarrow> Q () h w'"
  shows "ends (run_in_child k t) Q E g w"
proof -
  obtain w0 where fork: "k_fork k w = (True, w0)" "early v w0 = early v w" using fork_law [OF law, of w] by (cases "k_fork k w") simp
  let ?g = "say (''---- testing '' @ test_name t @ '' in child'' @ [NL]) g"
  let ?h = "?g\<lparr>handled := False\<rparr>" and ?w = w0
  have h: "fit c v ?h ?w" "\<not> test_hugepage ?h" using set fork(2) by (auto simp: settled_def fits)
  have ends: "ends (test_fn t) (\<lambda>_. stays c v (S t) ?h) (falls v (S t) ?h ?w) ?h ?w"
    using right h by (simp add: case_right_def)
  obtain r g' w' where run: "test_fn t (?h, ?w) = (r, g', w')" by (cases "test_fn t (?h, ?w)")
  have over: "ends (run_in_child k t) Q E g w"
    if "child_end k (survivable t) r w' = Inr sig" "early v w' = early v w"
      "failure (child_verdict (survivable t) (test_name t) sig ?g) = n + (if S t \<and> \<not> survivable t then 1 else 0)" for sig
  proof -
    let ?i = "child_verdict (survivable t) (test_name t) sig ?g"
    have "run_in_child k t (g, w) = (Inr (), ?i, w')"
      using run that(1) by (simp add: run_in_child_def sseq_apply sbind_apply fork(1))
    moreover have "settled c v (n + (if S t \<and> \<not> survivable t then 1 else 0)) False ?i w'"
      using set that(2,3) by (auto simp: settled_def fits child_verdict_def split: prod.splits)
    ultimately show ?thesis using rest by (simp add: ends_def)
  qed
  have bits: "killdump CLD_EXITED" "killdump CLD_KILLED" "killdump CLD_DUMPED"
    by (simp_all add: killdump_def CLD_EXITED_def CLD_KILLED_def CLD_DUMPED_def)
  have n: "failure ?g = n" using set by (simp add: settled_def)
  show ?thesis
  proof (cases r)
    case (Inl e)
    then have e: "e = Fatal ''SIGBUS''" "\<not> S t" "early v w' = early v w"
      using ends run fork(2) by (simp_all add: ends_def falls_def)
    show ?thesis
      by (rule over [of "(if k_core k w' then CLD_DUMPED else CLD_KILLED, SIGBUS)"])
        (use Inl e surv n bits in \<open>auto simp: child_end_def child_verdict_def\<close>)
  next
    case (Inr u)
    then have e: "S t" "early v w' = early v w"
      using ends run set by (auto simp: ends_def stays_def fits settled_def)
    show ?thesis
      by (rule over [of "(CLD_EXITED, if survivable t then 2 else 1)"])
        (use Inr e n bits in \<open>auto simp: child_end_def child_verdict_def SIGBUS_def\<close>)
  qed
qed

definition survivors :: "((inj, 'w) testcase \<Rightarrow> bool) \<Rightarrow> (inj, 'w) testcase list \<Rightarrow> nat" where
  "survivors S ts = length (filter (\<lambda>t. S t \<and> \<not> survivable t) ts)"

lemma survivors_Cons: "survivors S (t # ts) = (if S t \<and> \<not> survivable t then 1 else 0) + survivors S ts"
  by (simp add: survivors_def)

lemma child_round:
  assumes law: "kernel_law k v"
    and "\<forall>t \<in> set ts. case_right c v (test_fn t) (S t) \<and> (survivable t \<longrightarrow> S t)" "settled c v n False g w"
    and "\<And>h w'. settled c v (n + int (survivors S ts)) False h w' \<Longrightarrow> Q () h w'"
  shows "ends (each (run_in_child k) ts) Q E g w"
  using assms(2-)
proof (induction ts arbitrary: g w n)
  case (Cons t ts)
  have t: "case_right c v (test_fn t) (S t)" "survivable t \<Longrightarrow> S t" using Cons.prems(1) by simp_all
  have sum: "n + (if S t \<and> \<not> survivable t then 1 else 0) + int (survivors S ts) = n + int (survivors S (t # ts))"
    by (simp add: survivors_Cons)
  show ?case unfolding each.simps ends_sseq
  proof (rule child_run [where S = S and n = n, OF law t Cons.prems(2)])
    fix h w' assume h: "settled c v (n + (if S t \<and> \<not> survivable t then 1 else 0)) False h w'"
    show "ends (each (run_in_child k) ts) Q E h w'"
    proof (rule Cons.IH [OF _ h])
      show "\<forall>t\<in>set ts. case_right c v (test_fn t) (S t) \<and> (survivable t \<longrightarrow> S t)" using Cons.prems(1) by simp
    qed (use Cons.prems(3) in \<open>simp only: sum\<close>)
  qed
qed (simp add: survivors_def)

lemma survivors_single:
  "survivors (survives_it c) (single_cases c k) = (if HPS c = 0 then 3 else 0)"
  "\<forall>t \<in> set (single_cases c k). survivable t \<longrightarrow> survives_it c t"
  by (simp_all add: survivors_def survives_it_def single_cases_def cases_def)

text \<open>
  C15. The program on a kernel that keeps its promises, with the cases of one process and the injection by \<open>madvise\<close>: it comes
  to its end, prints SUCCESS and gives 0, if there are huge pages. Without them the three cases with huge pages return at
  once, their children end without being killed, and the program reports three failures that the kernel did not make.
\<close>

theorem tinjpage_verdict:
  assumes law: "kernel_law k v" and "inject_fn c = Inject_madvise" "1 \<le> PS c" "0 \<le> HPS c"
    and "failure g = 0" "\<not> test_hugepage g"
  shows "\<exists>h w'. tinjpage_main k (single_cases c k) (g, w) = (Inr (if HPS c = 0 then 1 else 0), h, w')
    \<and> failure h = (if HPS c = 0 then 3 else 0)
    \<and> last (printed h) = (if HPS c = 0 then ''FAILURE -- 3 cases broken!'' @ [NL] else ''SUCCESS'' @ [NL])"
proof -
  let ?n = "if HPS c = 0 then 3 else 0 :: int" and ?cs = "single_cases c k"
  let ?Q = "\<lambda>r h w'. r = (if HPS c = 0 then 1 else 0 :: int) \<and> failure h = ?n
    \<and> last (printed h) = (if HPS c = 0 then ''FAILURE -- 3 cases broken!'' @ [NL] else ''SUCCESS'' @ [NL])"
  have right: "\<forall>t \<in> set ?cs. case_right c v (test_fn t) (survives_it c t)"
    using single_cases_right [OF law assms(2,4)] .
  with survivors_single(2) have right': "\<forall>t \<in> set ?cs. case_right c v (test_fn t) (survives_it c t) \<and> (survivable t \<longrightarrow> survives_it c t)"
    by blast
  have three: "show_int 3 = ''3''" by (simp add: show_int_def show_base.simps digit_char_def)
  have "ends (tinjpage_main k ?cs) ?Q (\<lambda>_ _. False) g w"
    unfolding tinjpage_main_def ends_sseq ends_upd ends_call ends_sbind ends_glob
    apply (rule here_round [OF right, where n = 0 and ek = False])
     apply (use assms(3,5,6) in \<open>simp add: settled_def fits file_law_early [OF law]\<close>)
    apply (rule child_round [OF law right'], assumption)
    apply (rule here_round [OF right, where n = ?n and ek = True])
     apply (simp add: settled_def fits file_law_early [OF law] survivors_single(1))
    apply (simp add: settled_def say_def three)
    done
  then show ?thesis by (auto simp: ends_def split: prod.splits sum.splits)
qed

section \<open>A kernel that keeps the laws\<close>

record pworld =
  w_st :: "u64 \<Rightarrow> pstate"
  w_back :: "u64 \<Rightarrow> int option"
  w_lost :: "int \<Rightarrow> bool"
  w_pend :: "int \<Rightarrow> bool"
  w_early :: bool

definition mc_signal :: "int \<Rightarrow> u64 \<Rightarrow> bus" where
  "mc_signal code p = \<lparr>si_code = code, si_addr = p, si_addr_lsb = 12\<rparr>"

definition good_poison :: "u64 \<Rightarrow> pworld \<Rightarrow> (bus + int) \<times> pworld" where
  "good_poison p w =
     (if w_st w p = Dirty then
        (if w_early w then Inl (mc_signal 5 p) else Inr 0,
         w\<lparr>w_st := (w_st w)(p := Bad),
           w_lost := (case w_back w p of None \<Rightarrow> w_lost w | Some fd \<Rightarrow> (w_lost w)(fd := True))\<rparr>)
      else (Inr 0, w))"

definition good_map :: "mflag list \<Rightarrow> int \<Rightarrow> pworld \<Rightarrow> pworld" where
  "good_map flags fd w =
     (if MAP_ANONYMOUS \<in> set flags
      then w\<lparr>w_st := (w_st w)(4096 := if MAP_POPULATE \<in> set flags \<or> MAP_LOCKED \<in> set flags then Dirty else Clean),
             w_back := (w_back w)(4096 := None)\<rparr>
      else w\<lparr>w_st := (w_st w)(4096 := if w_pend w fd then Dirty else Clean), w_back := (w_back w)(4096 := Some fd)\<rparr>)"

definition good_sys :: "syscall \<Rightarrow> pworld \<Rightarrow> int \<times> pworld" where
  "good_sys x w =
     (case x of
        Open path mode \<Rightarrow> (3, w\<lparr>w_pend := (w_pend w)(3 := False), w_lost := (w_lost w)(3 := False)\<rparr>)
      | Write fd bs \<Rightarrow> (0, w\<lparr>w_pend := (w_pend w)(fd := True)\<rparr>)
      | Fsync fd \<Rightarrow>
          (if w_lost w fd then (-1, w)
           else (0, w\<lparr>w_st := \<lambda>p. if w_back w p = Some fd then Clean else w_st w p, w_pend := (w_pend w)(fd := False)\<rparr>))
      | Msync p len \<Rightarrow> (case w_back w p of Some fd \<Rightarrow> if w_lost w fd then (-1, w) else (0, w) | None \<Rightarrow> (0, w))
      | System s \<Rightarrow> (0, w\<lparr>w_early := s = ''sysctl -w vm.memory_failure_early_kill=1''\<rparr>)
      | _ \<Rightarrow> (0, w))"

definition good_kern :: "pworld kern" where
  "good_kern = \<lparr>k_poison = good_poison,
     k_load = (\<lambda>p w. (if w_st w p = Bad then Inl (mc_signal 4 p) else Inr 0, w)),
     k_store = (\<lambda>p x w. if w_st w p = Bad then (Some (mc_signal 4 p), w) else (None, w\<lparr>w_st := (w_st w)(p := Dirty)\<rparr>)),
     k_mmap = (\<lambda>_ _ flags fd w. (Some 4096, good_map flags fd w)),
     k_shmat = (\<lambda>_ w. (Some 4096, w\<lparr>w_st := (w_st w)(4096 := Clean)\<rparr>)), k_sys = good_sys,
     k_pagemap = (\<lambda>_ _. None), k_mce_inject = (\<lambda>_ w. (Inr True, w)), k_fork = (\<lambda>w. (True, w)), k_core = (\<lambda>_. False)\<rparr>"

definition good_view :: "pworld view" where
  "good_view = \<lparr>st = w_st, backing = w_back, lost = w_lost, pend = w_pend, early = w_early\<rparr>"

definition first_world :: pworld where
  "first_world = \<lparr>w_st = (\<lambda>_. Clean), w_back = (\<lambda>_. None), w_lost = (\<lambda>_. False), w_pend = (\<lambda>_. False), w_early = False\<rparr>"

lemma good_kern_law: "kernel_law good_kern good_view"
proof -
  have "map_law good_kern good_view" by (simp add: map_law_def good_kern_def good_view_def good_map_def)
  moreover have "access_law good_kern good_view"
    by (simp add: access_law_def good_kern_def good_view_def mc_signal_def pages_same_def)
  moreover have "inject_law good_kern good_view"
    by (simp add: inject_law_def good_kern_def good_view_def good_poison_def mc_signal_def pages_same_def)
  moreover have "file_law good_kern good_view"
    by (auto simp: file_law_def good_kern_def good_view_def good_sys_def pages_same_def split: syscall.split option.split)
  ultimately show ?thesis by (simp add: kernel_law_def) (simp add: good_kern_def)
qed

theorem tinjpage_verdict_witness:
  "(\<exists>h w'. tinjpage_main good_kern (single_cases demo_tconf good_kern) (demo_inj, first_world) = (Inr 1, h, w') \<and> failure h = 3)
   \<and> (\<exists>h w'. tinjpage_main good_kern (single_cases (demo_tconf\<lparr>HPS := 2097152\<rparr>) good_kern) (demo_inj, first_world)
         = (Inr 0, h, w') \<and> failure h = 0)"
proof -
  have "inject_fn demo_tconf = Inject_madvise" "1 \<le> PS demo_tconf" "0 \<le> HPS demo_tconf" "failure demo_inj = 0"
    "\<not> test_hugepage demo_inj" "HPS demo_tconf = 0"
    by (simp_all add: demo_tconf_def demo_inj_def)
  with tinjpage_verdict [OF good_kern_law, of demo_tconf demo_inj first_world]
    tinjpage_verdict [OF good_kern_law, of "demo_tconf\<lparr>HPS := 2097152\<rparr>" demo_inj first_world]
  show ?thesis by auto
qed

end
