(* ===== verification/Zoo_Test.thy ===== *)
theory Zoo_Test
  imports Zoolib
begin

text \<open>
  The unit test at the end of \<open>tools/ltp-pan/zoolib.c\<close>: five times twenty processes enter a zoo file and leave it
  again, and the test itself is in it meanwhile. The results of the calls are not looked at.
\<close>

definition zt_add :: "zoo_env \<Rightarrow> nat \<Rightarrow> zoo option \<Rightarrow> zoo option" where
  "zt_add env n z =
     snd (zoo_mark_cmdline env z (int n) (take 9 (''test'' @ show_dec n))
       (take 199 (''runtest'' @ show_dec n @ '' one two three'')))"

text \<open>The second loop starts with the \<open>i\<close> that ended the first one, 20, which never entered.\<close>

definition zt_round :: "zoo_env \<Rightarrow> zoo option \<Rightarrow> zoo option" where
  "zt_round env z =
     fold (\<lambda>i z. snd (zoo_clear env z (int i))) (rev [0..<21]) (fold (zt_add env) [0..<20] z)"

text \<open>\<open>main\<close>, with the value of \<open>ZOO\<close>, the results of the two \<open>fopen\<close>s, \<open>getpid\<close> and \<open>argv\<close>: the zoo it leaves.\<close>

definition zoo_test_main ::
    "zoo_env \<Rightarrow> string option \<Rightarrow> (string \<Rightarrow> bool + string) \<Rightarrow> (string \<Rightarrow> bool) \<Rightarrow> int \<Rightarrow> string list \<Rightarrow> zoo option res" where
  "zoo_test_main env var existing created pid argv =
     (let name = (case zoo_getname var of Some s \<Rightarrow> s | None \<Rightarrow> ''test_zoo'')
      in case zoo_open (existing name) (created name) of
           None \<Rightarrow> Inl (Exit (-1))
         | Some z \<Rightarrow>
             rbind (zoo_mark_args env (Some z) pid ''unittest'' argv) (\<lambda>(_, z).
             Inr (snd (zoo_clear env ((zt_round env ^^ 5) z) pid))))"

section \<open>What is left\<close>

lemma zoo_calls:
  "snd (zoo_mark_cmdline env_ok (Some z) p tag cmdline) = Some (zoo_enter p (tag, cmdline) z)"
  "snd (zoo_clear env_ok (Some z) p) = Some (zoo_leave p z)"
  by (auto simp: zoo_enter_def zoo_leave_def zoo_mark_cmdline_def zoo_mark_def zoo_clear_def split: prod.splits option.splits)

definition round_events :: "(int, string \<times> string) event list" where
  "round_events =
     map (\<lambda>(p, d). Begin p d)
       (map (\<lambda>n. (int n, take 9 (''test'' @ show_dec n), take 199 (''runtest'' @ show_dec n @ '' one two three''))) [0..<20])
     @ map Finish (map int (rev [0..<21]))"

lemma zt_round_events: "zt_round env_ok (Some z) = Some (fold zoo_registry.apply_event round_events z)"
proof -
  have enter: "fold (zt_add env_ok) ns (Some z) = Some (fold zoo_registry.apply_event (map (\<lambda>(p, d). Begin p d)
      (map (\<lambda>n. (int n, take 9 (''test'' @ show_dec n), take 199 (''runtest'' @ show_dec n @ '' one two three''))) ns)) z)"
    for ns z by (induction ns arbitrary: z) (simp_all add: zt_add_def zoo_calls)
  have leave: "fold (\<lambda>i z. snd (zoo_clear env_ok z (int i))) ns (Some z)
      = Some (fold zoo_registry.apply_event (map Finish (map int ns)) z)" for ns z
    by (induction ns arbitrary: z) (simp_all add: zoo_calls)
  show ?thesis unfolding zt_round_def round_events_def by (simp only: enter leave fold_append o_apply)
qed

lemma round_fits: "list_all zoo_registry.event_fits round_events"
proof -
  have "NL \<notin> set (show_dec n)" for n using show_base_chars(5) [of 10 _ n] by auto
  then have "words_ok (take 9 (''test'' @ show_dec n)) (take 199 (''runtest'' @ show_dec n @ '' one two three''))" for n
    by (auto simp: words_ok_def NL_def dest!: in_set_takeD)
  then show ?thesis by (auto simp: round_events_def list_all_iff zoo_fits_def pid_ok_def simp del: upt_Suc)
qed

lemma round_bag: "zoo_registry.bag round_events m = m - {#20#}"
proof -
  have "mset (map int (rev [0..<21])) = add_mset 20 (mset (map int [0..<20]))"
    by (simp add: mset_map numeral_nat upt_rec)
  moreover have "map fst (map (\<lambda>n. (int n, f n)) ns) = map int ns" for f :: "nat \<Rightarrow> string \<times> string" and ns
    by simp
  ultimately have "zoo_registry.bag round_events m = m + mset (map int [0..<20]) - add_mset 20 (mset (map int [0..<20]))"
    unfolding round_events_def zoo_registry.bag_append zoo_registry.bag_enter_all zoo_registry.bag_leave_all by (simp only:)
  then show ?thesis by (metis add_mset_add_single diff_union_cancelR union_commute diff_diff_add add.commute)
qed

lemma zt_rounds:
  assumes "zoo_ok z"
  shows "\<exists>z'. (zt_round env_ok ^^ k) (Some z) = Some z' \<and> zoo_ok z'
    \<and> running (contents z') = running (contents z) - replicate_mset k 20"
proof (induction k)
  case (Suc k)
  then obtain z' where z': "(zt_round env_ok ^^ k) (Some z) = Some z'" "zoo_ok z'"
      "running (contents z') = running (contents z) - replicate_mset k 20" by blast
  from zoo_registry.events_active [OF z'(2) round_fits] z'(3)
  show ?case by (simp add: z'(1) zt_round_events round_bag)
qed (use assms in simp)

lemma NL_join_with: "\<forall>a \<in> set as. NL \<notin> set a \<Longrightarrow> NL \<notin> set (join_with '' '' as)"
  by (induction "'' ''" as rule: join_with.induct) (auto simp: NL_def)

text \<open>
  The test does not show in the zoo: with the locks granted it ends with 0, and the running processes are those of before,
  unless 20 was one of them, which each round takes out.
\<close>

theorem unit_test_balanced:
  assumes "name = (case zoo_getname var of Some s \<Rightarrow> s | None \<Rightarrow> ''test_zoo'')"
    and "zoo_open (existing name) (created name) = Some z"
    and "zoo_ok z" "20 \<notin># running (contents z)" "pid_ok pid" "argv \<noteq> []" "\<forall>a \<in> set argv. NL \<notin> set a"
  shows "\<exists>z'. zoo_test_main env_ok var existing created pid argv = Inr (Some z') \<and> zoo_ok z'
    \<and> running (contents z') = running (contents z)"
proof -
  let ?d = "(''unittest'', join_with '' '' argv)"
  have fits: "zoo_fits pid ?d" using assms(5) NL_join_with [OF assms(7)] by (simp add: zoo_fits_def words_ok_def NL_def)
  define z1 where "z1 = zoo_enter pid ?d z"
  have z1: "zoo_ok z1" "running (contents z1) = add_mset pid (running (contents z))"
    using zoo_registry.enter_sound [OF assms(3) fits] zoo_registry.enter_active [OF assms(3) fits] by (simp_all add: z1_def)
  from zt_rounds [OF z1(1), of 5] obtain z2 where z2: "(zt_round env_ok ^^ 5) (Some z1) = Some z2" "zoo_ok z2"
      "running (contents z2) = running (contents z1) - replicate_mset 5 20" by blast
  have mark: "zoo_mark_args env_ok (Some z) pid ''unittest'' argv
      = Inr (fst (zoo_mark_cmdline env_ok (Some z) pid ''unittest'' (join_with '' '' argv)), Some z1)"
    using zoo_calls(1) [of z pid "''unittest''" "join_with '' '' argv"] assms(6)
    by (cases "zoo_mark_cmdline env_ok (Some z) pid ''unittest'' (join_with '' '' argv)")
      (simp add: zoo_mark_args_def cat_args_def z1_def)
  have "zoo_test_main env_ok var existing created pid argv = Inr (Some (zoo_leave pid z2))"
    using assms(1,2) mark z2(1) by (simp add: zoo_test_main_def zoo_calls Let_def del: funpow.simps)
  moreover have "running (contents (zoo_leave pid z2)) = running (contents z)"
  proof -
    have "add_mset pid (running (contents z)) - replicate_mset 5 20 - {#pid#} = running (contents z)"
      using assms(4) by (intro multiset_eqI) (auto simp: not_in_iff)
    with zoo_registry.leave_active [OF z2(2), of pid] show ?thesis by (simp add: z2(3) z1(2))
  qed
  ultimately show ?thesis using zoo_registry.leave_sound [OF z2(2), of pid] by simp
qed

theorem unit_test_balanced_witness:
  "\<exists>z'. zoo_test_main env_ok None (\<lambda>_. Inl True) (\<lambda>_. True) 4711 [''./zoolib''] = Inr (Some z')
    \<and> running (contents z') = {#}"
proof -
  let ?z = "\<lparr>contents = [], locked = False\<rparr>"
  have "zoo_ok ?z" by (auto simp: zoo_ok_def intro: exI [of _ "[]"])
  moreover have "running [] = {#}" by (simp add: scan_steps)
  ultimately show ?thesis
    using unit_test_balanced [of "''test_zoo''" None "\<lambda>_. Inl True" "\<lambda>_. True" ?z 4711 "[''./zoolib'']"]
    by (auto simp: zoo_getname_def zoo_open_def pid_ok_def NL_def)
qed

end
