(* ===== verification/Getopt.thy ===== *)
theory Getopt
  imports Prelude
begin

text \<open>
  The command line as the programs read it: \<open>getopt\<close> and \<open>getopt_long\<close> of the C library, with the permutation of
  \<open>argv\<close> that they do when \<open>POSIXLY_CORRECT\<close> is not set. None of the option strings here starts with \<open>+\<close>, \<open>-\<close> or
  \<open>:\<close>, has a double colon or \<open>W;\<close>, and all \<open>flag\<close> fields are NULL. First the scanner, then the relation
  \<open>written\<close> that says how a list of options and operands can be written, and the locale of the consistent tables.
\<close>

section \<open>The tables\<close>

text \<open>An entry of \<open>struct option\<close>: the name, \<open>None\<close> for NULL, whether there is an argument, and the value.\<close>

type_synonym long_option = "string option \<times> bool \<times> char"

record getopt_spec =
  short_opts :: string
  long_opts :: "long_option list option"

text \<open>What the option string says of a character: unknown, or whether it takes an argument.\<close>

definition short_kind :: "string \<Rightarrow> char \<Rightarrow> bool option" where
  "short_kind spec c =
     (if c = CHR '':'' \<or> c = CHR '';'' then None
      else map_option (\<lambda>t. hdc (tl t) = CHR '':'') (strchr spec c))"

text \<open>Looking a name up: entry by entry to the one whose name is NULL, \<open>Past_end\<close> when there is none in the array.\<close>

datatype lookup = Found bool char | No_option | Ambiguous | Past_end

fun exact_match :: "long_option list \<Rightarrow> string \<Rightarrow> lookup" where
  "exact_match [] n = Past_end"
| "exact_match ((None, _, _) # ts) n = No_option"
| "exact_match ((Some m, a, v) # ts) n = (if m = n then Found a v else exact_match ts n)"

text \<open>Abbreviations: several entries may fit when they have the same argument and the same value.\<close>

fun abbreviated :: "long_option list \<Rightarrow> string \<Rightarrow> (bool \<times> char) option \<Rightarrow> lookup" where
  "abbreviated [] n f = Past_end"
| "abbreviated ((None, _, _) # ts) n f = (case f of None \<Rightarrow> No_option | Some (a, v) \<Rightarrow> Found a v)"
| "abbreviated ((Some m, a, v) # ts) n f =
     (if take (length n) m \<noteq> n then abbreviated ts n f
      else case f of
             None \<Rightarrow> abbreviated ts n (Some (a, v))
           | Some g \<Rightarrow> if g = (a, v) then abbreviated ts n f else Ambiguous)"

definition long_lookup :: "long_option list \<Rightarrow> string \<Rightarrow> lookup" where
  "long_lookup ts n = (case exact_match ts n of No_option \<Rightarrow> abbreviated ts n None | r \<Rightarrow> r)"

section \<open>One word\<close>

text \<open>
  An option as the caller sees it: the character and \<open>optarg\<close>. \<open>?\<close> stands for every error. A word is
  complete, wants the next word as an argument, or leads out of the table.
\<close>

type_synonym seen_option = "char \<times> string option"

abbreviation bad_option :: seen_option where "bad_option \<equiv> (CHR ''?'', None)"

datatype word_end = Complete | Wants char | Wild

fun cluster :: "string \<Rightarrow> string \<Rightarrow> seen_option list \<times> word_end" where
  "cluster spec [] = ([], Complete)"
| "cluster spec (c # cs) =
     (case short_kind spec c of
        None \<Rightarrow> apfst ((#) bad_option) (cluster spec cs)
      | Some False \<Rightarrow> apfst ((#) (c, None)) (cluster spec cs)
      | Some True \<Rightarrow> if cs = [] then ([], Wants c) else ([(c, Some cs)], Complete))"

text \<open>The word behind \<open>--\<close>: a name, and a value when there is a \<open>=\<close>.\<close>

definition long_word :: "long_option list \<Rightarrow> string \<Rightarrow> seen_option list \<times> word_end" where
  "long_word ts s =
     (case long_lookup ts (takeWhile (\<lambda>c. c \<noteq> CHR ''='') s) of
        Past_end \<Rightarrow> ([], Wild)
      | No_option \<Rightarrow> ([bad_option], Complete)
      | Ambiguous \<Rightarrow> ([bad_option], Complete)
      | Found a v \<Rightarrow>
          (case strchr s (CHR ''='') of
             Some t \<Rightarrow> if a then ([(v, Some (tl t))], Complete) else ([bad_option], Complete)
           | None \<Rightarrow> if a then ([], Wants v) else ([(v, None)], Complete)))"

definition option_word :: "getopt_spec \<Rightarrow> string \<Rightarrow> seen_option list \<times> word_end" where
  "option_word sp w =
     (case long_opts sp of
        Some ts \<Rightarrow> if take 2 w = ''--'' then long_word ts (drop 2 w) else cluster (short_opts sp) (tl w)
      | None \<Rightarrow> cluster (short_opts sp) (tl w))"

text \<open>A single \<open>-\<close> is not an option.\<close>

definition is_operand :: "string \<Rightarrow> bool" where
  "is_operand w = (hdc w \<noteq> CHR ''-'' \<or> tl w = [])"

section \<open>All words\<close>

text \<open>
  The options in their order and whether the table was left; \<open>argv\<close> behind its first entry is then the words of the
  options followed by the operands.
\<close>

record command_line =
  given :: "seen_option list"
  wild :: bool
  taken :: "string list"
  operands :: "string list"

definition behind :: "seen_option list \<Rightarrow> string list \<Rightarrow> command_line \<Rightarrow> command_line" where
  "behind os ws r = r\<lparr>given := os @ given r, taken := ws @ taken r\<rparr>"

fun getopt :: "getopt_spec \<Rightarrow> string list \<Rightarrow> command_line" where
  "getopt sp [] = \<lparr>given = [], wild = False, taken = [], operands = []\<rparr>"
| "getopt sp (w # ws) =
     (if w = ''--'' then \<lparr>given = [], wild = False, taken = [w], operands = ws\<rparr>
      else if is_operand w then (let r = getopt sp ws in r\<lparr>operands := w # operands r\<rparr>)
      else case option_word sp w of
          (os, Complete) \<Rightarrow> behind os [w] (getopt sp ws)
        | (os, Wild) \<Rightarrow> \<lparr>given = os, wild = True, taken = [w], operands = ws\<rparr>
        | (os, Wants c) \<Rightarrow>
            (case ws of
               [] \<Rightarrow> \<lparr>given = os @ [bad_option], wild = False, taken = [w], operands = []\<rparr>
             | a # ws' \<Rightarrow> behind (os @ [(c, Some a)]) [w, a] (getopt sp ws')))"

lemma behind_simps [simp]:
  "given (behind os ws r) = os @ given r" "wild (behind os ws r) = wild r"
  "taken (behind os ws r) = ws @ taken r" "operands (behind os ws r) = operands r"
  by (simp_all add: behind_def)

section \<open>What a command line says\<close>

text \<open>The entries before the end, and what a name stands for: the entry of that name, or all those it begins.\<close>

definition table_entries :: "long_option list \<Rightarrow> (string \<times> bool \<times> char) list" where
  "table_entries ts = map (\<lambda>(n, av). (the n, av)) (takeWhile (\<lambda>t. fst t \<noteq> None) ts)"

definition stands_for :: "long_option list \<Rightarrow> string \<Rightarrow> bool \<Rightarrow> char \<Rightarrow> bool" where
  "stands_for ts n a v \<longleftrightarrow>
     (n, a, v) \<in> set (table_entries ts)
     \<or> n \<notin> fst ` set (table_entries ts)
       \<and> (\<exists>r. (n @ r, a, v) \<in> set (table_entries ts))
       \<and> (\<forall>(m, g) \<in> set (table_entries ts). take (length n) m = n \<longrightarrow> g = (a, v))"

text \<open>Behind one dash: options without an argument, and at the end perhaps one with it, glued or in the next word.\<close>

inductive short_word :: "string \<Rightarrow> seen_option list \<Rightarrow> word_end \<Rightarrow> string \<Rightarrow> bool" for spec where
  short_nil: "short_word spec [] Complete []"
| short_flag: "short_kind spec c = Some False \<Longrightarrow> short_word spec os e cs \<Longrightarrow> short_word spec ((c, None) # os) e (c # cs)"
| short_glued: "short_kind spec c = Some True \<Longrightarrow> a \<noteq> [] \<Longrightarrow> short_word spec [(c, Some a)] Complete (c # a)"
| short_apart: "short_kind spec c = Some True \<Longrightarrow> short_word spec [] (Wants c) [c]"

text \<open>Behind two dashes: a name or an abbreviation, and perhaps a value behind a \<open>=\<close>.\<close>

inductive long_spelling :: "long_option list \<Rightarrow> seen_option list \<Rightarrow> word_end \<Rightarrow> string \<Rightarrow> bool" for ts where
  long_flag: "stands_for ts n False v \<Longrightarrow> CHR ''='' \<notin> set n \<Longrightarrow> long_spelling ts [(v, None)] Complete n"
| long_value: "stands_for ts n True v \<Longrightarrow> CHR ''='' \<notin> set n \<Longrightarrow> long_spelling ts [(v, Some a)] Complete (n @ CHR ''='' # a)"
| long_apart: "stands_for ts n True v \<Longrightarrow> CHR ''='' \<notin> set n \<Longrightarrow> long_spelling ts [] (Wants v) n"

definition spelled :: "getopt_spec \<Rightarrow> seen_option list \<Rightarrow> word_end \<Rightarrow> string \<Rightarrow> bool" where
  "spelled sp os e w \<longleftrightarrow>
     (if long_opts sp \<noteq> None \<and> take 2 w = ''--'' then long_spelling (the (long_opts sp)) os e (drop 2 w)
      else short_word (short_opts sp) os e (tl w))"

inductive written :: "getopt_spec \<Rightarrow> seen_option list \<Rightarrow> string list \<Rightarrow> string list \<Rightarrow> bool" for sp where
  written_nil: "written sp [] [] []"
| written_dashes: "written sp [] ws (''--'' # ws)"
| written_operand: "is_operand w \<Longrightarrow> written sp os rest ws \<Longrightarrow> written sp os (w # rest) (w # ws)"
| written_word: "\<not> is_operand w \<Longrightarrow> w \<noteq> ''--'' \<Longrightarrow> spelled sp os e w \<Longrightarrow> e = Complete \<Longrightarrow> written sp os' rest ws
    \<Longrightarrow> written sp (os @ os') rest (w # ws)"
| written_arg: "\<not> is_operand w \<Longrightarrow> w \<noteq> ''--'' \<Longrightarrow> spelled sp os e w \<Longrightarrow> e = Wants c \<Longrightarrow> written sp os' rest ws
    \<Longrightarrow> written sp (os @ (c, Some a) # os') rest (w # a # ws)"

inductive_cases short_word_Nil [elim!]: "short_word spec os e []"
inductive_cases short_word_Cons [elim!]: "short_word spec os e (c # cs)"
inductive_cases written_Nil [elim!]: "written sp os rest []"
inductive_cases written_Cons [elim!]: "written sp os rest (w # ws)"

lemma cluster_spelled:
  assumes "short_kind spec (CHR ''?'') = None"
  shows "short_word spec os e cs \<longleftrightarrow> cluster spec cs = (os, e) \<and> bad_option \<notin> set os"
proof (induction cs arbitrary: os)
  case Nil
  show ?case by (auto intro: short_nil)
next
  case (Cons c cs)
  consider "short_kind spec c = None" | "short_kind spec c = Some False" | "short_kind spec c = Some True"
    by (cases "short_kind spec c") auto
  then show ?case
  proof cases
    case 1
    then show ?thesis by (auto simp: apfst_def map_prod_def split: prod.splits)
  next
    case 2
    then have "c \<noteq> CHR ''?''" using assms by auto
    with 2 show ?thesis
      by (cases "cluster spec cs") (auto intro: short_flag simp: Cons.IH)
  next
    case 3
    then have "c \<noteq> CHR ''?''" using assms by auto
    with 3 show ?thesis by (auto intro: short_glued short_apart)
  qed
qed

section \<open>Reading a table\<close>

lemma exact_match_entries:
  assumes "distinct (map fst (table_entries ts))" "\<exists>t \<in> set ts. fst t = None"
  shows "exact_match ts n = (case map_of (table_entries ts) n of Some (a, v) \<Rightarrow> Found a v | None \<Rightarrow> No_option)"
  using assms
proof (induction ts n rule: exact_match.induct)
  case (3 m a v ts n)
  then show ?case by (auto simp: table_entries_def)
qed (simp_all add: table_entries_def)

text \<open>With at least one entry found so far, all others that fit have to be like it.\<close>

lemma abbreviated_found:
  assumes "\<exists>t \<in> set ts. fst t = None"
  shows "abbreviated ts n (Some g) = Found a v
    \<longleftrightarrow> g = (a, v) \<and> (\<forall>(m, h) \<in> set (table_entries ts). take (length n) m = n \<longrightarrow> h = (a, v))"
  using assms
proof (induction ts n "Some g" rule: abbreviated.induct)
  case (3 m a' v' ts n)
  then show ?case by (auto simp: table_entries_def)
qed (auto simp: table_entries_def split: prod.splits)

lemma abbreviated_entries:
  assumes "\<exists>t \<in> set ts. fst t = None"
  shows "abbreviated ts n None = Found a v
    \<longleftrightarrow> (\<exists>m. (m, a, v) \<in> set (table_entries ts) \<and> take (length n) m = n)
      \<and> (\<forall>(m, h) \<in> set (table_entries ts). take (length n) m = n \<longrightarrow> h = (a, v))"
  using assms
proof (induction ts n "None :: (bool \<times> char) option" rule: abbreviated.induct)
  case (3 m a' v' ts n)
  have entries: "table_entries ((Some m, a', v') # ts) = (m, a', v') # table_entries ts"
    by (simp add: table_entries_def)
  have e: "\<exists>t \<in> set ts. fst t = None" using 3(3) by simp
  show ?case
  proof (cases "take (length n) m = n")
    case True
    then show ?thesis using abbreviated_found [OF e, of n "(a', v')" a v] by (auto simp: entries)
  next
    case False
    then show ?thesis using 3(1) [OF _ e] by (auto simp: entries)
  qed
qed (auto simp: table_entries_def)

lemma lookup_not_past:
  assumes "\<exists>t \<in> set ts. fst t = None"
  shows "exact_match ts n \<noteq> Past_end" "abbreviated ts n f \<noteq> Past_end"
proof -
  show "exact_match ts n \<noteq> Past_end" using assms by (induction ts n rule: exact_match.induct) auto
  show "abbreviated ts n f \<noteq> Past_end"
    using assms by (induction ts n f rule: abbreviated.induct) (auto split: option.splits)
qed

lemma long_lookup_stands_for:
  assumes "distinct (map fst (table_entries ts))" "\<exists>t \<in> set ts. fst t = None"
  shows "long_lookup ts n = Found a v \<longleftrightarrow> stands_for ts n a v" "long_lookup ts n \<noteq> Past_end"
proof -
  have prefix: "(\<exists>m. (m, a, v) \<in> E \<and> take (length n) m = n) \<longleftrightarrow> (\<exists>r. (n @ r, a, v) \<in> E)" for E :: "(string \<times> bool \<times> char) set"
  proof
    assume "\<exists>m. (m, a, v) \<in> E \<and> take (length n) m = n"
    then obtain m where m: "(m, a, v) \<in> E" "take (length n) m = n" by auto
    then have "n @ drop (length n) m = m" using append_take_drop_id [of "length n" m] by simp
    with m(1) show "\<exists>r. (n @ r, a, v) \<in> E" by metis
  qed force
  show "long_lookup ts n = Found a v \<longleftrightarrow> stands_for ts n a v"
  proof (cases "map_of (table_entries ts) n")
    case None
    then have "n \<notin> fst ` set (table_entries ts)" by (simp add: map_of_eq_None_iff)
    moreover from this have "(n, a, v) \<notin> set (table_entries ts)" by force
    moreover have "exact_match ts n = No_option" using None by (simp add: exact_match_entries [OF assms])
    ultimately show ?thesis
      using prefix [of "set (table_entries ts)"]
      by (simp add: long_lookup_def abbreviated_entries [OF assms(2)] stands_for_def)
  next
    case (Some g)
    then have "(n, g) \<in> set (table_entries ts)" by (rule map_of_SomeD)
    moreover from this have "(n, a, v) \<in> set (table_entries ts) \<longleftrightarrow> g = (a, v)"
      using assms(1) by (metis Some map_of_is_SomeI option.inject)
    moreover from calculation(1) have "n \<in> fst ` set (table_entries ts)" by force
    ultimately show ?thesis
      using Some by (cases g) (auto simp: long_lookup_def exact_match_entries [OF assms] stands_for_def)
  qed
  show "long_lookup ts n \<noteq> Past_end"
    using lookup_not_past [OF assms(2)] by (auto simp: long_lookup_def split: lookup.splits)
qed

section \<open>Readers of words\<close>

text \<open>
  What the programs rely on: a word is read as the options it spells, and nothing leads out of a table. The
  laws are about single words; the lemmas of the locale are about command lines.
\<close>

definition valid_option :: "getopt_spec \<Rightarrow> seen_option \<Rightarrow> bool" where
  "valid_option sp o' \<longleftrightarrow> short_kind (short_opts sp) (fst o') = Some (snd o' \<noteq> None)"

text \<open>The plainest command line with given options: each for itself, and the operands behind \<open>--\<close>.\<close>

definition short_words :: "seen_option list \<Rightarrow> string list" where
  "short_words os = concat (map (\<lambda>(c, a). [CHR ''-'', c] # (case a of None \<Rightarrow> [] | Some s \<Rightarrow> [s])) os)"

lemma valid_option_simps [simp]:
  "valid_option sp (c, None) \<longleftrightarrow> short_kind (short_opts sp) c = Some False"
  "valid_option sp (c, Some a) \<longleftrightarrow> short_kind (short_opts sp) c = Some True"
  by (simp_all add: valid_option_def)

locale word_reader =
  fixes sp :: getopt_spec
  assumes error_free: "short_kind (short_opts sp) (CHR ''?'') = None"
    and dash_free: "short_kind (short_opts sp) (CHR ''-'') = None"
    and reads: "option_word sp w = (os, e) \<and> bad_option \<notin> set os \<longleftrightarrow> spelled sp os e w"
    and kinds: "option_word sp w = (os, e) \<Longrightarrow> o' \<in> set os \<Longrightarrow> o' = bad_option \<or> valid_option sp o'"
    and asks: "option_word sp w = (os, Wants c) \<Longrightarrow> short_kind (short_opts sp) c = Some True"
    and inside: "snd (option_word sp w) \<noteq> Wild"
begin

lemma valid: "spelled sp os e w \<Longrightarrow> list_all (valid_option sp) os"
  using reads [of w os e] kinds [of w os e] by (auto simp: list_all_iff)

lemma wants: "spelled sp os (Wants c) w \<Longrightarrow> short_kind (short_opts sp) c = Some True"
  using reads [of w os "Wants c"] asks [of w os c] by auto

text \<open>Whatever is on the command line: \<open>optarg\<close> is there for the options that have an argument, and NULL for the others.\<close>

lemma read_kinds: "o' \<in> set (given (getopt sp ws)) \<Longrightarrow> o' = bad_option \<or> valid_option sp o'"
proof (induction ws rule: length_induct)
  case (1 ws)
  define fine where "fine o' \<longleftrightarrow> o' = bad_option \<or> valid_option sp o'" for o' :: seen_option
  have IH: "fine o'" if "length ys < length ws" "o' \<in> set (given (getopt sp ys))" for ys
    using 1 that by (simp add: fine_def)
  have bad: "fine bad_option" by (simp add: fine_def)
  have "fine o'"
  proof (cases ws)
    case (Cons w ws')
    obtain os e where oe: "option_word sp w = (os, e)" by fastforce
    have os: "o' \<in> set os \<Longrightarrow> fine o'" using kinds [OF oe] by (simp add: fine_def)
    have asked: "fine (c, Some a)" if "e = Wants c" for c a using asks [of w os c] oe that by (simp add: fine_def)
    show ?thesis
      using 1(2) Cons oe os asked bad IH
      by (cases e) (force simp: Let_def split: if_splits list.splits)+
  qed (use 1 in simp)
  then show ?case by (simp add: fine_def)
qed

text \<open>The scanner finds exactly what was written.\<close>

lemma written_read:
  "written sp os rest ws \<Longrightarrow>
    given (getopt sp ws) = os \<and> operands (getopt sp ws) = rest \<and> \<not> wild (getopt sp ws) \<and> bad_option \<notin> set os"
proof (induction rule: written.induct)
  case (written_operand w os rest ws)
  then show ?case by (auto simp: is_operand_def Let_def)
next
  case (written_word w os e os' rest ws)
  then show ?case by (auto simp: reads [symmetric])
next
  case (written_arg w os e c os' rest ws a)
  then show ?case by (auto simp: reads [symmetric])
qed simp_all

lemma read_written:
  "bad_option \<notin> set (given (getopt sp ws)) \<Longrightarrow> written sp (given (getopt sp ws)) (operands (getopt sp ws)) ws"
proof (induction ws rule: length_induct)
  case (1 ws)
  show ?case
  proof (cases ws)
    case Nil
    then show ?thesis by (simp add: written_nil)
  next
    case (Cons w ws')
    obtain os e where oe: "option_word sp w = (os, e)" by fastforce
    consider "w = ''--''" | "w \<noteq> ''--''" "is_operand w" | "w \<noteq> ''--''" "\<not> is_operand w" "e = Complete"
      | "w \<noteq> ''--''" "\<not> is_operand w" "e = Wild" | c where "w \<noteq> ''--''" "\<not> is_operand w" "e = Wants c"
      by (cases e) auto
    then show ?thesis
    proof cases
      case 1
      with Cons show ?thesis by (simp add: written_dashes)
    next
      case 2
      with Cons 1 show ?thesis by (simp add: Let_def written_operand)
    next
      case 3
      with Cons oe 1(2) reads [of w os e] have "spelled sp os e w" by auto
      with Cons oe 1 3 show ?thesis by (simp add: written_word)
    next
      case 4
      with oe inside [of w] show ?thesis by simp
    next
      case (5 c)
      show ?thesis
      proof (cases ws')
        case Nil
        with Cons oe 1(2) 5 show ?thesis by simp
      next
        case (Cons a ws'')
        with \<open>ws = w # ws'\<close> oe 1(2) 5 reads [of w os e] have "spelled sp os e w" by auto
        with Cons \<open>ws = w # ws'\<close> oe 1 5 show ?thesis by (simp add: written_arg)
      qed
    qed
  qed
qed

theorem written_iff:
  "written sp os rest ws \<longleftrightarrow> given (getopt sp ws) = os \<and> operands (getopt sp ws) = rest \<and> bad_option \<notin> set os"
  using written_read read_written by metis

lemma never_wild: "\<not> wild (getopt sp ws)"
proof (induction ws rule: length_induct)
  case (1 ws)
  show ?case
  proof (cases ws)
    case (Cons w ws')
    obtain os e where oe: "option_word sp w = (os, e)" by fastforce
    with inside [of w] have "e \<noteq> Wild" by auto
    with 1 Cons oe show ?thesis by (auto simp: Let_def split: word_end.splits list.splits)
  qed simp
qed

lemma written_valid: "written sp os rest ws \<Longrightarrow> list_all (valid_option sp) os"
proof (induction rule: written.induct)
  case (written_word w os e os' rest ws)
  then show ?case using valid [of os e w] by simp
next
  case (written_arg w os e c os' rest ws a)
  then show ?case using valid [of os e w] wants [of os c w] by simp
qed simp_all

lemma short_words_written:
  "list_all (valid_option sp) os \<Longrightarrow> written sp os rest (short_words os @ ''--'' # rest)"
proof (induction os)
  case Nil
  show ?case by (simp add: short_words_def written_dashes)
next
  case (Cons o' os)
  obtain c a where o': "o' = (c, a)" by fastforce
  from Cons.prems have k: "short_kind (short_opts sp) c = Some (a \<noteq> None)" by (simp add: o' valid_option_def)
  then have c: "c \<noteq> CHR ''-''" using dash_free by auto
  have word: "\<not> is_operand [CHR ''-'', c]" "[CHR ''-'', c] \<noteq> ''--''" using c by (simp_all add: is_operand_def hdc_def)
  have IH: "written sp os rest (short_words os @ ''--'' # rest)" using Cons by simp
  show ?case
  proof (cases a)
    case None
    have "spelled sp [(c, None)] Complete [CHR ''-'', c]"
      using k c None by (simp add: spelled_def short_flag short_nil)
    from written_word [OF word this refl IH] show ?thesis by (simp add: short_words_def o' None)
  next
    case (Some s)
    have "spelled sp [] (Wants c) [CHR ''-'', c]" using k c Some by (simp add: spelled_def short_apart)
    from written_arg [OF word this refl IH, of s] show ?thesis by (simp add: short_words_def o' Some)
  qed
qed

text \<open>Printing and reading again.\<close>

lemma short_words_read:
  assumes "list_all (valid_option sp) os"
  shows "given (getopt sp (short_words os @ ''--'' # rest)) = os" "operands (getopt sp (short_words os @ ''--'' # rest)) = rest"
  using written_read [OF short_words_written [OF assms, of rest]] by auto

end

section \<open>Consistent tables\<close>

text \<open>A program without long names needs no law but the two of its option string.\<close>

lemma cluster_kinds:
  "(\<forall>o' \<in> set (fst (cluster spec w)). o' = bad_option \<or> short_kind spec (fst o') = Some (snd o' \<noteq> None))
   \<and> (\<forall>c. snd (cluster spec w) = Wants c \<longrightarrow> short_kind spec c = Some True) \<and> snd (cluster spec w) \<noteq> Wild"
proof (induction w)
  case (Cons c cs)
  consider "short_kind spec c = None" | "short_kind spec c = Some False" | "short_kind spec c = Some True"
    by (cases "short_kind spec c") auto
  then show ?case by cases (use Cons in simp_all)
qed simp

lemma short_reader:
  assumes "short_kind spec (CHR ''?'') = None" "short_kind spec (CHR ''-'') = None"
  shows "word_reader \<lparr>short_opts = spec, long_opts = None\<rparr>"
proof
  fix os e w c o'
  let ?sp = "\<lparr>short_opts = spec, long_opts = None\<rparr>"
  show "(option_word ?sp w = (os, e) \<and> bad_option \<notin> set os) = spelled ?sp os e w"
    by (simp add: option_word_def spelled_def cluster_spelled [OF assms(1)])
  show "option_word ?sp w = (os, e) \<Longrightarrow> o' \<in> set os \<Longrightarrow> o' = bad_option \<or> valid_option ?sp o'"
    using cluster_kinds [of spec "tl w"] by (simp add: option_word_def valid_option_def)
  show "option_word ?sp w = (os, Wants c) \<Longrightarrow> short_kind (short_opts ?sp) c = Some True"
    using cluster_kinds [of spec "tl w"] by (simp add: option_word_def)
  show "snd (option_word ?sp w) \<noteq> Wild" by (simp add: option_word_def cluster_kinds)
qed (use assms in simp_all)

text \<open>
  A table of long names fits an option string: it has an end, no name twice, and each name has the character and the
  argument of the short option.
\<close>

lemma at_equals:
  assumes "CHR ''='' \<notin> set n"
  shows "takeWhile (\<lambda>c. c \<noteq> CHR ''='') n = n" "strchr n (CHR ''='') = None"
    "takeWhile (\<lambda>c. c \<noteq> CHR ''='') (n @ CHR ''='' # a) = n" "strchr (n @ CHR ''='' # a) (CHR ''='') = Some (CHR ''='' # a)"
  using assms by (induction n) auto

locale option_table =
  fixes spec :: string and ts :: "long_option list"
  assumes error_free: "short_kind spec (CHR ''?'') = None"
    and dash_free: "short_kind spec (CHR ''-'') = None"
    and ended: "\<exists>t \<in> set ts. fst t = None"
    and names: "distinct (map fst (table_entries ts))"
    and agree: "(n, a, v) \<in> set (table_entries ts) \<Longrightarrow> short_kind spec v = Some a"
begin

lemma stands_for_kind: "stands_for ts n a v \<Longrightarrow> short_kind spec v = Some a"
  using agree by (auto simp: stands_for_def)

lemma long_spelled:
  "long_spelling ts os e w \<longleftrightarrow> long_word ts w = (os, e) \<and> bad_option \<notin> set os"
proof
  note lookup = long_lookup_stands_for [OF names ended]
  show "long_word ts w = (os, e) \<and> bad_option \<notin> set os" if "long_spelling ts os e w"
    using that
  proof cases
    case (long_flag v)
    then show ?thesis using lookup(1) [of w False v] stands_for_kind [of w False v] error_free
      by (auto simp: long_word_def at_equals)
  next
    case (long_value n v a)
    then show ?thesis using lookup(1) [of n True v] by (simp add: long_word_def at_equals)
  next
    case (long_apart v)
    then show ?thesis using lookup(1) [of w True v] by (simp add: long_word_def at_equals)
  qed
  show "long_spelling ts os e w" if *: "long_word ts w = (os, e) \<and> bad_option \<notin> set os"
  proof (cases "CHR ''='' \<in> set w")
    case True
    then obtain n r where w: "w = n @ CHR ''='' # r" "CHR ''='' \<notin> set n" by (meson split_list_first)
    from * obtain a v where l: "long_lookup ts n = Found a v"
      using lookup(2) [of n] by (auto simp: long_word_def w at_equals split: lookup.splits)
    with * have "a \<and> os = [(v, Some r)] \<and> e = Complete" by (auto simp: long_word_def w at_equals split: if_splits)
    with lookup(1) l w(2) show ?thesis by (auto simp: w(1) intro: long_spelling.long_value)
  next
    case False
    from * obtain a v where l: "long_lookup ts w = Found a v"
      using lookup(2) [of w] by (auto simp: long_word_def False at_equals split: lookup.splits)
    with * have "if a then os = [] \<and> e = Wants v else os = [(v, None)] \<and> e = Complete"
      by (auto simp: long_word_def False at_equals split: if_splits)
    with lookup(1) l False show ?thesis
      by (auto intro: long_spelling.long_flag long_spelling.long_apart split: if_splits)
  qed
qed

lemma long_kinds:
  assumes "long_word ts w = (os, e)"
  shows "o' \<in> set os \<Longrightarrow> o' = bad_option \<or> short_kind spec (fst o') = Some (snd o' \<noteq> None)"
    "e = Wants c \<Longrightarrow> short_kind spec c = Some True" "e \<noteq> Wild"
proof -
  let ?n = "takeWhile (\<lambda>c. c \<noteq> CHR ''='') w"
  note lookup = long_lookup_stands_for [OF names ended, of ?n]
  have word: "(o' \<in> set os \<longrightarrow> o' = bad_option \<or> short_kind spec (fst o') = Some (snd o' \<noteq> None))
      \<and> (e = Wants c \<longrightarrow> short_kind spec c = Some True) \<and> e \<noteq> Wild"
  proof (cases "long_lookup ts ?n")
    case (Found a v)
    then have "short_kind spec v = Some a" using lookup(1) stands_for_kind by blast
    with Found assms show ?thesis
      by (cases a; cases "strchr w (CHR ''='')") (simp_all add: long_word_def, auto)
  qed (use assms lookup(2) in \<open>auto simp: long_word_def\<close>)
  then show "o' \<in> set os \<Longrightarrow> o' = bad_option \<or> short_kind spec (fst o') = Some (snd o' \<noteq> None)"
    "e = Wants c \<Longrightarrow> short_kind spec c = Some True" "e \<noteq> Wild" by blast+
qed

end

text \<open>The laws of a table are a computation.\<close>

definition consistent :: "string \<Rightarrow> long_option list \<Rightarrow> bool" where
  "consistent spec ts \<longleftrightarrow>
     short_kind spec (CHR ''?'') = None \<and> short_kind spec (CHR ''-'') = None \<and> list_ex (\<lambda>t. fst t = None) ts
     \<and> distinct (map fst (table_entries ts)) \<and> list_all (\<lambda>(n, a, v). short_kind spec v = Some a) (table_entries ts)"

lemma option_table_consistent: "option_table spec ts \<longleftrightarrow> consistent spec ts"
  by (auto simp: option_table_def consistent_def list_ex_iff list_all_iff)

sublocale option_table \<subseteq> tab: word_reader "\<lparr>short_opts = spec, long_opts = Some ts\<rparr>"
proof
  fix os e w c o'
  let ?sp = "\<lparr>short_opts = spec, long_opts = Some ts\<rparr>"
  show "(option_word ?sp w = (os, e) \<and> bad_option \<notin> set os) = spelled ?sp os e w"
    by (simp add: option_word_def spelled_def cluster_spelled [OF error_free] long_spelled)
  show "option_word ?sp w = (os, e) \<Longrightarrow> o' \<in> set os \<Longrightarrow> o' = bad_option \<or> valid_option ?sp o'"
    using cluster_kinds [of spec "tl w"] long_kinds(1) [of "drop 2 w" os e o']
    by (simp add: option_word_def valid_option_def split: if_splits)
  show "option_word ?sp w = (os, Wants c) \<Longrightarrow> short_kind (short_opts ?sp) c = Some True"
    using cluster_kinds [of spec "tl w"] long_kinds(2) [of "drop 2 w" os "Wants c"]
    by (simp add: option_word_def split: if_splits)
  show "snd (option_word ?sp w) \<noteq> Wild"
    using cluster_kinds long_kinds(3) [of "drop 2 w"]
    by (cases "long_word ts (drop 2 w)") (simp add: option_word_def)
qed (use error_free dash_free in simp_all)

end
