(* ===== verification/Command_Lines.thy ===== *)
theory Command_Lines
  imports Getopt Page_Main Victim Thp_Test Hugetlb_Fork Page_Poisoning Erst Pan_Main
begin

text \<open>
  The option tables of the seven programs that have one, and the programs on the words of their command lines: what
  \<open>getopt\<close> or \<open>getopt_long\<close> makes of the words is what the option loops of the other theories are given.
\<close>

section \<open>The tables\<close>

definition page_types_long :: "long_option list" where
  "page_types_long =
     [(Some ''raw'', False, CHR ''r''), (Some ''pid'', True, CHR ''p''), (Some ''file'', True, CHR ''f''),
      (Some ''addr'', True, CHR ''a''), (Some ''bits'', True, CHR ''b''), (Some ''describe'', True, CHR ''d''),
      (Some ''list'', False, CHR ''l''), (Some ''list-each'', False, CHR ''L''), (Some ''no-summary'', False, CHR ''N''),
      (Some ''hwpoison'', False, CHR ''X''), (Some ''unpoison'', False, CHR ''x''), (Some ''help'', False, CHR ''h''),
      (None, False, NUL)]"

definition victim_long :: "long_option list" where
  "victim_long =
     [(Some ''address'', True, CHR ''a''), (Some ''data'', False, CHR ''d''), (Some ''instruction'', False, CHR ''i''),
      (Some ''help'', False, CHR ''h''), (Some ''kick'', True, CHR ''k''), (Some ''pfa'', False, CHR ''p''),
      (None, False, NUL)]"

definition thp_long :: "long_option list" where
  "thp_long =
     [(Some ''offset'', True, CHR ''o''), (Some ''avoid-touch'', False, CHR ''a''), (Some ''early-kill'', False, CHR ''e''),
      (Some ''help'', False, CHR ''h''), (None, False, NUL)]"

definition hugetlb_long :: "long_option list" where
  "hugetlb_long =
     [(Some ''memory'', True, CHR ''m''), (Some ''offset'', True, CHR ''o''), (Some ''inject'', False, CHR ''x''),
      (Some ''offline'', False, CHR ''O''), (Some ''early_kill'', False, CHR ''e''), (Some ''shm'', False, CHR ''S''),
      (Some ''anonymous'', False, CHR ''A''), (Some ''avoid-touch'', False, CHR ''a''), (Some ''fork'', False, CHR ''F''),
      (Some ''private'', False, CHR ''p''), (Some ''cow'', False, CHR ''c''), (Some ''filename'', True, CHR ''f''),
      (Some ''help'', False, CHR ''h''), (None, False, NUL)]"

text \<open>None of these takes an argument, and the last entry has the empty name instead of NULL.\<close>

definition pp_long :: "long_option list" where
  "pp_long =
     [(Some ''clean'', False, CHR ''C''), (Some ''help'', False, CHR ''h''), (Some ''instance'', False, CHR ''i''),
      (Some ''log'', False, CHR ''l''), (Some ''result'', False, CHR ''r''), (Some ''shmsize'', False, CHR ''s''),
      (Some ''tmpdir'', False, CHR ''t''), (Some '''', False, NUL)]"

definition page_types_spec :: getopt_spec where
  "page_types_spec = \<lparr>short_opts = ''rp:f:a:b:d:lLNXxh'', long_opts = Some page_types_long\<rparr>"

definition victim_spec :: getopt_spec where
  "victim_spec = \<lparr>short_opts = ''a:dihk:p'', long_opts = Some victim_long\<rparr>"

definition thp_spec :: getopt_spec where
  "thp_spec = \<lparr>short_opts = ''o:aeh'', long_opts = Some thp_long\<rparr>"

definition hugetlb_spec :: getopt_spec where
  "hugetlb_spec = \<lparr>short_opts = ''m:o:xOeSAaFpcf:h'', long_opts = Some hugetlb_long\<rparr>"

definition pp_spec :: getopt_spec where
  "pp_spec = \<lparr>short_opts = ''Chi:l:r:s:t:'', long_opts = Some pp_long\<rparr>"

definition erst_spec :: getopt_spec where
  "erst_spec = \<lparr>short_opts = ''pi:c:n'', long_opts = None\<rparr>"

definition pan_spec :: getopt_spec where
  "pan_spec = \<lparr>short_opts = ''AO:Sa:C:d:ef:hl:n:o:pqr:s:t:x:y'', long_opts = None\<rparr>"

section \<open>The programs on their words\<close>

text \<open>The options for the loops: \<open>optarg\<close> is only looked at for options that have an argument (see below).\<close>

definition loop_options :: "command_line \<Rightarrow> (char \<times> string) list" where
  "loop_options r = map (\<lambda>(c, a). (c, case a of Some s \<Rightarrow> s | None \<Rightarrow> [])) (given r)"

definition page_types_argv ::
    "proc_env \<Rightarrow> file_env \<Rightarrow> pread \<Rightarrow> (string \<Rightarrow> file_stat option)
      \<Rightarrow> (string \<Rightarrow> (string \<times> file_stat \<times> ftw_type) list \<times> bool) \<Rightarrow> u64 \<Rightarrow> string list \<Rightarrow> (string \<times> int \<times> walker) res" where
  "page_types_argv env fenv task_pagemap stat_of tree pgsz ws =
     main_page_types env fenv task_pagemap stat_of tree pgsz (loop_options (getopt page_types_spec ws))"

text \<open>\<open>argc <= 1\<close> is the usage and 0.\<close>

definition victim_argv :: "nat \<Rightarrow> 'w vos \<Rightarrow> string list \<Rightarrow> 'w \<Rightarrow> (victim_end \<times> string list) res \<times> 'w" where
  "victim_argv pagesize os ws w =
     (if ws = [] then (Inr (Return 0, []), w)
      else victim_main pagesize os (loop_options (getopt victim_spec ws)) w)"

definition thp_argv :: "'w kern \<Rightarrow> string list \<Rightarrow> int \<Rightarrow> bool \<Rightarrow> 'w \<Rightarrow> (int \<times> string) res" where
  "thp_argv k ws pid waited w = thp_main k (loop_options (getopt thp_spec ws)) pid waited w"

text \<open>The directory is \<open>argv[argc - 1]\<close> after the permutation; \<open>there\<close> is what \<open>access\<close> says of names.\<close>

definition hugetlb_argv :: "nat \<Rightarrow> string list \<Rightarrow> (string \<Rightarrow> bool) \<Rightarrow> (hconf \<times> string) res" where
  "hugetlb_argv ps ws there =
     (if ws = [] then Inl (Exit 1)
      else
        let r = getopt hugetlb_spec ws; dir = last (taken r @ operands r)
        in hugetlb_setup ps (loop_options r) dir (there dir))"

text \<open>The whole of \<open>thugetlb\<close>: the status, or with \<open>-F\<close> what \<open>fork_main\<close> gives for a schedule.\<close>

definition thugetlb ::
    "'w kern \<Rightarrow> nat \<Rightarrow> string list \<Rightarrow> (string \<Rightarrow> bool) \<Rightarrow> bool \<Rightarrow> nat list \<Rightarrow> string list \<times> 'w \<Rightarrow> (int + 'w hsys option) res" where
  "thugetlb k ps ws there forked is s =
     rbind (hugetlb_argv ps ws there) (\<lambda>(c, path).
       if h_fork c then fork_main k ps c path forked is s
       else rbind (fst (hugetlb_main k ps c path s)) (\<lambda>n. Inr (Inl n)))"

definition erst_argv :: "nat \<Rightarrow> 'w erst_dev \<Rightarrow> string list \<Rightarrow> ('w, int option) erst_act" where
  "erst_argv n d ws = erst_main n d (if ws = [] then None else Some (loop_options (getopt erst_spec ws)))"

definition pan_argv :: "nat \<Rightarrow> pan_env \<Rightarrow> 'w os \<Rightarrow> string \<Rightarrow> string list \<Rightarrow> 'w \<Rightarrow> (int \<times> string list) option res" where
  "pan_argv fuel env os prog ws w =
     (let r = getopt pan_spec ws
      in pan_main fuel env os (prog # taken r @ operands r) (loop_options r) (operands r) w)"

text \<open>
  The loop of page-poisoning, which gets \<open>optarg == NULL\<close> from its long options and hands it to \<open>strtol\<close> or to
  \<open>%s\<close>. An option that ends the program does so before the next one is looked for.
\<close>

fun pp_read :: "seen_option list \<Rightarrow> bool \<Rightarrow> pp_options \<Rightarrow> pp_options option res" where
  "pp_read [] past p = (if past then Inl (Undef ''past the end of opts'') else Inr (Some p))"
| "pp_read ((c, a) # os) past p =
     (if a = None \<and> c \<in> set ''ilrst'' then Inl (Undef ''optarg is NULL'')
      else case pp_options_of [(c, case a of Some s \<Rightarrow> s | None \<Rightarrow> [])] p of
             None \<Rightarrow> Inr None | Some p \<Rightarrow> pp_read os past p)"

definition pp_argv ::
    "pp_conf \<Rightarrow> 'w kern \<Rightarrow> (string \<times> bool) list \<Rightarrow> string list \<Rightarrow> bool \<Rightarrow> bool \<Rightarrow> int
       \<Rightarrow> (nat \<Rightarrow> bool) \<Rightarrow> (nat \<Rightarrow> int) \<Rightarrow> (nat \<Rightarrow> nat \<times> bool) \<Rightarrow> ('w, int) pp_act" where
  "pp_argv c k test_cases ws log_ok result_ok mkdir_errno forks pids seen =
     (let r = getopt pp_spec ws
      in case pp_read (given r) (wild r) default_options of
           Inl e \<Rightarrow> halt e
         | Inr _ \<Rightarrow> pp_main c k test_cases (loop_options r) log_ok result_ok mkdir_errno forks pids seen)"

section \<open>Consistency\<close>

interpretation page_types_tab: option_table "''rp:f:a:b:d:lLNXxh''" page_types_long
  unfolding option_table_consistent by code_simp

interpretation victim_tab: option_table "''a:dihk:p''" victim_long
  unfolding option_table_consistent by code_simp

interpretation thp_tab: option_table "''o:aeh''" thp_long
  unfolding option_table_consistent by code_simp

interpretation hugetlb_tab: option_table "''m:o:xOeSAaFpcf:h''" hugetlb_long
  unfolding option_table_consistent by code_simp

interpretation erst_words: word_reader "\<lparr>short_opts = ''pi:c:n'', long_opts = None\<rparr>"
  by (rule short_reader) (simp_all add: short_kind_def)

interpretation pan_words: word_reader "\<lparr>short_opts = ''AO:Sa:C:d:ef:hl:n:o:pqr:s:t:x:y'', long_opts = None\<rparr>"
  by (rule short_reader) (simp_all add: short_kind_def)

text \<open>The table of page-poisoning has no end.\<close>

lemma pp_table_unfit: "\<not> option_table ''Chi:l:r:s:t:'' pp_long"
  unfolding option_table_consistent by code_simp

lemmas spec_defs = page_types_spec_def victim_spec_def thp_spec_def hugetlb_spec_def erst_spec_def pan_spec_def

definition sound_specs :: "getopt_spec list" where
  "sound_specs = [page_types_spec, victim_spec, thp_spec, hugetlb_spec, erst_spec, pan_spec]"

text \<open>Six of the seven readers keep the laws.\<close>

lemma sound_reader:
  assumes "sp \<in> set sound_specs"
  shows "word_reader sp"
proof -
  from assms consider "sp = page_types_spec" | "sp = victim_spec" | "sp = thp_spec" | "sp = hugetlb_spec"
    | "sp = erst_spec" | "sp = pan_spec"
    by (auto simp: sound_specs_def)
  then show ?thesis
    by cases (simp_all only: spec_defs page_types_tab.tab.word_reader_axioms victim_tab.tab.word_reader_axioms
      thp_tab.tab.word_reader_axioms hugetlb_tab.tab.word_reader_axioms erst_words.word_reader_axioms
      pan_words.word_reader_axioms)
qed

text \<open>So \<open>optarg\<close> is never NULL for an option with an argument, errors on the command line or not.\<close>

lemma optarg_there:
  assumes "sp \<in> set sound_specs" "(c, a) \<in> set (given (getopt sp ws))" "short_kind (short_opts sp) c = Some True"
  shows "a \<noteq> None"
  using word_reader.read_kinds [OF sound_reader [OF assms(1)] assms(2)] assms(3)
    word_reader.error_free [OF sound_reader [OF assms(1)]]
  by (cases a) auto

section \<open>Properties\<close>

text \<open>
  C24. The long options of \<open>page-poisoning\<close>: with a name that is not in its table the search leads out of the table, also for
  the documented \<open>--child_num\<close>; \<open>--log=LOG\<close> and the others that are in the table and documented with a value
  print the help and end with 0 without a test, and without the value they pass NULL to \<open>strtol\<close> or \<open>%s\<close>.
\<close>

theorem pp_long_unusable:
  assumes "s \<noteq> []" "CHR ''='' \<notin> set s" "s \<noteq> ''clean''" "s \<noteq> ''help''"
  shows "(\<exists>m. pp_argv c k cases ((''--'' @ s) # ws) log_ok result_ok e forks pids seen st = (Inl (Undef m), st))
    \<and> (if s \<in> {''instance'', ''log'', ''result'', ''shmsize'', ''tmpdir''}
       then pp_argv c k cases ((''--'' @ s @ CHR ''='' # v) # ws) log_ok result_ok e forks pids seen st = (Inr 0, st)
       else \<exists>m. pp_argv c k cases ((''--'' @ s @ CHR ''='' # v) # ws) log_ok result_ok e forks pids seen st = (Inl (Undef m), st))"
proof -
  have table: "if s \<in> {''instance'', ''log'', ''result'', ''shmsize'', ''tmpdir''}
      then \<exists>ch \<in> set ''ilrst''. long_lookup pp_long s = Found False ch else long_lookup pp_long s = Past_end"
    using assms by (auto simp: long_lookup_def pp_long_def)
  have bare: "\<exists>m. pp_argv c k cases ((''--'' @ s) # ws) log_ok result_ok e forks pids seen st = (Inl (Undef m), st)"
  proof -
    from table have "long_word pp_long s = ([], Wild) \<or> (\<exists>ch \<in> set ''ilrst''. long_word pp_long s = ([(ch, None)], Complete))"
      using assms(2) by (auto simp: long_word_def at_equals split: if_splits)
    then show ?thesis
      using assms by (auto simp: pp_argv_def pp_spec_def option_word_def is_operand_def hdc_def halt_def)
  qed
  have valued: "long_word pp_long (s @ CHR ''='' # v) =
      (if s \<in> {''instance'', ''log'', ''result'', ''shmsize'', ''tmpdir''} then ([bad_option], Complete) else ([], Wild))"
    using table assms(2) by (auto simp: long_word_def at_equals split: if_splits)
  show ?thesis
  proof (rule conjI [OF bare], cases "s \<in> {''instance'', ''log'', ''result'', ''shmsize'', ''tmpdir''}")
    case True
    with valued show "if s \<in> {''instance'', ''log'', ''result'', ''shmsize'', ''tmpdir''}
       then pp_argv c k cases ((''--'' @ s @ CHR ''='' # v) # ws) log_ok result_ok e forks pids seen st = (Inr 0, st)
       else \<exists>m. pp_argv c k cases ((''--'' @ s @ CHR ''='' # v) # ws) log_ok result_ok e forks pids seen st = (Inl (Undef m), st)"
      by (simp add: pp_argv_def pp_spec_def option_word_def is_operand_def hdc_def loop_options_def pp_main_def ret_def)
  next
    case False
    with valued show "if s \<in> {''instance'', ''log'', ''result'', ''shmsize'', ''tmpdir''}
       then pp_argv c k cases ((''--'' @ s @ CHR ''='' # v) # ws) log_ok result_ok e forks pids seen st = (Inr 0, st)
       else \<exists>m. pp_argv c k cases ((''--'' @ s @ CHR ''='' # v) # ws) log_ok result_ok e forks pids seen st = (Inl (Undef m), st)"
      by (simp add: pp_argv_def pp_spec_def option_word_def is_operand_def hdc_def halt_def)
  qed
qed

theorem pp_long_unusable_witness:
  "pp_argv pp_demo_conf pp_demo_kern [] [''--log=l''] True True 0 (\<lambda>_. True) (\<lambda>_. 1) (\<lambda>_. (0, True))
     (demo_globals, empty_ipc, ()) = (Inr 0, demo_globals, empty_ipc, ())"
  using pp_long_unusable [of "''log''" pp_demo_conf pp_demo_kern "[]" "[]" True True 0 "\<lambda>_. True" "\<lambda>_. 1"
      "\<lambda>_. (0, True)" "(demo_globals, empty_ipc, ())" "''l''"]
  by simp

text \<open>\<open>ltp-pan\<close> takes options of the command it is to run as its own, unless \<open>--\<close> stands before the command.\<close>

lemma pan_takes_options:
  "getopt pan_spec [''-n'', ''pan'', ''ls'', ''-y''] =
     \<lparr>given = [(CHR ''n'', Some ''pan''), (CHR ''y'', None)], wild = False, taken = [''-n'', ''pan'', ''-y''], operands = [''ls'']\<rparr>"
  "getopt pan_spec [''-n'', ''pan'', ''--'', ''ls'', ''-y''] =
     \<lparr>given = [(CHR ''n'', Some ''pan'')], wild = False, taken = [''-n'', ''pan'', ''--''], operands = [''ls'', ''-y'']\<rparr>"
  by code_simp+

section \<open>From the words to the results\<close>

lemma written_options:
  assumes "sp \<in> set sound_specs" "written sp os rest ws"
  shows "given (getopt sp ws) = os" "operands (getopt sp ws) = rest"
  using word_reader.written_read [OF sound_reader [OF assms(1)] assms(2)] by simp_all

text \<open>
  C22. \<open>victim -a\<close>: on every way to write the address in hexadecimal and the decimal pid, in either order, the physical address
  is printed that the pagemap of that process has for it, with the same offset in the page, and the status is 0.
\<close>

theorem victim_translates:
  assumes "written victim_spec [(CHR ''a'', Some a)] rest ws"
    and "a \<in> {''vaddr=0x'' @ show_hex v @ '',pid='' @ show_dec p, ''pid='' @ show_dec p @ '',vaddr=0x'' @ show_hex v}"
    and "v < 2 ^ 64" "p < 2 ^ 31" "12 \<le> b" "b < 55"
    and "v_pagemap os (int p) (v div 2 ^ b * 8) w = (Some (le_bytes entry), w')"
  shows "victim_argv (2 ^ b) os ws w = (Inr (Return 0,
      [''physical address of ('' @ show_dec p @ '',0x'' @ show_hex v @ '') = 0x''
       @ show_hex (unat (of_nat (unat (pfn_field entry) * 2 ^ b + v mod 2 ^ b) :: u64)) @ [NL]]), w')"
proof -
  have ws: "ws \<noteq> []" "loop_options (getopt victim_spec ws) = [(CHR ''a'', a)]"
    using written_options [OF _ assms(1)] assms(1) by (auto simp: sound_specs_def loop_options_def)
  have v: "unat (of_nat v :: u64) = v" using assms(3) by (simp add: unat_of_nat_u64)
  have "parse_addr_subopts a = Inr (Some (of_nat v, int p))"
    using assms(2) parse_addr_roundtrip [OF assms(3,4)] by auto
  moreover have "vtop (2 ^ b) os (of_nat v) (int p) w = (of_nat (unat (pfn_field entry) * 2 ^ b + v mod 2 ^ b), w')"
    using vtop_address [OF assms(5,6), of os "int p" "of_nat v" w entry w'] assms(7) by (simp add: v)
  ultimately show ?thesis
    using ws by (simp add: victim_argv_def victim_main_def translated_def v show_int_def)
qed

text \<open>
  C19. \<open>thugetlb -x -m s -o n dir\<close>, the command line of \<open>run_hugepage.sh\<close>, in every way to write it: the target is refused
  exactly when it lies behind the page that follows the last one of the \<open>s\<close> huge pages, so the first page outside is
  taken; a directory that is not there is refused, one that is too long overflows the buffer of the path.
\<close>

theorem hugetlb_bounds:
  assumes "written hugetlb_spec [(CHR ''x'', None), (CHR ''m'', Some (show_dec s)), (CHR ''o'', Some (show_dec n))] [dir] ws"
    and "s < 2 ^ 31" "n < 2 ^ 19"
  shows "hugetlb_argv 4096 ws there =
    (if 512 * s < n \<or> \<not> there dir then Inl (Exit 1)
     else if BUF_SIZE \<le> length dir + 5 then Inl (Undef ''filepath overflow'')
     else Inr (hconf_init\<lparr>h_inject := True, h_size := int s, h_offset := int n\<rparr>, dir @ ''/test''))"
proof -
  have ws: "ws \<noteq> []" "operands (getopt hugetlb_spec ws) = [dir]"
    "loop_options (getopt hugetlb_spec ws) = [(CHR ''x'', []), (CHR ''m'', show_dec s), (CHR ''o'', show_dec n)]"
    using written_options [OF _ assms(1)] assms(1) by (auto simp: sound_specs_def loop_options_def)
  have num: "atoi (show_dec m) = int m" if "m < 2 ^ 31" for m
  proof -
    have "digit_of 10 (hdc []) = None" by code_simp
    with that show ?thesis using atoi_show_int [of "int m" "[]"] by (simp add: show_int_def)
  qed
  let ?c = "hconf_init\<lparr>h_inject := True, h_size := int s, h_offset := int n\<rparr>"
  have opts: "hugetlb_options (loop_options (getopt hugetlb_spec ws)) hconf_init = Inr ?c"
    using assms(2,3) by (simp add: ws num hconf_init_def)
  have "(512 * int s < int n) = (512 * s < n)" by linarith
  then have "out_of_range 4096 ?c = Inr (512 * s < n)"
    using hugetlb_range [of ?c] assms(2,3) by (simp add: hconf_init_def)
  moreover have "hugetlb_path dir x ?c = (if \<not> x then Inl (Exit 1)
      else if BUF_SIZE \<le> length dir + 5 then Inl (Undef ''filepath overflow'') else Inr (dir @ ''/test''))" for x
    by (simp add: hugetlb_path_def hconf_init_def)
  ultimately show ?thesis
    using ws(1,2) opts by (simp add: hugetlb_argv_def hugetlb_setup_def Let_def hconf_init_def)
qed

text \<open>
  C18. What \<open>thugetlb\<close> does without \<open>-F\<close>, from its words to its status, on a kernel that keeps its promises: taken offline
  softly, the pages stay usable; with early kill the injection ends the process; with late kill it ends at the next access
  to the huge page, unless \<open>-a\<close> leaves that huge page alone. Whether the data are still there makes no difference to the status.
\<close>

theorem thugetlb_outcome:
  assumes words: "written hugetlb_spec os [dir] ws" "there dir" "length dir + length (h_name c) < BUF_SIZE"
    and c: "hugetlb_options (map (\<lambda>(ch, a). (ch, case a of Some s \<Rightarrow> s | None \<Rightarrow> [])) os) hconf_init = Inr c"
      "h_inject c" "\<not> h_fork c" "0 \<le> h_offset c" "h_offset c < 512 * h_size c" "h_size c < 2 ^ 31" "h_offset c < 2 ^ 19"
    and law: "memory_law hpage_no k own cell bad early" "frees_ok k"
    and alloc: "hugetlb_alloc k c (dir @ h_name c) ([], w) = (Inr (fd, key, addr), msgs, w1)"
    and m: "huge_mapped own bad addr (nat (h_size c)) w1"
  shows "thugetlb k 4096 ws there forked is ([], w) =
    (if h_soft c then Inr (Inl 0)
     else if h_early c \<or> early w1 then Inl killed
     else if h_avoid c then Inr (Inl 0) else Inl killed)"
proof -
  have ws: "ws \<noteq> []" "operands (getopt hugetlb_spec ws) = [dir]"
    "loop_options (getopt hugetlb_spec ws) = map (\<lambda>(ch, a). (ch, case a of Some s \<Rightarrow> s | None \<Rightarrow> [])) os"
    using written_options [OF _ words(1)] words(1) by (auto simp: sound_specs_def loop_options_def)
  have "out_of_range 4096 c = Inr False" using hugetlb_range [of c] c(4-7) by simp
  with c(1-4) words(2,3) have "hugetlb_argv 4096 ws there = Inr (c, dir @ h_name c)"
    by (simp add: hugetlb_argv_def hugetlb_setup_def hugetlb_path_def ws Let_def)
  with hugetlb_outcome [OF law c(2,4,5) alloc m] c(3) show ?thesis by (simp add: thugetlb_def)
qed

theorem thugetlb_outcome_witness:
  "thugetlb (memory_kern hpage_no 0x7f0000200000) 4096 [''--inject'', ''-Ao5'', ''/mnt''] (\<lambda>_. True) True [] ([], fresh_memory) = Inl killed"
proof -
  let ?k = "memory_kern hpage_no 0x7f0000200000" and ?ws = "[''--inject'', ''-Ao5'', ''/mnt'']"
  let ?os = "[(CHR ''x'', None), (CHR ''A'', None), (CHR ''o'', Some ''5'')]"
  let ?c = "hconf_init\<lparr>h_inject := True, h_anon := True, h_offset := 5\<rparr>"
  have "written hugetlb_spec ?os [''/mnt''] ?ws"
  proof -
    have "given (getopt hugetlb_spec ?ws) = ?os \<and> operands (getopt hugetlb_spec ?ws) = [''/mnt'']" by code_simp
    then show ?thesis
      using word_reader.written_iff [OF sound_reader [of hugetlb_spec]] by (simp add: sound_specs_def)
  qed
  moreover have "atoi ''5'' = 5" by code_simp
  then have "hugetlb_options (map (\<lambda>(ch, a). (ch, case a of Some s \<Rightarrow> s | None \<Rightarrow> [])) ?os) hconf_init = Inr ?c"
    by (simp add: hconf_init_def)
  moreover have "frees_ok ?k" by (simp add: frees_ok_def memory_kern_def)
  moreover have "hugetlb_alloc ?k ?c (''/mnt'' @ h_name ?c) ([], fresh_memory) = (Inr (0, 0, 0x7f0000200000), [], fresh_memory)"
    by (simp add: hugetlb_alloc_def hconf_init_def alloc_anonymous_hugepage_def memory_kern_def sbind_apply)
  moreover have "huge_mapped UNIV m_bad 0x7f0000200000 (nat (h_size ?c)) fresh_memory"
    by (simp add: huge_mapped_def fresh_memory_def HPAGE_SIZE_def hconf_init_def)
  moreover have "h_inject ?c" "\<not> h_fork ?c" "0 \<le> h_offset ?c" "h_offset ?c < 512 * h_size ?c" "h_size ?c < 2 ^ 31" "h_offset ?c < 2 ^ 19"
    "\<not> h_soft ?c" "\<not> h_avoid ?c" "length ''/mnt'' + length (h_name ?c) < BUF_SIZE"
    by (simp_all add: hconf_init_def BUF_SIZE_def)
  ultimately show ?thesis
    using thugetlb_outcome [of ?os "''/mnt''" ?ws "\<lambda>_. True" ?c ?k UNIV _ m_bad _ fresh_memory 0 0 "0x7f0000200000" "[]" fresh_memory True "[]",
        OF _ _ _ _ _ _ _ _ _ _ memory_kern_law [of hpage_no "0x7f0000200000" UNIV]] by simp
qed

theorem victim_translates_witness:
  "victim_argv (2 ^ 12) \<lparr>v_pagemap = (\<lambda>_ i w. (if i = 8 then Some (le_bytes (0x8300000000000005 :: u64)) else None, w)),
      v_mmap = (\<lambda>w. (None, w)), v_unlink = (\<lambda>w. (0, w)), v_poll = (\<lambda>w. (None, w)), v_pid = 1\<rparr>
    [''--addr=vaddr=0x1234,pid=7''] ()
    = (Inr (Return 0, [''physical address of (7,0x1234) = 0x5234'' @ [NL]]), ())"
proof -
  let ?os = "\<lparr>v_pagemap = (\<lambda>_ i w. (if i = 8 then Some (le_bytes (0x8300000000000005 :: u64)) else None, w)),
      v_mmap = (\<lambda>w. (None, w)), v_unlink = (\<lambda>w. (0, w)), v_poll = (\<lambda>w. (None, w)), v_pid = 1\<rparr> :: unit vos"
  have show_it: "show_dec 7 = ''7''" "show_hex 0x1234 = ''1234''" "show_hex 0x5234 = ''5234''"
    by (simp_all add: show_base.simps digit_char_def)
  have "pfn_field 0x8300000000000005 = 5" by (simp add: pfn_field_def mask_eq_exp_minus_1)
  moreover have "written victim_spec [(CHR ''a'', Some ''vaddr=0x1234,pid=7'')] [] [''--addr=vaddr=0x1234,pid=7'']"
  proof -
    have "given (getopt victim_spec [''--addr=vaddr=0x1234,pid=7'']) = [(CHR ''a'', Some ''vaddr=0x1234,pid=7'')]
        \<and> operands (getopt victim_spec [''--addr=vaddr=0x1234,pid=7'']) = []"
      by code_simp
    then show ?thesis
      using word_reader.written_iff [OF sound_reader [of victim_spec]] by (simp add: sound_specs_def)
  qed
  ultimately show ?thesis
    using victim_translates [of "''vaddr=0x1234,pid=7''" "[]" "[''--addr=vaddr=0x1234,pid=7'']" "0x1234" 7 12 ?os "()"
        "0x8300000000000005" "()"]
    by (simp add: show_it)
qed

theorem hugetlb_bounds_witness:
  "hugetlb_argv 4096 [''/mnt'', ''--inject'', ''-m1'', ''--offs'', ''512''] (\<lambda>_. True)
    = Inr (hconf_init\<lparr>h_inject := True, h_size := 1, h_offset := 512\<rparr>, ''/mnt/test'')"
proof -
  let ?ws = "[''/mnt'', ''--inject'', ''-m1'', ''--offs'', ''512'']"
  have show_it: "show_dec 1 = ''1''" "show_dec 512 = ''512''" by (simp_all add: show_base.simps digit_char_def)
  have "written hugetlb_spec [(CHR ''x'', None), (CHR ''m'', Some ''1''), (CHR ''o'', Some ''512'')] [''/mnt''] ?ws"
  proof -
    have "given (getopt hugetlb_spec ?ws) = [(CHR ''x'', None), (CHR ''m'', Some ''1''), (CHR ''o'', Some ''512'')]
        \<and> operands (getopt hugetlb_spec ?ws) = [''/mnt'']"
      by code_simp
    then show ?thesis
      using word_reader.written_iff [OF sound_reader [of hugetlb_spec]] by (simp add: sound_specs_def)
  qed
  from hugetlb_bounds [of 1 512 "''/mnt''" ?ws "\<lambda>_. True", unfolded show_it, OF this]
  show ?thesis by (simp add: BUF_SIZE_def)
qed

end
