(* ===== verification/Command_Docs.thy ===== *)
theory Command_Docs
  imports Command_Lines
begin

text \<open>
  The help texts of the four programs with long options, against the tables their option loops are driven by: the options
  that a help documents, with the arguments it names, and what the programs make of them. Then the documented grammar of
  \<open>page-types\<close>: the ranges and filters of the words its help describes.
\<close>

section \<open>The help texts\<close>

text \<open>The lines; the first of each is the synopsis. \<open>%s\<close> in the format of \<open>ttranshuge\<close> is the name of the program.\<close>

definition victim_usage :: "string list" where
  "victim_usage =
    [''victim [options]'',
     TAB # ''-a|--address vaddr=val, pid=val'' @ [TAB] @ ''Translate process virtual address into physical address'',
     TAB # ''-d|--data'' @ [TAB, TAB, TAB] @ ''Inject data error(DCU error) under user context'',
     TAB # ''-i|--instruction'' @ [TAB, TAB] @ ''Inject instruction error(IFU error) under user context'',
     TAB # ''-k|--kick 0/1'' @ [TAB, TAB, TAB] @ ''Kick off trigger. Auto(0), Manual(1, by default)'',
     TAB # ''-p|--pfa'' @ [TAB, TAB, TAB] @ ''help to test memory PFA(Predictive Failure Analysis) function'',
     TAB # ''-h|--help'' @ [TAB, TAB, TAB] @ ''Show this usage message'']"

definition thp_usage :: "string list" where
  "thp_usage =
    [''%s [-o offset] [-ea]'',
     '' Usage:'',
     TAB # ''-o|--offset offset(page unit)'' @ [TAB] @ ''Position of error injection from the first THP.'',
     TAB # ''-e|--early-kill'' @ [TAB, TAB, TAB] @ ''Set PR_MCE_KILL_EARLY(default NOT early-kill).'',
     TAB # ''-a|--avoid-touch'' @ [TAB, TAB] @ ''Avoid touching error page(page unit) and'',
     [TAB, TAB, TAB, TAB, TAB] @ ''only used when early-kill is not set.'',
     TAB # ''-h|--help'',
     [],
     '' Examples:'',
     TAB # ''1. Inject the 2nd page(4k) of THP and early killed.'',
     TAB # ''%s -o 1 -e'',
     [],
     TAB # ''2. Inject the 4th page(4k) of THP, late killed and untouched.'',
     TAB # ''%s --offset 3 --avoid-touch'',
     [],
     '' Note:'',
     TAB # ''Options'' @ [TAB, TAB, TAB, TAB] @ ''Default set'',
     TAB # ''early-kill'' @ [TAB, TAB, TAB] @ ''no'',
     TAB # ''offset'' @ [TAB, TAB, TAB, TAB] @ ''0(head page)'',
     TAB # ''avoid-touch'' @ [TAB, TAB, TAB] @ ''no'',
     []]"

definition hugetlb_usage :: "string list" where
  "hugetlb_usage =
    [''./thugetlb [-m memory] [-o offset] [-f file] [-xOeSAaFpch] hugetlbfs_directory'',
     ''            -m|--memory size(hugepage unit)    Size of hugetlbfs file'',
     ''            -o|--offset offset(page unit)      Position of error injection'',
     ''            -x|--inject                        Error injection switch'',
     ''            -O|--offline                       Soft offline switch'',
     ''            -e|--early-kill                    Set PR_MCE_KILL_EARLY'',
     ''            -S|--shm                           Use shmem with SHM_HUGETLB'',
     ''            -A|--anonymous                     Use MAP_ANONYMOUS'',
     ''            -a|--avoid-touch                   Avoid touching error page'',
     ''            -F|--fork'',
     ''            -p|--private'',
     ''            -c|--cow'',
     ''            -f|--filename string'',
     ''            -h|--help'',
     []]"

section \<open>The documented options\<close>

text \<open>
  A line documents an option when it is, behind blanks, \<open>-c|--name\<close>. An argument stands behind a single blank, or behind
  more in a column of its own, before the one of the description.
\<close>

definition is_blank :: "char \<Rightarrow> bool" where "is_blank c \<longleftrightarrow> c = CHR '' '' \<or> c = TAB"

fun has_gap :: "string \<Rightarrow> bool" where
  "has_gap (a # b # s) = (a = TAB \<or> is_blank a \<and> is_blank b \<or> has_gap (b # s))"
| "has_gap [a] = (a = TAB)"
| "has_gap [] = False"

definition names_argument :: "string \<Rightarrow> bool" where
  "names_argument s =
     ((case s of a # b # _ \<Rightarrow> a = CHR '' '' \<and> \<not> is_blank b | _ \<Rightarrow> False) \<or> has_gap (dropWhile is_blank s))"

definition documented_in :: "string \<Rightarrow> (char \<times> string \<times> bool) option" where
  "documented_in l =
     (case dropWhile is_blank l of
        d # c # bar # e # f # s \<Rightarrow>
          if [d, bar, e, f] = ''-|--''
          then Some (c, takeWhile (\<lambda>x. \<not> is_blank x) s, names_argument (dropWhile (\<lambda>x. \<not> is_blank x) s))
          else None
      | _ \<Rightarrow> None)"

definition documented :: "string list \<Rightarrow> (char \<times> string \<times> bool) list" where
  "documented ls = List.map_filter documented_in ls"

lemmas documented_eval = documented_def documented_in_def names_argument_def is_blank_def TAB_def

lemma documented_options_lists:
  "documented usage_lines =
    [(CHR ''r'', ''raw'', False), (CHR ''d'', ''describe'', True), (CHR ''a'', ''addr'', True), (CHR ''b'', ''bits'', True),
     (CHR ''p'', ''pid'', True), (CHR ''f'', ''file'', True), (CHR ''l'', ''list'', False), (CHR ''L'', ''list-each'', False),
     (CHR ''N'', ''no-summary'', False), (CHR ''X'', ''hwpoison'', False), (CHR ''x'', ''unpoison'', False),
     (CHR ''h'', ''help'', False)]"
  "documented victim_usage =
    [(CHR ''a'', ''address'', True), (CHR ''d'', ''data'', False), (CHR ''i'', ''instruction'', False),
     (CHR ''k'', ''kick'', True), (CHR ''p'', ''pfa'', False), (CHR ''h'', ''help'', False)]"
  "documented thp_usage =
    [(CHR ''o'', ''offset'', True), (CHR ''e'', ''early-kill'', False), (CHR ''a'', ''avoid-touch'', False),
     (CHR ''h'', ''help'', False)]"
  "documented hugetlb_usage =
    [(CHR ''m'', ''memory'', True), (CHR ''o'', ''offset'', True), (CHR ''x'', ''inject'', False),
     (CHR ''O'', ''offline'', False), (CHR ''e'', ''early-kill'', False), (CHR ''S'', ''shm'', False),
     (CHR ''A'', ''anonymous'', False), (CHR ''a'', ''avoid-touch'', False), (CHR ''F'', ''fork'', False),
     (CHR ''p'', ''private'', False), (CHR ''c'', ''cow'', False), (CHR ''f'', ''filename'', True), (CHR ''h'', ''help'', False)]"
  by code_simp+

text \<open>The programs with long options, but for \<open>page-poisoning\<close>, and their helps.\<close>

definition documentation :: "(getopt_spec \<times> string list) list" where
  "documentation =
     [(page_types_spec, usage_lines), (victim_spec, victim_usage), (thp_spec, thp_usage), (hugetlb_spec, hugetlb_usage)]"

lemma documentation_cases:
  assumes "(sp, help) \<in> set documentation"
  obtains "sp = page_types_spec" "help = usage_lines" | "sp = victim_spec" "help = victim_usage"
    | "sp = thp_spec" "help = thp_usage" | "sp = hugetlb_spec" "help = hugetlb_usage"
  using assms by (auto simp: documentation_def)

lemma documentation_sound: "(sp, help) \<in> set documentation \<Longrightarrow> sp \<in> set sound_specs"
  by (auto simp: documentation_def sound_specs_def)

text \<open>What the option string and the table have of an option of the help.\<close>

definition as_documented :: "getopt_spec \<Rightarrow> string \<Rightarrow> char \<times> string \<times> bool \<Rightarrow> bool" where
  "as_documented sp wrong = (\<lambda>(c, n, arg).
     short_kind (short_opts sp) c = Some arg \<and> CHR ''='' \<notin> set n \<and> n \<noteq> []
     \<and> long_lookup (the (long_opts sp)) n = (if n = wrong then No_option else Found arg c))"

lemma tables_documented:
  "list_all (as_documented page_types_spec []) (documented usage_lines)"
  "list_all (as_documented victim_spec []) (documented victim_usage)"
  "list_all (as_documented thp_spec []) (documented thp_usage)"
  "list_all (as_documented hugetlb_spec ''early-kill'') (documented hugetlb_usage)"
  unfolding documented_options_lists by code_simp+

lemma as_documentedI:
  assumes "(sp, help) \<in> set documentation" "(c, n, arg) \<in> set (documented help)"
  shows "as_documented sp (if help = hugetlb_usage then ''early-kill'' else []) (c, n, arg)"
proof -
  have apart: "usage_lines \<noteq> hugetlb_usage" "victim_usage \<noteq> hugetlb_usage" "thp_usage \<noteq> hugetlb_usage"
    by (simp_all add: usage_lines_def victim_usage_def thp_usage_def hugetlb_usage_def)
  from assms(1) show ?thesis
    using assms(2) tables_documented apart by (cases rule: documentation_cases) (auto simp: list_all_iff)
qed

lemma option_letters: "short_kind spec c \<noteq> None \<longleftrightarrow> c \<in> set (filter (\<lambda>x. x \<noteq> CHR '':'' \<and> x \<noteq> CHR '';'') spec)"
  using strchr_None_iff [of spec c] by (auto simp: short_kind_def)

lemma letters_documented:
  assumes "(sp, help) \<in> set documentation"
  shows "fst ` set (documented help) = {c. short_kind (short_opts sp) c \<noteq> None}"
  unfolding option_letters
  using assms by (cases rule: documentation_cases) (auto simp: documented_options_lists spec_defs)

lemma read_short_option:
  assumes "short_kind (short_opts sp) c = Some arg" "c \<noteq> CHR ''-''"
  shows "getopt sp ([CHR ''-'', c] # (if arg then [v] else []) @ ws)
    = behind [(c, if arg then Some v else None)] ([CHR ''-'', c] # (if arg then [v] else [])) (getopt sp ws)"
  using assms by (cases "long_opts sp") (auto simp: option_word_def is_operand_def hdc_def)

lemma read_long_word:
  assumes "long_opts sp = Some ts" "s \<noteq> []" "long_word ts s = ([opt], Complete)"
  shows "getopt sp ((''--'' @ s) # ws) = behind [opt] [''--'' @ s] (getopt sp ws)"
  using assms by (simp add: option_word_def is_operand_def hdc_def)

lemma read_long_option:
  assumes "long_opts sp = Some ts" "CHR ''='' \<notin> set n" "n \<noteq> []" "long_lookup ts n = (if bad then No_option else Found arg c)"
  shows "getopt sp ((''--'' @ n @ (if arg then CHR ''='' # v else [])) # ws)
    = behind [if bad then bad_option else (c, if arg then Some v else None)]
        [''--'' @ n @ (if arg then CHR ''='' # v else [])] (getopt sp ws)"
proof -
  have name: "takeWhile (\<lambda>c. c \<noteq> CHR ''='') n = n" "takeWhile (\<lambda>c. c \<noteq> CHR ''='') (n @ CHR ''='' # v) = n"
    using assms(2) by (induction n) auto
  have "long_word ts (n @ (if arg then CHR ''='' # v else []))
      = ([if bad then bad_option else (c, if arg then Some v else None)], Complete)"
    using assms(2,4) by (cases arg; cases bad) (simp_all add: long_word_def name strchr_append_notin strchr_notin)
  then show ?thesis by (intro read_long_word [OF assms(1)]) (simp add: assms(3))
qed

text \<open>
  C13. The help texts: with every option that \<open>page-types\<close>, \<open>victim\<close>, \<open>ttranshuge\<close> and \<open>thugetlb\<close> document, short and long
  words are read as this option, with the value that follows exactly when the help names an argument, and the words behind
  it as before; only the \<open>--early-kill\<close> of \<open>thugetlb\<close> is not in its table and ends the program with its help and
  status 1. Whatever the words, every option that the four programs see is documented, or an error.
\<close>

theorem documented_options_read:
  assumes "(sp, help) \<in> set documentation" "(c, n, arg) \<in> set (documented help)"
  shows "let opt = (c, if arg then Some v else None); short = [CHR ''-'', c] # (if arg then [v] else []);
      long = ''--'' @ n @ (if arg then CHR ''='' # v else []); wrong = (help = hugetlb_usage \<and> n = ''early-kill'')
    in getopt sp (short @ ws) = behind [opt] short (getopt sp ws)
     \<and> getopt sp (long # ws) = behind [if wrong then bad_option else opt] [long] (getopt sp ws)
     \<and> (wrong \<longrightarrow> hugetlb_argv ps (long # ws) there = Inl (Exit 1))
     \<and> fst ` set (given (getopt sp ws)) \<subseteq> insert (CHR ''?'') (fst ` set (documented help))"
proof -
  let ?wrong = "if help = hugetlb_usage then ''early-kill'' else []"
  from as_documentedI [OF assms] have ok: "short_kind (short_opts sp) c = Some arg" "CHR ''='' \<notin> set n" "n \<noteq> []"
    "long_lookup (the (long_opts sp)) n = (if n = ?wrong then No_option else Found arg c)"
    unfolding as_documented_def by auto
  have reader: "word_reader sp" by (rule sound_reader [OF documentation_sound [OF assms(1)]])
  have "c \<noteq> CHR ''-''" using word_reader.dash_free [OF reader] ok(1) by auto
  note short = read_short_option [OF ok(1) this, of v ws]
  have ts: "long_opts sp = Some (the (long_opts sp))"
    using assms(1) by (cases rule: documentation_cases) (simp_all add: spec_defs)
  note long = read_long_option [OF ts ok(2-4), of v ws]
  have w: "n = ?wrong \<longleftrightarrow> help = hugetlb_usage \<and> n = ''early-kill''" using ok(3) by auto
  have seen: "fst ` set (given (getopt sp ws)) \<subseteq> insert (CHR ''?'') (fst ` set (documented help))"
  proof
    fix x assume "x \<in> fst ` set (given (getopt sp ws))"
    then obtain y where y: "y \<in> set (given (getopt sp ws))" "x = fst y" by blast
    from word_reader.read_kinds [OF reader y(1)] y(2) letters_documented [OF assms(1)]
    show "x \<in> insert (CHR ''?'') (fst ` set (documented help))" by (auto simp: valid_option_def)
  qed
  have ends: "hugetlb_argv ps ((''--'' @ n @ (if arg then CHR ''='' # v else [])) # ws) there = Inl (Exit 1)"
    if "help = hugetlb_usage" "n = ''early-kill''"
  proof -
    have "sp = hugetlb_spec" using assms(1) that(1)
      by (cases rule: documentation_cases) (simp_all add: usage_lines_def victim_usage_def thp_usage_def hugetlb_usage_def)
    with long that show ?thesis by (simp add: hugetlb_argv_def hugetlb_setup_def loop_options_def Let_def rbind_def)
  qed
  show ?thesis unfolding Let_def using short long seen ends unfolding w by simp
qed

theorem documented_options_read_witness:
  "given (getopt hugetlb_spec [''--offset=3'']) = [(CHR ''o'', Some ''3'')]
   \<and> hugetlb_argv 4096 [''--early-kill'', ''/mnt''] (\<lambda>_. True) = Inl (Exit 1)"
proof -
  have doc: "(hugetlb_spec, hugetlb_usage) \<in> set documentation" by (simp add: documentation_def)
  have "(CHR ''o'', ''offset'', True) \<in> set (documented hugetlb_usage)" "(CHR ''e'', ''early-kill'', False) \<in> set (documented hugetlb_usage)"
    by (simp_all add: documented_options_lists)
  from documented_options_read [OF doc this(1), of "''3''" "[]" 4096 "\<lambda>_. True"]
    documented_options_read [OF doc this(2), of "[]" "[''/mnt'']" 4096 "\<lambda>_. True"]
  show ?thesis by (simp add: Let_def)
qed

section \<open>The documented words of page-types\<close>

text \<open>The kinds of \<open>addr-spec\<close> and \<open>bits-spec\<close> of the help, how they are written, and what they say.\<close>

datatype addr_spec = One_page nat | Pages_from nat nat | Pages_between nat nat | From_page nat | Until_page nat

fun addr_text :: "addr_spec \<Rightarrow> string" where
  "addr_text (One_page n) = show_dec n"
| "addr_text (Pages_from n m) = show_dec n @ ''+'' @ show_dec m"
| "addr_text (Pages_between n m) = show_dec n @ '','' @ show_dec m"
| "addr_text (From_page n) = show_dec n @ '',''"
| "addr_text (Until_page m) = '','' @ show_dec m"

text \<open>The first page and how many.\<close>

fun addr_pages :: "addr_spec \<Rightarrow> u64 \<times> u64" where
  "addr_pages (One_page n) = (of_nat n, 1)"
| "addr_pages (Pages_from n m) = (of_nat n, of_nat m)"
| "addr_pages (Pages_between n m) = (of_nat n, of_nat (m - n))"
| "addr_pages (From_page n) = (of_nat n, ULONG_MAX - of_nat n)"
| "addr_pages (Until_page m) = (0, of_nat m)"

fun addr_fits :: "addr_spec \<Rightarrow> bool" where
  "addr_fits (One_page n) = (n < 2 ^ 63)"
| "addr_fits (Pages_from n m) = (n < 2 ^ 63 \<and> m < 2 ^ 63)"
| "addr_fits (Pages_between n m) = (n \<le> m \<and> m < 2 ^ 63)"
| "addr_fits (From_page n) = (n < 2 ^ 63)"
| "addr_fits (Until_page m) = (m < 2 ^ 63)"

type_synonym named_flags = "(nat \<times> string) list"

datatype bits_spec = Any_of named_flags | Among named_flags named_flags | With_without named_flags named_flags | Exactly named_flags

fun bits_text :: "bits_spec \<Rightarrow> string" where
  "bits_text (Any_of fs) = flag_words (plain_words fs)"
| "bits_text (Among fs gs) = flag_words (plain_words fs) @ ''='' @ flag_words (plain_words gs)"
| "bits_text (With_without fs gs) = flag_words (plain_words fs @ negated_words gs)"
| "bits_text (Exactly fs) = ''='' @ flag_words (plain_words fs)"

text \<open>The mask and the value: all bits as the value stand for any of the mask (see \<open>bit_mask_ok\<close>).\<close>

fun bits_filter :: "bits_spec \<Rightarrow> u64 \<times> u64" where
  "bits_filter (Any_of fs) = (flags_of fs, KPF_ALL_BITS)"
| "bits_filter (Among fs gs) = (flags_of fs, flags_of gs)"
| "bits_filter (With_without fs gs) = (flags_of fs OR flags_of gs, flags_of fs)"
| "bits_filter (Exactly fs) = (KPF_ALL_BITS, flags_of fs)"

definition flag_list :: "named_flags \<Rightarrow> bool" where
  "flag_list fs \<longleftrightarrow> fs \<noteq> [] \<and> set fs \<subseteq> set page_flag_table"

fun bits_fits :: "bits_spec \<Rightarrow> bool" where
  "bits_fits (Any_of fs) = flag_list fs"
| "bits_fits (Among fs gs) = (flag_list fs \<and> flag_list gs)"
| "bits_fits (With_without fs gs) = (flag_list fs \<and> flag_list gs)"
| "bits_fits (Exactly fs) = flag_list fs"

lemma addr_spec_read:
  assumes "addr_fits s" "length (addr_ranges opts) < MAX_ADDR_RANGES"
  shows "parse_addr_range (addr_text s) opts = Inr (opts\<lparr>addr_ranges := addr_ranges opts @ [addr_pages s]\<rparr>)"
proof (cases s)
  case (One_page n) then show ?thesis using assms parse_addr_range_forms [of n 0 opts] by simp
next
  case (Pages_from n m) then show ?thesis using assms parse_addr_range_forms [of n m opts] by simp
next
  case (Pages_between n m)
  then have "int n < 2 ^ 63" "int m < 2 ^ 63" "\<not> m < n" using assms(1) by simp_all
  with Pages_between show ?thesis using assms(2) parse_addr_range_forms [of n m opts] by simp
next
  case (From_page n) then show ?thesis using assms parse_addr_range_forms [of n 0 opts] by simp
next
  case (Until_page m) then show ?thesis using assms parse_addr_range_forms [of 0 m opts] by simp
qed

lemma bits_spec_read:
  assumes "bits_fits s" "length (bit_filters opts) < MAX_BIT_FILTERS"
  shows "parse_bits_mask (bits_text s) opts = Inr (opts\<lparr>bit_filters := bit_filters opts @ [bits_filter s]\<rparr>)"
proof (cases s)
  case (Any_of fs)
  then show ?thesis using assms parse_bits_mask_forms [of fs fs opts] by (simp add: flag_list_def)
next
  case (Among fs gs)
  then show ?thesis using assms parse_bits_mask_forms [of fs gs opts] by (simp add: flag_list_def)
next
  case (With_without fs gs)
  then show ?thesis using assms parse_bits_mask_forms [of fs gs opts] by (simp add: flag_list_def)
next
  case (Exactly fs)
  then show ?thesis using assms parse_bits_mask_forms [of fs fs opts] by (simp add: flag_list_def)
qed

text \<open>The options of the help but for \<open>-d\<close>, \<open>-p\<close> and \<open>-h\<close>, with the arguments it describes.\<close>

datatype page_option = Raw | is_Of_file: Of_file string | At_pages addr_spec | With_bits bits_spec
  | In_ranges | One_by_one | No_summary | Poison | Unpoison

fun page_option_seen :: "page_option \<Rightarrow> seen_option" where
  "page_option_seen Raw = (CHR ''r'', None)"
| "page_option_seen (Of_file f) = (CHR ''f'', Some f)"
| "page_option_seen (At_pages s) = (CHR ''a'', Some (addr_text s))"
| "page_option_seen (With_bits s) = (CHR ''b'', Some (bits_text s))"
| "page_option_seen In_ranges = (CHR ''l'', None)"
| "page_option_seen One_by_one = (CHR ''L'', None)"
| "page_option_seen No_summary = (CHR ''N'', None)"
| "page_option_seen Poison = (CHR ''X'', None)"
| "page_option_seen Unpoison = (CHR ''x'', None)"

fun ranges_of :: "page_option list \<Rightarrow> (u64 \<times> u64) list" where
  "ranges_of [] = []"
| "ranges_of (p # ps) = (case p of At_pages s \<Rightarrow> addr_pages s # ranges_of ps | _ \<Rightarrow> ranges_of ps)"

fun filters_of :: "page_option list \<Rightarrow> (u64 \<times> u64) list" where
  "filters_of [] = []"
| "filters_of (p # ps) = (case p of With_bits s \<Rightarrow> bits_filter s # filters_of ps | _ \<Rightarrow> filters_of ps)"

text \<open>Of several \<open>-l\<close>, \<open>-L\<close> and of several \<open>-f\<close> the last one counts.\<close>

definition list_style :: "page_option list \<Rightarrow> nat" where
  "list_style ps = (case filter (\<lambda>p. p = In_ranges \<or> p = One_by_one) (rev ps) of
     [] \<Rightarrow> 0 | p # _ \<Rightarrow> if p = In_ranges then 1 else 2)"

definition last_file :: "page_option list \<Rightarrow> string option" where
  "last_file ps = (case filter is_Of_file (rev ps) of Of_file f # _ \<Rightarrow> Some f | _ \<Rightarrow> None)"

definition asked_for :: "u64 \<Rightarrow> page_option list \<Rightarrow> opts" where
  "asked_for pgsz ps = \<lparr>opt_raw = (Raw \<in> set ps), opt_list = list_style ps, opt_no_summary = (No_summary \<in> set ps),
     opt_pid = 0, opt_file = last_file ps, addr_ranges = ranges_of ps, vmas = [], bit_filters = filters_of ps,
     page_size = pgsz, opt_hwpoison = (Poison \<in> set ps), opt_unpoison = (Unpoison \<in> set ps)\<rparr>"

text \<open>The files of debugfs that are opened for \<open>-X\<close> and \<open>-x\<close>.\<close>

definition asked_files :: "page_option list \<Rightarrow> hw_fds" where
  "asked_files ps =
     \<lparr>debugfs_path = (if Poison \<in> set ps \<or> Unpoison \<in> set ps then Some ''/sys/kernel/debug'' else None),
      inject_fd = (if Poison \<in> set ps then Some ''/sys/kernel/debug/hwpoison/corrupt-pfn'' else None),
      forget_fd = (if Unpoison \<in> set ps then Some ''/sys/kernel/debug/hwpoison/unpoison-pfn'' else None)\<rparr>"

definition debugfs_there :: "proc_env \<Rightarrow> bool" where
  "debugfs_there env \<longleftrightarrow> statfs_type (mounts env) ''/sys/kernel/debug'' = Some DEBUGFS_MAGIC
     \<and> openable env ''/sys/kernel/debug/hwpoison/corrupt-pfn'' \<and> openable env ''/sys/kernel/debug/hwpoison/unpoison-pfn''"

lemma handle_options_snoc:
  "handle_options env (xs @ [(c, a)]) opts fds =
     rbind (handle_options env xs opts fds) (\<lambda>p. case p of
         Continue opts fds \<Rightarrow> handle_option env c a opts fds | Leave s code \<Rightarrow> Inr (Leave s code))"
proof (induction xs arbitrary: opts fds)
  case Nil
  show ?case by (auto simp: rbind_def split: sum.split progress.split)
next
  case (Cons x xs)
  then show ?case by (cases x) (auto simp: rbind_def split: sum.split progress.split)
qed

lemma asked_snoc [simp]:
  "ranges_of (ps @ [p]) = ranges_of ps @ (case p of At_pages s \<Rightarrow> [addr_pages s] | _ \<Rightarrow> [])"
  "filters_of (ps @ [p]) = filters_of ps @ (case p of With_bits s \<Rightarrow> [bits_filter s] | _ \<Rightarrow> [])"
  "list_style (ps @ [p]) = (if p = In_ranges then 1 else if p = One_by_one then 2 else list_style ps)"
  "last_file (ps @ [p]) = (case p of Of_file f \<Rightarrow> Some f | _ \<Rightarrow> last_file ps)"
proof -
  show "ranges_of (ps @ [p]) = ranges_of ps @ (case p of At_pages s \<Rightarrow> [addr_pages s] | _ \<Rightarrow> [])"
    by (induction ps) (auto split: page_option.split)
  show "filters_of (ps @ [p]) = filters_of ps @ (case p of With_bits s \<Rightarrow> [bits_filter s] | _ \<Rightarrow> [])"
    by (induction ps) (auto split: page_option.split)
qed (auto simp: list_style_def last_file_def split: page_option.split)

text \<open>With debugfs there the descriptors are opened once, at the first \<open>-X\<close> or \<open>-x\<close> that needs them.\<close>

lemma prepare_asked:
  assumes "debugfs_there env" "opt_hwpoison opts = (Poison \<in> set ps)" "opt_unpoison opts = (Unpoison \<in> set ps)"
    "p = Poison \<or> p = Unpoison"
  shows "prepare_hwpoison_fd (mounts env) (openable env)
      (if p = Poison then opts\<lparr>opt_hwpoison := True\<rparr> else opts\<lparr>opt_unpoison := True\<rparr>) (asked_files ps)
    = Inr (asked_files (ps @ [p]))"
proof -
  have "debugfs_mount (mounts env) None x = Inr (Some ''/sys/kernel/debug'')" if "x = None \<or> x = Some ''/sys/kernel/debug''" for x
    using assms(1) that
    by (auto simp: debugfs_mount_def debugfs_find_mountpoint_def find_mountpoint_def debugfs_known_mountpoints_def
        debugfs_there_def valid_mountpoint_def rbind_def)
  then show ?thesis
    using assms by (auto simp: prepare_hwpoison_fd_def asked_files_def checked_open_def debugfs_there_def rbind_def Let_def)
qed

lemma options_asked:
  assumes "list_all (\<lambda>p. case p of At_pages s \<Rightarrow> addr_fits s | With_bits s \<Rightarrow> bits_fits s | _ \<Rightarrow> True) ps"
    "length (ranges_of ps) \<le> MAX_ADDR_RANGES" "length (filters_of ps) \<le> MAX_BIT_FILTERS"
    "Poison \<in> set ps \<or> Unpoison \<in> set ps \<longrightarrow> debugfs_there env"
  shows "handle_options env (map (\<lambda>(c, a). (c, case a of Some s \<Rightarrow> s | None \<Rightarrow> [])) (map page_option_seen ps)) (no_opts pgsz) no_fds
    = Inr (Continue (asked_for pgsz ps) (asked_files ps))"
  using assms
proof (induction ps rule: rev_induct)
  case Nil
  show ?case by (simp add: asked_for_def asked_files_def no_opts_def no_fds_def list_style_def last_file_def)
next
  case (snoc p ps)
  then have IH: "handle_options env (map (\<lambda>(c, a). (c, case a of Some s \<Rightarrow> s | None \<Rightarrow> [])) (map page_option_seen ps)) (no_opts pgsz) no_fds
    = Inr (Continue (asked_for pgsz ps) (asked_files ps))"
    by (auto split: page_option.splits)
  have fields: "opt_hwpoison (asked_for pgsz ps) = (Poison \<in> set ps)" "opt_unpoison (asked_for pgsz ps) = (Unpoison \<in> set ps)"
    "addr_ranges (asked_for pgsz ps) = ranges_of ps" "bit_filters (asked_for pgsz ps) = filters_of ps"
    by (simp_all add: asked_for_def)
  obtain c a where ca: "page_option_seen p = (c, a)" by (cases "page_option_seen p")
  have "handle_option env c (case a of Some s \<Rightarrow> s | None \<Rightarrow> []) (asked_for pgsz ps) (asked_files ps)
      = Inr (Continue (asked_for pgsz (ps @ [p])) (asked_files (ps @ [p])))"
  proof (cases p)
    case (At_pages s)
    then show ?thesis using ca snoc.prems addr_spec_read [of s "asked_for pgsz ps"] fields
      by (auto simp: handle_option_def rbind_def asked_for_def asked_files_def)
  next
    case (With_bits s)
    then show ?thesis using ca snoc.prems bits_spec_read [of s "asked_for pgsz ps"] fields
      by (auto simp: handle_option_def rbind_def asked_for_def asked_files_def)
  next
    case Poison
    then show ?thesis using ca snoc.prems(4) prepare_asked [OF _ fields(1,2), of env p]
      by (auto simp: handle_option_def rbind_def asked_for_def)
  next
    case Unpoison
    then show ?thesis using ca snoc.prems(4) prepare_asked [OF _ fields(1,2), of env p]
      by (auto simp: handle_option_def rbind_def asked_for_def)
  qed (use ca in \<open>auto simp: handle_option_def parse_file_def asked_for_def asked_files_def\<close>)
  with IH ca show ?case by (simp add: handle_options_snoc rbind_def)
qed



end
