(* ===== verification/Spec2Isabelle.thy ===== *)
theory Spec2Isabelle
  imports Page_Main Pan_Main Pan_Trace Tinjpage Shm_Barrier Victim Thp_Test Hugetlb_Fork Soft_Offline Kill_Tests
    Erst K_Tree_User Sniper Shared_Page Tinj_Verdict Zoo_Test Command_Docs
begin

text \<open>
  The C programs of mce-test, a test suite for the handling of memory errors by Linux. File names below are relative
  to \<open>src/\<close> of the repository.

  \<^bold>\<open>The parts of the program and how they work together.\<close> \<open>tools/page-types\<close> lists, counts, filters and poisons the
  page frames of the machine. \<open>tools/ltp-pan\<close> runs the test cases of a group: it starts each command in a process group
  of its own, records it in a ``zoo'' file, reaps it and writes a report. Among what it runs are the programs that
  poison their own pages: \<open>cases/function/hwpoison/tinjpage.c\<close> in one process,
  \<open>cases/stress/hwpoison/tools/page-poisoning/page-poisoning.c\<close> in many processes that share a table in shared memory,
  both with the same scheme of handlers and verdicts; \<open>hugepage.h\<close> is what they and the huge page tests use to get and
  to check huge pages. Beside these two stand shorter programs of \<open>cases/function/hwpoison\<close> around one injection each:
  \<open>ttranshuge.c\<close>, \<open>thugetlb.c\<close>, \<open>tsoftinj.c\<close>, \<open>tsimpleinj.c\<close>, \<open>tprctl.c\<close>. \<open>tools/victim\<close> gives the shell drivers a process whose page can be hit by a hardware error.

  \<^bold>\<open>Theories, sources and correspondence.\<close>
  \<^item> \<open>Prelude\<close>: words of the LP64 target, the ways a C program stops (\<open>stop\<close>), the result type \<open>stop + 'a\<close> with \<open>rbind\<close>
    and \<open>foldE\<close>, and the C library on strings (\<open>strtoll\<close>, \<open>strchr\<close>, \<open>strstr\<close>, the \<open>printf\<close> conversions), with
    their read-back lemmas.
  \<^item> \<open>Page_Flags\<close>, \<open>Page_Options\<close>, \<open>Page_Hash\<close>, \<open>Page_Listing\<close>, \<open>Page_Walk\<close>, \<open>Page_Main\<close>: \<open>page-types.c\<close> with
    \<open>kernel-page-flags.h\<close> and \<open>debugfs.h\<close>, in the order of the file. The static tables of C are the fields of records
    (\<open>page_table\<close>, the run of \<open>show_page_range\<close>); what is read from \<open>/proc\<close> comes from functions in environment
    records. \<open>hash_slot\<close> is the open-addressing search, \<open>show_page_range\<close> the accumulator with its static variables,
    \<open>walk_pfn\<close>, \<open>walk_vma\<close>, \<open>walk_task\<close> the walkers with the batches of \<open>do_u64_read\<close>.
  \<^item> \<open>Splitstr\<close>, \<open>Zoolib\<close>, \<open>Zoo_Test\<close>: \<open>splitstr.c\<close> with its array of pointers and its unit test, \<open>zoolib.c\<close> with the zoo
    file as its text and an offset, and the unit test of that file; \<open>first_fit\<close> and \<open>find_pid\<close> are the searching loops.
  \<^item> \<open>Pan_Collection\<close>, \<open>Pan_Process\<close>, \<open>Pan_Sched\<close>, \<open>Pan_Main\<close>: \<open>ltp-pan.c\<close>. The record \<open>pan\<close> holds the slots, the orphans,
    the open zoo file and the signals in flight; \<open>os\<close> is the system (\<open>fork\<close>, \<open>wait\<close>, \<open>kill\<close>) as functions on a world.
    \<open>pan_round\<close> is a round of one of the three loops of \<open>main\<close> (\<open>Filling\<close>, \<open>Checking\<close>, \<open>Draining\<close>), with the signals that
    arrive inside it (\<open>arrivals\<close>, by the \<open>point\<close> of the code; \<open>pan_next\<close> is a round without any); \<open>pan_step\<close> adds the signals
    between two rounds, \<open>pan_main\<close> the options, the files and the exit status. A signal that interrupts a blocking call of
    \<open>run_child\<close> leads to variables without a value (\<open>Undef\<close>); in \<open>check_pids\<close> and elsewhere in \<open>run_child\<close> it is as good as one
    behind the function (\<open>signals_around\<close>). The handler and \<open>rec_signal = send_signal = 0\<close> are not interrupted themselves.
  \<^item> \<open>Pan_Invariant\<close>, \<open>Pan_Runs\<close>, \<open>Pan_Liveness\<close>, \<open>Pan_Trace\<close>: what these operations keep, what holds in every reachable
    state, that a run ends, and the signals it sends.
  \<^item> \<open>Poison_Base\<close>: actions on the globals of a program and a world; a program that exits is \<open>Inl\<close>. The kernel is a
    record of functions (\<open>kern\<close>); an access to memory may deliver a \<open>SIGBUS\<close>, whose handler jumps out of it.
  \<^item> \<open>Hugepage\<close>, \<open>Tinjpage\<close>, \<open>Page_Poisoning\<close>: \<open>hugepage.h\<close>, \<open>tinjpage.c\<close>, \<open>page-poisoning.c\<close>, one definition per function.
    Functions that both programs have carry the prefix \<open>pp_\<close> for \<open>page-poisoning.c\<close>.
  \<^item> \<open>Sniper\<close>, \<open>Shared_Page\<close>: the rest of \<open>tinjpage.c\<close>, the two threads of \<open>--sniper\<close> and the two processes of
    \<open>do_shared\<close>, each with any order of their steps; a signal or the end of a sleep is a step too (\<open>sh_event\<close>).
    \<open>all_cases\<close> are the cases of the program with its shared ones.
  \<^item> \<open>Tinj_Verdict\<close>: the laws of a kernel that does what it promises to \<open>tinjpage\<close> (\<open>kernel_law\<close>, over a view of its pages and
    files), rules for the actions of the program on such a kernel (\<open>ends\<close>), and its cases in the three rounds of \<open>main\<close>.
  \<^item> \<open>Shm_Barrier\<close>: \<open>shm_test\<close> of \<open>page-poisoning.c\<close> as a transition system: a step of a process is one \<open>semop\<close> or the
    code between two of them, and any process may move.
  \<^item> \<open>Victim\<close>: \<open>victim.c\<close>.
  \<^item> \<open>Poison_Memory\<close>: programs that leave \<open>SIGBUS\<close> at its default, which kills them; what a kernel promises of memory,
    poison and the kill policy (\<open>memory_law\<close>), and a small kernel that keeps it.
  \<^item> \<open>Thp_Test\<close>: \<open>ttranshuge.c\<close>, one definition per function, the child and the parent of \<open>main\<close> apart.
  \<^item> \<open>Hugetlb_Test\<close>, \<open>Hugetlb_Fork\<close>: \<open>thugetlb.c\<close> and \<open>thugetlb_overcommit.c\<close>; the pieces of \<open>main\<close>, put together to
    the program without \<open>-F\<close>, and to two processes with a semaphore and any order of their steps with \<open>-F\<close>.
  \<^item> \<open>Soft_Offline\<close>, \<open>Kill_Tests\<close>: \<open>tsoftinj.c\<close> and \<open>tsoft.c\<close>; \<open>tsimpleinj.c\<close>, \<open>tprctl.c\<close> and \<open>tkillpoison.c\<close>.
  \<^item> \<open>Cper\<close>, \<open>Erst\<close>: \<open>uuid.h\<close> and \<open>cper.h\<close>, each packed structure as a record with its bytes and the way back;
    \<open>erst-inject.c\<close> on the device \<open>erst_dev\<close>.
  \<^item> \<open>Dir_Tree\<close>, \<open>K_Tree\<close>, \<open>K_Tree_User\<close>: the calls on files as functions on a world with the directory tree and the working
    directory that can be seen of it (\<open>tree_law\<close>, on names as POSIX has them), and with the files that are linked written down
    (\<open>watched\<close>); \<open>k-tree-gen.c\<close>, \<open>k-tree-trav.c\<close>, \<open>busy.c\<close>, as root and as anybody else.
  \<^item> \<open>Getopt\<close>, \<open>Command_Lines\<close>, \<open>Command_Docs\<close>: the scanner of command lines of the C library, with clusters, long names, their
    abbreviations and the permutation of \<open>argv\<close>, and the relation \<open>written\<close> between options and the words they can be
    written as; the option tables of the seven programs that use it, and these programs on their words (\<open>page_types_argv\<close>,
    \<open>hugetlb_argv\<close> and so on); the help texts of four of them, the options they document, and the documented words of
    \<open>page-types\<close>. Everywhere else a program is given the options that the scanner found.

  \<^bold>\<open>Interfaces.\<close> \<open>slot_search\<close> (a search that finds the slot of a key or a free one) is interpreted as \<open>hash\<close> by
  \<open>hash_slot\<close>; \<open>pid_registry\<close> (enter and leave of a pid, as a multiset) as \<open>zoo_registry\<close> by the zoo file, and the
  scheduler rests on its facts only; \<open>ranked_processes\<close> (each step of a process lowers its rank and leaves the others
  where they are; theory \<open>Schedules\<close>) as \<open>shm\<close> by the steps of \<open>shm_test\<close>, as \<open>fork_run\<close> by those of
  \<open>thugetlb -F\<close> and as \<open>shared\<close> by those of \<open>do_shared\<close>; \<open>packed\<close> (a structure of a fixed number of bytes that is read back from memory) by the seven structures
  of \<open>cper.h\<close>, as \<open>rh\<close> to \<open>me\<close>; \<open>word_reader\<close> (a word is read as the options it spells, and no
  lookup leaves the table) by the option strings of \<open>erst-inject\<close> and \<open>ltp-pan\<close>, and \<open>option_table\<close> (long names that fit
  the option string), which is a \<open>word_reader\<close>, by the tables of \<open>page-types\<close>, \<open>victim\<close>, \<open>ttranshuge\<close> and \<open>thugetlb\<close>;
  the table of \<open>page-poisoning\<close> is none (\<open>pp_table_unfit\<close>).

  \<^bold>\<open>What the lemmas show.\<close> For \<open>page-types\<close>: the printed ranges are the pages that were added, neither lost nor doubled;
  the counters are the number of pages of each flag word, until the table is full; names and numbers given on the
  command line are read back as they are printed; the walkers visit exactly the frames and areas asked for; only pages
  that pass the filters are poisoned. For \<open>ltp-pan\<close>: in every reachable state the busy slots are the active tests, the
  children and the entries of the zoo file, wherever signals come; a run that is over has left nothing behind; without signals
  it ends.
  For the poisoning tests: a case succeeds exactly when the kernel does what it promises; the shared memory test keeps
  mutual exclusion, separates its sections by the barrier (the places of the code are a \<open>linorder\<close>, and no process goes
  back), does not deadlock, creates and poisons once, and ends: with every process at its end when none of them died, and
  otherwise in the standstill that the theorem describes. On a
  kernel that keeps \<open>memory_law\<close> the huge page tests come to the verdict their options ask for; the child of
  \<open>thugetlb -F\<close> has written its pages before the injection and ends before the cleaning, and both end.
  On a kernel that keeps \<open>kernel_law\<close>, \<open>tinjpage\<close> ends with SUCCESS, but counts three failures when there are no huge
  pages. In \<open>do_shared\<close> with early killing the child poisons the page only when the parent is ready for the signal; without it,
  and between the threads of \<open>--sniper\<close>, the theorems say which orders of the steps go wrong.
  \<open>erst-inject\<close> writes a record that is laid out as the structures of its headers (its signature is the reverse of the one a
  comment there asks for), and reads back the ids of what it wrote.
  \<open>k-tree-gen\<close> makes the whole tree and nothing else; \<open>k-tree-trav\<close> goes through all of it as root, and through its top
  only, again and again, as anybody else. The scanner finds exactly the options that a command line is a way to write; the tables
  agree with the help texts, but for one name of \<open>thugetlb\<close>; \<open>page-types\<close>, \<open>victim\<close> and \<open>thugetlb\<close> are followed from their words to their options and results. Where the code does not do what it means to, the theorem says what it does: the missing deaths in \<open>shm_test\<close>, the silent
  timeout of \<open>victim\<close>, the loop without slots in \<open>ltp-pan\<close>, the overrun of the message buffer, the long options of
  \<open>page-poisoning\<close>, the signals that \<open>ltp-pan\<close> takes for a failed start.

  \<^bold>\<open>Bounds and fuel.\<close> The searching loops of \<open>page-types\<close> are bounded by their tables. \<open>pan_run\<close> and \<open>pan_main\<close> count
  rounds; \<open>3 * n + 3\<close> are enough for \<open>n\<close> tests run in sequence without signals, as each test costs at most a start, a
  reaping and a look that finds nothing. A process of \<open>shm_test\<close> makes at most 10 steps, the two of \<open>thugetlb -F\<close> at most 11 together, those of \<open>do_shared\<close> at most 15 when no signal comes. \<open>erst-inject -p\<close> reads once more than there are
  records. The directory programs recurse on the level; their paths have to stay below \<open>PATH_LIMIT\<close>. The loops of
  \<open>victim\<close> are the
  100 polls of the trigger and a number of rounds that is given. Everything else is structural, or terminates by the
  length of the text that is left.

  \<^bold>\<open>Not modelled.\<close> What the system does is an argument: reading \<open>/proc\<close>, the file system, \<open>fork\<close> and \<open>wait\<close>, the
  reaction of the kernel to poison. Messages on standard error, the debug level of \<open>ltp-pan\<close> and the printing of most help
  texts are left out. \<open>getopt_long\<close> belongs to the standard library of C and is modelled as part of it. The delay of the sniper is any number of steps of the other thread. The contents of the files of \<open>k-tree-gen\<close> are not followed. The
  machine code of \<open>dummyfunc\<close> in \<open>victim\<close> and \<open>zoo_close\<close>, which is \<open>fclose\<close>, are left out. What is left of the C files beyond
  that is prototypes, constants nobody uses and comments. The shell drivers are not modelled.
\<close>

end
